(* ===== verification/VntPrelude.thy ===== *)
theory VntPrelude
  imports Main "HOL-Library.Monad_Syntax"
begin

text \<open>
  Shared vocabulary of the development.

  A C function that can read memory out of bounds, or whose recursion is cut by a
  depth argument of the model, returns an \<open>option\<close>: \<open>None\<close> is the fault and
  \<open>Some\<close> the value the C function returns. \<open>wp m Q\<close> ("the computation does not
  fault and its result satisfies \<open>Q\<close>") is the total-correctness judgement in which
  the safety lemmas of every component are stated; its rules push it through the
  \<open>do\<close> blocks of the model.
\<close>

section \<open>Total correctness for option computations\<close>

definition wp :: "'a option \<Rightarrow> ('a \<Rightarrow> bool) \<Rightarrow> bool" where
  "wp m Q = (case m of None \<Rightarrow> False | Some x \<Rightarrow> Q x)"

named_theorems wp_intro \<open>safety lemmas of the operations, in weakest-precondition form\<close>

lemma wp_Some [simp]: "wp (Some x) Q = Q x"
  by (simp add: wp_def)

lemma wp_None [simp]: "\<not> wp None Q"
  by (simp add: wp_def)

lemma wp_bind [simp]: "wp (m \<bind> f) Q = wp m (\<lambda>x. wp (f x) Q)"
  by (cases m) simp_all

lemma wp_iff: "wp m Q \<longleftrightarrow> (\<exists>x. m = Some x \<and> Q x)"
  by (cases m) simp_all

lemma wp_mono: "wp m P \<Longrightarrow> (\<And>x. m = Some x \<Longrightarrow> P x \<Longrightarrow> Q x) \<Longrightarrow> wp m Q"
  by (cases m) simp_all

lemma wp_mono2: "wp m (\<lambda>(a, b). P a b) \<Longrightarrow> (\<And>a b. m = Some (a, b) \<Longrightarrow> P a b \<Longrightarrow> Q (a, b)) \<Longrightarrow> wp m Q"
  by (cases m) auto

lemma wp_conj: "wp m P \<Longrightarrow> wp m Q \<Longrightarrow> wp m (\<lambda>x. P x \<and> Q x)"
  by (cases m) simp_all

lemma wp_D: "wp m Q \<Longrightarrow> m = Some x \<Longrightarrow> Q x"
  by simp

lemma wp_ex2: "wp m (\<lambda>(a, b). P a b) \<Longrightarrow> \<exists>a b. m = Some (a, b) \<and> P a b"
  by (cases m) auto

section \<open>Lists\<close>

lemma take_Suc_snoc: "n < length xs \<Longrightarrow> take (Suc n) xs = take n xs @ [xs ! n]"
  by (rule take_Suc_conv_app_nth)

lemma nth_in_drop: "i < length xs \<Longrightarrow> j \<le> i \<Longrightarrow> xs ! i \<in> set (drop j xs)"
  by (metis Cons_nth_drop_Suc drop_eq_Nil2 list.set_intros(1) nle_le not_less
      set_drop_subset_set_drop subsetD)

lemma list_all2_set_left: "list_all2 P xs ys \<Longrightarrow> x \<in> set xs \<Longrightarrow> \<exists>y \<in> set ys. P x y"
  by (induction rule: list_all2_induct) auto

lemma list_all2_set_right: "list_all2 P xs ys \<Longrightarrow> y \<in> set ys \<Longrightarrow> \<exists>x \<in> set xs. P x y"
  by (induction rule: list_all2_induct) auto

lemma takeWhile_eq_self: "(\<And>x. x \<in> set xs \<Longrightarrow> P x) \<Longrightarrow> takeWhile P xs = xs"
  by (simp add: takeWhile_eq_all_conv)

end
