(* ===== verification/CLib.thy ===== *)
theory CLib
  imports VntPrelude "HOL-Library.Char_ord"
begin

text \<open>
  What the sources use of the C language and library: bytes of a NUL-terminated string,
  the character classes of \<open>ctype.h\<close> in the "C" locale (the program never calls
  \<open>setlocale\<close>), and \<open>strtoll\<close>/\<open>strtoull\<close> on the digit strings the lexer produces.

  A \<open>const char *\<close> is a \<open>string\<close> without its terminator together with an index:
  index \<open>length s\<close> is the terminating NUL, and a read beyond it is a fault.
\<close>

section \<open>Bytes of a C string\<close>

abbreviation NUL :: char where "NUL \<equiv> CHR 0x00"
abbreviation LF :: char where "LF \<equiv> CHR 0x0A"
abbreviation CR :: char where "CR \<equiv> CHR 0x0D"
abbreviation TAB :: char where "TAB \<equiv> CHR 0x09"
abbreviation BACKSLASH :: char where "BACKSLASH \<equiv> CHR 0x5C"
abbreviation QUOTE :: char where "QUOTE \<equiv> CHR 0x22"

text \<open>\<open>s[i]\<close> on a NUL-terminated buffer.\<close>

definition char_at :: "string \<Rightarrow> nat \<Rightarrow> char option" where
  "char_at s i = (if i < length s then Some (s ! i) else if i = length s then Some NUL else None)"

text \<open>\<open>memcpy\<close> of \<open>n\<close> bytes at offset \<open>i\<close>, none of them past the text.\<close>

definition slice :: "string \<Rightarrow> nat \<Rightarrow> nat \<Rightarrow> string option" where
  "slice s i n = (if i + n \<le> length s then Some (take n (drop i s)) else None)"

definition c_string :: "string \<Rightarrow> bool" where
  "c_string s \<longleftrightarrow> NUL \<notin> set s"

lemma char_at_less [simp]: "i < length s \<Longrightarrow> char_at s i = Some (s ! i)"
  by (simp add: char_at_def)

lemma char_at_end [simp]: "char_at s (length s) = Some NUL"
  by (simp add: char_at_def)

lemma char_at_Some_iff: "(\<exists>c. char_at s i = Some c) \<longleftrightarrow> i \<le> length s"
  by (auto simp: char_at_def)

lemma char_at_bound: "char_at s i = Some c \<Longrightarrow> i \<le> length s"
  by (auto simp: char_at_def split: if_splits)

lemma char_at_nonNUL: "char_at s i = Some c \<Longrightarrow> c \<noteq> NUL \<Longrightarrow> i < length s \<and> s ! i = c"
  by (auto simp: char_at_def split: if_splits)

lemma char_at_NUL: "c_string s \<Longrightarrow> char_at s i = Some NUL \<Longrightarrow> i = length s"
  by (auto simp: char_at_def c_string_def split: if_splits dest: nth_mem)

text \<open>\<open>strchr\<close> and \<open>strstr\<close>: the rest of the string from the first occurrence.\<close>

fun strchr :: "string \<Rightarrow> char \<Rightarrow> string option" where
  "strchr [] c = None"
| "strchr (x # s) c = (if x = c then Some (x # s) else strchr s c)"

fun strstr :: "string \<Rightarrow> string \<Rightarrow> string option" where
  "strstr [] t = (if t = [] then Some [] else None)"
| "strstr (x # s) t = (if take (length t) (x # s) = t then Some (x # s) else strstr s t)"

section \<open>Character classes\<close>

abbreviation byte :: "char \<Rightarrow> nat" where "byte c \<equiv> of_char c"

definition isspace :: "char \<Rightarrow> bool" where
  "isspace c \<longleftrightarrow> c = CHR '' '' \<or> (9 \<le> byte c \<and> byte c \<le> 13)"

definition isdigit :: "char \<Rightarrow> bool" where
  "isdigit c \<longleftrightarrow> 48 \<le> byte c \<and> byte c \<le> 57"

definition isupper :: "char \<Rightarrow> bool" where
  "isupper c \<longleftrightarrow> 65 \<le> byte c \<and> byte c \<le> 90"

definition islower :: "char \<Rightarrow> bool" where
  "islower c \<longleftrightarrow> 97 \<le> byte c \<and> byte c \<le> 122"

definition isalpha :: "char \<Rightarrow> bool" where
  "isalpha c \<longleftrightarrow> isupper c \<or> islower c"

definition isalnum :: "char \<Rightarrow> bool" where
  "isalnum c \<longleftrightarrow> isalpha c \<or> isdigit c"

definition isxdigit :: "char \<Rightarrow> bool" where
  "isxdigit c \<longleftrightarrow> isdigit c \<or> (65 \<le> byte c \<and> byte c \<le> 70) \<or> (97 \<le> byte c \<and> byte c \<le> 102)"

lemmas ctype_defs = isspace_def isdigit_def isupper_def islower_def isalpha_def
  isalnum_def isxdigit_def

lemma ctype_NUL [simp]:
  "\<not> isspace NUL" "\<not> isdigit NUL" "\<not> isalpha NUL" "\<not> isalnum NUL" "\<not> isxdigit NUL"
  by (simp_all add: ctype_defs)

lemma isdigit_not_isalpha: "isdigit c \<Longrightarrow> \<not> isalpha c"
  by (auto simp: ctype_defs)

lemma isdigit_isxdigit [simp]: "isdigit c \<Longrightarrow> isxdigit c"
  by (simp add: ctype_defs)

section \<open>strtoll and strtoull\<close>

definition INT64_MIN :: int where "INT64_MIN = - (2 ^ 63)"
definition INT64_MAX :: int where "INT64_MAX = 2 ^ 63 - 1"
definition UINT64_MAX :: int where "UINT64_MAX = 2 ^ 64 - 1"

definition int64 :: "int \<Rightarrow> bool" where
  "int64 z \<longleftrightarrow> INT64_MIN \<le> z \<and> z \<le> INT64_MAX"

text \<open>The value of a digit, or a number that is no digit in any base used here.\<close>

definition digit_value :: "char \<Rightarrow> nat" where
  "digit_value c =
     (if isdigit c then byte c - 48
      else if 65 \<le> byte c \<and> byte c \<le> 70 then byte c - 55
      else if 97 \<le> byte c \<and> byte c \<le> 102 then byte c - 87
      else 255)"

text \<open>
  The digits of the longest valid prefix, and the text from \<open>end\<close> on.
\<close>

fun strto_scan :: "nat \<Rightarrow> nat \<Rightarrow> string \<Rightarrow> nat \<times> string" where
  "strto_scan base acc [] = (acc, [])"
| "strto_scan base acc (c # cs) =
     (if digit_value c < base then strto_scan base (acc * base + digit_value c) cs
      else (acc, c # cs))"

text \<open>
  \<open>strtoull (s, &end, base)\<close> on a text that starts with a digit: an optional "0x" is
  skipped in base 16 when a hexadecimal digit follows it. The result is the value of
  the digits without a bound, and what is left at \<open>end\<close>.
\<close>

definition strto_digits :: "nat \<Rightarrow> string \<Rightarrow> nat \<times> string" where
  "strto_digits base s =
     (if base = 16 \<and> 2 < length s \<and> s ! 0 = CHR ''0'' \<and> (s ! 1 = CHR ''x'' \<or> s ! 1 = CHR ''X'')
         \<and> isxdigit (s ! 2)
      then strto_scan 16 0 (drop 2 s) else strto_scan base 0 s)"

text \<open>The base the parser passes: 16 after "0x" or "0X", otherwise 10.\<close>

definition literal_base :: "string \<Rightarrow> nat" where
  "literal_base s =
     (if 1 < length s \<and> s ! 0 = CHR ''0'' \<and> (s ! 1 = CHR ''x'' \<or> s ! 1 = CHR ''X'') then 16 else 10)"

section \<open>snprintf\<close>

text \<open>The conversion \<open>%d\<close> of a number that is not negative.\<close>

fun decimal :: "nat \<Rightarrow> string" where
  "decimal n = (if n < 10 then [char_of (48 + n)] else decimal (n div 10) @ [char_of (48 + n mod 10)])"

declare decimal.simps [simp del]

end
