(* ===== verification/Lexer.thy ===== *)
theory Lexer
  imports CLib
begin

text \<open>
  The lexer, \<open>src/lexer.c\<close> with \<open>include/vnt/lexer.h\<close>: the scanner state as a record,
  one definition per C function, and \<open>lexer_next\<close> with every branch of its switch. A
  \<open>const char *\<close> into the source is an index; every read goes through \<open>char_at\<close>, so a
  read past the terminating NUL is the fault \<open>None\<close>.
\<close>

section \<open>Data\<close>

datatype token_type =
    TOKEN_EOF
  | TOKEN_IDENTIFIER | TOKEN_STRING | TOKEN_INTEGER | TOKEN_FLOAT
  | TOKEN_LEFT_PAREN | TOKEN_RIGHT_PAREN | TOKEN_COMMA | TOKEN_COLON | TOKEN_DOT
  | TOKEN_AMPERSAND
  | TOKEN_LEFT_BRACE | TOKEN_RIGHT_BRACE | TOKEN_LEFT_BRACKET | TOKEN_RIGHT_BRACKET
  | TOKEN_EQUALS | TOKEN_PLUS_EQUALS | TOKEN_MINUS_EQUALS | TOKEN_STAR_EQUALS
  | TOKEN_SLASH_EQUALS | TOKEN_PERCENT_EQUALS
  | TOKEN_EQUAL_EQUAL | TOKEN_BANG | TOKEN_BANG_EQUAL
  | TOKEN_GREATER | TOKEN_LESS | TOKEN_GREATER_EQUAL | TOKEN_LESS_EQUAL
  | TOKEN_PLUS | TOKEN_MINUS | TOKEN_STAR | TOKEN_SLASH | TOKEN_PERCENT
  | TOKEN_AND_AND | TOKEN_OR_OR
  | TOKEN_UNKNOWN

text \<open>\<open>Token\<close>: \<open>tok_start\<close> is the pointer \<open>start\<close> as an index into the source.\<close>

record token =
  tok_type :: token_type
  tok_start :: nat
  tok_length :: nat
  tok_line :: nat
  tok_column :: nat

record lexer =
  source :: string
  current :: nat
  line :: nat
  column :: nat
  token_start_line :: nat
  token_start_column :: nat

section \<open>Operations\<close>

definition peek :: "lexer \<Rightarrow> char option" where
  "peek lx = char_at (source lx) (current lx)"

definition advance :: "lexer \<Rightarrow> (char \<times> lexer) option" where
  "advance lx = do {
     c \<leftarrow> char_at (source lx) (current lx);
     let lx = lx\<lparr>current := current lx + 1\<rparr>;
     Some (c, if c = LF then lx\<lparr>line := line lx + 1, column := 1\<rparr>
              else if c \<noteq> NUL then lx\<lparr>column := column lx + 1\<rparr>
              else lx)
   }"

lemma peek_bound: "peek lx = Some c \<Longrightarrow> current lx \<le> length (source lx)"
  by (simp add: peek_def char_at_bound)

lemma advance_Some:
  "advance lx = Some (c, lx') \<Longrightarrow>
     peek lx = Some c \<and> current lx' = Suc (current lx) \<and> source lx' = source lx
     \<and> current lx \<le> length (source lx)"
  by (auto simp: advance_def peek_def Let_def dest: char_at_bound
      split: if_splits Option.bind_splits)

lemma advance_meta:
  "advance lx = Some (c, lx') \<Longrightarrow>
     token_start_line lx' = token_start_line lx \<and> token_start_column lx' = token_start_column lx"
  by (auto simp: advance_def Let_def split: if_splits Option.bind_splits)

text \<open>
  The loops \<open>while (P(peek(lexer))) advance(lexer);\<close> of \<open>identifier\<close>, \<open>number\<close> and the
  comment branch of \<open>skip_whitespace\<close>.
\<close>

function advance_while :: "(char \<Rightarrow> bool) \<Rightarrow> lexer \<Rightarrow> lexer option" where
  "advance_while P lx = do {
     c \<leftarrow> peek lx;
     if P c then do {
       (_, lx') \<leftarrow> advance lx;
       advance_while P lx'
     } else Some lx
   }"
  by pat_completeness auto
termination
  by (relation "measure (\<lambda>(P, lx). Suc (length (source lx)) - current lx)")
    (auto dest!: advance_Some)

declare advance_while.simps [simp del]

lemma advance_while_cases:
  "advance_while P lx = Some lx' \<Longrightarrow>
     (\<exists>c. peek lx = Some c \<and> \<not> P c \<and> lx' = lx)
     \<or> (\<exists>c lx''. peek lx = Some c \<and> P c \<and> advance lx = Some (c, lx'') \<and> advance_while P lx'' = Some lx')"
  by (subst (asm) advance_while.simps)
    (auto split: if_splits Option.bind_splits dest: advance_Some)

lemma advance_while_frame:
  "advance_while P lx = Some lx' \<Longrightarrow>
     source lx' = source lx \<and> current lx \<le> current lx'
     \<and> token_start_line lx' = token_start_line lx \<and> token_start_column lx' = token_start_column lx"
proof (induction P lx rule: advance_while.induct)
  case (1 P lx)
  from advance_while_cases [OF "1.prems"] show ?case
  proof (elim disjE exE conjE)
    fix c lx'' assume h: "peek lx = Some c" "P c" "advance lx = Some (c, lx'')" "advance_while P lx'' = Some lx'"
    have "source lx' = source lx'' \<and> current lx'' \<le> current lx'
        \<and> token_start_line lx' = token_start_line lx'' \<and> token_start_column lx' = token_start_column lx''"
      by (rule "1.IH" [OF h(1,2,3)]) (use h(4) in simp_all)
    with h(3) show ?thesis by (auto dest: advance_Some advance_meta)
  qed simp
qed

lemma advance_while_progress:
  "advance_while P lx = Some lx' \<Longrightarrow> peek lx = Some c \<Longrightarrow> P c \<Longrightarrow> current lx < current lx'"
  by (drule advance_while_cases) (auto dest!: advance_Some advance_while_frame)

function skip_whitespace :: "lexer \<Rightarrow> lexer option" where
  "skip_whitespace lx = do {
     c \<leftarrow> peek lx;
     if isspace c then do {
       (_, lx') \<leftarrow> advance lx;
       skip_whitespace lx'
     } else if c = CHR ''#'' then do {
       lx' \<leftarrow> advance_while (\<lambda>d. d \<noteq> NUL \<and> d \<noteq> LF) lx;
       skip_whitespace lx'
     } else Some lx
   }"
  by pat_completeness auto

termination
proof (relation "measure (\<lambda>lx. Suc (length (source lx)) - current lx)", goal_cases)
  case 1 show ?case by simp
next
  case (2 lx c p a lx')
  then show ?case by (auto dest!: advance_Some)
next
  case (3 lx c lx')
  then have "current lx < current lx'" by (auto elim: advance_while_progress)
  with 3 show ?case by (auto dest!: advance_while_frame peek_bound)
qed

declare skip_whitespace.simps [simp del]

definition make_token :: "lexer \<Rightarrow> token_type \<Rightarrow> nat \<Rightarrow> token" where
  "make_token lx ty start =
     \<lparr>tok_type = ty, tok_start = start, tok_length = current lx - start,
      tok_line = token_start_line lx, tok_column = token_start_column lx\<rparr>"

definition identifier_token :: "lexer \<Rightarrow> nat \<Rightarrow> (token \<times> lexer) option" where
  "identifier_token lx start = do {
     lx \<leftarrow> advance_while (\<lambda>c. isalnum c \<or> c = CHR ''_'') lx;
     Some (make_token lx TOKEN_IDENTIFIER start, lx)
   }"

definition number_token :: "lexer \<Rightarrow> nat \<Rightarrow> (token \<times> lexer) option" where
  "number_token lx start = do {
     c0 \<leftarrow> char_at (source lx) start;
     c1 \<leftarrow> peek lx;
     if c0 = CHR ''0'' \<and> (c1 = CHR ''x'' \<or> c1 = CHR ''X'') then do {
       (_, lx) \<leftarrow> advance lx;
       lx \<leftarrow> advance_while isxdigit lx;
       Some (make_token lx TOKEN_INTEGER start, lx)
     } else do {
       lx \<leftarrow> advance_while isdigit lx;
       c \<leftarrow> peek lx;
       d \<leftarrow> (if c = CHR ''.'' then char_at (source lx) (current lx + 1) else Some NUL);
       if c = CHR ''.'' \<and> isdigit d then do {
         (_, lx) \<leftarrow> advance lx;
         lx \<leftarrow> advance_while isdigit lx;
         Some (make_token lx TOKEN_FLOAT start, lx)
       } else Some (make_token lx TOKEN_INTEGER start, lx)
     }
   }"

text \<open>The loop of \<open>string\<close>: a backslash takes the next byte with it, unless that is the NUL.\<close>

function string_body :: "lexer \<Rightarrow> lexer option" where
  "string_body lx = do {
     c \<leftarrow> peek lx;
     if c \<noteq> QUOTE \<and> c \<noteq> NUL then
       if c = BACKSLASH then do {
         (_, lx') \<leftarrow> advance lx;
         d \<leftarrow> peek lx';
         if d = NUL then Some lx' else do {
           (_, lx'') \<leftarrow> advance lx';
           string_body lx''
         }
       } else do {
         (_, lx') \<leftarrow> advance lx;
         string_body lx'
       }
     else Some lx
   }"
  by pat_completeness auto
termination
  by (relation "measure (\<lambda>lx. Suc (length (source lx)) - current lx)")
    (auto dest!: advance_Some)

declare string_body.simps [simp del]

definition string_token :: "lexer \<Rightarrow> nat \<Rightarrow> (token \<times> lexer) option" where
  "string_token lx start = do {
     lx \<leftarrow> string_body lx;
     c \<leftarrow> peek lx;
     if c = NUL then Some (make_token lx TOKEN_UNKNOWN start, lx)
     else do {
       (_, lx) \<leftarrow> advance lx;
       let t = make_token lx TOKEN_STRING start;
       Some (t\<lparr>tok_start := tok_start t + 1, tok_length := tok_length t - 2\<rparr>, lx)
     }
   }"

definition lexer_init :: "string \<Rightarrow> lexer" where
  "lexer_init src =
     \<lparr>source = src, current = 0, line = 1, column = 1,
      token_start_line = 1, token_start_column = 1\<rparr>"

text \<open>The two-character operators: \<open>if (peek(lexer) == second) { advance; long } else short\<close>.\<close>

definition one_or_two :: "lexer \<Rightarrow> nat \<Rightarrow> char \<Rightarrow> token_type \<Rightarrow> token_type \<Rightarrow> (token \<times> lexer) option" where
  "one_or_two lx start second long short = do {
     c \<leftarrow> peek lx;
     if c = second then do {
       (_, lx) \<leftarrow> advance lx;
       Some (make_token lx long start, lx)
     } else Some (make_token lx short start, lx)
   }"

definition punctuation :: "lexer \<Rightarrow> nat \<Rightarrow> char \<Rightarrow> (token \<times> lexer) option" where
  "punctuation lx start c =
     (if c = CHR ''('' then Some (make_token lx TOKEN_LEFT_PAREN start, lx)
      else if c = CHR '')'' then Some (make_token lx TOKEN_RIGHT_PAREN start, lx)
      else if c = CHR ''{'' then Some (make_token lx TOKEN_LEFT_BRACE start, lx)
      else if c = CHR ''}'' then Some (make_token lx TOKEN_RIGHT_BRACE start, lx)
      else if c = CHR ''['' then Some (make_token lx TOKEN_LEFT_BRACKET start, lx)
      else if c = CHR '']'' then Some (make_token lx TOKEN_RIGHT_BRACKET start, lx)
      else if c = CHR '','' then Some (make_token lx TOKEN_COMMA start, lx)
      else if c = CHR '':'' then Some (make_token lx TOKEN_COLON start, lx)
      else if c = CHR ''.'' then Some (make_token lx TOKEN_DOT start, lx)
      else if c = CHR ''='' then one_or_two lx start (CHR ''='') TOKEN_EQUAL_EQUAL TOKEN_EQUALS
      else if c = CHR ''!'' then one_or_two lx start (CHR ''='') TOKEN_BANG_EQUAL TOKEN_BANG
      else if c = CHR ''>'' then one_or_two lx start (CHR ''='') TOKEN_GREATER_EQUAL TOKEN_GREATER
      else if c = CHR ''<'' then one_or_two lx start (CHR ''='') TOKEN_LESS_EQUAL TOKEN_LESS
      else if c = CHR ''+'' then one_or_two lx start (CHR ''='') TOKEN_PLUS_EQUALS TOKEN_PLUS
      else if c = CHR ''-'' then one_or_two lx start (CHR ''='') TOKEN_MINUS_EQUALS TOKEN_MINUS
      else if c = CHR ''*'' then one_or_two lx start (CHR ''='') TOKEN_STAR_EQUALS TOKEN_STAR
      else if c = CHR ''/'' then one_or_two lx start (CHR ''='') TOKEN_SLASH_EQUALS TOKEN_SLASH
      else if c = CHR ''%'' then one_or_two lx start (CHR ''='') TOKEN_PERCENT_EQUALS TOKEN_PERCENT
      else if c = CHR ''&'' then one_or_two lx start (CHR ''&'') TOKEN_AND_AND TOKEN_AMPERSAND
      else if c = CHR ''|'' then one_or_two lx start (CHR ''|'') TOKEN_OR_OR TOKEN_UNKNOWN
      else Some (make_token lx TOKEN_UNKNOWN start, lx))"

definition lexer_next :: "lexer \<Rightarrow> (token \<times> lexer) option" where
  "lexer_next lx0 = do {
     lx \<leftarrow> skip_whitespace lx0;
     let lx = lx\<lparr>token_start_line := line lx, token_start_column := column lx\<rparr>;
     let start = current lx;
     (c, lx) \<leftarrow> advance lx;
     if c = NUL then Some (make_token lx TOKEN_EOF start, lx)
     else if isalpha c \<or> c = CHR ''_'' then identifier_token lx start
     else if isdigit c then number_token lx start
     else if c = QUOTE then string_token lx start
     else punctuation lx start c
   }"

section \<open>Memory safety and progress\<close>

text \<open>
  From any state whose cursor is inside the buffer (the terminator included), no operation
  reads past the terminator, and the cursor only moves forward.
\<close>

definition in_buffer :: "lexer \<Rightarrow> bool" where
  "in_buffer lx \<longleftrightarrow> current lx \<le> length (source lx)"

text \<open>How a scanner function moves the state: forward, inside the buffer, over the same source.\<close>

definition moves :: "lexer \<Rightarrow> lexer \<Rightarrow> bool" where
  "moves lx lx' \<longleftrightarrow> source lx' = source lx \<and> current lx \<le> current lx' \<and> in_buffer lx'"

lemma moves_trans: "moves a b \<Longrightarrow> moves b c \<Longrightarrow> moves a c"
  by (auto simp: moves_def)

lemma moves_refl: "in_buffer a \<Longrightarrow> moves a a"
  by (simp add: moves_def)

lemma in_buffer_peek: "in_buffer lx \<Longrightarrow> \<exists>c. peek lx = Some c"
  by (simp add: in_buffer_def peek_def char_at_Some_iff)

lemma peek_nonNUL: "peek lx = Some c \<Longrightarrow> c \<noteq> NUL \<Longrightarrow> current lx < length (source lx)"
  by (auto simp: peek_def dest: char_at_nonNUL)

lemma advance_wp:
  "in_buffer lx \<Longrightarrow>
     wp (advance lx) (\<lambda>(c, lx'). peek lx = Some c \<and> current lx' = Suc (current lx)
       \<and> source lx' = source lx \<and> (c \<noteq> NUL \<longrightarrow> moves lx lx'))"
  using in_buffer_peek [of lx]
  by (auto simp: advance_def peek_def Let_def wp_iff moves_def in_buffer_def Suc_le_eq
      dest: char_at_nonNUL)

lemma advance_while_wp:
  "in_buffer lx \<Longrightarrow> \<not> P NUL \<Longrightarrow>
     wp (advance_while P lx) (\<lambda>lx'. moves lx lx' \<and> (\<exists>c. peek lx' = Some c \<and> \<not> P c))"
proof (induction P lx rule: advance_while.induct)
  case (1 P lx)
  from in_buffer_peek [OF "1.prems"(1)] obtain c where c: "peek lx = Some c" by blast
  show ?case
  proof (cases "P c")
    case True
    with \<open>\<not> P NUL\<close> have "c \<noteq> NUL" by auto
    from advance_wp [OF "1.prems"(1)] obtain d lx'' where a: "advance lx = Some (d, lx'')"
      and d: "peek lx = Some d" and m: "d \<noteq> NUL \<longrightarrow> moves lx lx''" by (auto simp: wp_iff)
    from c d \<open>c \<noteq> NUL\<close> m have m: "moves lx lx''" by simp
    then have "in_buffer lx''" by (simp add: moves_def)
    from "1.IH" [OF c True a _ this "1.prems"(2)]
    show ?thesis using c True a m
      by (subst advance_while.simps) (auto elim!: wp_mono intro: moves_trans)
  next
    case False
    with c "1.prems" show ?thesis
      by (subst advance_while.simps) (auto intro: moves_refl)
  qed
qed

lemma skip_whitespace_wp:
  "in_buffer lx \<Longrightarrow>
     wp (skip_whitespace lx) (\<lambda>lx'. moves lx lx' \<and> (\<exists>c. peek lx' = Some c \<and> \<not> isspace c \<and> c \<noteq> CHR ''#''))"
proof (induction lx rule: skip_whitespace.induct)
  case (1 lx)
  from in_buffer_peek [OF "1.prems"] obtain c where c: "peek lx = Some c" by blast
  consider (space) "isspace c" | (comment) "\<not> isspace c" "c = CHR ''#''" | (stop) "\<not> isspace c" "c \<noteq> CHR ''#''"
    by blast
  then show ?case
  proof cases
    case space
    then have "c \<noteq> NUL" by auto
    from advance_wp [OF "1.prems"] obtain d lx'' where a: "advance lx = Some (d, lx'')"
      and d: "peek lx = Some d" and m: "d \<noteq> NUL \<longrightarrow> moves lx lx''" by (auto simp: wp_iff)
    from c d \<open>c \<noteq> NUL\<close> m have m: "moves lx lx''" by simp
    then have "in_buffer lx''" by (simp add: moves_def)
    from "1.IH"(1) [OF c space a _ this] show ?thesis using c space a m
      by (subst skip_whitespace.simps) (auto elim!: wp_mono intro: moves_trans)
  next
    case comment
    have "wp (advance_while (\<lambda>d. d \<noteq> NUL \<and> d \<noteq> LF) lx) (\<lambda>lx'. moves lx lx')"
      by (rule wp_mono [OF advance_while_wp]) (use "1.prems" in auto)
    then obtain lx'' where a: "advance_while (\<lambda>d. d \<noteq> NUL \<and> d \<noteq> LF) lx = Some lx''"
      and m: "moves lx lx''" by (auto simp: wp_iff)
    then have "in_buffer lx''" by (simp add: moves_def)
    from "1.IH"(2) [OF c comment a this] show ?thesis using c comment a m
      by (subst skip_whitespace.simps) (auto elim!: wp_mono intro: moves_trans)
  next
    case stop
    with c "1.prems" show ?thesis
      by (subst skip_whitespace.simps) (auto intro: moves_refl)
  qed
qed

lemma string_body_wp:
  "in_buffer lx \<Longrightarrow>
     wp (string_body lx) (\<lambda>lx'. moves lx lx' \<and> (\<exists>c. peek lx' = Some c \<and> (c = QUOTE \<or> c = NUL)))"
proof (induction lx rule: string_body.induct)
  case (1 lx)
  from in_buffer_peek [OF "1.prems"] obtain c where c: "peek lx = Some c" by blast
  show ?case
  proof (cases "c \<noteq> QUOTE \<and> c \<noteq> NUL")
    case True
    from advance_wp [OF "1.prems"] True c obtain lx' where a: "advance lx = Some (c, lx')"
      and m: "moves lx lx'" by (auto simp: wp_iff)
    then have b: "in_buffer lx'" by (simp add: moves_def)
    from in_buffer_peek [OF b] obtain d where d: "peek lx' = Some d" by blast
    show ?thesis
    proof (cases "c = BACKSLASH")
      case bs: True
      show ?thesis
      proof (cases "d = NUL")
        case True
        with bs c a d m show ?thesis by (subst string_body.simps) simp
      next
        case False
        from advance_wp [OF b] False d obtain lx'' where a2: "advance lx' = Some (d, lx'')"
          and m2: "moves lx' lx''" by (auto simp: wp_iff)
        then have "in_buffer lx''" by (simp add: moves_def)
        note ih = "1.IH"(1) [OF c True bs a refl d False a2 refl this]
        have "string_body lx = string_body lx''"
          using c True bs a d False a2 by (subst string_body.simps) simp
        with wp_mono [OF ih] show ?thesis using moves_trans [OF m moves_trans [OF m2]]
          by auto
      qed
    next
      case False
      note ih = "1.IH"(2) [OF c True False a refl b]
      have "string_body lx = string_body lx'"
        using c True False a by (subst string_body.simps) simp
      with wp_mono [OF ih] show ?thesis using moves_trans [OF m] by auto
    qed
  next
    case False
    with c "1.prems" show ?thesis
      by (subst string_body.simps) (auto intro: moves_refl)
  qed
qed

text \<open>What every token-building function guarantees from a cursor past the token's first byte.\<close>

definition token_made :: "lexer \<Rightarrow> token \<times> lexer \<Rightarrow> bool" where
  "token_made lx = (\<lambda>(tok, lx'). moves lx lx' \<and> tok_type tok \<noteq> TOKEN_EOF
     \<and> tok_start tok + tok_length tok \<le> length (source lx))"

lemma token_made_make:
  "moves lx lx' \<Longrightarrow> start \<le> current lx' \<Longrightarrow> ty \<noteq> TOKEN_EOF \<Longrightarrow> token_made lx (make_token lx' ty start, lx')"
  by (auto simp: token_made_def make_token_def moves_def in_buffer_def)

lemma token_made_trans: "moves a b \<Longrightarrow> token_made b r \<Longrightarrow> token_made a r"
  by (auto simp: token_made_def moves_def)

lemma advance_obtain:
  assumes "in_buffer lx" "peek lx = Some c" "c \<noteq> NUL"
  obtains lx' where "advance lx = Some (c, lx')" "moves lx lx'" "current lx' = Suc (current lx)"
  using advance_wp [OF assms(1)] assms by (auto simp: wp_iff)

lemma advance_while_obtain:
  assumes "in_buffer lx" "\<not> P NUL"
  obtains lx' c where "advance_while P lx = Some lx'" "moves lx lx'" "peek lx' = Some c" "\<not> P c"
  using advance_while_wp [of lx P] assms by (auto simp: wp_iff)

lemma moves_in_buffer [simp]: "moves a b \<Longrightarrow> in_buffer b"
  by (simp add: moves_def)

lemma moves_le: "moves a b \<Longrightarrow> start \<le> current a \<Longrightarrow> start \<le> current b"
  by (simp add: moves_def)

lemma identifier_token_wp:
  assumes "in_buffer lx" "start \<le> current lx"
  shows "wp (identifier_token lx start) (token_made lx)"
proof -
  obtain lx' c where a: "advance_while (\<lambda>c. isalnum c \<or> c = CHR ''_'') lx = Some lx'"
    and m: "moves lx lx'"
    by (rule advance_while_obtain [OF assms(1), of "\<lambda>c. isalnum c \<or> c = CHR ''_''"]) auto
  from m assms have "token_made lx (make_token lx' TOKEN_IDENTIFIER start, lx')"
    by (intro token_made_make) (auto intro: moves_le)
  with a show ?thesis by (simp add: identifier_token_def)
qed

lemma number_token_wp:
  assumes b: "in_buffer lx" and st: "start \<le> current lx"
  shows "wp (number_token lx start) (token_made lx)"
proof -
  obtain c0 where c0: "char_at (source lx) start = Some c0"
    using b st char_at_Some_iff [of "source lx" start] by (auto simp: in_buffer_def)
  obtain c1 where c1: "peek lx = Some c1" using in_buffer_peek [OF b] by blast
  show ?thesis
  proof (cases "c0 = CHR ''0'' \<and> (c1 = CHR ''x'' \<or> c1 = CHR ''X'')")
    case True
    then have "c1 \<noteq> NUL" by auto
    then obtain lx1 where a: "advance lx = Some (c1, lx1)" "moves lx lx1"
      using advance_obtain [OF b c1] by metis
    obtain lx2 c where a2: "advance_while isxdigit lx1 = Some lx2" and m2: "moves lx1 lx2"
      by (rule advance_while_obtain [of lx1 isxdigit]) (use a in auto)
    have "token_made lx (make_token lx2 TOKEN_INTEGER start, lx2)"
      by (rule token_made_make) (use moves_trans [OF a(2) m2] st in \<open>auto intro: moves_le\<close>)
    with True c0 c1 a a2 show ?thesis by (simp add: number_token_def)
  next
    case False
    obtain lx1 c where a1: "advance_while isdigit lx = Some lx1" and m1: "moves lx lx1"
      and p1: "peek lx1 = Some c"
      by (rule advance_while_obtain [of lx isdigit]) (use b in auto)
    have int: "token_made lx (make_token lx1 TOKEN_INTEGER start, lx1)"
      by (rule token_made_make) (use m1 st in \<open>auto intro: moves_le\<close>)
    show ?thesis
    proof (cases "c = CHR ''.''")
      case dot: True
      obtain lx2 where a2: "advance lx1 = Some (c, lx2)" and m2: "moves lx1 lx2"
        using advance_obtain [of lx1 c] m1 p1 dot by auto
      obtain d where d: "char_at (source lx1) (Suc (current lx1)) = Some d"
        using peek_nonNUL [OF p1] dot char_at_Some_iff [of "source lx1" "Suc (current lx1)"] by auto
      obtain lx3 e where a3: "advance_while isdigit lx2 = Some lx3" and m3: "moves lx2 lx3"
        by (rule advance_while_obtain [of lx2 isdigit]) (use m2 in auto)
      have "token_made lx (make_token lx3 TOKEN_FLOAT start, lx3)"
        by (rule token_made_make)
          (use moves_trans [OF m1 moves_trans [OF m2 m3]] st in \<open>auto intro: moves_le\<close>)
      with False c0 c1 a1 p1 dot a2 d a3 int show ?thesis by (auto simp: number_token_def)
    next
      case False': False
      with False c0 c1 a1 p1 int show ?thesis by (auto simp: number_token_def)
    qed
  qed
qed

lemma string_token_wp:
  assumes b: "in_buffer lx" and st: "start < current lx"
  shows "wp (string_token lx start) (token_made lx)"
proof -
  obtain lx1 c where a1: "string_body lx = Some lx1" and m1: "moves lx lx1" and p1: "peek lx1 = Some c"
    using string_body_wp [OF b] by (auto simp: wp_iff)
  show ?thesis
  proof (cases "c = NUL")
    case True
    have "token_made lx (make_token lx1 TOKEN_UNKNOWN start, lx1)"
      by (rule token_made_make) (use m1 st in \<open>auto intro: moves_le\<close>)
    with True a1 p1 show ?thesis by (simp add: string_token_def)
  next
    case False
    obtain lx2 where a2: "advance lx1 = Some (c, lx2)" and m2: "moves lx1 lx2"
      and e: "current lx2 = Suc (current lx1)"
      using advance_obtain [of lx1 c] m1 p1 False by auto
    have "start < current lx1" using m1 st by (simp add: moves_def)
    with moves_trans [OF m1 m2] e a1 a2 p1 False show ?thesis
      by (auto simp: string_token_def token_made_def make_token_def moves_def in_buffer_def)
  qed
qed

lemma one_or_two_wp:
  assumes b: "in_buffer lx" and st: "start < current lx"
    and ty: "second \<noteq> NUL" "long \<noteq> TOKEN_EOF" "short \<noteq> TOKEN_EOF"
  shows "wp (one_or_two lx start second long short) (token_made lx)"
proof -
  obtain c where c: "peek lx = Some c" using in_buffer_peek [OF b] by blast
  have short: "token_made lx (make_token lx short start, lx)"
    by (rule token_made_make) (use b st ty in \<open>auto intro: moves_refl\<close>)
  show ?thesis
  proof (cases "c = second")
    case True
    then obtain lx1 where a: "advance lx = Some (c, lx1)" "moves lx lx1"
      using advance_obtain [OF b c] ty by metis
    have "token_made lx (make_token lx1 long start, lx1)"
      by (rule token_made_make) (use a st ty in \<open>auto intro: moves_le\<close>)
    with True c a show ?thesis by (simp add: one_or_two_def)
  qed (use c short in \<open>simp add: one_or_two_def\<close>)
qed

lemma punctuation_wp:
  assumes b: "in_buffer lx" and st: "start < current lx"
  shows "wp (punctuation lx start c) (token_made lx)"
proof -
  have "token_made lx (make_token lx ty start, lx)" if "ty \<noteq> TOKEN_EOF" for ty
    by (rule token_made_make) (use b st that in \<open>auto intro: moves_refl\<close>)
  then show ?thesis unfolding punctuation_def
    by (simp add: one_or_two_wp [OF b st])
qed

text \<open>
  The contract of the scanner towards its client: from a cursor inside the buffer it
  returns a token without a fault, moves forward by at least one byte, and leaves the
  buffer only by returning \<open>TOKEN_EOF\<close>.
\<close>

lemma lexer_next_wp:
  assumes b: "in_buffer lx"
  shows "wp (lexer_next lx) (\<lambda>(tok, lx'). source lx' = source lx \<and> current lx < current lx'
     \<and> (tok_type tok \<noteq> TOKEN_EOF \<longrightarrow> in_buffer lx' \<and> tok_start tok + tok_length tok \<le> length (source lx)))"
proof -
  obtain lx1 where s1: "skip_whitespace lx = Some lx1" and m1: "moves lx lx1"
    using skip_whitespace_wp [OF b] by (auto simp: wp_iff)
  define lx2 where "lx2 = lx1\<lparr>token_start_line := line lx1, token_start_column := column lx1\<rparr>"
  have m2: "moves lx lx2" using m1 by (auto simp: lx2_def moves_def in_buffer_def)
  obtain c lx3 where a: "advance lx2 = Some (c, lx3)" and e: "current lx3 = Suc (current lx2)"
    and src: "source lx3 = source lx2" and m3: "c \<noteq> NUL \<longrightarrow> moves lx2 lx3"
    using advance_wp [of lx2] m2 by (auto simp: wp_iff)
  have start: "current lx2 = current lx1" by (simp add: lx2_def)
  have next_eq: "lexer_next lx =
      (if c = NUL then Some (make_token lx3 TOKEN_EOF (current lx2), lx3)
       else if isalpha c \<or> c = CHR ''_'' then identifier_token lx3 (current lx2)
       else if isdigit c then number_token lx3 (current lx2)
       else if c = QUOTE then string_token lx3 (current lx2)
       else punctuation lx3 (current lx2) c)"
    unfolding lexer_next_def s1 using a by (simp add: lx2_def [symmetric] Let_def start)
  have made: "wp m (\<lambda>(tok, lx'). source lx' = source lx \<and> current lx < current lx'
     \<and> (tok_type tok \<noteq> TOKEN_EOF \<longrightarrow> in_buffer lx' \<and> tok_start tok + tok_length tok \<le> length (source lx)))"
    if "wp m (token_made lx3)" for m
    by (rule wp_mono [OF that]) (use m2 e src in \<open>auto simp: token_made_def moves_def\<close>)
  show ?thesis
  proof (cases "c = NUL")
    case True
    with next_eq m2 e src show ?thesis by (auto simp: make_token_def moves_def)
  next
    case False
    with m3 have b3: "in_buffer lx3" by simp
    have "wp (lexer_next lx) (token_made lx3)"
      unfolding next_eq using False b3 e
      by (simp add: identifier_token_wp number_token_wp string_token_wp punctuation_wp)
    then show ?thesis by (rule made)
  qed
qed

section \<open>Positions\<close>

text \<open>The line and column of an offset, read off the text before it.\<close>

definition pos_line :: "string \<Rightarrow> nat \<Rightarrow> nat" where
  "pos_line s i = Suc (count_list (take i s) LF)"

definition pos_column :: "string \<Rightarrow> nat \<Rightarrow> nat" where
  "pos_column s i = Suc (length (takeWhile (\<lambda>c. c \<noteq> LF) (rev (take i s))))"

definition located :: "lexer \<Rightarrow> bool" where
  "located lx \<longleftrightarrow> line lx = pos_line (source lx) (current lx)
     \<and> column lx = pos_column (source lx) (current lx)"

text \<open>The scanner state at offset \<open>j\<close> with the right position.\<close>

definition at_offset :: "lexer \<Rightarrow> nat \<Rightarrow> lexer" where
  "at_offset lx j = lx\<lparr>current := j, line := pos_line (source lx) j, column := pos_column (source lx) j\<rparr>"

lemma at_offset_simps [simp]:
  "source (at_offset lx j) = source lx" "current (at_offset lx j) = j"
  "line (at_offset lx j) = pos_line (source lx) j"
  "column (at_offset lx j) = pos_column (source lx) j"
  "token_start_line (at_offset lx j) = token_start_line lx"
  "token_start_column (at_offset lx j) = token_start_column lx"
  "located (at_offset lx j)" "at_offset (at_offset lx i) j = at_offset lx j"
  by (simp_all add: at_offset_def located_def)

lemma located_at_offset: "located lx \<Longrightarrow> at_offset lx (current lx) = lx"
  by (cases lx) (simp add: at_offset_def located_def)

lemma pos_0 [simp]: "pos_line s 0 = 1" "pos_column s 0 = 1"
  by (simp_all add: pos_line_def pos_column_def)

lemma pos_Suc:
  assumes "j < length s"
  shows "pos_line s (Suc j) = (if s ! j = LF then Suc (pos_line s j) else pos_line s j)"
    and "pos_column s (Suc j) = (if s ! j = LF then 1 else Suc (pos_column s j))"
  using assms by (simp_all add: pos_line_def pos_column_def take_Suc_snoc)

lemma advance_at:
  "j < length (source lx) \<Longrightarrow> c_string (source lx) \<Longrightarrow>
     advance (at_offset lx j) = Some (source lx ! j, at_offset lx (Suc j))"
  by (auto simp: advance_def at_offset_def pos_Suc c_string_def Let_def dest: nth_mem)

lemma advance_at_end:
  "advance (at_offset lx (length (source lx))) =
     Some (NUL, (at_offset lx (length (source lx)))\<lparr>current := Suc (length (source lx))\<rparr>)"
  by (simp add: advance_def Let_def)

section \<open>The reference scanner over lists\<close>

text \<open>
  The declarative counterpart of the scanner: it splits off white space and comments, and
  returns the kind of the next token, its lexeme, and the text after it.
\<close>

function strip_layout :: "string \<Rightarrow> string" where
  "strip_layout [] = []"
| "strip_layout (c # cs) =
     (if isspace c then strip_layout cs
      else if c = CHR ''#'' then strip_layout (dropWhile (\<lambda>d. d \<noteq> LF) cs)
      else c # cs)"
  by pat_completeness auto
termination
  by (relation "measure length") (auto simp: length_dropWhile_le less_Suc_eq_le)

definition ident_char :: "char \<Rightarrow> bool" where
  "ident_char c \<longleftrightarrow> isalnum c \<or> c = CHR ''_''"

fun scan_string :: "string \<Rightarrow> string \<times> string" where
  "scan_string [] = ([], [])"
| "scan_string (c # cs) =
     (if c = QUOTE then ([], c # cs)
      else if c = BACKSLASH then
        (case cs of [] \<Rightarrow> ([c], [])
         | d # ds \<Rightarrow> (let (b, r) = scan_string ds in (c # d # b, r)))
      else (let (b, r) = scan_string cs in (c # b, r)))"

definition scan_number :: "char \<Rightarrow> string \<Rightarrow> token_type \<times> string \<times> string" where
  "scan_number c cs =
     (if c = CHR ''0'' \<and> cs \<noteq> [] \<and> (hd cs = CHR ''x'' \<or> hd cs = CHR ''X'')
      then (TOKEN_INTEGER, c # hd cs # takeWhile isxdigit (tl cs), dropWhile isxdigit (tl cs))
      else case dropWhile isdigit cs of
        e # d # ds \<Rightarrow>
          (if e = CHR ''.'' \<and> isdigit d
           then (TOKEN_FLOAT, c # takeWhile isdigit cs @ e # takeWhile isdigit (d # ds), dropWhile isdigit (d # ds))
           else (TOKEN_INTEGER, c # takeWhile isdigit cs, dropWhile isdigit cs))
      | _ \<Rightarrow> (TOKEN_INTEGER, c # takeWhile isdigit cs, dropWhile isdigit cs))"

text \<open>The operators and punctuation, longest first.\<close>

definition two_char_ops :: "(string \<times> token_type) list" where
  "two_char_ops =
     [(''=='', TOKEN_EQUAL_EQUAL), (''!='', TOKEN_BANG_EQUAL), (''>='', TOKEN_GREATER_EQUAL),
      (''<='', TOKEN_LESS_EQUAL), (''+='', TOKEN_PLUS_EQUALS), (''-='', TOKEN_MINUS_EQUALS),
      (''*='', TOKEN_STAR_EQUALS), (''/='', TOKEN_SLASH_EQUALS), (''%='', TOKEN_PERCENT_EQUALS),
      (''&&'', TOKEN_AND_AND), (''||'', TOKEN_OR_OR)]"

definition one_char_ops :: "(char \<times> token_type) list" where
  "one_char_ops =
     [(CHR ''('', TOKEN_LEFT_PAREN), (CHR '')'', TOKEN_RIGHT_PAREN), (CHR ''{'', TOKEN_LEFT_BRACE),
      (CHR ''}'', TOKEN_RIGHT_BRACE), (CHR ''['', TOKEN_LEFT_BRACKET), (CHR '']'', TOKEN_RIGHT_BRACKET),
      (CHR '','', TOKEN_COMMA), (CHR '':'', TOKEN_COLON), (CHR ''.'', TOKEN_DOT),
      (CHR ''='', TOKEN_EQUALS), (CHR ''!'', TOKEN_BANG), (CHR ''>'', TOKEN_GREATER),
      (CHR ''<'', TOKEN_LESS), (CHR ''+'', TOKEN_PLUS), (CHR ''-'', TOKEN_MINUS),
      (CHR ''*'', TOKEN_STAR), (CHR ''/'', TOKEN_SLASH), (CHR ''%'', TOKEN_PERCENT),
      (CHR ''&'', TOKEN_AMPERSAND)]"

definition scan_op :: "char \<Rightarrow> string \<Rightarrow> token_type \<times> string \<times> string" where
  "scan_op c cs =
     (case map_of two_char_ops (c # take 1 cs) of
        Some ty \<Rightarrow> (ty, c # take 1 cs, drop 1 cs)
      | None \<Rightarrow>
          (case map_of one_char_ops c of
             Some ty \<Rightarrow> (ty, [c], cs)
           | None \<Rightarrow> (TOKEN_UNKNOWN, [c], cs)))"

definition scan :: "string \<Rightarrow> token_type \<times> string \<times> string" where
  "scan s =
     (case strip_layout s of
        [] \<Rightarrow> (TOKEN_EOF, [], [])
      | c # cs \<Rightarrow>
          if isalpha c \<or> c = CHR ''_'' then
            (TOKEN_IDENTIFIER, c # takeWhile ident_char cs, dropWhile ident_char cs)
          else if isdigit c then scan_number c cs
          else if c = QUOTE then
            (case scan_string cs of
               (b, []) \<Rightarrow> (TOKEN_UNKNOWN, c # b, [])
             | (b, q # r) \<Rightarrow> (TOKEN_STRING, c # b @ [q], r))
          else scan_op c cs)"

section \<open>The scanner refines the reference scanner\<close>

lemma peek_at: "j < length (source lx) \<Longrightarrow> peek (at_offset lx j) = Some (source lx ! j)"
  by (simp add: peek_def)

lemma peek_at_end: "peek (at_offset lx (length (source lx))) = Some NUL"
  by (simp add: peek_def)

lemma drop_Cons_iff: "drop j s = c # cs \<longleftrightarrow> j < length s \<and> s ! j = c \<and> drop (Suc j) s = cs"
  by (metis Cons_nth_drop_Suc drop_eq_Nil2 leI list.discI list.inject)

lemma advance_while_at:
  assumes "c_string (source lx)" "\<not> P NUL"
  shows "j \<le> length (source lx) \<Longrightarrow>
     advance_while P (at_offset lx j) = Some (at_offset lx (j + length (takeWhile P (drop j (source lx)))))"
proof (induction "length (source lx) - j" arbitrary: j)
  case 0
  then have "j = length (source lx)" by simp
  with assms show ?case by (subst advance_while.simps) (simp add: peek_at_end)
next
  case (Suc n)
  then have j: "j < length (source lx)" by simp
  have d: "drop j (source lx) = source lx ! j # drop (Suc j) (source lx)"
    using j by (simp add: Cons_nth_drop_Suc)
  show ?case
  proof (cases "P (source lx ! j)")
    case True
    with Suc j have "advance_while P (at_offset lx (Suc j)) =
        Some (at_offset lx (Suc j + length (takeWhile P (drop (Suc j) (source lx)))))"
      by (intro Suc.hyps(1)) auto
    with True d j assms show ?thesis
      by (subst advance_while.simps) (simp add: peek_at advance_at)
  next
    case False
    with d j show ?thesis by (subst advance_while.simps) (simp add: peek_at)
  qed
qed

lemma strip_layout_suffix: "\<exists>pre. s = pre @ strip_layout s"
proof (induction s rule: strip_layout.induct)
  case (2 c cs)
  show ?case
  proof (cases "isspace c \<or> c \<noteq> CHR ''#''")
    case True
    with 2(1) show ?thesis by (auto split: if_splits) (metis append_Cons)+
  next
    case False
    then obtain pre where "dropWhile (\<lambda>d. d \<noteq> LF) cs = pre @ strip_layout (dropWhile (\<lambda>d. d \<noteq> LF) cs)"
      using 2(2) by auto
    with False have "c # cs = (c # takeWhile (\<lambda>d. d \<noteq> LF) cs @ pre) @ strip_layout (c # cs)"
      by (metis append.assoc append_Cons strip_layout.simps(2) takeWhile_dropWhile_id)
    then show ?thesis by blast
  qed
qed simp

lemma length_strip_layout: "length (strip_layout s) \<le> length s"
  using strip_layout_suffix [of s] by (metis le_add2 length_append)

lemma takeWhile_not_NUL:
  "NUL \<notin> set cs \<Longrightarrow> takeWhile (\<lambda>d. d \<noteq> NUL \<and> d \<noteq> LF) cs = takeWhile (\<lambda>d. d \<noteq> LF) cs"
  by (rule takeWhile_cong) auto

lemma skip_whitespace_at:
  assumes c: "c_string (source lx)"
  shows "j \<le> length (source lx) \<Longrightarrow> skip_whitespace (at_offset lx j) =
     Some (at_offset lx (length (source lx) - length (strip_layout (drop j (source lx)))))"
proof (induction "length (source lx) - j" arbitrary: j rule: less_induct)
  case less
  show ?case
  proof (cases "j = length (source lx)")
    case True
    then show ?thesis by (subst skip_whitespace.simps) (simp add: peek_at_end)
  next
    case False
    with less.prems have j: "j < length (source lx)" by simp
    let ?c = "source lx ! j" and ?cs = "drop (Suc j) (source lx)"
    have d: "drop j (source lx) = ?c # ?cs" using j by (simp add: Cons_nth_drop_Suc)
    have cs: "NUL \<notin> set (drop j (source lx))"
      using c set_drop_subset [of j "source lx"] by (auto simp: c_string_def)
    consider "isspace ?c" | "\<not> isspace ?c" "?c = CHR ''#''" | "\<not> isspace ?c" "?c \<noteq> CHR ''#''"
      by blast
    then show ?thesis
    proof cases
      case 1
      have "skip_whitespace (at_offset lx (Suc j)) =
          Some (at_offset lx (length (source lx) - length (strip_layout ?cs)))"
        by (rule less.hyps) (use j in auto)
      with 1 d j c show ?thesis by (subst skip_whitespace.simps) (simp add: peek_at advance_at)
    next
      case 2
      define k where "k = Suc (length (takeWhile (\<lambda>d. d \<noteq> LF) ?cs))"
      have tw: "takeWhile (\<lambda>d. d \<noteq> NUL \<and> d \<noteq> LF) (drop j (source lx)) = ?c # takeWhile (\<lambda>d. d \<noteq> LF) ?cs"
        using takeWhile_not_NUL [OF cs] 2 d by simp
      have k: "j + k \<le> length (source lx)"
        using length_takeWhile_le [of "\<lambda>d. d \<noteq> LF" ?cs] j by (simp add: k_def)
      have aw: "advance_while (\<lambda>d. d \<noteq> NUL \<and> d \<noteq> LF) (at_offset lx j) = Some (at_offset lx (j + k))"
        using advance_while_at [OF c, of "\<lambda>d. d \<noteq> NUL \<and> d \<noteq> LF" j] j tw by (simp add: k_def)
      have dr: "drop (j + k) (source lx) = dropWhile (\<lambda>d. d \<noteq> LF) ?cs"
        by (simp add: k_def dropWhile_eq_drop add.commute)
      have "skip_whitespace (at_offset lx (j + k)) =
          Some (at_offset lx (length (source lx) - length (strip_layout (drop (j + k) (source lx)))))"
        by (rule less.hyps) (use j k in \<open>auto simp: k_def\<close>)
      with 2 d j aw dr show ?thesis by (subst skip_whitespace.simps) (simp add: peek_at)
    next
      case 3
      with d j show ?thesis by (subst skip_whitespace.simps) (simp add: peek_at)
    qed
  qed
qed

lemma string_body_at:
  assumes c: "c_string (source lx)"
  shows "j \<le> length (source lx) \<Longrightarrow> string_body (at_offset lx j) =
     Some (at_offset lx (j + length (fst (scan_string (drop j (source lx))))))"
proof (induction "length (source lx) - j" arbitrary: j rule: less_induct)
  case less
  show ?case
  proof (cases "j = length (source lx)")
    case True
    then show ?thesis by (subst string_body.simps) (simp add: peek_at_end)
  next
    case False
    with less.prems have j: "j < length (source lx)" by simp
    let ?c = "source lx ! j" and ?cs = "drop (Suc j) (source lx)"
    have d: "drop j (source lx) = ?c # ?cs" using j by (simp add: Cons_nth_drop_Suc)
    have nn: "source lx ! i \<noteq> NUL" if "i < length (source lx)" for i
      using c that by (auto simp: c_string_def dest: nth_mem)
    show ?thesis
    proof (cases "?c = QUOTE \<or> ?c \<noteq> BACKSLASH")
      case True
      have "string_body (at_offset lx (Suc j)) =
          Some (at_offset lx (Suc j + length (fst (scan_string ?cs))))"
        by (rule less.hyps) (use j in auto)
      with True d j c nn [OF j] show ?thesis
        by (subst string_body.simps) (auto simp: peek_at advance_at Let_def split: prod.splits)
    next
      case False
      then have b: "?c = BACKSLASH" by simp
      show ?thesis
      proof (cases "Suc j = length (source lx)")
        case True
        with b d j c show ?thesis
          by (subst string_body.simps) (simp add: peek_at advance_at peek_at_end)
      next
        case False
        with j have j2: "Suc j < length (source lx)" by simp
        have d2: "?cs = source lx ! Suc j # drop (Suc (Suc j)) (source lx)"
          using j2 by (simp add: Cons_nth_drop_Suc)
        have "string_body (at_offset lx (Suc (Suc j))) =
            Some (at_offset lx (Suc (Suc j) + length (fst (scan_string (drop (Suc (Suc j)) (source lx))))))"
          by (rule less.hyps) (use j2 in auto)
        with b d d2 j j2 c nn [OF j2] show ?thesis
          by (subst string_body.simps) (simp add: peek_at advance_at Let_def split: prod.splits)
      qed
    qed
  qed
qed

text \<open>A finished token that starts at \<open>start\<close> and whose lexeme ends before offset \<open>k\<close>.\<close>

definition token_to :: "lexer \<Rightarrow> token_type \<Rightarrow> nat \<Rightarrow> nat \<Rightarrow> token \<times> lexer" where
  "token_to lx ty start k =
     (\<lparr>tok_type = ty,
       tok_start = (if ty = TOKEN_STRING then start + 1 else start),
       tok_length = (if ty = TOKEN_STRING then k - start - 2 else k - start),
       tok_line = token_start_line lx, tok_column = token_start_column lx\<rparr>,
      at_offset lx k)"

lemma make_token_to:
  "ty \<noteq> TOKEN_STRING \<Longrightarrow> (make_token (at_offset lx k) ty start, at_offset lx k) = token_to lx ty start k"
  by (simp add: token_to_def make_token_def)

lemma identifier_token_at:
  assumes "c_string (source lx)" "start < length (source lx)"
  shows "identifier_token (at_offset lx (Suc start)) start =
     Some (token_to lx TOKEN_IDENTIFIER start
       (Suc start + length (takeWhile ident_char (drop (Suc start) (source lx)))))"
  using advance_while_at [of lx "\<lambda>c. isalnum c \<or> c = CHR ''_''" "Suc start"] assms
  by (simp add: identifier_token_def make_token_to ident_char_def [abs_def])

lemma number_token_at:
  assumes c: "c_string (source lx)" and st: "start < length (source lx)"
    and scan: "scan_number (source lx ! start) (drop (Suc start) (source lx)) = (ty, lexeme, rest)"
  shows "number_token (at_offset lx (Suc start)) start = Some (token_to lx ty start (start + length lexeme))"
proof -
  let ?s = "source lx" and ?cs = "drop (Suc start) (source lx)"
  obtain c1 where p: "peek (at_offset lx (Suc start)) = Some c1"
    and c1: "c1 = (if ?cs = [] then NUL else hd ?cs)"
    using st by (cases "Suc start = length ?s") (auto simp: peek_at peek_at_end hd_drop_conv_nth)
  show ?thesis
  proof (cases "?s ! start = CHR ''0'' \<and> (c1 = CHR ''x'' \<or> c1 = CHR ''X'')")
    case True
    then have ne: "?cs \<noteq> []" and hd: "hd ?cs = c1" using c1 by (auto split: if_splits)
    then have j: "Suc start < length ?s" by simp
    have tl: "tl ?cs = drop (Suc (Suc start)) ?s" by (simp add: drop_Suc tl_drop)
    have aw: "advance_while isxdigit (at_offset lx (Suc (Suc start))) =
        Some (at_offset lx (Suc (Suc start) + length (takeWhile isxdigit (tl ?cs))))"
      using advance_while_at [OF c, of isxdigit "Suc (Suc start)"] j by (simp add: tl)
    show ?thesis using scan True ne hd p st j aw c
      by (auto simp: number_token_def scan_number_def advance_at make_token_to)
  next
    case False
    define k where "k = Suc start + length (takeWhile isdigit ?cs)"
    have k: "k \<le> length ?s" using length_takeWhile_le [of isdigit ?cs] st by (simp add: k_def)
    have aw: "advance_while isdigit (at_offset lx (Suc start)) = Some (at_offset lx k)"
      using advance_while_at [OF c, of isdigit "Suc start"] st by (simp add: k_def)
    have dk: "dropWhile isdigit ?cs = drop k ?s"
      by (simp add: k_def dropWhile_eq_drop add.commute)
    have hex: "\<not> (?s ! start = CHR ''0'' \<and> ?cs \<noteq> [] \<and> (hd ?cs = CHR ''x'' \<or> hd ?cs = CHR ''X''))"
      using False c1 by auto
    let ?int = "(TOKEN_INTEGER, ?s ! start # takeWhile isdigit ?cs, drop k ?s)"
    have scan': "(case drop k ?s of
        e # d # ds \<Rightarrow> (if e = CHR ''.'' \<and> isdigit d
          then (TOKEN_FLOAT, ?s ! start # takeWhile isdigit ?cs @ e # takeWhile isdigit (d # ds), dropWhile isdigit (d # ds))
          else ?int) | _ \<Rightarrow> ?int) = (ty, lexeme, rest)"
      using scan hex unfolding scan_number_def dk by (simp only: if_False)
    have int: "?int = (ty, lexeme, rest)
      \<Longrightarrow> token_to lx ty start (start + length lexeme) = token_to lx TOKEN_INTEGER start k"
      by (auto simp: k_def)
    consider (end0) "drop k ?s = []" | (end1) e where "drop k ?s = [e]"
      | (more) e d ds where "drop k ?s = e # d # ds"
      by (metis list.exhaust)
    then show ?thesis
    proof cases
      case end0
      then have e: "k = length ?s" using k by simp
      from end0 scan' have "?int = (ty, lexeme, rest)" by simp
      from int [OF this] e aw p False st show ?thesis
        by (auto simp: number_token_def peek_at_end make_token_to)
    next
      case end1
      then have e: "k < length ?s" "Suc k = length ?s" "?s ! k = e"
        by (auto simp: drop_Cons_iff)
      from end1 scan' have "?int = (ty, lexeme, rest)" by simp
      from int [OF this] e aw p False st show ?thesis
        by (auto simp: number_token_def peek_at char_at_end make_token_to)
    next
      case more
      then have kk: "k < length ?s" "Suc k < length ?s" "?s ! k = e" "?s ! Suc k = d"
        "drop (Suc k) ?s = d # ds"
        by (auto simp: drop_Cons_iff)
      have aw2: "advance_while isdigit (at_offset lx (Suc k)) =
          Some (at_offset lx (Suc k + length (takeWhile isdigit (d # ds))))"
        using advance_while_at [OF c, of isdigit "Suc k"] kk by simp
      show ?thesis
      proof (cases "e = CHR ''.'' \<and> isdigit d")
        case True
        with scan' more have ty: "ty = TOKEN_FLOAT"
          and "lexeme = ?s ! start # takeWhile isdigit ?cs @ e # takeWhile isdigit (d # ds)"
          by auto
        then have "start + length lexeme = Suc k + length (takeWhile isdigit (d # ds))"
          by (simp add: k_def)
        with ty True aw aw2 p False st kk c show ?thesis
          by (auto simp: number_token_def peek_at advance_at make_token_to)
      next
        case False': False
        with scan' more have "?int = (ty, lexeme, rest)" by simp
        from int [OF this] False' more aw p False st kk show ?thesis
          by (auto simp: number_token_def peek_at make_token_to)
      qed
    qed
  qed
qed

lemma scan_string_split: "scan_string cs = (b, r) \<Longrightarrow> cs = b @ r \<and> (r = [] \<or> hd r = QUOTE)"
  by (induction cs arbitrary: b r rule: scan_string.induct)
    (auto simp: Let_def split: if_splits list.splits prod.splits)

lemma string_token_at:
  assumes c: "c_string (source lx)" and st: "start < length (source lx)"
    and scan: "scan_string (drop (Suc start) (source lx)) = (b, r)"
  shows "string_token (at_offset lx (Suc start)) start =
     (case r of [] \<Rightarrow> Some (token_to lx TOKEN_UNKNOWN start (Suc start + length b))
      | q # r' \<Rightarrow> Some (token_to lx TOKEN_STRING start (Suc (Suc start + length b))))"
proof -
  let ?k = "Suc start + length b"
  have body: "string_body (at_offset lx (Suc start)) = Some (at_offset lx ?k)"
    using string_body_at [OF c, of "Suc start"] st scan by simp
  have split: "drop (Suc start) (source lx) = b @ r" "r = [] \<or> hd r = QUOTE"
    using scan_string_split [OF scan] by auto
  have k: "?k \<le> length (source lx)" and r: "drop ?k (source lx) = r"
    using arg_cong [OF split(1), of length] arg_cong [OF split(1), of "drop (length b)"] st
    by (auto simp: add.commute)
  show ?thesis
  proof (cases r)
    case Nil
    with r k have "?k = length (source lx)" by simp
    with body Nil show ?thesis by (simp add: string_token_def peek_at_end make_token_to)
  next
    case (Cons q r')
    with r have "?k < length (source lx)" "source lx ! ?k = q" by (auto simp: drop_Cons_iff)
    moreover from Cons split have "q = QUOTE" by simp
    ultimately show ?thesis using body Cons c
      by (simp add: string_token_def peek_at advance_at Let_def make_token_def token_to_def)
  qed
qed

lemma one_or_two_at:
  assumes c: "c_string (source lx)" and st: "start < length (source lx)"
    and ty: "second \<noteq> NUL" "long \<noteq> TOKEN_STRING" "short \<noteq> TOKEN_STRING"
  shows "one_or_two (at_offset lx (Suc start)) start second long short =
     Some (if take 1 (drop (Suc start) (source lx)) = [second]
           then token_to lx long start (Suc (Suc start)) else token_to lx short start (Suc start))"
proof (cases "Suc start = length (source lx)")
  case True
  with ty show ?thesis by (simp add: one_or_two_def peek_at_end make_token_to)
next
  case False
  with st have j: "Suc start < length (source lx)" by simp
  then have "take 1 (drop (Suc start) (source lx)) = [source lx ! Suc start]"
    by (simp add: take_Suc hd_drop_conv_nth)
  with j ty c show ?thesis by (simp add: one_or_two_def peek_at advance_at make_token_to)
qed

lemma take1_cases: "take 1 cs = [] \<or> (\<exists>d. take 1 cs = [d])"
  by (cases cs) auto

lemma punctuation_at:
  assumes c: "c_string (source lx)" and st: "start < length (source lx)"
    and scan: "scan_op (source lx ! start) (drop (Suc start) (source lx)) = (ty, lexeme, rest)"
  shows "punctuation (at_offset lx (Suc start)) start (source lx ! start) =
     Some (token_to lx ty start (start + length lexeme))"
  using scan take1_cases [of "drop (Suc start) (source lx)"]
  unfolding punctuation_def scan_op_def
  by (auto simp: one_or_two_at [OF c st] make_token_to two_char_ops_def one_char_ops_def
      split: if_splits)

end
