(* ===== verification/LexerSpec.thy ===== *)
theory LexerSpec
  imports Lexer
begin

text \<open>
  Correctness of the lexer: \<open>lexer_next\<close> refines the reference scanner of theory \<open>Lexer\<close>,
  its tokens carry the right text and position, every lexeme has the form its kind
  prescribes, the text skipped before a token is layout only, and a stream of lexemes
  separated by blanks is read back token by token.
\<close>

section \<open>Forms of lexemes and layout\<close>

definition lexeme_ok :: "token_type \<Rightarrow> string \<Rightarrow> bool" where
  "lexeme_ok ty w =
     (case ty of
        TOKEN_EOF \<Rightarrow> w = []
      | TOKEN_IDENTIFIER \<Rightarrow> w \<noteq> [] \<and> (isalpha (hd w) \<or> hd w = CHR ''_'') \<and> list_all ident_char (tl w)
      | TOKEN_INTEGER \<Rightarrow>
          (w \<noteq> [] \<and> list_all isdigit w)
          \<or> (2 \<le> length w \<and> hd w = CHR ''0'' \<and> (hd (tl w) = CHR ''x'' \<or> hd (tl w) = CHR ''X'')
             \<and> list_all isxdigit (tl (tl w)))
      | TOKEN_FLOAT \<Rightarrow>
          (case dropWhile isdigit w of
             e # d # ds \<Rightarrow> w \<noteq> [] \<and> isdigit (hd w) \<and> e = CHR ''.'' \<and> list_all isdigit (d # ds)
           | _ \<Rightarrow> False)
      | TOKEN_STRING \<Rightarrow> w \<noteq> [] \<and> hd w = QUOTE \<and> tl w \<noteq> [] \<and> scan_string (tl w) = (butlast (tl w), [QUOTE])
      | TOKEN_UNKNOWN \<Rightarrow> w \<noteq> []
      | _ \<Rightarrow> (w, ty) \<in> set two_char_ops \<or> (length w = 1 \<and> (hd w, ty) \<in> set one_char_ops))"

text \<open>White space and comments: a comment runs to the end of its line or of the text.\<close>

inductive layout :: "string \<Rightarrow> string \<Rightarrow> bool" where
  layout_nil: "layout [] rest"
| layout_space: "isspace c \<Longrightarrow> layout l rest \<Longrightarrow> layout (c # l) rest"
| layout_comment: "LF \<notin> set w \<Longrightarrow> (l @ rest = [] \<or> hd (l @ rest) = LF) \<Longrightarrow> layout l rest \<Longrightarrow>
    layout (CHR ''#'' # w @ l) rest"

inductive_cases layout_ConsE: "layout (c # l) rest"

lemma strip_layout_layout: "\<exists>l. s = l @ strip_layout s \<and> layout l (strip_layout s)"
proof (induction s rule: strip_layout.induct)
  case 1
  show ?case by (auto intro: layout_nil)
next
  case (2 c cs)
  consider "isspace c" | "\<not> isspace c" "c = CHR ''#''" | "\<not> isspace c" "c \<noteq> CHR ''#''" by blast
  then show ?case
  proof cases
    case 1
    with 2(1) obtain l where "cs = l @ strip_layout cs" "layout l (strip_layout cs)" by blast
    with 1 show ?thesis by (intro exI [of _ "c # l"]) (auto intro: layout_space)
  next
    case c: 2
    let ?t = "dropWhile (\<lambda>d. d \<noteq> LF) cs" and ?w = "takeWhile (\<lambda>d. d \<noteq> LF) cs"
    from c 2(2) obtain l where l: "?t = l @ strip_layout ?t" "layout l (strip_layout ?t)" by blast
    have "LF \<notin> set ?w" by (auto dest: set_takeWhileD)
    moreover have "?t = [] \<or> hd ?t = LF" using hd_dropWhile [of "\<lambda>d. d \<noteq> LF" cs] by auto
    then have "l @ strip_layout ?t = [] \<or> hd (l @ strip_layout ?t) = LF"
      by (simp only: l(1) [symmetric])
    ultimately have "layout (CHR ''#'' # ?w @ l) (strip_layout ?t)"
      by (rule layout_comment) (rule l(2))
    moreover have "c # cs = (CHR ''#'' # ?w @ l) @ strip_layout ?t"
      using arg_cong [OF l(1), of "\<lambda>x. c # ?w @ x"] c by simp
    ultimately show ?thesis using c by (intro exI [of _ "CHR ''#'' # ?w @ l"]) auto
  next
    case 3
    then show ?thesis by (auto intro: layout_nil)
  qed
qed

lemma scan_number_cases:
  assumes "scan_number c cs = (ty, lexeme, rest)"
  obtains (hex) x ds where "c = CHR ''0''" "cs = x # ds" "x = CHR ''x'' \<or> x = CHR ''X''"
      "ty = TOKEN_INTEGER" "lexeme = c # x # takeWhile isxdigit ds" "rest = dropWhile isxdigit ds"
  | (int) "ty = TOKEN_INTEGER" "lexeme = c # takeWhile isdigit cs" "rest = dropWhile isdigit cs"
  | (float) d ds where "ty = TOKEN_FLOAT" "dropWhile isdigit cs = CHR ''.'' # d # ds" "isdigit d"
      "lexeme = c # takeWhile isdigit cs @ CHR ''.'' # takeWhile isdigit (d # ds)"
      "rest = dropWhile isdigit (d # ds)"
proof -
  let ?hex = "c = CHR ''0'' \<and> cs \<noteq> [] \<and> (hd cs = CHR ''x'' \<or> hd cs = CHR ''X'')"
  show ?thesis
  proof (cases ?hex)
    case True
    with assms show ?thesis by (cases cs) (auto simp: scan_number_def intro: hex)
  next
    case False
    let ?int = "(TOKEN_INTEGER, c # takeWhile isdigit cs, dropWhile isdigit cs)"
    have eq: "scan_number c cs =
      (case dropWhile isdigit cs of
         e # d # ds \<Rightarrow>
           (if e = CHR ''.'' \<and> isdigit d
            then (TOKEN_FLOAT, c # takeWhile isdigit cs @ e # takeWhile isdigit (d # ds), dropWhile isdigit (d # ds))
            else ?int)
       | _ \<Rightarrow> ?int)"
      by (simp only: scan_number_def if_not_P [OF False])
    show ?thesis
    proof (cases "\<exists>d ds. dropWhile isdigit cs = CHR ''.'' # d # ds \<and> isdigit d")
      case True
      then obtain d ds where d: "dropWhile isdigit cs = CHR ''.'' # d # ds" "isdigit d" by blast
      with assms eq show ?thesis by (intro float [OF _ d]) simp_all
    next
      case False
      then have "scan_number c cs = ?int"
        unfolding eq by (auto split: list.split)
      with assms show ?thesis by (intro int) simp_all
    qed
  qed
qed

lemma scan_number_split: "scan_number c cs = (ty, lexeme, rest) \<Longrightarrow> c # cs = lexeme @ rest"
proof (erule scan_number_cases)
  fix d ds assume "dropWhile isdigit cs = CHR ''.'' # d # ds"
    and "lexeme = c # takeWhile isdigit cs @ CHR ''.'' # takeWhile isdigit (d # ds)"
    and "rest = dropWhile isdigit (d # ds)"
  then have "lexeme @ rest = c # takeWhile isdigit cs @ dropWhile isdigit cs" by simp
  then show ?thesis by simp
qed simp_all

lemma scan_op_split: "scan_op c cs = (ty, lexeme, rest) \<Longrightarrow> c # cs = lexeme @ rest"
  by (cases cs) (auto simp: scan_op_def split: option.splits)

lemma scan_cases:
  assumes "scan s = (ty, lexeme, rest)"
  obtains (eof) "strip_layout s = []" "ty = TOKEN_EOF" "lexeme = []" "rest = []"
  | (ident) c cs where "strip_layout s = c # cs" "isalpha c \<or> c = CHR ''_''"
      "ty = TOKEN_IDENTIFIER" "lexeme = c # takeWhile ident_char cs" "rest = dropWhile ident_char cs"
  | (num) c cs where "strip_layout s = c # cs" "isdigit c" "scan_number c cs = (ty, lexeme, rest)"
  | (str) cs b r where "strip_layout s = QUOTE # cs" "scan_string cs = (b, QUOTE # rest)"
      "ty = TOKEN_STRING" "lexeme = QUOTE # b @ [QUOTE]"
  | (bad) cs b where "strip_layout s = QUOTE # cs" "scan_string cs = (b, [])"
      "ty = TOKEN_UNKNOWN" "lexeme = QUOTE # b" "rest = []"
  | (oper) c cs where "strip_layout s = c # cs" "scan_op c cs = (ty, lexeme, rest)"
proof (cases "strip_layout s")
  case Nil
  with assms show ?thesis by (intro eof) (auto simp: scan_def)
next
  case (Cons c cs)
  consider (a) "isalpha c \<or> c = CHR ''_''" | (b) "\<not> (isalpha c \<or> c = CHR ''_'')" "isdigit c"
    | (c) "\<not> (isalpha c \<or> c = CHR ''_'')" "\<not> isdigit c" "c = QUOTE"
    | (d) "\<not> (isalpha c \<or> c = CHR ''_'')" "\<not> isdigit c" "c \<noteq> QUOTE" by blast
  then show ?thesis
  proof cases
    case a with Cons assms show ?thesis by (intro ident) (auto simp: scan_def)
  next
    case b with Cons assms show ?thesis by (intro num) (auto simp: scan_def)
  next
    case c
    obtain bd r where br: "scan_string cs = (bd, r)" by fastforce
    show ?thesis
    proof (cases r)
      case Nil
      with Cons br c assms show ?thesis by (intro bad) (auto simp: scan_def)
    next
      case (Cons q r')
      with scan_string_split [OF br] have "q = QUOTE" by simp
      with \<open>strip_layout s = c # cs\<close> Cons br c assms show ?thesis by (intro str) (auto simp: scan_def)
    qed
  next
    case d with Cons assms show ?thesis by (intro oper) (auto simp: scan_def)
  qed
qed

lemma scan_split: "scan s = (ty, lexeme, rest) \<Longrightarrow> strip_layout s = lexeme @ rest"
  by (erule scan_cases) (auto dest: scan_number_split scan_op_split scan_string_split)

section \<open>Refinement\<close>

lemma located_init: "located (lexer_init src)" "in_buffer (lexer_init src)"
  by (simp_all add: located_def lexer_init_def in_buffer_def)

lemma at_offset_start:
  "(at_offset lx a)\<lparr>token_start_line := x, token_start_column := y\<rparr>
     = at_offset (lx\<lparr>token_start_line := x, token_start_column := y\<rparr>) a"
  by (simp add: at_offset_def)

lemma lexer_next_at:
  assumes c: "c_string (source lx)" and b: "in_buffer lx" and l: "located lx"
    and scan: "scan (drop (current lx) (source lx)) = (ty, lexeme, rest)" and ty: "ty \<noteq> TOKEN_EOF"
    and a: "a = length (source lx) - length (lexeme @ rest)"
  shows "lexer_next lx =
     Some (token_to (lx\<lparr>token_start_line := pos_line (source lx) a,
                        token_start_column := pos_column (source lx) a\<rparr>)
             ty a (a + length lexeme))"
    and "drop a (source lx) = lexeme @ rest" and "a < length (source lx)"
proof -
  let ?s = "source lx"
  let ?lx = "lx\<lparr>token_start_line := pos_line ?s a, token_start_column := pos_column ?s a\<rparr>"
  have strip: "strip_layout (drop (current lx) ?s) = lexeme @ rest" by (rule scan_split [OF scan])
  obtain pre where pre: "drop (current lx) ?s = pre @ lexeme @ rest"
    using strip_layout_suffix [of "drop (current lx) ?s"] strip by metis
  have len: "length (lexeme @ rest) \<le> length ?s" using arg_cong [OF pre, of length] by simp
  have ne: "lexeme @ rest \<noteq> []" using scan ty strip by (auto simp: scan_def)
  show al: "a < length ?s" using a len ne by (cases "lexeme @ rest") auto
  show d: "drop a ?s = lexeme @ rest"
  proof -
    have "?s = (take (current lx) ?s @ pre) @ lexeme @ rest"
      using pre append_take_drop_id [of "current lx" ?s] by simp
    moreover from arg_cong [OF this, of length] a have "a = length (take (current lx) ?s @ pre)" by simp
    ultimately show ?thesis by (metis append_eq_conv_conj)
  qed
  have c': "c_string (source ?lx)" and st: "a < length (source ?lx)" using c al by simp_all
  have sa: "drop a ?s = ?s ! a # drop (Suc a) ?s" using al by (simp add: Cons_nth_drop_Suc)
  have nn: "?s ! a \<noteq> NUL" using c al by (auto simp: c_string_def dest: nth_mem)
  have skip: "skip_whitespace lx = Some (at_offset lx a)"
    using skip_whitespace_at [OF c, of "current lx"] b l strip a
    by (simp add: located_at_offset in_buffer_def)
  have next_eq: "lexer_next lx =
      (if isalpha (?s ! a) \<or> ?s ! a = CHR ''_'' then identifier_token (at_offset ?lx (Suc a)) a
       else if isdigit (?s ! a) then number_token (at_offset ?lx (Suc a)) a
       else if ?s ! a = QUOTE then string_token (at_offset ?lx (Suc a)) a
       else punctuation (at_offset ?lx (Suc a)) a (?s ! a))"
    unfolding lexer_next_def skip using advance_at [OF st c'] nn
    by (simp add: Let_def at_offset_start)
  have s: "strip_layout (drop (current lx) ?s) = ?s ! a # drop (Suc a) ?s" using strip d sa by simp
  show "lexer_next lx = Some (token_to ?lx ty a (a + length lexeme))"
  proof (cases "?s ! a = QUOTE")
    case True
    obtain bd r where br: "scan_string (drop (Suc a) ?s) = (bd, r)" by fastforce
    have "\<not> isalpha QUOTE" "\<not> isdigit QUOTE" by (simp_all add: ctype_defs)
    with True s scan br string_token_at [OF c' st, of bd r] next_eq show ?thesis
      by (auto simp: scan_def split: list.splits)
  next
    case False
    with s scan next_eq identifier_token_at [OF c' st] number_token_at [OF c' st, of ty lexeme rest]
      punctuation_at [OF c' st, of ty lexeme rest]
    show ?thesis by (auto simp: scan_def split: if_splits)
  qed
qed

lemma slice_prefix: "drop a s = w @ r \<Longrightarrow> a \<le> length s \<Longrightarrow> slice s a (length w) = Some w"
proof -
  assume h: "drop a s = w @ r" and a: "a \<le> length s"
  from arg_cong [OF h, of length] a have "length s = a + length w + length r" by simp
  with h show ?thesis by (simp add: slice_def)
qed

text \<open>The text the parser reads from a token: the lexeme, without the quotes of a string.\<close>

definition token_text :: "token_type \<Rightarrow> string \<Rightarrow> string" where
  "token_text ty w = (if ty = TOKEN_STRING then butlast (tl w) else w)"

lemma string_lexeme:
  "scan s = (TOKEN_STRING, w, r) \<Longrightarrow> \<exists>b. w = QUOTE # b @ [QUOTE]"
  by (erule scan_cases)
    (auto simp: scan_op_def two_char_ops_def one_char_ops_def elim: scan_number_cases
      split: option.splits if_splits)

lemma lexer_next_eof:
  assumes c: "c_string (source lx)" and b: "in_buffer lx" and l: "located lx"
    and s: "strip_layout (drop (current lx) (source lx)) = []"
  shows "\<exists>tok lx'. lexer_next lx = Some (tok, lx') \<and> tok_type tok = TOKEN_EOF
     \<and> tok_line tok = pos_line (source lx) (length (source lx))
     \<and> tok_column tok = pos_column (source lx) (length (source lx))"
proof -
  let ?n = "length (source lx)"
  have "skip_whitespace lx = Some (at_offset lx ?n)"
    using skip_whitespace_at [OF c, of "current lx"] b l s
    by (simp add: located_at_offset in_buffer_def)
  then show ?thesis
    using advance_at_end [of "lx\<lparr>token_start_line := pos_line (source lx) ?n,
        token_start_column := pos_column (source lx) ?n\<rparr>"]
    by (simp add: lexer_next_def Let_def at_offset_start make_token_def)
qed

text \<open>
  One call of \<open>lexer_next\<close>: the kind of the token, its text (as the parser copies it) and its
  line and column are those of the next lexeme of the remaining source, and the cursor stops
  right behind that lexeme.
\<close>

lemma lexer_next_scan:
  assumes "c_string (source lx)" "in_buffer lx" "located lx"
    and "scan (drop (current lx) (source lx)) = (ty, lexeme, rest)"
  shows "\<exists>tok lx'. lexer_next lx = Some (tok, lx') \<and> tok_type tok = ty
     \<and> tok_line tok = pos_line (source lx) (length (source lx) - length (lexeme @ rest))
     \<and> tok_column tok = pos_column (source lx) (length (source lx) - length (lexeme @ rest))
     \<and> (ty \<noteq> TOKEN_EOF \<longrightarrow>
          slice (source lx) (tok_start tok) (tok_length tok) = Some (token_text ty lexeme)
          \<and> source lx' = source lx \<and> drop (current lx') (source lx) = rest
          \<and> in_buffer lx' \<and> located lx')"
proof (cases "ty = TOKEN_EOF")
  case True
  with assms(4) have "strip_layout (drop (current lx) (source lx)) = []" "lexeme = []" "rest = []"
    by (auto simp: scan_op_def two_char_ops_def one_char_ops_def elim!: scan_cases scan_number_cases
        split: option.splits if_splits)
  with lexer_next_eof [OF assms(1-3)] True show ?thesis by auto
next
  case False
  define a where "a = length (source lx) - length (lexeme @ rest)"
  note at = lexer_next_at [OF assms False a_def]
  have e: "a + length lexeme \<le> length (source lx)" and r: "drop (a + length lexeme) (source lx) = rest"
    using arg_cong [OF at(2), of length] arg_cong [OF at(2), of "drop (length lexeme)"] at(3)
    by (auto simp: add.commute)
  have "slice (source lx) (if ty = TOKEN_STRING then a + 1 else a)
      (if ty = TOKEN_STRING then length lexeme - 2 else length lexeme) = Some (token_text ty lexeme)"
  proof (cases "ty = TOKEN_STRING")
    case True
    with assms(4) string_lexeme obtain b where w: "lexeme = QUOTE # b @ [QUOTE]" by metis
    have "drop (a + 1) (source lx) = b @ [QUOTE] @ rest"
      using arg_cong [OF at(2), of tl] w by (simp add: drop_Suc tl_drop)
    from slice_prefix [OF this] at(3) w True show ?thesis by (simp add: token_text_def butlast_append)
  next
    case False
    with slice_prefix [OF at(2)] at(3) show ?thesis by (simp add: token_text_def)
  qed
  with at(1) False e r show ?thesis
    unfolding a_def [symmetric] by (auto simp: token_to_def in_buffer_def)
qed

section \<open>Every lexeme has the form of its kind\<close>

lemma scan_number_ok: "isdigit c \<Longrightarrow> scan_number c cs = (ty, w, r) \<Longrightarrow> lexeme_ok ty w"
proof (erule scan_number_cases)
  assume "isdigit c" "ty = TOKEN_INTEGER" "w = c # takeWhile isdigit cs"
  then show ?thesis by (auto simp: lexeme_ok_def list_all_iff dest: set_takeWhileD)
next
  fix x ds assume "c = CHR ''0''" "ty = TOKEN_INTEGER" "x = CHR ''x'' \<or> x = CHR ''X''"
    "w = c # x # takeWhile isxdigit ds"
  then show ?thesis by (auto simp: lexeme_ok_def list_all_iff dest: set_takeWhileD)
next
  fix d ds assume h: "isdigit c" "ty = TOKEN_FLOAT" "isdigit d"
    "w = c # takeWhile isdigit cs @ CHR ''.'' # takeWhile isdigit (d # ds)"
  have "\<not> isdigit (CHR ''.'')" by (simp add: ctype_defs)
  then have "dropWhile isdigit w = CHR ''.'' # d # takeWhile isdigit ds"
    using h by (simp add: dropWhile_append) (auto dest: set_takeWhileD)
  with h show ?thesis by (auto simp: lexeme_ok_def list_all_iff dest: set_takeWhileD)
qed

definition operator_type :: "token_type \<Rightarrow> bool" where
  "operator_type ty \<longleftrightarrow> ty \<notin> {TOKEN_EOF, TOKEN_IDENTIFIER, TOKEN_STRING, TOKEN_INTEGER, TOKEN_FLOAT, TOKEN_UNKNOWN}"

lemma op_lexeme_ok:
  "operator_type ty \<Longrightarrow>
     lexeme_ok ty w \<longleftrightarrow> (w, ty) \<in> set two_char_ops \<or> (length w = 1 \<and> (hd w, ty) \<in> set one_char_ops)"
  by (cases ty) (simp_all add: lexeme_ok_def operator_type_def)

lemma ops_operator_type:
  "(w, t) \<in> set two_char_ops \<Longrightarrow> operator_type t" "(c, t) \<in> set one_char_ops \<Longrightarrow> operator_type t"
  by (auto simp: two_char_ops_def one_char_ops_def operator_type_def)

lemma scan_op_ok: "scan_op c cs = (ty, w, r) \<Longrightarrow> lexeme_ok ty w"
proof -
  assume h: "scan_op c cs = (ty, w, r)"
  show ?thesis
  proof (cases "map_of two_char_ops (c # take 1 cs)")
    case (Some t)
    from map_of_SomeD [OF Some] have m: "(c # take 1 cs, t) \<in> set two_char_ops" .
    with ops_operator_type(1) [OF m] Some h show ?thesis by (auto simp: scan_op_def op_lexeme_ok)
  next
    case None
    show ?thesis
    proof (cases "map_of one_char_ops c")
      case (Some t)
      from map_of_SomeD [OF Some] have m: "(c, t) \<in> set one_char_ops" .
      with ops_operator_type(2) [OF m] None Some h show ?thesis by (auto simp: scan_op_def op_lexeme_ok)
    qed (use None h in \<open>auto simp: scan_op_def lexeme_ok_def\<close>)
  qed
qed

lemma scan_string_trunc: "scan_string cs = (b, q # r) \<Longrightarrow> scan_string (b @ [q]) = (b, [q])"
  by (induction cs arbitrary: b rule: scan_string.induct)
    (auto simp: Let_def split: if_splits list.splits prod.splits)

lemma scan_lexeme_ok: "scan s = (ty, w, r) \<Longrightarrow> lexeme_ok ty w"
proof (erule scan_cases)
  fix c cs assume "isalpha c \<or> c = CHR ''_''" "ty = TOKEN_IDENTIFIER" "w = c # takeWhile ident_char cs"
  then show ?thesis by (auto simp: lexeme_ok_def list_all_iff dest: set_takeWhileD)
next
  fix cs b r' assume "scan_string cs = (b, QUOTE # r)" "ty = TOKEN_STRING" "w = QUOTE # b @ [QUOTE]"
  then show ?thesis by (auto simp: lexeme_ok_def butlast_append dest: scan_string_trunc)
qed (auto simp: lexeme_ok_def [of TOKEN_EOF] lexeme_ok_def [of TOKEN_UNKNOWN]
    intro: scan_number_ok scan_op_ok)

section \<open>Reading back printed lexemes\<close>

text \<open>A lexeme followed by a blank (or by the end of the text) is scanned back as itself.\<close>

definition blank_or_end :: "string \<Rightarrow> bool" where
  "blank_or_end r \<longleftrightarrow> r = [] \<or> isspace (hd r)"

lemma isspace_classes:
  "isspace c \<Longrightarrow> \<not> isalnum c \<and> \<not> isalpha c \<and> \<not> isdigit c \<and> \<not> isxdigit c \<and> c \<noteq> CHR ''_''
     \<and> c \<noteq> CHR ''x'' \<and> c \<noteq> CHR ''X'' \<and> c \<noteq> CHR ''.'' \<and> c \<noteq> CHR ''='' \<and> c \<noteq> CHR ''&'' \<and> c \<noteq> CHR ''|''"
  by (auto simp: ctype_defs)

lemma takeWhile_blank:
  assumes "list_all P w" "blank_or_end r" "\<And>c. isspace c \<Longrightarrow> \<not> P c"
  shows "takeWhile P (w @ r) = w" "dropWhile P (w @ r) = r"
  using assms by (cases r; auto simp: list_all_iff blank_or_end_def takeWhile_append dropWhile_append)+

lemma scan_string_append:
  "scan_string cs = (b, q # r) \<Longrightarrow> scan_string (cs @ t) = (b, q # r @ t)"
  by (induction cs arbitrary: b rule: scan_string.induct)
    (auto simp: Let_def split: if_splits list.splits prod.splits)

lemma strip_layout_token: "\<not> isspace c \<Longrightarrow> c \<noteq> CHR ''#'' \<Longrightarrow> strip_layout (c # cs) = c # cs"
  by simp

lemma scan_ident_back:
  assumes "lexeme_ok TOKEN_IDENTIFIER w" "blank_or_end r"
  shows "scan (w @ r) = (TOKEN_IDENTIFIER, w, r)"
proof (cases w)
  case (Cons c cs)
  with assms have c: "isalpha c \<or> c = CHR ''_''" "list_all ident_char cs" by (auto simp: lexeme_ok_def)
  then have "\<not> isspace c" "c \<noteq> CHR ''#''" by (auto simp: ctype_defs)
  moreover have "takeWhile ident_char (cs @ r) = cs" "dropWhile ident_char (cs @ r) = r"
    using takeWhile_blank [OF c(2) assms(2)] isspace_classes by (auto simp: ident_char_def)
  ultimately show ?thesis using Cons c by (simp add: scan_def)
qed (use assms in \<open>simp add: lexeme_ok_def\<close>)

lemma scan_string_back:
  assumes "lexeme_ok TOKEN_STRING w"
  shows "scan (w @ r) = (TOKEN_STRING, w, r)"
proof -
  from assms obtain cs where w: "w = QUOTE # cs" and s: "scan_string cs = (butlast cs, [QUOTE])"
    by (cases w) (auto simp: lexeme_ok_def)
  have "\<not> isspace QUOTE" "\<not> isalpha QUOTE" "\<not> isdigit QUOTE" by (simp_all add: ctype_defs)
  moreover from scan_string_split [OF s] have "cs = butlast cs @ [QUOTE]" by simp
  ultimately show ?thesis using w scan_string_append [OF s, of r] by (simp add: scan_def)
qed

lemma scan_number_back_int:
  assumes "lexeme_ok TOKEN_INTEGER (c # cs)" "isdigit c" "blank_or_end r"
  shows "scan_number c (cs @ r) = (TOKEN_INTEGER, c # cs, r)"
proof (cases "list_all isdigit cs")
  case True
  have tw: "takeWhile isdigit (cs @ r) = cs" "dropWhile isdigit (cs @ r) = r"
    using takeWhile_blank [OF True assms(3)] isspace_classes by auto
  have hex: "\<not> (cs @ r \<noteq> [] \<and> (hd (cs @ r) = CHR ''x'' \<or> hd (cs @ r) = CHR ''X''))"
  proof (cases cs)
    case Nil then show ?thesis using assms(3) isspace_classes by (auto simp: blank_or_end_def)
  next
    case (Cons d ds)
    have "\<not> isdigit (CHR ''x'')" "\<not> isdigit (CHR ''X'')" by (simp_all add: ctype_defs)
    with Cons True show ?thesis by auto
  qed
  have "\<not> (\<exists>d ds. r = CHR ''.'' # d # ds)" using assms(3) isspace_classes [of "CHR ''.''"] by (auto simp: blank_or_end_def)
  then show ?thesis using hex tw
    by (auto simp: scan_number_def split: list.split)
next
  case False
  with assms have h: "c = CHR ''0''" "cs \<noteq> []" "hd cs = CHR ''x'' \<or> hd cs = CHR ''X''" "list_all isxdigit (tl cs)"
    by (auto simp: lexeme_ok_def)
  have tw: "takeWhile isxdigit (tl cs @ r) = tl cs" "dropWhile isxdigit (tl cs @ r) = r"
    using takeWhile_blank [OF h(4) assms(3)] isspace_classes by auto
  with h show ?thesis by (cases cs) (auto simp: scan_number_def)
qed

lemma scan_number_back_float:
  assumes "lexeme_ok TOKEN_FLOAT (c # cs)" "blank_or_end r"
  shows "isdigit c" "scan_number c (cs @ r) = (TOKEN_FLOAT, c # cs, r)"
proof -
  from assms obtain d ds where c: "isdigit c" and f: "dropWhile isdigit cs = CHR ''.'' # d # ds"
    and d: "list_all isdigit (d # ds)"
    by (auto simp: lexeme_ok_def split: list.splits if_splits)
  show "isdigit c" by (rule c)
  have cs: "cs = takeWhile isdigit cs @ CHR ''.'' # d # ds"
    using takeWhile_dropWhile_id [of isdigit cs] f by simp
  have ne: "dropWhile isdigit cs \<noteq> []" using f by simp
  then have nd: "\<not> (\<forall>x\<in>set cs. isdigit x)" by (simp add: dropWhile_eq_Nil_conv)
  then have df: "dropWhile isdigit (cs @ r) = CHR ''.'' # d # ds @ r"
    and tf: "takeWhile isdigit (cs @ r) = takeWhile isdigit cs"
    using f by (simp_all only: dropWhile_append takeWhile_append if_False append_Cons)
  have tw: "takeWhile isdigit (d # ds @ r) = d # ds" "dropWhile isdigit (d # ds @ r) = r"
    using takeWhile_blank [OF d assms(2)] isspace_classes by auto
  have hex: "\<not> (hd (cs @ r) = CHR ''x'' \<or> hd (cs @ r) = CHR ''X'')"
  proof (cases cs)
    case (Cons e es)
    have "\<not> isdigit (CHR ''x'')" "\<not> isdigit (CHR ''X'')" by (simp_all add: ctype_defs)
    with Cons f show ?thesis by (auto split: if_splits)
  qed (use ne in simp)
  have dd: "isdigit d" using d by simp
  from df tf tw hex dd show "scan_number c (cs @ r) = (TOKEN_FLOAT, c # cs, r)"
    using cs by (simp add: scan_number_def)
qed

lemma two_char_keys: "w \<in> fst ` set two_char_ops \<Longrightarrow> length w = 2 \<and> \<not> isspace (w ! 1)"
proof -
  have "\<forall>w \<in> fst ` set two_char_ops. length w = 2 \<and> \<not> isspace (w ! 1)"
    by (simp add: two_char_ops_def ctype_defs)
  then show "w \<in> fst ` set two_char_ops \<Longrightarrow> length w = 2 \<and> \<not> isspace (w ! 1)" by blast
qed

lemma scan_op_back1:
  assumes "(c, ty) \<in> set one_char_ops" "blank_or_end r"
  shows "scan_op c r = (ty, [c], r)"
proof -
  have "c # take 1 r \<notin> fst ` set two_char_ops"
    using assms(2) two_char_keys [of "c # take 1 r"] by (cases r) (auto simp: blank_or_end_def)
  then have "map_of two_char_ops (c # take 1 r) = None" by (simp add: map_of_eq_None_iff)
  moreover have "map_of one_char_ops c = Some ty"
    by (rule map_of_is_SomeI [OF _ assms(1)]) (simp add: one_char_ops_def)
  ultimately show ?thesis by (simp add: scan_op_def)
qed

lemma two_char_ops_shape:
  assumes "(w, ty) \<in> set two_char_ops"
  shows "\<exists>c d. w = [c, d] \<and> map_of two_char_ops w = Some ty \<and> \<not> isspace c \<and> c \<noteq> CHR ''#''
    \<and> \<not> isalpha c \<and> c \<noteq> CHR ''_'' \<and> \<not> isdigit c \<and> c \<noteq> QUOTE"
proof -
  have "\<forall>(w, ty) \<in> set two_char_ops. length w = 2 \<and> map_of two_char_ops w = Some ty
    \<and> \<not> isspace (w ! 0) \<and> w ! 0 \<noteq> CHR ''#'' \<and> \<not> isalpha (w ! 0) \<and> w ! 0 \<noteq> CHR ''_''
    \<and> \<not> isdigit (w ! 0) \<and> w ! 0 \<noteq> QUOTE"
    by (simp add: two_char_ops_def ctype_defs)
  with assms show ?thesis
    by (cases w; cases "tl w") auto
qed

lemma scan_op_scan:
  "\<not> isspace c \<Longrightarrow> c \<noteq> CHR ''#'' \<Longrightarrow> \<not> isalpha c \<Longrightarrow> c \<noteq> CHR ''_'' \<Longrightarrow> \<not> isdigit c \<Longrightarrow> c \<noteq> QUOTE \<Longrightarrow>
     scan (c # cs) = scan_op c cs"
  by (simp add: scan_def)

lemma one_char_class:
  "(c, ty) \<in> set one_char_ops \<Longrightarrow> \<not> isspace c \<and> c \<noteq> CHR ''#'' \<and> \<not> isalpha c \<and> c \<noteq> CHR ''_'' \<and> \<not> isdigit c \<and> c \<noteq> QUOTE"
  by (auto simp: one_char_ops_def ctype_defs)

lemma scan_operator_back:
  assumes "operator_type ty" "lexeme_ok ty w" "blank_or_end r"
  shows "scan (w @ r) = (ty, w, r)"
proof -
  from assms(1,2) consider "(w, ty) \<in> set two_char_ops" | "length w = 1" "(hd w, ty) \<in> set one_char_ops"
    by (auto simp: op_lexeme_ok)
  then show ?thesis
  proof cases
    case 1
    from two_char_ops_shape [OF this] obtain c d where "w = [c, d]" "map_of two_char_ops w = Some ty"
      and "scan (w @ r) = scan_op c (d # r)" by (auto simp: scan_op_scan)
    then show ?thesis by (simp add: scan_op_def)
  next
    case 2
    then obtain c where c: "w = [c]" by (cases w) auto
    with 2 have op: "(c, ty) \<in> set one_char_ops" by simp
    have "scan (c # r) = scan_op c r" using one_char_class [OF op] by (simp add: scan_op_scan)
    then show ?thesis using c scan_op_back1 [OF op assms(3)] by simp
  qed
qed

lemma scan_back:
  assumes "lexeme_ok ty w" "ty \<noteq> TOKEN_EOF" "ty \<noteq> TOKEN_UNKNOWN" "blank_or_end r"
  shows "scan (w @ r) = (ty, w, r)"
proof -
  have num: "scan (w @ r) = (ty, w, r)"
    if "isdigit c" "w = c # cs" "scan_number c (cs @ r) = (ty, w, r)" for c cs
  proof -
    from \<open>isdigit c\<close> have "\<not> isspace c" "c \<noteq> CHR ''#''" "\<not> isalpha c" "c \<noteq> CHR ''_''"
      by (auto simp: ctype_defs)
    with that show ?thesis by (simp add: scan_def)
  qed
  consider "ty = TOKEN_IDENTIFIER" | "ty = TOKEN_STRING" | (i) "ty = TOKEN_INTEGER" | (f) "ty = TOKEN_FLOAT"
    | "operator_type ty"
    using assms by (auto simp: operator_type_def)
  then show ?thesis
  proof cases
    case i
    with assms(1) obtain c cs where w: "w = c # cs" "isdigit c"
      by (cases w) (auto simp: lexeme_ok_def ctype_defs)
    with num scan_number_back_int assms i show ?thesis by blast
  next
    case f
    with assms(1) obtain c cs where w: "w = c # cs" by (cases w) (auto simp: lexeme_ok_def)
    with num scan_number_back_float assms f show ?thesis by blast
  qed (use assms in \<open>simp_all add: scan_ident_back scan_string_back scan_operator_back\<close>)
qed

section \<open>The token stream of a text\<close>

text \<open>
  \<open>lex_tokens\<close> calls \<open>lexer_next\<close> until it returns \<open>TOKEN_EOF\<close>, as the parser does, and
  copies the text of every token; \<open>scan_all\<close> is the same stream by the reference scanner,
  each lexeme with its offset in a text of \<open>n\<close> bytes.
\<close>

lemma lexer_next_Some:
  assumes "lexer_next lx = Some (tok, lx')"
  shows "in_buffer lx" "source lx' = source lx" "current lx < current lx'"
    "tok_type tok \<noteq> TOKEN_EOF \<Longrightarrow> in_buffer lx'"
proof -
  from assms obtain c where "peek lx = Some c"
    by (subst (asm) lexer_next_def, subst (asm) skip_whitespace.simps) (auto split: Option.bind_splits)
  then show b: "in_buffer lx" by (simp add: in_buffer_def peek_bound)
  from lexer_next_wp [OF b] assms
  show "source lx' = source lx" "current lx < current lx'" "tok_type tok \<noteq> TOKEN_EOF \<Longrightarrow> in_buffer lx'"
    by simp_all
qed

lemma lexer_next_decreases:
  "lexer_next lx = Some (tok, lx') \<Longrightarrow> Suc (length (source lx')) - current lx' < Suc (length (source lx)) - current lx"
  using lexer_next_Some(1-3) [of lx tok lx'] by (simp add: in_buffer_def)

type_synonym located_token = "token_type \<times> string \<times> nat \<times> nat"

function lex_tokens :: "lexer \<Rightarrow> located_token list option" where
  "lex_tokens lx = do {
     (tok, lx') \<leftarrow> lexer_next lx;
     if tok_type tok = TOKEN_EOF then Some []
     else do {
       w \<leftarrow> slice (source lx) (tok_start tok) (tok_length tok);
       ts \<leftarrow> lex_tokens lx';
       Some ((tok_type tok, w, tok_line tok, tok_column tok) # ts)
     }
   }"
  by pat_completeness auto
termination
  by (relation "measure (\<lambda>lx. Suc (length (source lx)) - current lx)")
    (auto dest!: lexer_next_decreases)

declare lex_tokens.simps [simp del]

lemma lex_tokens_total:
  "in_buffer lx \<Longrightarrow> wp (lex_tokens lx) (\<lambda>ts. length ts \<le> length (source lx) - current lx)"
proof (induction lx rule: lex_tokens.induct)
  case (1 lx)
  from lexer_next_wp [OF "1.prems"] obtain tok lx' where n: "lexer_next lx = Some (tok, lx')"
    and f: "source lx' = source lx" "current lx < current lx'"
    and t: "tok_type tok \<noteq> TOKEN_EOF \<Longrightarrow> in_buffer lx' \<and> tok_start tok + tok_length tok \<le> length (source lx)"
    by (auto simp: wp_iff)
  show ?case
  proof (cases "tok_type tok = TOKEN_EOF")
    case True
    with n show ?thesis by (subst lex_tokens.simps) simp
  next
    case False
    with t obtain w where w: "slice (source lx) (tok_start tok) (tok_length tok) = Some w" by (simp add: slice_def)
    from "1.IH" [OF n refl False w] t [OF False] obtain ts where ts: "lex_tokens lx' = Some ts"
      "length ts \<le> length (source lx) - current lx'" by (auto simp: wp_iff f)
    with f t [OF False] have "Suc (length ts) \<le> length (source lx) - current lx" by (auto simp: in_buffer_def)
    with n False w ts show ?thesis by (subst lex_tokens.simps) simp
  qed
qed

lemma scan_nonempty: "scan s = (ty, w, r) \<Longrightarrow> ty \<noteq> TOKEN_EOF \<Longrightarrow> w \<noteq> []"
proof -
  assume h: "scan s = (ty, w, r)" "ty \<noteq> TOKEN_EOF"
  have "\<not> lexeme_ok ty []"
    using h(2) by (cases ty) (auto simp: lexeme_ok_def two_char_ops_def)
  with scan_lexeme_ok [OF h(1)] show ?thesis by auto
qed

lemma strip_layout_length: "length (strip_layout s) \<le> length s"
  using strip_layout_layout [of s] by (metis length_append le_add2)

lemma scan_shorter: "scan s = (ty, w, r) \<Longrightarrow> ty \<noteq> TOKEN_EOF \<Longrightarrow> length r < length s"
  using scan_split [of s ty w r] scan_nonempty [of s ty w r] strip_layout_length [of s] by (cases w) auto

function scan_all :: "nat \<Rightarrow> string \<Rightarrow> (token_type \<times> string \<times> nat) list" where
  "scan_all n s =
     (case scan s of (ty, w, r) \<Rightarrow>
        if ty = TOKEN_EOF then [] else (ty, w, n - length (w @ r)) # scan_all n r)"
  by pat_completeness auto
termination
  by (relation "measure (\<lambda>(n, s). length s)") (auto dest: scan_shorter [OF sym])

declare scan_all.simps [simp del]

definition located_text :: "string \<Rightarrow> token_type \<times> string \<times> nat \<Rightarrow> located_token" where
  "located_text src = (\<lambda>(ty, w, a). (ty, token_text ty w, pos_line src a, pos_column src a))"

lemma lex_tokens_scan_all:
  assumes "c_string (source lx)" "in_buffer lx" "located lx"
  shows "lex_tokens lx =
    Some (map (located_text (source lx)) (scan_all (length (source lx)) (drop (current lx) (source lx))))"
  using assms
proof (induction "length (source lx) - current lx" arbitrary: lx rule: less_induct)
  case less
  obtain ty w r where s: "scan (drop (current lx) (source lx)) = (ty, w, r)" by (cases "scan (drop (current lx) (source lx))")
  from lexer_next_scan [OF less.prems s] obtain tok lx' where n: "lexer_next lx = Some (tok, lx')"
    and t: "tok_type tok = ty" "tok_line tok = pos_line (source lx) (length (source lx) - length (w @ r))"
      "tok_column tok = pos_column (source lx) (length (source lx) - length (w @ r))"
    and k: "ty \<noteq> TOKEN_EOF \<Longrightarrow> slice (source lx) (tok_start tok) (tok_length tok) = Some (token_text ty w)
      \<and> source lx' = source lx \<and> drop (current lx') (source lx) = r \<and> in_buffer lx' \<and> located lx'"
    by blast
  show ?case
  proof (cases "ty = TOKEN_EOF")
    case True
    with n t s show ?thesis by (subst lex_tokens.simps, subst scan_all.simps) simp
  next
    case False
    note k = k [OF False]
    have "current lx < current lx'" by (rule lexer_next_Some(3) [OF n])
    moreover have "current lx' \<le> length (source lx)" using k by (auto simp: in_buffer_def)
    ultimately have "length (source lx') - current lx' < length (source lx) - current lx" using k by simp
    from less.hyps [OF this] k less.prems
    have "lex_tokens lx' = Some (map (located_text (source lx)) (scan_all (length (source lx)) r))" by simp
    with False n t s k show ?thesis
      by (subst lex_tokens.simps, subst scan_all.simps) (simp add: located_text_def)
  qed
qed

text \<open>
  C1. The lexer implements the reference scanner on every source text: calling \<open>lexer_next\<close>
  until the end of file terminates, never reads outside the buffer, and gives exactly the
  reference token stream: kinds, texts (strings without their quotes), lines and columns.
\<close>

theorem lexer_refines_scanner:
  assumes "c_string src"
  shows "lex_tokens (lexer_init src) = Some (map (located_text src) (scan_all (length src) src))"
  using lex_tokens_scan_all [of "lexer_init src"] located_init [of src] assms
  by (simp add: lexer_init_def)

theorem lexer_refines_scanner_witness:
  "lex_tokens (lexer_init ''  let x'') =
     Some [(TOKEN_IDENTIFIER, ''let'', 1, 3), (TOKEN_IDENTIFIER, ''x'', 1, 7)]"
proof -
  have c: "c_string ''  let x''" by code_simp
  have s: "map (located_text ''  let x'') (scan_all (length ''  let x'') ''  let x'') =
      [(TOKEN_IDENTIFIER, ''let'', 1, 3), (TOKEN_IDENTIFIER, ''x'', 1, 7)]" by code_simp
  show ?thesis using lexer_refines_scanner [OF c] by (simp only: s)
qed

section \<open>Round trip\<close>

definition unlex :: "(token_type \<times> string) list \<Rightarrow> string" where
  "unlex ws = concat (map (\<lambda>(ty, w). w @ '' '') ws)"

definition plain_token :: "token_type \<times> string \<Rightarrow> bool" where
  "plain_token = (\<lambda>(ty, w). lexeme_ok ty w \<and> ty \<noteq> TOKEN_EOF \<and> ty \<noteq> TOKEN_UNKNOWN)"

lemma scan_space: "scan (CHR '' '' # s) = scan s"
  by (simp add: scan_def ctype_defs)

lemma scan_all_space: "scan_all n (CHR '' '' # s) = scan_all n s"
  by (subst (1 2) scan_all.simps) (simp only: scan_space)

lemma scan_all_unlex:
  "list_all plain_token ws \<Longrightarrow> map (\<lambda>(ty, w, a). (ty, w)) (scan_all n (unlex ws)) = ws"
proof (induction ws)
  case Nil
  have "scan_all n [] = []" by (subst scan_all.simps) (simp add: scan_def)
  then show ?case by (simp add: unlex_def)
next
  case (Cons tw ws)
  obtain ty w where tw: "tw = (ty, w)" by (cases tw)
  with Cons.prems have p: "lexeme_ok ty w" "ty \<noteq> TOKEN_EOF" "ty \<noteq> TOKEN_UNKNOWN" and ws: "list_all plain_token ws"
    by (auto simp: plain_token_def)
  have "blank_or_end (CHR '' '' # unlex ws)" by (simp add: blank_or_end_def ctype_defs)
  from scan_back [OF p this] have s: "scan (unlex (tw # ws)) = (ty, w, CHR '' '' # unlex ws)"
    by (simp add: unlex_def tw)
  show ?case
    unfolding scan_all.simps [of n "unlex (tw # ws)"] s
    using p Cons.IH [OF ws] by (simp add: scan_all_space tw)
qed

lemma map_located_text:
  "map (\<lambda>(ty, w, l, c). (ty, w)) (map (located_text src) xs) =
     map (\<lambda>(ty, w). (ty, token_text ty w)) (map (\<lambda>(ty, w, a). (ty, w)) xs)"
  by (simp add: located_text_def comp_def case_prod_unfold)

text \<open>
  C2. Round trip: the lexemes of any token sequence, written one after the other with a blank
  behind each, are read back as that sequence of tokens. So the lexer accepts every lexeme of
  the form \<open>lexeme_ok\<close> and splits at blanks only (never inside a string).
\<close>

theorem lexer_roundtrip:
  assumes "list_all plain_token ws" "c_string (unlex ws)"
  shows "map_option (map (\<lambda>(ty, w, l, c). (ty, w))) (lex_tokens (lexer_init (unlex ws))) =
    Some (map (\<lambda>(ty, w). (ty, token_text ty w)) ws)"
  using lex_tokens_scan_all [of "lexer_init (unlex ws)"] located_init [of "unlex ws"] assms
    scan_all_unlex [OF assms(1)]
  by (simp add: lexer_init_def map_located_text del: map_map)

theorem lexer_roundtrip_witness:
  "map_option (map (\<lambda>(ty, w, l, c). (ty, w))) (lex_tokens (lexer_init ''x >= 0x1F ''))
     = Some [(TOKEN_IDENTIFIER, ''x''), (TOKEN_GREATER_EQUAL, ''>=''), (TOKEN_INTEGER, ''0x1F'')]"
proof -
  let ?ws = "[(TOKEN_IDENTIFIER, ''x''), (TOKEN_GREATER_EQUAL, ''>=''), (TOKEN_INTEGER, ''0x1F'')]"
  have u: "unlex ?ws = ''x >= 0x1F ''" by (simp add: unlex_def)
  have p: "list_all plain_token ?ws" by code_simp
  have c: "c_string (unlex ?ws)" by code_simp
  show ?thesis using lexer_roundtrip [OF p c] by (simp add: u token_text_def)
qed

section \<open>Form of the tokens\<close>

text \<open>
  C3. What one call of \<open>lexer_next\<close> skips and takes: the remaining text is a run of layout
  (white space, and comments up to the end of their line), then a lexeme of the form its kind
  prescribes, then the text where the cursor stops. The token points at that lexeme: it starts right behind the
  layout and is as long as the lexeme, without the two quotes when it is a string. Only the end of the text is \<open>TOKEN_EOF\<close>.
\<close>

theorem lexer_splits_layout:
  assumes "c_string (source lx)" "in_buffer lx" "located lx" "lexer_next lx = Some (tok, lx')"
  shows "\<exists>l w rest. drop (current lx) (source lx) = l @ w @ rest \<and> layout l (w @ rest)
    \<and> lexeme_ok (tok_type tok) w
    \<and> (if tok_type tok = TOKEN_EOF then rest = [] else
        drop (current lx') (source lx) = rest
        \<and> (if tok_type tok = TOKEN_STRING then tok_start tok = current lx + length l + 1 \<and> tok_length tok + 2 = length w
           else tok_start tok = current lx + length l \<and> tok_length tok = length w))"
proof -
  let ?s = "drop (current lx) (source lx)"
  obtain ty w r where s: "scan ?s = (ty, w, r)" by (cases "scan ?s")
  with lexer_next_scan [OF assms(1-3) s] assms(4)
  have t: "tok_type tok = ty" "ty \<noteq> TOKEN_EOF \<Longrightarrow> drop (current lx') (source lx) = r" by auto
  have e: "ty = TOKEN_EOF \<Longrightarrow> r = []" using s
    by (auto simp: scan_op_def two_char_ops_def one_char_ops_def elim!: scan_cases scan_number_cases
        split: option.splits if_splits)
  from strip_layout_layout [of ?s] obtain l where l: "?s = l @ w @ r" "layout l (w @ r)"
    unfolding scan_split [OF s] by blast
  have place: "if ty = TOKEN_STRING then tok_start tok = current lx + length l + 1 \<and> tok_length tok + 2 = length w
      else tok_start tok = current lx + length l \<and> tok_length tok = length w" if "ty \<noteq> TOKEN_EOF"
  proof -
    define a where "a = length (source lx) - length (w @ r)"
    have "a = current lx + length l" using arg_cong [OF l(1), of length] assms(2) by (simp add: a_def in_buffer_def)
    then show ?thesis using lexer_next_at(1) [OF assms(1-3) s that a_def] assms(4) string_lexeme [of ?s w r] s
      by (auto simp: token_to_def)
  qed
  show ?thesis
    by (rule exI [of _ l], rule exI [of _ w], rule exI [of _ r]) (use t e l place scan_lexeme_ok [OF s] in auto)
qed

theorem lexer_splits_layout_witness:
  "\<exists>tok lx' l w rest. lexer_next (lexer_init ('' '' @ QUOTE # ''ab'' @ QUOTE # '';'')) = Some (tok, lx') \<and> tok_type tok = TOKEN_STRING
    \<and> '' '' @ QUOTE # ''ab'' @ QUOTE # '';'' = l @ w @ rest \<and> layout l (w @ rest) \<and> lexeme_ok TOKEN_STRING w
    \<and> tok_start tok = length l + 1 \<and> tok_length tok + 2 = length w"
proof -
  let ?lx = "lexer_init ('' '' @ QUOTE # ''ab'' @ QUOTE # '';'')"
  have c: "c_string (source ?lx)" by code_simp
  have "map_option (\<lambda>(tok, _). tok_type tok) (lexer_next ?lx) = Some TOKEN_STRING" by code_simp
  then obtain tok lx' where n: "lexer_next ?lx = Some (tok, lx')" "tok_type tok = TOKEN_STRING" by auto
  have i: "current ?lx = 0" "source ?lx = '' '' @ QUOTE # ''ab'' @ QUOTE # '';''" by (simp_all add: lexer_init_def)
  from lexer_splits_layout [OF c located_init(2) located_init(1) n(1)] n show ?thesis unfolding i by auto
qed

end
