(* ===== verification/Ast.thy ===== *)
theory Ast
  imports CLib
begin

text \<open>
  The syntax tree, \<open>include/vnt/ast.h\<close>, \<open>include/vnt/operators.h\<close> and \<open>src/ast.c\<close>. One
  constructor per node type, its arguments the members of the node's struct in their order.
  A chain of nodes linked by \<open>next\<close> is a list and the NULL pointer is \<open>[]\<close>; an optional
  \<open>char *\<close> is an option. The element counts that the C nodes store next to a chain or an array
  are kept, so that their agreement with the chain is a statement about the parser
  (\<open>node_ok\<close>). A float literal keeps the text that the parser hands to \<open>strtod\<close>. The
  constructors \<open>ast_create_*\<close> cannot fail here: running out of memory is not modelled.
\<close>

section \<open>Data\<close>

datatype binary_operator =
    BINARY_ADD | BINARY_SUBTRACT | BINARY_MULTIPLY | BINARY_DIVIDE | BINARY_MODULO
  | BINARY_EQUAL | BINARY_NOT_EQUAL
  | BINARY_GREATER | BINARY_LESS | BINARY_GREATER_EQUAL | BINARY_LESS_EQUAL
  | BINARY_AND | BINARY_OR

datatype unary_operator =
    UNARY_NOT | UNARY_NEGATE | UNARY_REFERENCE | UNARY_DEREFERENCE

datatype ast =
    Program "ast list"
  | PrintStatement ast
  | IfStatement ast "ast list" "ast list"
  | WhileStatement ast "ast list"
  | FunctionDeclaration string "string list" "string option list" nat "string option" bool "ast list"
  | StructDeclaration string "string list" nat
  | FunctionCall string "ast list" nat
  | ReturnStatement "ast option"
  | BreakStatement
  | ContinueStatement
  | StringLiteral string
  | IntegerLiteral int
  | FloatLiteral string
  | BooleanLiteral bool
  | NullLiteral
  | ArrayLiteral "ast list" nat
  | VariableDeclaration string "string option" ast bool
  | Variable string
  | IndexExpression ast ast
  | MemberExpression ast string
  | Assignment ast ast
  | BinaryExpression ast ast binary_operator
  | UnaryExpression ast unary_operator
  | UnsafeBlock "ast list"
  | AsmStatement string bool

section \<open>Constructors\<close>

definition ast_create_program :: "ast list \<Rightarrow> ast" where
  [simp]: "ast_create_program statements = Program statements"

definition ast_create_print :: "ast \<Rightarrow> ast" where
  [simp]: "ast_create_print expression = PrintStatement expression"

definition ast_create_if :: "ast \<Rightarrow> ast list \<Rightarrow> ast list \<Rightarrow> ast" where
  [simp]: "ast_create_if condition then_branch else_branch = IfStatement condition then_branch else_branch"

definition ast_create_while :: "ast \<Rightarrow> ast list \<Rightarrow> ast" where
  [simp]: "ast_create_while condition body = WhileStatement condition body"

definition ast_create_typed_function_declaration ::
  "string \<Rightarrow> string list \<Rightarrow> string option list \<Rightarrow> nat \<Rightarrow> string option \<Rightarrow> ast list \<Rightarrow> ast" where
  [simp]: "ast_create_typed_function_declaration name parameters parameter_types parameter_count return_type body =
     FunctionDeclaration name parameters parameter_types parameter_count return_type False body"

definition ast_create_struct_declaration :: "string \<Rightarrow> string list \<Rightarrow> nat \<Rightarrow> ast" where
  [simp]: "ast_create_struct_declaration name fields field_count = StructDeclaration name fields field_count"

definition ast_create_function_call :: "string \<Rightarrow> ast list \<Rightarrow> nat \<Rightarrow> ast" where
  [simp]: "ast_create_function_call name arguments argument_count = FunctionCall name arguments argument_count"

definition ast_create_return :: "ast option \<Rightarrow> ast" where
  [simp]: "ast_create_return expression = ReturnStatement expression"

definition ast_create_break :: ast where
  [simp]: "ast_create_break = BreakStatement"

definition ast_create_continue :: ast where
  [simp]: "ast_create_continue = ContinueStatement"

definition ast_create_string :: "string \<Rightarrow> ast" where
  [simp]: "ast_create_string value = StringLiteral value"

definition ast_create_integer :: "int \<Rightarrow> ast" where
  [simp]: "ast_create_integer value = IntegerLiteral value"

definition ast_create_float :: "string \<Rightarrow> ast" where
  [simp]: "ast_create_float text = FloatLiteral text"

definition ast_create_boolean :: "bool \<Rightarrow> ast" where
  [simp]: "ast_create_boolean value = BooleanLiteral value"

definition ast_create_null :: ast where
  [simp]: "ast_create_null = NullLiteral"

definition ast_create_array :: "ast list \<Rightarrow> nat \<Rightarrow> ast" where
  [simp]: "ast_create_array elements element_count = ArrayLiteral elements element_count"

definition ast_create_variable_declaration :: "string \<Rightarrow> ast \<Rightarrow> ast" where
  [simp]: "ast_create_variable_declaration name value = VariableDeclaration name None value False"

definition ast_create_typed_variable_declaration :: "string \<Rightarrow> string \<Rightarrow> ast \<Rightarrow> ast" where
  [simp]: "ast_create_typed_variable_declaration name type value = VariableDeclaration name (Some type) value False"

definition ast_create_variable :: "string \<Rightarrow> ast" where
  [simp]: "ast_create_variable name = Variable name"

definition ast_create_index :: "ast \<Rightarrow> ast \<Rightarrow> ast" where
  [simp]: "ast_create_index array index = IndexExpression array index"

definition ast_create_member :: "ast \<Rightarrow> string \<Rightarrow> ast" where
  [simp]: "ast_create_member object member = MemberExpression object member"

definition ast_create_assignment :: "ast \<Rightarrow> ast \<Rightarrow> ast" where
  [simp]: "ast_create_assignment target value = Assignment target value"

definition ast_create_binary :: "ast \<Rightarrow> ast \<Rightarrow> binary_operator \<Rightarrow> ast" where
  [simp]: "ast_create_binary left right op = BinaryExpression left right op"

definition ast_create_unary :: "ast \<Rightarrow> unary_operator \<Rightarrow> ast" where
  [simp]: "ast_create_unary operand op = UnaryExpression operand op"

definition ast_create_unsafe_block :: "ast list \<Rightarrow> ast" where
  [simp]: "ast_create_unsafe_block statements = UnsafeBlock statements"

definition ast_create_asm_statement :: "string \<Rightarrow> bool \<Rightarrow> ast" where
  [simp]: "ast_create_asm_statement assembly is_volatile = AsmStatement assembly is_volatile"

text \<open>\<open>ast_append (&list, node)\<close>: the node, with whatever it is linked to, behind the last one.\<close>

fun ast_append :: "ast list \<Rightarrow> ast list \<Rightarrow> ast list" where
  "ast_append list [] = list"
| "ast_append [] node = node"
| "ast_append [current] node = current # node"
| "ast_append (current # next # list) node = current # ast_append (next # list) node"

lemma ast_append_eq [simp]: "ast_append list node = list @ node"
  by (induction list node rule: ast_append.induct) auto

section \<open>Well-formed expressions\<close>

text \<open>
  What the parser guarantees of an expression tree: only expression nodes, integer literals
  in the range of \<open>int64_t\<close>, and stored counts that agree with the chains.
\<close>

fun expr_ok :: "ast \<Rightarrow> bool" where
  "expr_ok (FunctionCall name arguments n) \<longleftrightarrow> n = length arguments \<and> list_all expr_ok arguments"
| "expr_ok (StringLiteral s) \<longleftrightarrow> True"
| "expr_ok (IntegerLiteral v) \<longleftrightarrow> int64 v"
| "expr_ok (FloatLiteral t) \<longleftrightarrow> True"
| "expr_ok (BooleanLiteral b) \<longleftrightarrow> True"
| "expr_ok NullLiteral \<longleftrightarrow> True"
| "expr_ok (ArrayLiteral elements n) \<longleftrightarrow> n = length elements \<and> list_all expr_ok elements"
| "expr_ok (Variable name) \<longleftrightarrow> True"
| "expr_ok (IndexExpression a i) \<longleftrightarrow> expr_ok a \<and> expr_ok i"
| "expr_ok (MemberExpression ob m) \<longleftrightarrow> expr_ok ob"
| "expr_ok (BinaryExpression l r op) \<longleftrightarrow> expr_ok l \<and> expr_ok r"
| "expr_ok (UnaryExpression e op) \<longleftrightarrow> expr_ok e"
| "expr_ok _ \<longleftrightarrow> False"

text \<open>The height of a tree: how deep a recursive pass over it goes.\<close>

fun maximum :: "nat list \<Rightarrow> nat" where
  "maximum [] = 0"
| "maximum (n # ns) = max n (maximum ns)"

lemma maximum_append [simp]: "maximum (xs @ ys) = max (maximum xs) (maximum ys)"
  by (induction xs) simp_all

fun height :: "ast \<Rightarrow> nat" where
  "height (FunctionCall name arguments n) = Suc (maximum (map height arguments))"
| "height (ArrayLiteral elements n) = Suc (maximum (map height elements))"
| "height (IndexExpression a i) = Suc (max (height a) (height i))"
| "height (MemberExpression ob m) = Suc (height ob)"
| "height (BinaryExpression l r op) = Suc (max (height l) (height r))"
| "height (UnaryExpression e op) = Suc (height e)"
| "height _ = 1"

end
