(* ===== verification/ParserState.thy ===== *)
theory ParserState
  imports LexerSpec Ast
begin

text \<open>
  The state of the parser and its token-level operations, \<open>include/vnt/parser.h\<close> and
  \<open>src/parser/parser.c\<close> (all but \<open>parser_parse\<close>). A parsing function returns the tree it
  built, \<open>None\<close> for the NULL pointer, with the new state; the whole result is an option
  whose \<open>None\<close> is a fault: a read outside the source buffer. What the parser prints is
  appended to \<open>diags\<close>.
\<close>

section \<open>State\<close>

text \<open>A line printed to the user, with the position it names.\<close>

datatype diagnostic = Plain string | At nat nat string

record parser =
  parser_lexer :: lexer
  cur :: token
  prev :: token
  nesting_depth :: nat
  nesting_failed :: bool
  expression_depth :: nat
  expression_operator_count :: nat
  for_counter :: nat
  diags :: "diagnostic list"

abbreviation (input) VNT_PARSER_MAX_NESTING :: nat where "VNT_PARSER_MAX_NESTING \<equiv> 256"
abbreviation (input) VNT_PARSER_MAX_EXPRESSION_OPERATORS :: nat where "VNT_PARSER_MAX_EXPRESSION_OPERATORS \<equiv> 256"

abbreviation cur_type :: "parser \<Rightarrow> token_type" where "cur_type p \<equiv> tok_type (cur p)"

type_synonym 'a parsed = "('a option \<times> parser) option"

definition report :: "parser \<Rightarrow> string \<Rightarrow> parser" where
  "report p msg = p\<lparr>diags := diags p @ [Plain msg]\<rparr>"

definition report_at :: "parser \<Rightarrow> string \<Rightarrow> parser" where
  "report_at p msg = p\<lparr>diags := diags p @ [At (tok_line (cur p)) (tok_column (cur p)) msg]\<rparr>"

section \<open>Operations\<close>

definition parser_enter_nesting :: "parser \<Rightarrow> string \<Rightarrow> bool \<times> parser" where
  "parser_enter_nesting p ctxt =
     (if nesting_failed p then (False, p)
      else if nesting_depth p \<ge> VNT_PARSER_MAX_NESTING
        then (False, report_at (p\<lparr>nesting_failed := True\<rparr>) (ctxt @ '' nesting exceeds 256 levels.''))
      else (True, p\<lparr>nesting_depth := nesting_depth p + 1\<rparr>))"

definition parser_leave_nesting :: "parser \<Rightarrow> parser" where
  "parser_leave_nesting p =
     (if nesting_depth p > 0 then p\<lparr>nesting_depth := nesting_depth p - 1\<rparr> else p)"

definition parser_note_expression_operator :: "parser \<Rightarrow> bool \<times> parser" where
  "parser_note_expression_operator p =
     (if nesting_failed p then (False, p)
      else if expression_operator_count p \<ge> VNT_PARSER_MAX_EXPRESSION_OPERATORS
        then (False, report_at (p\<lparr>nesting_failed := True\<rparr>) ''expression exceeds 256 operator nodes.'')
      else (True, p\<lparr>expression_operator_count := expression_operator_count p + 1\<rparr>))"

definition parser_advance :: "parser \<Rightarrow> parser option" where
  "parser_advance p = do {
     (tok, lx) \<leftarrow> lexer_next (parser_lexer p);
     Some (p\<lparr>prev := cur p, cur := tok, parser_lexer := lx\<rparr>)
   }"

definition parser_check :: "parser \<Rightarrow> token_type \<Rightarrow> bool" where
  [simp]: "parser_check p ty \<longleftrightarrow> cur_type p = ty"

definition token_is :: "parser \<Rightarrow> token_type \<Rightarrow> bool" where
  [simp]: "token_is p ty \<longleftrightarrow> cur_type p = ty"

definition parser_consume :: "parser \<Rightarrow> token_type \<Rightarrow> string \<Rightarrow> (bool \<times> parser) option" where
  "parser_consume p ty message =
     (if parser_check p ty then do {
        p \<leftarrow> parser_advance p;
        Some (True, p)
      } else Some (False, report_at p message))"

definition parser_token_to_string :: "parser \<Rightarrow> token \<Rightarrow> string option" where
  "parser_token_to_string p tok = slice (source (parser_lexer p)) (tok_start tok) (tok_length tok)"

definition parser_is_token :: "parser \<Rightarrow> token \<Rightarrow> string \<Rightarrow> bool option" where
  "parser_is_token p tok text =
     (if tok_type tok = TOKEN_IDENTIFIER \<and> tok_length tok = length text then do {
        w \<leftarrow> slice (source (parser_lexer p)) (tok_start tok) (length text);
        Some (w = text)
      } else Some False)"

definition no_token :: token where
  "no_token = \<lparr>tok_type = TOKEN_UNKNOWN, tok_start = 0, tok_length = 0, tok_line = 0, tok_column = 0\<rparr>"

definition parser_init :: "lexer \<Rightarrow> parser option" where
  "parser_init lx =
     parser_advance
       \<lparr>parser_lexer = lx, cur = no_token, prev = no_token,
        nesting_depth = 0, nesting_failed = False,
        expression_depth = 0, expression_operator_count = 0, for_counter = 0, diags = []\<rparr>"

text \<open>
  The two early returns of every parsing function: \<open>if (!parser_consume(...)) return NULL;\<close>
  and \<open>if (node == NULL) return NULL;\<close>.
\<close>

definition on_ok :: "(bool \<times> parser) option \<Rightarrow> (parser \<Rightarrow> 'a parsed) \<Rightarrow> 'a parsed" where
  "on_ok m k = do { (ok, p) \<leftarrow> m; if ok then k p else Some (None, p) }"

definition on_node :: "'a parsed \<Rightarrow> ('a \<Rightarrow> parser \<Rightarrow> 'b parsed) \<Rightarrow> 'b parsed" where
  "on_node m k = do { (e, p) \<leftarrow> m; case e of None \<Rightarrow> Some (None, p) | Some x \<Rightarrow> k x p }"

section \<open>The token stream\<close>

text \<open>
  The abstract view of the state: the tokens not consumed yet, the current one first, each
  with its text and position.
\<close>

definition token_string :: "parser \<Rightarrow> token \<Rightarrow> string" where
  "token_string p tok = take (tok_length tok) (drop (tok_start tok) (source (parser_lexer p)))"

definition stream :: "parser \<Rightarrow> located_token list" where
  "stream p =
     (if cur_type p = TOKEN_EOF then []
      else (cur_type p, token_string p (cur p), tok_line (cur p), tok_column (cur p))
             # the (lex_tokens (parser_lexer p)))"

definition parser_wf :: "parser \<Rightarrow> bool" where
  "parser_wf p \<longleftrightarrow>
     (cur_type p \<noteq> TOKEN_EOF \<longrightarrow>
        in_buffer (parser_lexer p) \<and> tok_start (cur p) + tok_length (cur p) \<le> length (source (parser_lexer p)))
     \<and> nesting_depth p \<le> VNT_PARSER_MAX_NESTING
     \<and> expression_operator_count p \<le> VNT_PARSER_MAX_EXPRESSION_OPERATORS
     \<and> (nesting_failed p \<longrightarrow> diags p \<noteq> [])"

text \<open>One token consumed, nothing else changed.\<close>

definition advanced :: "parser \<Rightarrow> parser \<Rightarrow> bool" where
  "advanced p p' \<longleftrightarrow> parser_wf p'
     \<and> stream p = (cur_type p, token_string p (cur p), tok_line (cur p), tok_column (cur p)) # stream p'
     \<and> prev p' = cur p \<and> parser_token_to_string p' (prev p') = Some (token_string p (cur p))
     \<and> source (parser_lexer p') = source (parser_lexer p)
     \<and> nesting_depth p' = nesting_depth p \<and> expression_depth p' = expression_depth p
     \<and> expression_operator_count p' = expression_operator_count p
     \<and> for_counter p' = for_counter p \<and> diags p' = diags p"

lemma stream_EOF [simp]: "cur_type p = TOKEN_EOF \<Longrightarrow> stream p = []"
  by (simp add: stream_def)

lemma stream_Nil_iff: "stream p = [] \<longleftrightarrow> cur_type p = TOKEN_EOF"
  by (simp add: stream_def)

lemma stream_Cons: "cur_type p \<noteq> TOKEN_EOF \<Longrightarrow> 0 < length (stream p)"
  by (simp add: stream_def)

lemma parser_advance_advanced:
  assumes "parser_wf p" "cur_type p \<noteq> TOKEN_EOF"
  shows "wp (parser_advance p) (advanced p)"
proof -
  from assms have b: "in_buffer (parser_lexer p)"
    and t: "tok_start (cur p) + tok_length (cur p) \<le> length (source (parser_lexer p))"
    by (simp_all add: parser_wf_def)
  from lexer_next_wp [OF b] obtain tok lx where n: "lexer_next (parser_lexer p) = Some (tok, lx)"
    and f: "source lx = source (parser_lexer p)"
    and k: "tok_type tok \<noteq> TOKEN_EOF \<Longrightarrow> in_buffer lx \<and> tok_start tok + tok_length tok \<le> length (source (parser_lexer p))"
    by (auto simp: wp_iff)
  let ?p = "p\<lparr>prev := cur p, cur := tok, parser_lexer := lx\<rparr>"
  have "parser_wf ?p" using assms(1) k f by (auto simp: parser_wf_def)
  moreover have "the (lex_tokens (parser_lexer p)) = stream ?p"
  proof (cases "tok_type tok = TOKEN_EOF")
    case True
    with n show ?thesis by (subst lex_tokens.simps) (simp add: stream_def)
  next
    case False
    with k have w: "slice (source (parser_lexer p)) (tok_start tok) (tok_length tok) = Some (token_string p tok)"
      by (simp add: slice_def token_string_def)
    from lex_tokens_total [of lx] k [OF False] obtain ts where "lex_tokens lx = Some ts" by (auto simp: wp_iff)
    with n False w show ?thesis
      by (subst lex_tokens.simps) (simp add: stream_def token_string_def f)
  qed
  ultimately have "advanced p ?p" using assms(2) t f
    by (auto simp: advanced_def stream_def [of p] parser_token_to_string_def slice_def token_string_def)
  with n show ?thesis by (simp add: parser_advance_def)
qed

lemma parser_token_to_string_cur:
  "parser_wf p \<Longrightarrow> cur_type p \<noteq> TOKEN_EOF \<Longrightarrow> parser_token_to_string p (cur p) = Some (token_string p (cur p))"
  by (simp add: parser_wf_def parser_token_to_string_def slice_def token_string_def)

lemma parser_is_token_cur:
  "parser_wf p \<Longrightarrow> parser_is_token p (cur p) text =
     Some (cur_type p = TOKEN_IDENTIFIER \<and> token_string p (cur p) = text)"
  by (auto simp: parser_wf_def parser_is_token_def slice_def token_string_def)

section \<open>Proof rules\<close>

text \<open>What a parsing function may do to the state.\<close>

definition stays :: "parser \<Rightarrow> parser \<Rightarrow> bool" where
  "stays p p' \<longleftrightarrow> parser_wf p' \<and> length (stream p') \<le> length (stream p)
     \<and> source (parser_lexer p') = source (parser_lexer p)
     \<and> nesting_depth p' = nesting_depth p \<and> expression_depth p' = expression_depth p
     \<and> (0 < expression_depth p \<longrightarrow> expression_operator_count p \<le> expression_operator_count p')
     \<and> for_counter p \<le> for_counter p'
     \<and> length (diags p) \<le> length (diags p')"

text \<open>A failure: something has been reported.\<close>

definition fails :: "parser \<Rightarrow> parser \<Rightarrow> bool" where
  "fails p p' \<longleftrightarrow> stays p p' \<and> 0 < length (diags p')"

definition reported :: "parser \<Rightarrow> parser \<Rightarrow> bool" where
  "reported p p' \<longleftrightarrow> parser_wf p' \<and> stream p' = stream p \<and> length (diags p') = Suc (length (diags p))
     \<and> source (parser_lexer p') = source (parser_lexer p) \<and> cur p' = cur p
     \<and> nesting_depth p' = nesting_depth p \<and> expression_depth p' = expression_depth p
     \<and> expression_operator_count p' = expression_operator_count p
     \<and> for_counter p' = for_counter p"

lemma report_facts:
  "parser_wf p \<Longrightarrow> parser_wf (report p msg)" "parser_wf p \<Longrightarrow> parser_wf (report_at p msg)"
  "stream (report p msg) = stream p" "stream (report_at p msg) = stream p"
  "parser_lexer (report p msg) = parser_lexer p" "parser_lexer (report_at p msg) = parser_lexer p"
  "cur (report p msg) = cur p" "cur (report_at p msg) = cur p"
  "nesting_depth (report p msg) = nesting_depth p" "nesting_depth (report_at p msg) = nesting_depth p"
  "expression_depth (report p msg) = expression_depth p" "expression_depth (report_at p msg) = expression_depth p"
  "expression_operator_count (report p msg) = expression_operator_count p"
  "expression_operator_count (report_at p msg) = expression_operator_count p"
  "for_counter (report p msg) = for_counter p" "for_counter (report_at p msg) = for_counter p"
  "diags (report p msg) \<noteq> []" "diags (report_at p msg) \<noteq> []"
  "length (diags (report p msg)) = Suc (length (diags p))" "length (diags (report_at p msg)) = Suc (length (diags p))"
  by (simp_all add: report_def report_at_def parser_wf_def stream_def token_string_def)

lemma reported_report [simp]: "parser_wf p \<Longrightarrow> reported p (report p msg)" "parser_wf p \<Longrightarrow> reported p (report_at p msg)"
  by (auto simp: reported_def report_def report_at_def parser_wf_def stream_def token_string_def)

lemma parser_wf_bounds:
  "parser_wf p \<Longrightarrow> nesting_depth p \<le> VNT_PARSER_MAX_NESTING"
  "parser_wf p \<Longrightarrow> expression_operator_count p \<le> VNT_PARSER_MAX_EXPRESSION_OPERATORS"
  by (simp_all add: parser_wf_def)

lemma parser_wf_reported: "parser_wf p \<Longrightarrow> nesting_failed p \<Longrightarrow> diags p \<noteq> []"
  by (simp add: parser_wf_def)

lemma stays_refl: "parser_wf p \<Longrightarrow> stays p p"
  by (simp add: stays_def)

lemma advanced_stays: "advanced p p' \<Longrightarrow> stays p p'"
  by (simp add: stays_def advanced_def)

lemma stays_trans: "stays p q \<Longrightarrow> stays q r \<Longrightarrow> stays p r"
  unfolding stays_def by auto

lemma fails_trans: "stays p q \<Longrightarrow> fails q r \<Longrightarrow> fails p r"
  unfolding fails_def stays_def by auto

lemma wp_advanceI:
  "parser_wf p \<Longrightarrow> cur_type p \<noteq> TOKEN_EOF \<Longrightarrow> (\<And>p'. advanced p p' \<Longrightarrow> wp (k p') Q) \<Longrightarrow>
     wp (parser_advance p \<bind> k) Q"
  using wp_mono [OF parser_advance_advanced, of p "\<lambda>p'. wp (k p') Q"] by simp

lemma wp_consumeI:
  assumes "parser_wf p" "ty \<noteq> TOKEN_EOF"
    and "\<And>p'. cur_type p = ty \<Longrightarrow> advanced p p' \<Longrightarrow> wp (k p') Q"
    and "\<And>p'. cur_type p \<noteq> ty \<Longrightarrow> reported p p' \<Longrightarrow> Q (None, p')"
  shows "wp (on_ok (parser_consume p ty msg) k) Q"
proof (cases "cur_type p = ty")
  case True
  with assms have "wp (parser_advance p) (\<lambda>p'. wp (k p') Q)"
    using wp_mono [OF parser_advance_advanced, of p "\<lambda>p'. wp (k p') Q"] by simp
  with True show ?thesis by (simp add: on_ok_def parser_consume_def)
next
  case False
  with assms(4) [OF False, of "report_at p msg"] assms(1) show ?thesis
    by (simp add: on_ok_def parser_consume_def)
qed

lemma wp_nodeI:
  assumes "wp m P" "\<And>p'. P (None, p') \<Longrightarrow> Q (None, p')" "\<And>x p'. P (Some x, p') \<Longrightarrow> wp (k x p') Q"
  shows "wp (on_node m k) Q"
proof -
  from assms(1) obtain e p' where m: "m = Some (e, p')" "P (e, p')" by (auto simp: wp_iff)
  with assms(2,3) show ?thesis by (cases e) (auto simp: on_node_def)
qed

lemma wp_enterI:
  assumes "parser_wf p"
    and "\<And>p'. parser_wf p' \<Longrightarrow> p' = p\<lparr>nesting_depth := nesting_depth p + 1\<rparr> \<Longrightarrow> \<not> nesting_failed p \<Longrightarrow>
      stream p' = stream p \<Longrightarrow> wp (k p') Q"
    and "\<And>p'. fails p p' \<Longrightarrow> Q (None, p')"
  shows "wp (on_ok (Some (parser_enter_nesting p ctxt)) k) Q"
proof -
  consider "nesting_failed p" | "\<not> nesting_failed p" "256 \<le> nesting_depth p" | "\<not> nesting_failed p" "nesting_depth p < 256"
    by linarith
  then show ?thesis
  proof cases
    case 1
    with assms(1) assms(3) [of p] show ?thesis
      by (simp add: on_ok_def parser_enter_nesting_def fails_def stays_def parser_wf_def)
  next
    case 2
    let ?p = "report_at (p\<lparr>nesting_failed := True\<rparr>) (ctxt @ '' nesting exceeds 256 levels.'')"
    have "fails p ?p" using assms(1) 2
      by (auto simp: fails_def stays_def parser_wf_def report_at_def stream_def token_string_def)
    with assms(3) 2 show ?thesis by (simp add: on_ok_def parser_enter_nesting_def)
  next
    case 3
    let ?p = "p\<lparr>nesting_depth := nesting_depth p + 1\<rparr>"
    have "parser_wf ?p" "stream ?p = stream p" using assms(1) 3
      by (auto simp: parser_wf_def stream_def token_string_def)
    with assms(2) [of ?p] 3 show ?thesis by (simp add: on_ok_def parser_enter_nesting_def)
  qed
qed

lemma wp_noteI:
  assumes "parser_wf p"
    and "\<And>p'. parser_wf p' \<Longrightarrow> p' = p\<lparr>expression_operator_count := expression_operator_count p + 1\<rparr> \<Longrightarrow>
      stream p' = stream p \<Longrightarrow> wp (k p') Q"
    and "\<And>p'. fails p p' \<Longrightarrow> Q (None, p')"
  shows "wp (on_ok (Some (parser_note_expression_operator p)) k) Q"
proof -
  consider "nesting_failed p" | "\<not> nesting_failed p" "256 \<le> expression_operator_count p"
    | "\<not> nesting_failed p" "expression_operator_count p < 256"
    by linarith
  then show ?thesis
  proof cases
    case 1
    with assms(1) assms(3) [of p] show ?thesis
      by (simp add: on_ok_def parser_note_expression_operator_def fails_def stays_def parser_wf_def)
  next
    case 2
    let ?p = "report_at (p\<lparr>nesting_failed := True\<rparr>) ''expression exceeds 256 operator nodes.''"
    have "fails p ?p" using assms(1) 2
      by (auto simp: fails_def stays_def parser_wf_def report_at_def stream_def token_string_def)
    with assms(3) 2 show ?thesis by (simp add: on_ok_def parser_note_expression_operator_def)
  next
    case 3
    let ?p = "p\<lparr>expression_operator_count := expression_operator_count p + 1\<rparr>"
    have "parser_wf ?p" "stream ?p = stream p" using assms(1) 3
      by (auto simp: parser_wf_def stream_def token_string_def)
    with assms(2) [of ?p] 3 show ?thesis by (simp add: on_ok_def parser_note_expression_operator_def)
  qed
qed

lemma leave_facts [simp]:
  "parser_wf p \<Longrightarrow> parser_wf (parser_leave_nesting p)" "stream (parser_leave_nesting p) = stream p"
  "parser_lexer (parser_leave_nesting p) = parser_lexer p" "cur (parser_leave_nesting p) = cur p"
  "nesting_depth (parser_leave_nesting p) = nesting_depth p - 1"
  "nesting_failed (parser_leave_nesting p) = nesting_failed p"
  "expression_depth (parser_leave_nesting p) = expression_depth p"
  "expression_operator_count (parser_leave_nesting p) = expression_operator_count p"
  "for_counter (parser_leave_nesting p) = for_counter p" "diags (parser_leave_nesting p) = diags p"
  by (auto simp: parser_leave_nesting_def parser_wf_def stream_def token_string_def)

lemma wp_ifI: "(b \<Longrightarrow> wp x Q) \<Longrightarrow> (\<not> b \<Longrightarrow> wp y Q) \<Longrightarrow> wp (if b then x else y) Q"
  by simp

lemma wp_SomeI: "Q x \<Longrightarrow> wp (Some x) Q"
  by simp

lemma wp_textI:
  "parser_wf p \<Longrightarrow> cur_type p \<noteq> TOKEN_EOF \<Longrightarrow> wp (k (token_string p (cur p))) Q \<Longrightarrow>
     wp (parser_token_to_string p (cur p) \<bind> k) Q"
  by (simp add: parser_token_to_string_cur)

lemma wp_wordI:
  "parser_wf p \<Longrightarrow> wp (k (cur_type p = TOKEN_IDENTIFIER \<and> token_string p (cur p) = text)) Q \<Longrightarrow>
     wp (parser_is_token p (cur p) text \<bind> k) Q"
  by (simp add: parser_is_token_cur)

lemma wp_optionI:
  "(x = None \<Longrightarrow> wp a Q) \<Longrightarrow> (\<And>y. x = Some y \<Longrightarrow> wp (f y) Q) \<Longrightarrow>
     wp (case x of None \<Rightarrow> a | Some y \<Rightarrow> f y) Q"
  by (cases x) simp_all

lemmas parser_vcg = wp_optionI wp_advanceI wp_consumeI wp_enterI wp_noteI wp_textI wp_wordI wp_ifI wp_SomeI

end
