(* ===== verification/ExprParser.thy ===== *)
theory ExprParser
  imports ParserState
begin

text \<open>
  The expression parser: \<open>src/parser/primary.c\<close>, \<open>unary.c\<close> and \<open>binary.c\<close>. The functions
  of the C code are mutually recursive through \<open>parse_expression\<close>; here each of them takes
  the expression parser it calls as its argument \<open>pe\<close> and a bound \<open>k\<close> on the rounds of its
  loops, and \<open>parse_expression\<close> ties the knot. Running out of the bound is the fault \<open>None\<close>;
  theory \<open>ExprParserCorrect\<close> shows that a bound above the number of tokens left is enough.
\<close>

section \<open>Literals\<close>

text \<open>
  The integer literal of \<open>parse_primary\<close>: \<open>strtoll\<close> with its three error tests (\<open>ERANGE\<close>,
  no digits, text left over).
\<close>

definition integer_literal :: "string \<Rightarrow> int option" where
  "integer_literal s =
     (let (v, rest) = strto_digits (literal_base s) s in
      if INT64_MAX < int v \<or> rest = s \<or> rest \<noteq> [] then None else Some (int v))"

text \<open>The test of \<open>parse_unary\<close> for the magnitude of \<open>INT64_MIN\<close>, by \<open>strtoull\<close>.\<close>

definition int64_min_magnitude :: "string \<Rightarrow> bool" where
  "int64_min_magnitude s \<longleftrightarrow>
     0 < length s \<and> length s < 64 \<and>
     (let (v, rest) = strto_digits (literal_base s) s in
      int v \<le> UINT64_MAX \<and> rest \<noteq> s \<and> rest = [] \<and> int v = INT64_MAX + 1)"

text \<open>The loop that decodes the escapes of a string literal.\<close>

fun decode_escapes :: "string \<Rightarrow> string" where
  "decode_escapes [] = []"
| "decode_escapes [c] = [c]"
| "decode_escapes (c # e # cs) =
     (if c = BACKSLASH then
        (if e = CHR ''n'' then LF # decode_escapes cs
         else if e = CHR ''r'' then CR # decode_escapes cs
         else if e = CHR ''t'' then TAB # decode_escapes cs
         else if e = BACKSLASH then BACKSLASH # decode_escapes cs
         else if e = QUOTE then QUOTE # decode_escapes cs
         else BACKSLASH # e # decode_escapes cs)
      else c # decode_escapes (e # cs))"

section \<open>Primary expressions\<close>

type_synonym expr_parser = "parser \<Rightarrow> ast parsed"

text \<open>The elements of an array literal; a comma may stand before the bracket.\<close>

fun array_elements :: "nat \<Rightarrow> expr_parser \<Rightarrow> ast list \<Rightarrow> nat \<Rightarrow> parser \<Rightarrow> (ast list \<times> nat) parsed" where
  "array_elements 0 pe elements count p = None"
| "array_elements (Suc k) pe elements count p =
     on_node (pe p) (\<lambda>element p.
       if token_is p TOKEN_COMMA then do {
         p \<leftarrow> parser_advance p;
         if token_is p TOKEN_RIGHT_BRACKET then Some (Some (ast_append elements [element], count + 1), p)
         else array_elements k pe (ast_append elements [element]) (count + 1) p
       } else Some (Some (ast_append elements [element], count + 1), p))"

text \<open>The arguments of a call; no comma before the closing parenthesis.\<close>

fun call_arguments :: "nat \<Rightarrow> expr_parser \<Rightarrow> ast list \<Rightarrow> nat \<Rightarrow> parser \<Rightarrow> (ast list \<times> nat) parsed" where
  "call_arguments 0 pe arguments count p = None"
| "call_arguments (Suc k) pe arguments count p =
     on_node (pe p) (\<lambda>argument p.
       if token_is p TOKEN_COMMA then do {
         p \<leftarrow> parser_advance p;
         if token_is p TOKEN_RIGHT_PAREN then Some (None, report p ''trailing comma in function call.'')
         else call_arguments k pe (ast_append arguments [argument]) (count + 1) p
       } else Some (Some (ast_append arguments [argument], count + 1), p))"

text \<open>\<open>[ e, ... ]\<close>\<close>

definition array_primary :: "nat \<Rightarrow> expr_parser \<Rightarrow> expr_parser" where
  "array_primary k pe p = do {
     p \<leftarrow> parser_advance p;
     on_node (if \<not> token_is p TOKEN_RIGHT_BRACKET then array_elements k pe [] 0 p else Some (Some ([], 0), p))
       (\<lambda>(elements, count) p.
         if \<not> token_is p TOKEN_RIGHT_BRACKET then Some (None, report p ''expected ']'.'')
         else do {
           p \<leftarrow> parser_advance p;
           Some (Some (ast_create_array elements count), p)
         })
   }"

text \<open>A name: a call, one of the three words for literals, or a variable.\<close>

definition identifier_primary :: "nat \<Rightarrow> expr_parser \<Rightarrow> expr_parser" where
  "identifier_primary k pe p = do {
     name \<leftarrow> parser_token_to_string p (cur p);
     p \<leftarrow> parser_advance p;
     if token_is p TOKEN_LEFT_PAREN then do {
       p \<leftarrow> parser_advance p;
       on_node (if \<not> token_is p TOKEN_RIGHT_PAREN then call_arguments k pe [] 0 p else Some (Some ([], 0), p))
         (\<lambda>(arguments, count) p.
           if \<not> token_is p TOKEN_RIGHT_PAREN then Some (None, report p ''expected ')'.'')
           else do {
             p \<leftarrow> parser_advance p;
             Some (Some (ast_create_function_call name arguments count), p)
           })
     }
     else if name = ''true'' then Some (Some (ast_create_boolean True), p)
     else if name = ''false'' then Some (Some (ast_create_boolean False), p)
     else if name = ''null'' then Some (Some ast_create_null, p)
     else Some (Some (ast_create_variable name), p)
   }"

definition parse_primary :: "nat \<Rightarrow> expr_parser \<Rightarrow> expr_parser" where
  "parse_primary k pe p =
     (if token_is p TOKEN_INTEGER then
        if 64 \<le> tok_length (cur p) then Some (None, report p ''integer too long.'')
        else do {
          buffer \<leftarrow> parser_token_to_string p (cur p);
          case integer_literal buffer of
            None \<Rightarrow> Some (None, report p ''integer literal is outside the signed 64-bit range.'')
          | Some value \<Rightarrow> do {
              p \<leftarrow> parser_advance p;
              Some (Some (ast_create_integer value), p)
            }
        }
      else if token_is p TOKEN_FLOAT then
        if 64 \<le> tok_length (cur p) then Some (None, report p ''float too long.'')
        else do {
          buffer \<leftarrow> parser_token_to_string p (cur p);
          p \<leftarrow> parser_advance p;
          Some (Some (ast_create_float buffer), p)
        }
      else if token_is p TOKEN_STRING then do {
        text \<leftarrow> parser_token_to_string p (cur p);
        p \<leftarrow> parser_advance p;
        Some (Some (ast_create_string (decode_escapes text)), p)
      }
      else if token_is p TOKEN_LEFT_BRACKET then array_primary k pe p
      else if token_is p TOKEN_LEFT_PAREN then do {
        p \<leftarrow> parser_advance p;
        on_node (pe p) (\<lambda>expression p.
          if \<not> token_is p TOKEN_RIGHT_PAREN then Some (None, report p ''expected ')'.'')
          else do {
            p \<leftarrow> parser_advance p;
            Some (Some expression, p)
          })
      }
      else if token_is p TOKEN_IDENTIFIER then identifier_primary k pe p
      else Some (None, report p ''expected expression.''))"

section \<open>Postfix expressions\<close>

fun argument_loop :: "nat \<Rightarrow> expr_parser \<Rightarrow> ast list \<Rightarrow> nat \<Rightarrow> parser \<Rightarrow> (ast list \<times> nat) parsed" where
  "argument_loop 0 pe arguments count p = None"
| "argument_loop (Suc k) pe arguments count p =
     on_node (pe p) (\<lambda>argument p.
       if token_is p TOKEN_RIGHT_PAREN then Some (Some (ast_append arguments [argument], count + 1), p)
       else on_ok (parser_consume p TOKEN_COMMA ''expected ',' between arguments.'')
         (\<lambda>p. argument_loop k pe (ast_append arguments [argument]) (count + 1) p))"

fun variable_name :: "ast \<Rightarrow> string option" where
  "variable_name (Variable name) = Some name"
| "variable_name _ = None"

text \<open>A function of a module is called by the joined name.\<close>

definition qualified_name :: "string \<Rightarrow> string \<Rightarrow> string" where
  "qualified_name module_name function_name = module_name @ ''__'' @ function_name"

fun postfix_loop :: "nat \<Rightarrow> expr_parser \<Rightarrow> ast \<Rightarrow> expr_parser" where
  "postfix_loop 0 pe expression p = None"
| "postfix_loop (Suc k) pe expression p =
     (if token_is p TOKEN_LEFT_BRACKET then
        on_ok (Some (parser_note_expression_operator p)) (\<lambda>p. do {
          p \<leftarrow> parser_advance p;
          on_node (pe p) (\<lambda>index p.
            if \<not> token_is p TOKEN_RIGHT_BRACKET then Some (None, report p ''expected ']'.'')
            else do {
              p \<leftarrow> parser_advance p;
              postfix_loop k pe (ast_create_index expression index) p
            })
        })
      else if token_is p TOKEN_DOT then
        on_ok (Some (parser_note_expression_operator p)) (\<lambda>p. do {
          p \<leftarrow> parser_advance p;
          if \<not> token_is p TOKEN_IDENTIFIER then Some (None, report p ''expected member name after '.'.'')
          else do {
            member \<leftarrow> parser_token_to_string p (cur p);
            p \<leftarrow> parser_advance p;
            if token_is p TOKEN_LEFT_PAREN \<and> variable_name expression \<noteq> None then do {
              p \<leftarrow> parser_advance p;
              on_node (if \<not> token_is p TOKEN_RIGHT_PAREN then argument_loop k pe [] 0 p else Some (Some ([], 0), p))
                (\<lambda>(arguments, count) p.
                  on_ok (parser_consume p TOKEN_RIGHT_PAREN ''expected ')' after arguments.'')
                    (\<lambda>p. postfix_loop k pe
                      (ast_create_function_call (qualified_name (the (variable_name expression)) member) arguments count) p))
            }
            else postfix_loop k pe (ast_create_member expression member) p
          }
        })
      else Some (Some expression, p))"

definition parse_postfix :: "nat \<Rightarrow> expr_parser \<Rightarrow> expr_parser" where
  "parse_postfix k pe p = on_node (parse_primary k pe p) (\<lambda>expression p. postfix_loop k pe expression p)"

section \<open>Unary and binary operators\<close>

definition unary_operator_of :: "token_type \<Rightarrow> unary_operator" where
  "unary_operator_of operator =
     (if operator = TOKEN_BANG then UNARY_NOT
      else if operator = TOKEN_MINUS then UNARY_NEGATE
      else if operator = TOKEN_AMPERSAND then UNARY_REFERENCE
      else UNARY_DEREFERENCE)"

fun parse_unary :: "nat \<Rightarrow> expr_parser \<Rightarrow> expr_parser" where
  "parse_unary 0 pe p = None"
| "parse_unary (Suc k) pe p =
     (if token_is p TOKEN_BANG \<or> token_is p TOKEN_MINUS \<or> token_is p TOKEN_AMPERSAND \<or> token_is p TOKEN_STAR then
        on_ok (Some (parser_enter_nesting p ''unary operator'')) (\<lambda>p.
          let operator = cur_type p in do {
            p \<leftarrow> parser_advance p;
            minimum \<leftarrow> (if operator = TOKEN_MINUS \<and> token_is p TOKEN_INTEGER
                        then map_option int64_min_magnitude (parser_token_to_string p (cur p))
                        else Some False);
            if minimum then do {
              p \<leftarrow> parser_advance p;
              Some (Some (ast_create_integer INT64_MIN), parser_leave_nesting p)
            } else do {
              (operand, p) \<leftarrow> parse_unary k pe p;
              Some (map_option (\<lambda>e. ast_create_unary e (unary_operator_of operator)) operand, parser_leave_nesting p)
            }
          })
      else parse_postfix (Suc k) pe p)"

text \<open>The loop shared by the six binary levels; \<open>op\<close> lists the operators of the level.\<close>

fun binary_loop :: "nat \<Rightarrow> (token_type \<Rightarrow> binary_operator option) \<Rightarrow> expr_parser \<Rightarrow> ast \<Rightarrow> expr_parser" where
  "binary_loop 0 op operand left p = None"
| "binary_loop (Suc k) op operand left p =
     (case op (cur_type p) of
        None \<Rightarrow> Some (Some left, p)
      | Some binary_operator \<Rightarrow> do {
          p \<leftarrow> parser_advance p;
          on_ok (Some (parser_note_expression_operator p)) (\<lambda>p.
            on_node (operand p) (\<lambda>right p.
              binary_loop k op operand (ast_create_binary left right binary_operator) p))
        })"

definition multiplication_operator :: "token_type \<Rightarrow> binary_operator option" where
  "multiplication_operator ty =
     (if ty = TOKEN_STAR then Some BINARY_MULTIPLY
      else if ty = TOKEN_SLASH then Some BINARY_DIVIDE
      else if ty = TOKEN_PERCENT then Some BINARY_MODULO else None)"

definition addition_operator :: "token_type \<Rightarrow> binary_operator option" where
  "addition_operator ty =
     (if ty = TOKEN_PLUS then Some BINARY_ADD else if ty = TOKEN_MINUS then Some BINARY_SUBTRACT else None)"

definition comparison_operator :: "token_type \<Rightarrow> binary_operator option" where
  "comparison_operator ty =
     (if ty = TOKEN_GREATER then Some BINARY_GREATER
      else if ty = TOKEN_LESS then Some BINARY_LESS
      else if ty = TOKEN_GREATER_EQUAL then Some BINARY_GREATER_EQUAL
      else if ty = TOKEN_LESS_EQUAL then Some BINARY_LESS_EQUAL else None)"

definition equality_operator :: "token_type \<Rightarrow> binary_operator option" where
  "equality_operator ty =
     (if ty = TOKEN_EQUAL_EQUAL then Some BINARY_EQUAL else if ty = TOKEN_BANG_EQUAL then Some BINARY_NOT_EQUAL else None)"

definition and_operator :: "token_type \<Rightarrow> binary_operator option" where
  "and_operator ty = (if ty = TOKEN_AND_AND then Some BINARY_AND else None)"

definition or_operator :: "token_type \<Rightarrow> binary_operator option" where
  "or_operator ty = (if ty = TOKEN_OR_OR then Some BINARY_OR else None)"

definition parse_multiplication :: "nat \<Rightarrow> expr_parser \<Rightarrow> expr_parser" where
  "parse_multiplication k pe p =
     on_node (parse_unary k pe p) (\<lambda>left p. binary_loop k multiplication_operator (parse_unary k pe) left p)"

definition parse_addition :: "nat \<Rightarrow> expr_parser \<Rightarrow> expr_parser" where
  "parse_addition k pe p =
     on_node (parse_multiplication k pe p) (\<lambda>left p. binary_loop k addition_operator (parse_multiplication k pe) left p)"

definition parse_comparison :: "nat \<Rightarrow> expr_parser \<Rightarrow> expr_parser" where
  "parse_comparison k pe p =
     on_node (parse_addition k pe p) (\<lambda>left p. binary_loop k comparison_operator (parse_addition k pe) left p)"

definition parse_equality :: "nat \<Rightarrow> expr_parser \<Rightarrow> expr_parser" where
  "parse_equality k pe p =
     on_node (parse_comparison k pe p) (\<lambda>left p. binary_loop k equality_operator (parse_comparison k pe) left p)"

definition parse_and :: "nat \<Rightarrow> expr_parser \<Rightarrow> expr_parser" where
  "parse_and k pe p =
     on_node (parse_equality k pe p) (\<lambda>left p. binary_loop k and_operator (parse_equality k pe) left p)"

definition parse_or :: "nat \<Rightarrow> expr_parser \<Rightarrow> expr_parser" where
  "parse_or k pe p =
     on_node (parse_and k pe p) (\<lambda>left p. binary_loop k or_operator (parse_and k pe) left p)"

definition expression_body :: "nat \<Rightarrow> expr_parser \<Rightarrow> expr_parser" where
  "expression_body k pe p =
     (let p = (if expression_depth p = 0 then p\<lparr>expression_operator_count := 0\<rparr> else p) in
      on_ok (Some (parser_enter_nesting p ''expression'')) (\<lambda>p. do {
        (expression, p) \<leftarrow> parse_or k pe (p\<lparr>expression_depth := expression_depth p + 1\<rparr>);
        let p = parser_leave_nesting (p\<lparr>expression_depth := expression_depth p - 1\<rparr>);
        if nesting_failed p then Some (None, p) else Some (expression, p)
      }))"

fun parse_expression :: "nat \<Rightarrow> expr_parser" where
  "parse_expression 0 p = None"
| "parse_expression (Suc n) p = expression_body (Suc n) (parse_expression n) p"

section \<open>The grammar\<close>

text \<open>
  The levels of precedence, the loosest first, and the grammar the parser recognises as a
  relation: \<open>derives L ts e ts'\<close> says that the tokens of \<open>ts\<close> in front of \<open>ts'\<close> are an
  expression of level \<open>L\<close> with the tree \<open>e\<close>. The binary levels associate to the left.
\<close>

datatype level =
    Or_level | And_level | Equality_level | Comparison_level | Addition_level
  | Multiplication_level | Unary_level | Postfix_level | Primary_level

fun tighter :: "level \<Rightarrow> level" where
  "tighter Or_level = And_level"
| "tighter And_level = Equality_level"
| "tighter Equality_level = Comparison_level"
| "tighter Comparison_level = Addition_level"
| "tighter Addition_level = Multiplication_level"
| "tighter Multiplication_level = Unary_level"
| "tighter Unary_level = Postfix_level"
| "tighter Postfix_level = Primary_level"
| "tighter Primary_level = Primary_level"

fun level_operator :: "level \<Rightarrow> token_type \<Rightarrow> binary_operator option" where
  "level_operator Or_level = or_operator"
| "level_operator And_level = and_operator"
| "level_operator Equality_level = equality_operator"
| "level_operator Comparison_level = comparison_operator"
| "level_operator Addition_level = addition_operator"
| "level_operator Multiplication_level = multiplication_operator"
| "level_operator _ = (\<lambda>_. None)"

definition identifier_expression :: "string \<Rightarrow> ast" where
  "identifier_expression name =
     (if name = ''true'' then BooleanLiteral True else if name = ''false'' then BooleanLiteral False
      else if name = ''null'' then NullLiteral else Variable name)"

inductive derives :: "level \<Rightarrow> located_token list \<Rightarrow> ast \<Rightarrow> located_token list \<Rightarrow> bool"
  and derives_list :: "located_token list \<Rightarrow> ast list \<Rightarrow> located_token list \<Rightarrow> bool" where
  d_integer: "integer_literal w = Some v \<Longrightarrow>
    derives Primary_level ((TOKEN_INTEGER, w, l, c) # ts) (IntegerLiteral v) ts"
| d_float: "derives Primary_level ((TOKEN_FLOAT, w, l, c) # ts) (FloatLiteral w) ts"
| d_string: "derives Primary_level ((TOKEN_STRING, w, l, c) # ts) (StringLiteral (decode_escapes w)) ts"
| d_array_empty: "derives Primary_level ((TOKEN_LEFT_BRACKET, w, l, c) # (TOKEN_RIGHT_BRACKET, w', l', c') # ts)
    (ArrayLiteral [] 0) ts"
| d_array: "derives_list ts es ((TOKEN_RIGHT_BRACKET, w', l', c') # ts') \<Longrightarrow>
    derives Primary_level ((TOKEN_LEFT_BRACKET, w, l, c) # ts) (ArrayLiteral es (length es)) ts'"
| d_array_comma: "derives_list ts es ((TOKEN_COMMA, w'', l'', c'') # (TOKEN_RIGHT_BRACKET, w', l', c') # ts') \<Longrightarrow>
    derives Primary_level ((TOKEN_LEFT_BRACKET, w, l, c) # ts) (ArrayLiteral es (length es)) ts'"
| d_paren: "derives Or_level ts e ((TOKEN_RIGHT_PAREN, w', l', c') # ts') \<Longrightarrow>
    derives Primary_level ((TOKEN_LEFT_PAREN, w, l, c) # ts) e ts'"
| d_identifier: "derives Primary_level ((TOKEN_IDENTIFIER, w, l, c) # ts) (identifier_expression w) ts"
| d_call_empty: "derives Primary_level
    ((TOKEN_IDENTIFIER, f, l, c) # (TOKEN_LEFT_PAREN, w, l', c') # (TOKEN_RIGHT_PAREN, w', l'', c'') # ts)
    (FunctionCall f [] 0) ts"
| d_call: "derives_list ts es ((TOKEN_RIGHT_PAREN, w', l'', c'') # ts') \<Longrightarrow>
    derives Primary_level ((TOKEN_IDENTIFIER, f, l, c) # (TOKEN_LEFT_PAREN, w, l', c') # ts)
      (FunctionCall f es (length es)) ts'"
| d_index: "derives Postfix_level ts a ((TOKEN_LEFT_BRACKET, w, l, c) # ts1) \<Longrightarrow>
    derives Or_level ts1 i ((TOKEN_RIGHT_BRACKET, w', l', c') # ts') \<Longrightarrow>
    derives Postfix_level ts (IndexExpression a i) ts'"
| d_member: "derives Postfix_level ts a ((TOKEN_DOT, w, l, c) # (TOKEN_IDENTIFIER, m, l', c') # ts') \<Longrightarrow>
    derives Postfix_level ts (MemberExpression a m) ts'"
| d_module_call_empty: "derives Postfix_level ts (Variable md) ((TOKEN_DOT, w, l, c) # (TOKEN_IDENTIFIER, f, l', c')
      # (TOKEN_LEFT_PAREN, w1, l1, c1) # (TOKEN_RIGHT_PAREN, w2, l2, c2) # ts') \<Longrightarrow>
    derives Postfix_level ts (FunctionCall (qualified_name md f) [] 0) ts'"
| d_module_call: "derives Postfix_level ts (Variable md) ((TOKEN_DOT, w, l, c) # (TOKEN_IDENTIFIER, f, l', c')
      # (TOKEN_LEFT_PAREN, w1, l1, c1) # ts1) \<Longrightarrow>
    derives_list ts1 es ((TOKEN_RIGHT_PAREN, w2, l2, c2) # ts') \<Longrightarrow>
    derives Postfix_level ts (FunctionCall (qualified_name md f) es (length es)) ts'"
| d_int64_min: "int64_min_magnitude w \<Longrightarrow>
    derives Unary_level ((TOKEN_MINUS, w', l', c') # (TOKEN_INTEGER, w, l, c) # ts) (IntegerLiteral INT64_MIN) ts"
| d_unary: "ty \<in> {TOKEN_BANG, TOKEN_MINUS, TOKEN_AMPERSAND, TOKEN_STAR} \<Longrightarrow> derives Unary_level ts e ts' \<Longrightarrow>
    derives Unary_level ((ty, w, l, c) # ts) (UnaryExpression e (unary_operator_of ty)) ts'"
| d_binary: "derives L ts a ((ty, w, l, c) # ts1) \<Longrightarrow> level_operator L ty = Some op \<Longrightarrow>
    derives (tighter L) ts1 b ts' \<Longrightarrow> derives L ts (BinaryExpression a b op) ts'"
| d_tighter: "derives (tighter L) ts e ts' \<Longrightarrow> derives L ts e ts'"
| d_one: "derives Or_level ts e ts' \<Longrightarrow> derives_list ts [e] ts'"
| d_more: "derives_list ts es ((TOKEN_COMMA, w, l, c) # ts1) \<Longrightarrow> derives Or_level ts1 e ts' \<Longrightarrow>
    derives_list ts (es @ [e]) ts'"

end
