(* ===== verification/StmtParser.thy ===== *)
theory StmtParser
  imports ExprParser
begin

text \<open>
  The statement parser: \<open>src/parser/statements.c\<close>, \<open>simple_statements.c\<close>, \<open>control.c\<close>,
  \<open>functions.c\<close>, \<open>loops.c\<close>, \<open>assignments.c\<close> and \<open>parser_parse\<close> of \<open>parser.c\<close>. As in
  theory \<open>ExprParser\<close>, each function takes the parsers it calls recursively (\<open>pe\<close> for
  expressions, \<open>ps\<close> for statements) and a bound \<open>k\<close> on the rounds of its loops.

  A statement is returned as the chain of nodes it stands for (a \<open>for\<close> loop is three nodes);
  \<open>None\<close> is the NULL pointer. The C code returns NULL for an empty block, too, and the
  callers of \<open>parse_block\<close> tell the two apart by the token they stand on: \<open>null_if_empty\<close> and
  \<open>the_chain\<close> keep that confusion.
\<close>

type_synonym stmt_parser = "parser \<Rightarrow> ast list parsed"

definition null_if_empty :: "ast list \<Rightarrow> ast list option" where
  "null_if_empty statements = (if statements = [] then None else Some statements)"

definition the_chain :: "ast list option \<Rightarrow> ast list" where
  "the_chain r = (case r of None \<Rightarrow> [] | Some statements \<Rightarrow> statements)"

section \<open>Blocks and simple statements\<close>

fun block_loop :: "nat \<Rightarrow> stmt_parser \<Rightarrow> ast list \<Rightarrow> stmt_parser" where
  "block_loop 0 ps statements p = None"
| "block_loop (Suc k) ps statements p =
     (if \<not> parser_check p TOKEN_RIGHT_BRACE \<and> \<not> parser_check p TOKEN_EOF then
        on_node (ps p) (\<lambda>statement p. block_loop k ps (ast_append statements statement) p)
      else
        on_ok (parser_consume p TOKEN_RIGHT_BRACE ''expected '}'.'') (\<lambda>p.
          Some (null_if_empty statements, p)))"

definition parse_block :: "nat \<Rightarrow> stmt_parser \<Rightarrow> stmt_parser" where
  "parse_block k ps p = block_loop k ps [] p"

definition parse_let_declaration :: "expr_parser \<Rightarrow> expr_parser" where
  "parse_let_declaration pe p = do {
     p \<leftarrow> parser_advance p;
     on_ok (parser_consume p TOKEN_IDENTIFIER ''expected variable name after 'let'.'') (\<lambda>p. do {
       name \<leftarrow> parser_token_to_string p (prev p);
       on_ok (parser_consume p TOKEN_COLON ''expected ':' after typed variable name.'') (\<lambda>p.
         on_ok (parser_consume p TOKEN_IDENTIFIER ''expected type name after ':'.'') (\<lambda>p. do {
           type \<leftarrow> parser_token_to_string p (prev p);
           on_ok (parser_consume p TOKEN_EQUALS ''expected '=' after variable type.'') (\<lambda>p.
             on_node (pe p) (\<lambda>value p.
               Some (Some (ast_create_typed_variable_declaration name type value), p)))
         }))
     })
   }"

definition parse_asm_statement :: "expr_parser" where
  "parse_asm_statement p = do {
     p \<leftarrow> parser_advance p;
     is_volatile \<leftarrow> parser_is_token p (cur p) ''volatile'';
     p \<leftarrow> (if is_volatile then parser_advance p else Some p);
     on_ok (parser_consume p TOKEN_LEFT_PAREN ''expected '(' after asm or asm volatile.'') (\<lambda>p.
       on_ok (parser_consume p TOKEN_STRING ''expected an assembly template string.'') (\<lambda>p. do {
         assembly \<leftarrow> parser_token_to_string p (prev p);
         on_ok (parser_consume p TOKEN_RIGHT_PAREN ''expected ')' after assembly template.'') (\<lambda>p.
           Some (Some (ast_create_asm_statement assembly is_volatile), p))
       }))
   }"

definition parse_print :: "expr_parser \<Rightarrow> expr_parser" where
  "parse_print pe p = do {
     p \<leftarrow> parser_advance p;
     on_ok (parser_consume p TOKEN_LEFT_PAREN ''expected '('.'') (\<lambda>p.
       on_node (pe p) (\<lambda>expression p.
         on_ok (parser_consume p TOKEN_RIGHT_PAREN ''expected ')'.'') (\<lambda>p.
           Some (Some (ast_create_print expression), p))))
   }"

definition parse_return :: "expr_parser \<Rightarrow> expr_parser" where
  "parse_return pe p = do {
     p \<leftarrow> parser_advance p;
     if parser_check p TOKEN_RIGHT_BRACE \<or> parser_check p TOKEN_EOF \<or> tok_line (cur p) > tok_line (prev p)
     then Some (Some (ast_create_return None), p)
     else do {
       (expression, p) \<leftarrow> pe p;
       case expression of
         None \<Rightarrow> Some (None, report_at p ''expected expression after return.'')
       | Some e \<Rightarrow> Some (Some (ast_create_return (Some e)), p)
     }
   }"

definition parse_break :: "expr_parser" where
  "parse_break p = do { p \<leftarrow> parser_advance p; Some (Some ast_create_break, p) }"

definition parse_continue :: "expr_parser" where
  "parse_continue p = do { p \<leftarrow> parser_advance p; Some (Some ast_create_continue, p) }"

section \<open>Conditionals and loops\<close>

definition else_part :: "nat \<Rightarrow> stmt_parser \<Rightarrow> stmt_parser" where
  "else_part k ps p = do {
     has_else \<leftarrow> parser_is_token p (cur p) ''else'';
     if has_else then do {
       p \<leftarrow> parser_advance p;
       else_if \<leftarrow> parser_is_token p (cur p) ''if'';
       if else_if then ps p
       else on_ok (parser_consume p TOKEN_LEFT_BRACE ''expected '{' or 'if' after else.'') (\<lambda>p. do {
         (else_branch, p) \<leftarrow> parse_block k ps p;
         if else_branch = None \<and> \<not> parser_check p TOKEN_EOF then Some (None, p)
         else Some (Some (the_chain else_branch), p)
       })
     } else Some (Some [], p)
   }"

definition parse_if :: "nat \<Rightarrow> expr_parser \<Rightarrow> stmt_parser \<Rightarrow> expr_parser" where
  "parse_if k pe ps p = do {
     p \<leftarrow> parser_advance p;
     on_node (pe p) (\<lambda>condition p.
       on_ok (parser_consume p TOKEN_LEFT_BRACE ''expected '{' after if condition.'') (\<lambda>p. do {
         (then_branch, p) \<leftarrow> parse_block k ps p;
         if then_branch = None \<and> \<not> parser_check p TOKEN_RIGHT_BRACE \<and> \<not> parser_check p TOKEN_EOF
         then Some (None, p)
         else on_node (else_part k ps p) (\<lambda>else_branch p.
           Some (Some (ast_create_if condition (the_chain then_branch) else_branch), p))
       }))
   }"

definition parse_while :: "nat \<Rightarrow> expr_parser \<Rightarrow> stmt_parser \<Rightarrow> expr_parser" where
  "parse_while k pe ps p = do {
     p \<leftarrow> parser_advance p;
     on_node (pe p) (\<lambda>condition p.
       on_ok (parser_consume p TOKEN_LEFT_BRACE ''expected '{' after while condition.'') (\<lambda>p. do {
         (body, p) \<leftarrow> parse_block k ps p;
         if body = None \<and> \<not> parser_check p TOKEN_EOF then Some (None, p)
         else Some (Some (ast_create_while condition (the_chain body)), p)
       }))
   }"

text \<open>
  The nodes a \<open>for\<close> loop is lowered into: the items, an index that starts at -1, and a
  \<open>while\<close> loop that increments the index and fetches the item before the user's body.
\<close>

definition for_condition :: "string \<Rightarrow> string \<Rightarrow> ast" where
  "for_condition items_name index_name =
     (let length_call = ast_create_function_call ''len'' (ast_append [] [ast_create_variable items_name]) 1;
          condition_left = ast_create_binary (ast_create_variable index_name) (ast_create_integer 1) BINARY_ADD
      in ast_create_binary condition_left length_call BINARY_LESS)"

definition for_item :: "string \<Rightarrow> string \<Rightarrow> string \<Rightarrow> ast" where
  "for_item items_name index_name loop_variable =
     (let item_expression = ast_create_index (ast_create_variable items_name) (ast_create_variable index_name)
      in ast_create_variable_declaration loop_variable item_expression)"

definition for_increment :: "string \<Rightarrow> ast" where
  "for_increment index_name =
     (let increment_expression = ast_create_binary (ast_create_variable index_name) (ast_create_integer 1) BINARY_ADD
      in ast_create_variable_declaration index_name increment_expression)"

definition for_statements :: "string \<Rightarrow> string \<Rightarrow> string \<Rightarrow> ast \<Rightarrow> ast list \<Rightarrow> ast list" where
  "for_statements items_name index_name loop_variable iterable body =
     (let items_declaration = ast_create_variable_declaration items_name iterable;
          index_declaration = ast_create_variable_declaration index_name (ast_create_integer (- 1));
          condition = for_condition items_name index_name;
          item_declaration = for_item items_name index_name loop_variable;
          increment = for_increment index_name;
          while_node = ast_create_while condition (increment # item_declaration # body)
      in ast_append (ast_append [items_declaration] [index_declaration]) [while_node])"

lemmas for_defs = for_statements_def for_condition_def for_item_def for_increment_def

definition parse_for :: "nat \<Rightarrow> expr_parser \<Rightarrow> stmt_parser \<Rightarrow> stmt_parser" where
  "parse_for k pe ps p = do {
     p \<leftarrow> parser_advance p;
     if \<not> parser_check p TOKEN_IDENTIFIER then Some (None, report p ''expected loop variable after for.'')
     else do {
       loop_variable \<leftarrow> parser_token_to_string p (cur p);
       p \<leftarrow> parser_advance p;
       has_in \<leftarrow> parser_is_token p (cur p) ''in'';
       if \<not> has_in then Some (None, report p ''expected 'in' after for variable.'')
       else do {
         p \<leftarrow> parser_advance p;
         on_node (pe p) (\<lambda>iterable p.
           on_ok (parser_consume p TOKEN_LEFT_BRACE ''expected '{' after for expression.'') (\<lambda>p. do {
             (body, p) \<leftarrow> parse_block k ps p;
             if body = None \<and> \<not> parser_check p TOKEN_EOF then Some (None, p)
             else let p = p\<lparr>for_counter := for_counter p + 1\<rparr>;
                      items_name = ''__vnt_for_items_'' @ decimal (for_counter p);
                      index_name = ''__vnt_for_index_'' @ decimal (for_counter p)
                  in Some (Some (for_statements items_name index_name loop_variable iterable (the_chain body)), p)
           }))
       }
     }
   }"

section \<open>Functions, structs and calls\<close>

text \<open>The optional type behind a parameter; the inner option is the NULL type of an untyped one.\<close>

definition parameter_type :: "parser \<Rightarrow> string option parsed" where
  "parameter_type p =
     (if parser_check p TOKEN_COLON then do {
        p \<leftarrow> parser_advance p;
        if \<not> parser_check p TOKEN_IDENTIFIER then Some (None, report p ''expected parameter type after ':'.'')
        else do {
          type \<leftarrow> parser_token_to_string p (cur p);
          p \<leftarrow> parser_advance p;
          Some (Some (Some type), p)
        }
      } else Some (Some None, p))"

fun parameter_loop :: "nat \<Rightarrow> string list \<Rightarrow> string option list \<Rightarrow> nat \<Rightarrow> parser \<Rightarrow>
    (string list \<times> string option list \<times> nat) parsed" where
  "parameter_loop 0 parameters types count p = None"
| "parameter_loop (Suc k) parameters types count p =
     (if parser_check p TOKEN_RIGHT_PAREN then Some (Some (parameters, types, count), p)
      else if \<not> parser_check p TOKEN_IDENTIFIER then Some (None, report_at p ''expected parameter name.'')
      else do {
        parameter \<leftarrow> parser_token_to_string p (cur p);
        p \<leftarrow> parser_advance p;
        on_node (parameter_type p) (\<lambda>type p.
          if parser_check p TOKEN_RIGHT_PAREN then Some (Some (parameters @ [parameter], types @ [type], count + 1), p)
          else on_ok (parser_consume p TOKEN_COMMA ''expected ',' between parameters.'') (\<lambda>p.
            parameter_loop k (parameters @ [parameter]) (types @ [type]) (count + 1) p))
      })"

definition return_type_part :: "parser \<Rightarrow> string option parsed" where
  "return_type_part p =
     (if parser_check p TOKEN_MINUS then do {
        p \<leftarrow> parser_advance p;
        on_ok (parser_consume p TOKEN_GREATER ''expected '>' after '-' in return type.'') (\<lambda>p.
          if \<not> parser_check p TOKEN_IDENTIFIER then Some (None, report p ''expected function return type.'')
          else do {
            type \<leftarrow> parser_token_to_string p (cur p);
            p \<leftarrow> parser_advance p;
            Some (Some (Some type), p)
          })
      } else Some (Some None, p))"

definition parse_function :: "nat \<Rightarrow> stmt_parser \<Rightarrow> expr_parser" where
  "parse_function k ps p = do {
     p \<leftarrow> parser_advance p;
     if \<not> parser_check p TOKEN_IDENTIFIER then Some (None, report p ''expected function name.'')
     else do {
       name \<leftarrow> parser_token_to_string p (cur p);
       p \<leftarrow> parser_advance p;
       on_ok (parser_consume p TOKEN_LEFT_PAREN ''expected '(' after function name.'') (\<lambda>p.
         on_node (parameter_loop k [] [] 0 p) (\<lambda>(parameters, types, count) p.
           on_ok (parser_consume p TOKEN_RIGHT_PAREN ''expected ')' after parameters.'') (\<lambda>p.
             on_node (return_type_part p) (\<lambda>return_type p.
               on_ok (parser_consume p TOKEN_LEFT_BRACE ''expected '{' before function body.'') (\<lambda>p. do {
                 (body, p) \<leftarrow> parse_block k ps p;
                 if body = None \<and> \<not> parser_check p TOKEN_EOF then Some (None, p)
                 else Some (Some (ast_create_typed_function_declaration name parameters types count return_type (the_chain body)), p)
               })))))
     }
   }"

definition parse_function_call :: "nat \<Rightarrow> expr_parser \<Rightarrow> string \<Rightarrow> expr_parser" where
  "parse_function_call k pe name p =
     on_ok (parser_consume p TOKEN_LEFT_PAREN ''expected '(' after function name.'') (\<lambda>p.
       on_node (if \<not> parser_check p TOKEN_RIGHT_PAREN then argument_loop k pe [] 0 p else Some (Some ([], 0), p))
         (\<lambda>(arguments, count) p.
           on_ok (parser_consume p TOKEN_RIGHT_PAREN ''expected ')' after arguments.'') (\<lambda>p.
             Some (Some (ast_create_function_call name arguments count), p))))"

fun field_loop :: "nat \<Rightarrow> string list \<Rightarrow> nat \<Rightarrow> parser \<Rightarrow> (string list \<times> nat) parsed" where
  "field_loop 0 field_names count p = None"
| "field_loop (Suc k) field_names count p =
     (if \<not> parser_check p TOKEN_IDENTIFIER then Some (None, report p ''expected struct field name.'')
      else do {
        field \<leftarrow> parser_token_to_string p (cur p);
        p \<leftarrow> parser_advance p;
        if parser_check p TOKEN_RIGHT_BRACE then Some (Some (field_names @ [field], count + 1), p)
        else on_ok (parser_consume p TOKEN_COMMA ''expected ',' between struct fields.'') (\<lambda>p.
          field_loop k (field_names @ [field]) (count + 1) p)
      })"

definition parse_struct :: "nat \<Rightarrow> expr_parser" where
  "parse_struct k p = do {
     p \<leftarrow> parser_advance p;
     if \<not> parser_check p TOKEN_IDENTIFIER then Some (None, report p ''expected struct name.'')
     else do {
       name \<leftarrow> parser_token_to_string p (cur p);
       p \<leftarrow> parser_advance p;
       on_ok (parser_consume p TOKEN_LEFT_BRACE ''expected '{' after struct name.'') (\<lambda>p.
         on_node (if \<not> parser_check p TOKEN_RIGHT_BRACE then field_loop k [] 0 p else Some (Some ([], 0), p))
           (\<lambda>(field_names, count) p.
             on_ok (parser_consume p TOKEN_RIGHT_BRACE ''expected '}' after struct definition.'') (\<lambda>p.
               Some (Some (ast_create_struct_declaration name field_names count), p))))
     }
   }"

section \<open>Assignments\<close>

fun clone_expression :: "ast \<Rightarrow> ast option" where
  "clone_expression (Variable name) = Some (ast_create_variable name)"
| "clone_expression (IntegerLiteral value) = Some (ast_create_integer value)"
| "clone_expression (BooleanLiteral value) = Some (ast_create_boolean value)"
| "clone_expression (StringLiteral value) = Some (ast_create_string value)"
| "clone_expression (FloatLiteral text) = Some (ast_create_float text)"
| "clone_expression (MemberExpression object member) = do {
     object \<leftarrow> clone_expression object;
     Some (ast_create_member object member)
   }"
| "clone_expression (IndexExpression array index) = do {
     array \<leftarrow> clone_expression array;
     index \<leftarrow> clone_expression index;
     Some (ast_create_index array index)
   }"
| "clone_expression (BinaryExpression left right op) = do {
     left \<leftarrow> clone_expression left;
     right \<leftarrow> clone_expression right;
     Some (ast_create_binary left right op)
   }"
| "clone_expression (UnaryExpression operand op) = do {
     operand \<leftarrow> clone_expression operand;
     Some (ast_create_unary operand op)
   }"
| "clone_expression _ = None"

fun target_loop :: "nat \<Rightarrow> expr_parser \<Rightarrow> ast \<Rightarrow> expr_parser" where
  "target_loop 0 pe target p = None"
| "target_loop (Suc k) pe target p =
     (if parser_check p TOKEN_LEFT_BRACKET then do {
        p \<leftarrow> parser_advance p;
        (index, p) \<leftarrow> pe p;
        case index of
          None \<Rightarrow> Some (None, report p ''expected array index.'')
        | Some index \<Rightarrow>
            on_ok (parser_consume p TOKEN_RIGHT_BRACKET ''expected ']' after array index.'') (\<lambda>p.
              target_loop k pe (ast_create_index target index) p)
      }
      else if parser_check p TOKEN_DOT then do {
        p \<leftarrow> parser_advance p;
        if \<not> parser_check p TOKEN_IDENTIFIER then Some (None, report p ''expected member name after '.'.'')
        else do {
          member \<leftarrow> parser_token_to_string p (cur p);
          p \<leftarrow> parser_advance p;
          target_loop k pe (ast_create_member target member) p
        }
      }
      else Some (Some target, p))"

text \<open>\<open>fs.remove_file(path)\<close>: the joined name of a member of a variable.\<close>

fun module_member :: "ast \<Rightarrow> string option" where
  "module_member (MemberExpression (Variable module_name) function_name) = Some (qualified_name module_name function_name)"
| "module_member _ = None"

fun compound_operator :: "token_type \<Rightarrow> binary_operator option" where
  "compound_operator TOKEN_PLUS_EQUALS = Some BINARY_ADD"
| "compound_operator TOKEN_MINUS_EQUALS = Some BINARY_SUBTRACT"
| "compound_operator TOKEN_STAR_EQUALS = Some BINARY_MULTIPLY"
| "compound_operator TOKEN_SLASH_EQUALS = Some BINARY_DIVIDE"
| "compound_operator TOKEN_PERCENT_EQUALS = Some BINARY_MODULO"
| "compound_operator _ = None"

text \<open>The node of an assignment: a declaration when the target is a variable.\<close>

definition assignment_node :: "ast \<Rightarrow> ast \<Rightarrow> ast" where
  "assignment_node target value =
     (case variable_name target of
        Some name \<Rightarrow> ast_create_variable_declaration name value
      | None \<Rightarrow> ast_create_assignment target value)"

definition finish_assignment :: "expr_parser \<Rightarrow> ast \<Rightarrow> expr_parser" where
  "finish_assignment pe target p =
     (let assignment_operator = cur_type p in
      if assignment_operator \<noteq> TOKEN_EQUALS \<and> compound_operator assignment_operator = None
      then Some (None, report_at p ''expected assignment operator.'')
      else do {
        p \<leftarrow> parser_advance p;
        on_node (pe p) (\<lambda>value p.
          case compound_operator assignment_operator of
            None \<Rightarrow> Some (Some (assignment_node target value), p)
          | Some binary_operator \<Rightarrow>
              (case clone_expression target of
                 None \<Rightarrow> Some (None, report p ''out of memory.'')
               | Some left \<Rightarrow> Some (Some (assignment_node target (ast_create_binary left value binary_operator)), p)))
      })"

definition parse_identifier_statement :: "nat \<Rightarrow> expr_parser \<Rightarrow> expr_parser" where
  "parse_identifier_statement k pe p =
     (if parser_check p TOKEN_IDENTIFIER then do {
        name \<leftarrow> parser_token_to_string p (cur p);
        p \<leftarrow> parser_advance p;
        if parser_check p TOKEN_LEFT_PAREN then parse_function_call k pe name p
        else on_node (target_loop k pe (ast_create_variable name) p) (\<lambda>target p.
          if module_member target \<noteq> None \<and> parser_check p TOKEN_LEFT_PAREN
          then parse_function_call k pe (the (module_member target)) p
          else finish_assignment pe target p)
      } else None)"

definition parse_dereference_statement :: "expr_parser \<Rightarrow> expr_parser" where
  "parse_dereference_statement pe p = do {
     p \<leftarrow> parser_advance p;
     (operand, p) \<leftarrow> pe p;
     case operand of
       None \<Rightarrow> Some (None, report p ''expected reference after '*'.'')
     | Some operand \<Rightarrow>
         (let target = ast_create_unary operand UNARY_DEREFERENCE; op = cur_type p in
          if op \<noteq> TOKEN_EQUALS \<and> compound_operator op = None
          then Some (None, report p ''expected assignment operator after dereference.'')
          else do {
            p \<leftarrow> parser_advance p;
            on_node (pe p) (\<lambda>value p.
              case compound_operator op of
                None \<Rightarrow> Some (Some (ast_create_assignment target value), p)
              | Some bop \<Rightarrow>
                  (case clone_expression target of
                     None \<Rightarrow> Some (None, p)
                   | Some left \<Rightarrow> Some (Some (ast_create_assignment target (ast_create_binary left value bop)), p)))
          })
   }"

section \<open>Statements and programs\<close>

fun set_unsafe :: "ast \<Rightarrow> ast" where
  "set_unsafe (FunctionDeclaration name parameters types count return_type is_unsafe body) =
     FunctionDeclaration name parameters types count return_type True body"
| "set_unsafe node = node"

definition parse_unsafe_block :: "nat \<Rightarrow> stmt_parser \<Rightarrow> expr_parser" where
  "parse_unsafe_block k ps p = do {
     p \<leftarrow> parser_advance p;
     is_function \<leftarrow> parser_is_token p (cur p) ''fun'';
     if is_function then on_node (parse_function k ps p) (\<lambda>function p. Some (Some (set_unsafe function), p))
     else on_ok (parser_consume p TOKEN_LEFT_BRACE ''expected '{' or 'fun' after unsafe.'') (\<lambda>p. do {
       (statements, p) \<leftarrow> parse_block k ps p;
       if statements = None \<and> parser_check p TOKEN_EOF then Some (None, p)
       else Some (Some (ast_create_unsafe_block (the_chain statements)), p)
     })
   }"

definition single :: "ast parsed \<Rightarrow> ast list parsed" where
  "single m = on_node m (\<lambda>node p. Some (Some [node], p))"

definition on_word :: "parser \<Rightarrow> string \<Rightarrow> 'a parsed \<Rightarrow> 'a parsed \<Rightarrow> 'a parsed" where
  "on_word p text yes no = do { b \<leftarrow> parser_is_token p (cur p) text; if b then yes else no }"

definition statement_dispatch :: "nat \<Rightarrow> expr_parser \<Rightarrow> stmt_parser \<Rightarrow> stmt_parser" where
  "statement_dispatch k pe ps p =
     on_word p ''unsafe'' (single (parse_unsafe_block k ps p)) (
     on_word p ''asm'' (single (parse_asm_statement p)) (
     on_word p ''let'' (single (parse_let_declaration pe p)) (
     on_word p ''print'' (single (parse_print pe p)) (
     on_word p ''return'' (single (parse_return pe p)) (
     on_word p ''break'' (single (parse_break p)) (
     on_word p ''continue'' (single (parse_continue p)) (
     on_word p ''if'' (single (parse_if k pe ps p)) (
     on_word p ''while'' (single (parse_while k pe ps p)) (
     on_word p ''for'' (parse_for k pe ps p) (
     on_word p ''fun'' (single (parse_function k ps p)) (
     on_word p ''struct'' (single (parse_struct k p)) (
     if parser_check p TOKEN_STAR then single (parse_dereference_statement pe p)
     else if parser_check p TOKEN_IDENTIFIER then single (parse_identifier_statement k pe p)
     else Some (None, report_at p ''expected a statement.'')))))))))))))"

definition statement_body :: "nat \<Rightarrow> expr_parser \<Rightarrow> stmt_parser \<Rightarrow> stmt_parser" where
  "statement_body k pe ps p =
     on_ok (Some (parser_enter_nesting p ''statement'')) (\<lambda>p. do {
       (statement, p) \<leftarrow> statement_dispatch k pe ps p;
       Some (if nesting_failed p then None else statement, parser_leave_nesting p)
     })"

fun parse_statement :: "nat \<Rightarrow> stmt_parser" where
  "parse_statement 0 p = None"
| "parse_statement (Suc n) p = statement_body (Suc n) (parse_expression (Suc n)) (parse_statement n) p"

fun program_loop :: "nat \<Rightarrow> stmt_parser \<Rightarrow> ast list \<Rightarrow> parser \<Rightarrow> ast parsed" where
  "program_loop 0 ps statements p = None"
| "program_loop (Suc k) ps statements p =
     (if \<not> parser_check p TOKEN_EOF then
        on_node (ps p) (\<lambda>statement p. program_loop k ps (ast_append statements statement) p)
      else Some (Some (ast_create_program statements), p))"

definition parser_parse :: "nat \<Rightarrow> parser \<Rightarrow> ast parsed" where
  "parser_parse n p = program_loop n (parse_statement n) [] p"

text \<open>
  A source text, from the first token to the tree, as \<open>main\<close> of \<open>src/main.c\<close> runs the
  parser. A text of \<open>n\<close> bytes has at most \<open>n\<close> tokens, so the bound of \<open>n + 1\<close> rounds is never
  reached.
\<close>

definition parse_source :: "string \<Rightarrow> ast parsed" where
  "parse_source src = do {
     p \<leftarrow> parser_init (lexer_init src);
     parser_parse (length src + 1) p
   }"

end
