(* ===== verification/ExprParserCorrect.thy ===== *)
theory ExprParserCorrect
  imports ExprParser
begin

text \<open>
  Correctness of the expression parser. The locale \<open>expression_parser\<close> is the contract of the
  parser that the functions of \<open>ExprParser\<close> call recursively; inside it every one of them
  is shown to meet its own contract, and the last section ties the knot.
\<close>

section \<open>Contracts\<close>

text \<open>The operators the enclosing expression has used so far; a new expression starts at zero.\<close>

definition ops :: "parser \<Rightarrow> nat" where
  "ops p = (if expression_depth p = 0 then 0 else expression_operator_count p)"

text \<open>
  A failure is reported; a tree is well-formed, is derived by the grammar from the tokens
  consumed (at least one), and is no higher than the nesting and the operators left allow.
\<close>

definition expr_post :: "level \<Rightarrow> nat \<Rightarrow> parser \<Rightarrow> ast option \<times> parser \<Rightarrow> bool" where
  "expr_post L h p = (\<lambda>(e, p'). case e of
       None \<Rightarrow> fails p p'
     | Some x \<Rightarrow> stays p p' \<and> length (stream p') < length (stream p) \<and> expr_ok x
         \<and> height x + nesting_depth p + ops p \<le> h + expression_operator_count p'
         \<and> derives L (stream p) x (stream p'))"

text \<open>The elements or arguments read so far, from \<open>p\<close> on.\<close>

definition list_so_far :: "parser \<Rightarrow> ast list \<Rightarrow> nat \<Rightarrow> parser \<Rightarrow> bool" where
  "list_so_far p es n p' \<longleftrightarrow> stays p p' \<and> n = length es \<and> list_all expr_ok es
     \<and> maximum (map height es) + nesting_depth p + ops p \<le> 256 + expression_operator_count p'"

text \<open>Where the tokens of the list read so far end: at its start, or behind a comma.\<close>

definition list_begun :: "parser \<Rightarrow> ast list \<Rightarrow> parser \<Rightarrow> bool" where
  "list_begun p es p' \<longleftrightarrow> (es = [] \<and> stream p' = stream p)
     \<or> (\<exists>w l c. derives_list (stream p) es ((TOKEN_COMMA, w, l, c) # stream p'))"

text \<open>The tokens of a whole list; only an array may have a comma behind its last element.\<close>

definition list_derived :: "bool \<Rightarrow> parser \<Rightarrow> ast list \<Rightarrow> parser \<Rightarrow> bool" where
  "list_derived trailing p es p' \<longleftrightarrow> derives_list (stream p) es (stream p')
     \<or> trailing \<and> cur_type p' = TOKEN_RIGHT_BRACKET
       \<and> (\<exists>w l c. derives_list (stream p) es ((TOKEN_COMMA, w, l, c) # stream p'))"

definition list_post :: "bool \<Rightarrow> parser \<Rightarrow> (ast list \<times> nat) option \<times> parser \<Rightarrow> bool" where
  "list_post trailing p = (\<lambda>(r, p'). case r of
       None \<Rightarrow> fails p p'
     | Some (es, n) \<Rightarrow> list_so_far p es n p' \<and> list_derived trailing p es p')"

lemma list_begun_Nil: "stream p' = stream p \<Longrightarrow> list_begun p [] p'"
  by (simp add: list_begun_def)

lemma list_begun_comma: "derives_list (stream p) es ((TOKEN_COMMA, w, l, c) # stream p') \<Longrightarrow> list_begun p es p'"
  by (auto simp: list_begun_def)

lemma list_derived_plain: "derives_list (stream p) es (stream p') \<Longrightarrow> list_derived trailing p es p'"
  by (simp add: list_derived_def)

lemma list_derived_comma:
  "derives_list (stream p) es ((TOKEN_COMMA, w, l, c) # stream p') \<Longrightarrow> cur_type p' = TOKEN_RIGHT_BRACKET \<Longrightarrow>
     list_derived True p es p'"
  by (auto simp: list_derived_def)

lemma derives_list_step:
  "list_begun p0 es p \<Longrightarrow> derives Or_level (stream p) x ts \<Longrightarrow> derives_list (stream p0) (es @ [x]) ts"
  using d_one d_more by (auto simp: list_begun_def)

lemmas list_intros = list_begun_Nil list_begun_comma list_derived_plain list_derived_comma derives_list_step

lemma integer_literal_int64: "integer_literal w = Some v \<Longrightarrow> int64 v"
  by (auto simp: integer_literal_def int64_def INT64_MIN_def split: prod.splits if_splits)

lemma int64_INT64_MIN [simp]: "int64 INT64_MIN"
  by (simp add: int64_def INT64_MIN_def INT64_MAX_def)

lemma derives_identifier:
  "derives Primary_level ((TOKEN_IDENTIFIER, ''true'', l, c) # ts) (BooleanLiteral True) ts"
  "derives Primary_level ((TOKEN_IDENTIFIER, ''false'', l, c) # ts) (BooleanLiteral False) ts"
  "derives Primary_level ((TOKEN_IDENTIFIER, ''null'', l, c) # ts) NullLiteral ts"
  "w \<noteq> ''true'' \<Longrightarrow> w \<noteq> ''false'' \<Longrightarrow> w \<noteq> ''null'' \<Longrightarrow>
     derives Primary_level ((TOKEN_IDENTIFIER, w, l, c) # ts) (Variable w) ts"
  using d_identifier [of "''true''" l c ts] d_identifier [of "''false''" l c ts] d_identifier [of "''null''" l c ts]
    d_identifier [of w l c ts]
  by (simp_all add: identifier_expression_def)

lemma expr_post_tighter: "expr_post (tighter L) h p r \<Longrightarrow> expr_post L h p r"
  by (auto simp: expr_post_def intro: d_tighter split: option.splits)

lemmas contract_defs = advanced_def reported_def fails_def stays_def expr_post_def list_so_far_def ops_def

text \<open>A list in brackets or parentheses, possibly empty.\<close>

definition bracketed :: "bool \<Rightarrow> parser \<Rightarrow> ast list \<Rightarrow> parser \<Rightarrow> bool" where
  "bracketed trailing p es p' \<longleftrightarrow> es = [] \<and> stream p = stream p' \<or> list_derived trailing p es p'"

lemma bracketed_array:
  "bracketed True p es p' \<Longrightarrow> stream p' = (TOKEN_RIGHT_BRACKET, w', l', c') # ts \<Longrightarrow>
     derives Primary_level ((TOKEN_LEFT_BRACKET, w, l, c) # stream p) (ArrayLiteral es (length es)) ts"
  by (auto simp: bracketed_def list_derived_def intro: d_array_empty d_array d_array_comma)

lemma bracketed_call:
  "bracketed False p es p' \<Longrightarrow> stream p' = (TOKEN_RIGHT_PAREN, w', l', c') # ts \<Longrightarrow>
     derives Primary_level ((TOKEN_IDENTIFIER, f, l1, c1) # (TOKEN_LEFT_PAREN, w, l, c) # stream p)
       (FunctionCall f es (length es)) ts"
  by (auto simp: bracketed_def list_derived_def intro: d_call_empty d_call)

lemma bracketed_module_call:
  "bracketed False p es p' \<Longrightarrow> stream p' = (TOKEN_RIGHT_PAREN, w', l', c') # ts' \<Longrightarrow>
     derives Postfix_level ts (Variable md) ((TOKEN_DOT, w0, l0, c0) # (TOKEN_IDENTIFIER, f, l1, c1)
       # (TOKEN_LEFT_PAREN, w, l, c) # stream p) \<Longrightarrow>
     derives Postfix_level ts (FunctionCall (qualified_name md f) es (length es)) ts'"
  by (auto simp: bracketed_def list_derived_def intro: d_module_call_empty d_module_call)

lemma wp_bracketedI:
  assumes "parser_wf p" "0 < expression_depth p" "\<not> b \<Longrightarrow> wp m (list_post trailing p)"
    and "\<And>p'. fails p p' \<Longrightarrow> Q (None, p')"
    and "\<And>es p'. list_so_far p es (length es) p' \<Longrightarrow> bracketed trailing p es p' \<Longrightarrow> wp (k es (length es) p') Q"
  shows "wp (on_node (if \<not> b then m else Some (Some ([], 0), p)) (case_prod k)) Q"
proof (rule wp_nodeI)
  let ?P = "\<lambda>(r, p'). case r of None \<Rightarrow> fails p p'
    | Some (es, n) \<Rightarrow> list_so_far p es n p' \<and> bracketed trailing p es p'"
  have "list_so_far p [] 0 p" using assms(1,2) by (simp add: list_so_far_def stays_refl ops_def parser_wf_def)
  moreover have "wp m ?P" if "\<not> b"
    using assms(3) [OF that] by (rule wp_mono) (auto simp: list_post_def bracketed_def split: option.splits)
  ultimately show "wp (if \<not> b then m else Some (Some ([], 0), p)) ?P" by (simp add: bracketed_def)
  show "Q (None, p')" if "?P (None, p')" for p' using that assms(4) by simp
  show "wp (case_prod k x p') Q" if "?P (Some x, p')" for x p'
    using that assms(5) [of "fst x" p'] by (cases x) (auto simp: list_so_far_def)
qed

lemma wp_resultI:
  assumes "wp m (expr_post L h q)" "\<And>p'. fails q p' \<Longrightarrow> wp (k (None, p')) Q"
    "\<And>x p'. expr_post L h q (Some x, p') \<Longrightarrow> wp (k (Some x, p')) Q"
  shows "wp (m \<bind> k) Q"
proof -
  from assms(1) obtain e p' where m: "m = Some (e, p')" "expr_post L h q (e, p')" by (auto simp: wp_iff)
  with assms(2,3) show ?thesis by (cases e) (auto simp: expr_post_def)
qed

lemma wp_minimumI:
  assumes "parser_wf p" "cur_type p = TOKEN_INTEGER \<Longrightarrow> operator = TOKEN_MINUS \<Longrightarrow>
      int64_min_magnitude (token_string p (cur p)) \<Longrightarrow> wp (k True) Q"
    and "wp (k False) Q"
  shows "wp ((if operator = TOKEN_MINUS \<and> token_is p TOKEN_INTEGER
              then map_option int64_min_magnitude (parser_token_to_string p (cur p)) else Some False) \<bind> k) Q"
  using assms by (cases "int64_min_magnitude (token_string p (cur p))") (auto simp: parser_token_to_string_cur)

locale expression_parser =
  fixes pe :: expr_parser and n :: nat
  assumes pe_wp: "parser_wf p \<Longrightarrow> length (stream p) < n \<Longrightarrow> wp (pe p) (expr_post Or_level 256 p)"
begin

lemma wp_peI:
  assumes "parser_wf p" "length (stream p) < n"
    and "\<And>p'. fails p p' \<Longrightarrow> Q (None, p')"
    and "\<And>x p'. expr_post Or_level 256 p (Some x, p') \<Longrightarrow> wp (k x p') Q"
  shows "wp (on_node (pe p) k) Q"
  by (rule wp_nodeI [OF pe_wp]) (use assms in \<open>auto simp: expr_post_def\<close>)

lemmas vcg = wp_peI parser_vcg

lemma array_elements_wp:
  assumes "list_so_far p0 es c p" "list_begun p0 es p" "0 < expression_depth p0"
    "length (stream p) < k" "length (stream p) < n"
  shows "wp (array_elements k pe es c p) (list_post True p0)"
  using assms
proof (induction k arbitrary: es c p)
  case (Suc k)
  show ?case
    unfolding array_elements.simps
    by (intro vcg Suc.IH) (use Suc.prems in \<open>auto simp: list_post_def contract_defs intro: list_intros\<close>)
qed simp

lemma call_arguments_wp:
  assumes "list_so_far p0 es c p" "list_begun p0 es p" "0 < expression_depth p0"
    "length (stream p) < k" "length (stream p) < n"
  shows "wp (call_arguments k pe es c p) (list_post False p0)"
  using assms
proof (induction k arbitrary: es c p)
  case (Suc k)
  show ?case
    unfolding call_arguments.simps
    by (intro vcg Suc.IH) (use Suc.prems in \<open>auto simp: list_post_def contract_defs report_facts intro: list_intros\<close>)
qed simp

lemma argument_loop_wp:
  assumes "list_so_far p0 es c p" "list_begun p0 es p" "0 < expression_depth p0"
    "length (stream p) < k" "length (stream p) < n"
  shows "wp (argument_loop k pe es c p) (list_post False p0)"
  using assms
proof (induction k arbitrary: es c p)
  case (Suc k)
  show ?case
    unfolding argument_loop.simps
    by (intro vcg Suc.IH) (use Suc.prems in \<open>auto simp: list_post_def contract_defs intro: list_intros\<close>)
qed simp

lemma list_start: "parser_wf p \<Longrightarrow> 0 < expression_depth p \<Longrightarrow> list_so_far p [] 0 p \<and> list_begun p [] p"
  by (simp add: list_so_far_def list_begun_def stays_refl ops_def parser_wf_def)

lemma wp_arrayI:
  assumes "parser_wf p" "0 < expression_depth p" "length (stream p) < m" "length (stream p) < n"
    and "\<And>p'. fails p p' \<Longrightarrow> Q (None, p')"
    and "\<And>es p'. list_so_far p es (length es) p' \<Longrightarrow> bracketed True p es p' \<Longrightarrow> wp (k es (length es) p') Q"
  shows "wp (on_node (if \<not> b then array_elements m pe [] 0 p else Some (Some ([], 0), p)) (case_prod k)) Q"
  using assms list_start [OF assms(1,2)] by (blast intro: wp_bracketedI array_elements_wp)

lemma wp_callI:
  assumes "parser_wf p" "0 < expression_depth p" "length (stream p) < m" "length (stream p) < n"
    and "\<And>p'. fails p p' \<Longrightarrow> Q (None, p')"
    and "\<And>es p'. list_so_far p es (length es) p' \<Longrightarrow> bracketed False p es p' \<Longrightarrow> wp (k es (length es) p') Q"
  shows "wp (on_node (if \<not> b then call_arguments m pe [] 0 p else Some (Some ([], 0), p)) (case_prod k)) Q"
  using assms list_start [OF assms(1,2)] by (blast intro: wp_bracketedI call_arguments_wp)

lemma wp_argumentsI:
  assumes "parser_wf p" "0 < expression_depth p" "length (stream p) < m" "length (stream p) < n"
    and "\<And>p'. fails p p' \<Longrightarrow> Q (None, p')"
    and "\<And>es p'. list_so_far p es (length es) p' \<Longrightarrow> bracketed False p es p' \<Longrightarrow> wp (k es (length es) p') Q"
  shows "wp (on_node (if \<not> b then argument_loop m pe [] 0 p else Some (Some ([], 0), p)) (case_prod k)) Q"
  using assms list_start [OF assms(1,2)] by (blast intro: wp_bracketedI argument_loop_wp)

lemma parse_primary_wp:
  assumes "parser_wf p" "0 < expression_depth p" "length (stream p) < k" "length (stream p) \<le> n"
  shows "wp (parse_primary k pe p) (expr_post Primary_level 257 p)"
  unfolding parse_primary_def array_primary_def identifier_primary_def
  by (intro wp_arrayI wp_callI vcg)
    (use assms parser_wf_bounds [OF assms(1)] in \<open>auto simp: contract_defs report_facts
      intro: integer_literal_int64 d_integer d_float d_string d_paren bracketed_array bracketed_call derives_identifier\<close>)

lemma postfix_loop_wp:
  assumes "expr_post Postfix_level 257 p0 (Some e, p)" "0 < expression_depth p0"
    "length (stream p) < k" "length (stream p) < n"
  shows "wp (postfix_loop k pe e p) (expr_post Postfix_level 257 p0)"
  using assms
proof (induction k arbitrary: e p)
  case (Suc k)
  have "variable_name e \<noteq> None \<Longrightarrow> \<exists>x. e = Variable x" by (cases e) auto
  with Suc.prems show ?case
    unfolding postfix_loop.simps
    by (intro wp_argumentsI vcg Suc.IH)
      (auto simp: contract_defs report_facts intro: bracketed_module_call d_index d_member)
qed simp

lemma parse_postfix_wp:
  assumes "parser_wf p" "0 < expression_depth p" "length (stream p) < k" "length (stream p) \<le> n"
  shows "wp (parse_postfix k pe p) (expr_post Postfix_level 257 p)"
  unfolding parse_postfix_def
proof (rule wp_nodeI [OF parse_primary_wp [OF assms]])
  fix x p' assume "expr_post Primary_level 257 p (Some x, p')"
  with expr_post_tighter [of Postfix_level] have "expr_post Postfix_level 257 p (Some x, p')" by simp
  moreover from this assms have "length (stream p') < k" "length (stream p') < n" by (auto simp: expr_post_def)
  ultimately show "wp (postfix_loop k pe x p') (expr_post Postfix_level 257 p)"
    using assms(2) by (intro postfix_loop_wp)
qed (simp add: expr_post_def)

lemma parse_unary_wp:
  assumes "parser_wf p" "0 < expression_depth p" "length (stream p) < k" "length (stream p) \<le> n"
  shows "wp (parse_unary k pe p) (expr_post Unary_level 257 p)"
  using assms
proof (induction k arbitrary: p)
  case (Suc k)
  have postfix: "wp (parse_postfix (Suc k) pe p) (expr_post Unary_level 257 p)"
    using wp_mono [OF parse_postfix_wp [OF Suc.prems]] expr_post_tighter [of Unary_level] by simp
  with Suc.prems parser_wf_bounds [OF Suc.prems(1)] show ?case
    unfolding parse_unary.simps Let_def
    by (intro wp_minimumI wp_resultI [OF Suc.IH] parser_vcg)
      (auto simp: contract_defs intro: d_int64_min d_unary)
qed simp

text \<open>The loop of one binary level, whose operands are of the next tighter one.\<close>

lemma binary_loop_wp:
  assumes "expr_post L 257 p0 (Some e, p)" "0 < expression_depth p0"
    "length (stream p) < k" "length (stream p) \<le> n"
    and operand: "\<And>p. parser_wf p \<Longrightarrow> 0 < expression_depth p \<Longrightarrow> length (stream p) \<le> length (stream p0) \<Longrightarrow>
      wp (operand p) (expr_post (tighter L) 257 p)"
    and eof: "level_operator L TOKEN_EOF = None"
  shows "wp (binary_loop k (level_operator L) operand e p) (expr_post L 257 p0)"
  using assms(1-4)
proof (induction k arbitrary: e p)
  case (Suc k)
  then show ?case
    unfolding binary_loop.simps
    by (intro wp_nodeI [OF operand] parser_vcg Suc.IH) (use eof in \<open>auto simp: contract_defs intro: d_binary\<close>)
qed simp

lemma level_wp:
  assumes "parser_wf p" "0 < expression_depth p" "length (stream p) < k" "length (stream p) \<le> n"
    and operand: "\<And>p. parser_wf p \<Longrightarrow> 0 < expression_depth p \<Longrightarrow> length (stream p) < k \<Longrightarrow> length (stream p) \<le> n \<Longrightarrow>
      wp (operand p) (expr_post (tighter L) 257 p)"
    and eof: "level_operator L TOKEN_EOF = None"
  shows "wp (on_node (operand p) (\<lambda>left p. binary_loop k (level_operator L) operand left p)) (expr_post L 257 p)"
proof (rule wp_nodeI [OF operand [OF assms(1-4)]])
  fix x p' assume "expr_post (tighter L) 257 p (Some x, p')"
  then have "expr_post L 257 p (Some x, p')" by (rule expr_post_tighter)
  moreover from this assms have "length (stream p') < k" "length (stream p') \<le> n" by (auto simp: expr_post_def)
  ultimately show "wp (binary_loop k (level_operator L) operand x p') (expr_post L 257 p)"
    using assms by (intro binary_loop_wp) auto
qed (simp add: expr_post_def)

lemma parse_multiplication_wp:
  "parser_wf p \<Longrightarrow> 0 < expression_depth p \<Longrightarrow> length (stream p) < k \<Longrightarrow> length (stream p) \<le> n \<Longrightarrow>
     wp (parse_multiplication k pe p) (expr_post Multiplication_level 257 p)"
  using level_wp [of p k "parse_unary k pe" Multiplication_level] parse_unary_wp [of _ k] by (simp add: parse_multiplication_def multiplication_operator_def)

lemma parse_addition_wp:
  "parser_wf p \<Longrightarrow> 0 < expression_depth p \<Longrightarrow> length (stream p) < k \<Longrightarrow> length (stream p) \<le> n \<Longrightarrow>
     wp (parse_addition k pe p) (expr_post Addition_level 257 p)"
  using level_wp [of p k "parse_multiplication k pe" Addition_level] parse_multiplication_wp [of _ k] by (simp add: parse_addition_def addition_operator_def)

lemma parse_comparison_wp:
  "parser_wf p \<Longrightarrow> 0 < expression_depth p \<Longrightarrow> length (stream p) < k \<Longrightarrow> length (stream p) \<le> n \<Longrightarrow>
     wp (parse_comparison k pe p) (expr_post Comparison_level 257 p)"
  using level_wp [of p k "parse_addition k pe" Comparison_level] parse_addition_wp [of _ k] by (simp add: parse_comparison_def comparison_operator_def)

lemma parse_equality_wp:
  "parser_wf p \<Longrightarrow> 0 < expression_depth p \<Longrightarrow> length (stream p) < k \<Longrightarrow> length (stream p) \<le> n \<Longrightarrow>
     wp (parse_equality k pe p) (expr_post Equality_level 257 p)"
  using level_wp [of p k "parse_comparison k pe" Equality_level] parse_comparison_wp [of _ k] by (simp add: parse_equality_def equality_operator_def)

lemma parse_and_wp:
  "parser_wf p \<Longrightarrow> 0 < expression_depth p \<Longrightarrow> length (stream p) < k \<Longrightarrow> length (stream p) \<le> n \<Longrightarrow>
     wp (parse_and k pe p) (expr_post And_level 257 p)"
  using level_wp [of p k "parse_equality k pe" And_level] parse_equality_wp [of _ k] by (simp add: parse_and_def and_operator_def)

lemma parse_or_wp:
  "parser_wf p \<Longrightarrow> 0 < expression_depth p \<Longrightarrow> length (stream p) < k \<Longrightarrow> length (stream p) \<le> n \<Longrightarrow>
     wp (parse_or k pe p) (expr_post Or_level 257 p)"
  using level_wp [of p k "parse_and k pe" Or_level] parse_and_wp [of _ k] by (simp add: parse_or_def or_operator_def)

lemma expression_body_wp:
  assumes "parser_wf p" "length (stream p) < Suc n"
  shows "wp (expression_body (Suc n) pe p) (expr_post Or_level 256 p)"
proof -
  define q where "q = (if expression_depth p = 0 then p\<lparr>expression_operator_count := 0\<rparr> else p)"
  have q: "parser_wf q" "stream q = stream p" "expression_depth q = expression_depth p" "ops p = expression_operator_count q"
    "nesting_depth q = nesting_depth p" "source (parser_lexer q) = source (parser_lexer p)"
    "diags q = diags p" "for_counter q = for_counter p"
    using assms(1) by (auto simp: q_def parser_wf_def stream_def token_string_def ops_def)
  have depth: "parser_wf (r\<lparr>expression_depth := d\<rparr>) = parser_wf r" "stream (r\<lparr>expression_depth := d\<rparr>) = stream r" for r d
    by (simp_all add: parser_wf_def stream_def token_string_def)
  have op: "0 < expression_depth p \<Longrightarrow> expression_operator_count q = expression_operator_count p" by (simp add: q_def)
  show ?thesis
    unfolding expression_body_def Let_def q_def [symmetric]
    by (intro wp_resultI [OF parse_or_wp] parser_vcg)
      (use assms q op in \<open>auto simp: depth contract_defs dest: parser_wf_reported\<close>)
qed

text \<open>One more level of recursion keeps the contract.\<close>

lemma expression_parser_Suc: "expression_parser (expression_body (Suc n) pe) (Suc n)"
  using expression_body_wp by unfold_locales

end

section \<open>The expression parser\<close>

lemma expression_parser_parse_expression: "expression_parser (parse_expression n) n"
proof (induction n)
  case 0
  show ?case by unfold_locales simp
next
  case (Suc n)
  have "parse_expression (Suc n) = expression_body (Suc n) (parse_expression n)" by (simp add: fun_eq_iff)
  with expression_parser.expression_parser_Suc [OF Suc] show ?case by simp
qed

interpretation expressions: expression_parser "parse_expression n" n for n
  by (rule expression_parser_parse_expression)

end
