(* ===== verification/StmtParserCorrect.thy ===== *)
theory StmtParserCorrect
  imports StmtParser ExprParserCorrect
begin

text \<open>
  Correctness of the statement parser: it always returns, never reads outside the source,
  leaves the nesting counters balanced, and builds well-formed statements that are nested no
  deeper than the nesting limit. The locale \<open>statement_parser\<close> is the contract of the
  recursive calls.
\<close>

declare parse_expression.simps [simp del]

section \<open>Well-formed statements\<close>

text \<open>
  Expressions of bounded height; assignments go to an element, a member or through a
  reference; the counts stored in declarations agree with their lists.
\<close>

definition small_expr :: "ast \<Rightarrow> bool" where
  "small_expr e \<longleftrightarrow> expr_ok e \<and> height e \<le> 513"

lemma small_exprI: "expr_ok e \<Longrightarrow> height e \<le> 512 \<Longrightarrow> small_expr e"
  by (simp add: small_expr_def)

fun lvalue :: "ast \<Rightarrow> bool" where
  "lvalue (IndexExpression a i) \<longleftrightarrow> True"
| "lvalue (MemberExpression ob m) \<longleftrightarrow> True"
| "lvalue (UnaryExpression e op) \<longleftrightarrow> op = UNARY_DEREFERENCE"
| "lvalue _ \<longleftrightarrow> False"

fun stmt_ok :: "ast \<Rightarrow> bool" where
  "stmt_ok (PrintStatement e) \<longleftrightarrow> small_expr e"
| "stmt_ok (IfStatement c t e) \<longleftrightarrow> small_expr c \<and> list_all stmt_ok t \<and> list_all stmt_ok e"
| "stmt_ok (WhileStatement c b) \<longleftrightarrow> small_expr c \<and> list_all stmt_ok b"
| "stmt_ok (FunctionDeclaration name parameters types n return_type is_unsafe body) \<longleftrightarrow>
     n = length parameters \<and> length types = n \<and> list_all stmt_ok body"
| "stmt_ok (StructDeclaration name field_names n) \<longleftrightarrow> n = length field_names"
| "stmt_ok (FunctionCall name arguments n) \<longleftrightarrow> n = length arguments \<and> list_all small_expr arguments"
| "stmt_ok (ReturnStatement e) \<longleftrightarrow> (case e of None \<Rightarrow> True | Some x \<Rightarrow> small_expr x)"
| "stmt_ok BreakStatement \<longleftrightarrow> True"
| "stmt_ok ContinueStatement \<longleftrightarrow> True"
| "stmt_ok (VariableDeclaration name type value is_reassignment) \<longleftrightarrow> small_expr value \<and> \<not> is_reassignment"
| "stmt_ok (Assignment target value) \<longleftrightarrow> lvalue target \<and> expr_ok target \<and> expr_ok value"
| "stmt_ok (UnsafeBlock statements) \<longleftrightarrow> list_all stmt_ok statements"
| "stmt_ok (AsmStatement assembly is_volatile) \<longleftrightarrow> True"
| "stmt_ok _ \<longleftrightarrow> False"

fun stmt_height :: "ast \<Rightarrow> nat" where
  "stmt_height (IfStatement c t e) = Suc (max (maximum (map stmt_height t)) (maximum (map stmt_height e)))"
| "stmt_height (WhileStatement c b) = Suc (maximum (map stmt_height b))"
| "stmt_height (FunctionDeclaration name parameters types n return_type is_unsafe body) =
     Suc (maximum (map stmt_height body))"
| "stmt_height (UnsafeBlock statements) = Suc (maximum (map stmt_height statements))"
| "stmt_height _ = 1"

section \<open>Contracts\<close>

definition chain_ok :: "nat \<Rightarrow> parser \<Rightarrow> ast list \<Rightarrow> bool" where
  "chain_ok h p ss \<longleftrightarrow> list_all stmt_ok ss \<and> maximum (map stmt_height ss) + nesting_depth p \<le> h"

text \<open>What a statement leaves of the state: the counter of operators is free.\<close>

definition keeps :: "parser \<Rightarrow> parser \<Rightarrow> bool" where
  "keeps p p' \<longleftrightarrow> parser_wf p' \<and> length (stream p') \<le> length (stream p)
     \<and> source (parser_lexer p') = source (parser_lexer p)
     \<and> nesting_depth p' = nesting_depth p \<and> expression_depth p' = expression_depth p
     \<and> for_counter p \<le> for_counter p' \<and> length (diags p) \<le> length (diags p')"

lemma stays_keeps: "stays p p' \<Longrightarrow> keeps p p'"
  by (simp add: stays_def keeps_def)

text \<open>The statements of a call at \<open>p\<close>: at least one, at least one token consumed.\<close>

definition stmt_post :: "nat \<Rightarrow> parser \<Rightarrow> ast list option \<times> parser \<Rightarrow> bool" where
  "stmt_post h p = (\<lambda>(r, p'). keeps p p' \<and> (case r of None \<Rightarrow> True
     | Some ss \<Rightarrow> ss \<noteq> [] \<and> length (stream p') < length (stream p) \<and> chain_ok h p ss))"

definition node_post :: "parser \<Rightarrow> ast option \<times> parser \<Rightarrow> bool" where
  "node_post p = (\<lambda>(r, p'). keeps p p' \<and> (case r of None \<Rightarrow> True
     | Some x \<Rightarrow> length (stream p') < length (stream p) \<and> chain_ok 258 p [x]))"

definition block_post :: "parser \<Rightarrow> ast list option \<times> parser \<Rightarrow> bool" where
  "block_post p = (\<lambda>(r, p'). keeps p p' \<and> (case r of None \<Rightarrow> True | Some ss \<Rightarrow> chain_ok 257 p ss))"

lemma expr_post_small:
  "expr_post L 256 p (Some x, p') \<Longrightarrow> expr_ok x \<and> height x \<le> 512"
  using parser_wf_bounds [of p'] by (fastforce simp: expr_post_def stays_def)

text \<open>One token consumed, as far as the contracts of statements need to know.\<close>

definition moved :: "parser \<Rightarrow> parser \<Rightarrow> bool" where
  "moved p p' \<longleftrightarrow> keeps p p' \<and> length (stream p) = Suc (length (stream p'))
     \<and> (\<exists>w. parser_token_to_string p' (prev p') = Some w)"

lemma advanced_moved: "advanced p p' \<Longrightarrow> moved p p'"
  unfolding moved_def by (auto simp: advanced_stays stays_keeps) (auto simp: advanced_def)

lemma reported_keeps: "reported p p' \<Longrightarrow> keeps p p'"
  by (simp add: reported_def keeps_def)

lemma keeps_refl: "parser_wf p \<Longrightarrow> keeps p p"
  by (simp add: keeps_def)

lemma wp_moveI:
  "parser_wf p \<Longrightarrow> cur_type p \<noteq> TOKEN_EOF \<Longrightarrow> (\<And>p'. moved p p' \<Longrightarrow> wp (k p') Q) \<Longrightarrow>
     wp (parser_advance p \<bind> k) Q"
  by (rule wp_advanceI) (auto dest: advanced_moved)

lemma wp_if_moveI:
  "parser_wf p \<Longrightarrow> (b \<Longrightarrow> cur_type p \<noteq> TOKEN_EOF) \<Longrightarrow> (\<And>p'. keeps p p' \<Longrightarrow> wp (k p') Q) \<Longrightarrow>
     wp ((if b then parser_advance p else Some p) \<bind> k) Q"
  using wp_moveI [of p k Q] keeps_refl [of p] by (auto simp: moved_def)

lemma wp_expectI:
  "parser_wf p \<Longrightarrow> ty \<noteq> TOKEN_EOF \<Longrightarrow> (\<And>p'. moved p p' \<Longrightarrow> wp (k p') Q) \<Longrightarrow>
     (\<And>p'. keeps p p' \<Longrightarrow> Q (None, p')) \<Longrightarrow> wp (on_ok (parser_consume p ty msg) k) Q"
  by (rule wp_consumeI) (auto dest: advanced_moved reported_keeps)

lemma wp_prevI:
  "\<exists>w. parser_token_to_string p (prev p) = Some w \<Longrightarrow>
   (\<And>w. wp (k w) Q) \<Longrightarrow> wp (parser_token_to_string p (prev p) \<bind> k) Q"
  by auto

lemma wp_on_wordI:
  "parser_wf p \<Longrightarrow> (cur_type p = TOKEN_IDENTIFIER \<Longrightarrow> wp yes Q) \<Longrightarrow> wp no Q \<Longrightarrow> wp (on_word p text yes no) Q"
  by (simp add: on_word_def parser_is_token_cur)

lemma wp_singleI: "wp m (node_post p) \<Longrightarrow> wp (single m) (stmt_post 258 p)"
  unfolding single_def by (erule wp_nodeI) (auto simp: node_post_def stmt_post_def)

lemma wp_blockI:
  assumes "wp m (block_post q)"
    and "\<And>p'. keeps q p' \<Longrightarrow> wp (k None p') Q"
    and "\<And>ss p'. keeps q p' \<Longrightarrow> chain_ok 257 q ss \<Longrightarrow> wp (k (Some ss) p') Q"
  shows "wp (m \<bind> case_prod k) Q"
proof -
  from assms(1) obtain r p' where m: "m = Some (r, p')" "block_post q (r, p')" by (auto simp: wp_iff)
  with assms(2,3) show ?thesis by (cases r) (auto simp: block_post_def)
qed

text \<open>A clone is the expression itself: cloning fails or copies.\<close>

lemma clone_expression_eq: "clone_expression e = Some e' \<Longrightarrow> e' = e"
  by (induction e arbitrary: e' rule: clone_expression.induct) (auto split: Option.bind_splits)

lemma assignment_node_ok:
  "expr_ok target \<Longrightarrow> lvalue target \<or> (\<exists>x. target = Variable x \<and> height value \<le> 513) \<Longrightarrow> expr_ok value \<Longrightarrow>
     stmt_ok (assignment_node target value) \<and> stmt_height (assignment_node target value) = 1"
  by (cases target) (auto simp: assignment_node_def small_expr_def)

lemma for_counter_facts [simp]:
  "parser_wf (p\<lparr>for_counter := c\<rparr>) = parser_wf p" "stream (p\<lparr>for_counter := c\<rparr>) = stream p"
  by (simp_all add: parser_wf_def stream_def token_string_def)

locale statement_parser =
  fixes ps :: stmt_parser and n :: nat
  assumes ps_wp: "parser_wf p \<Longrightarrow> length (stream p) < n \<Longrightarrow> wp (ps p) (stmt_post 257 p)"
begin

abbreviation "pe \<equiv> parse_expression (Suc n)"

lemma wp_psI:
  assumes "parser_wf p" "length (stream p) < n"
    and "\<And>p'. keeps p p' \<Longrightarrow> Q (None, p')"
    and "\<And>ss p'. stmt_post 257 p (Some ss, p') \<Longrightarrow> wp (k ss p') Q"
  shows "wp (on_node (ps p) k) Q"
  by (rule wp_nodeI [OF ps_wp]) (use assms in \<open>auto simp: stmt_post_def\<close>)

lemma block_loop_wp:
  assumes "keeps p0 p" "chain_ok 257 p0 ss" "length (stream p) < k" "length (stream p) < n"
  shows "wp (block_loop k ps ss p) (block_post p0)"
  using assms
proof (induction k arbitrary: ss p)
  case (Suc k)
  from Suc.prems show ?case
    unfolding block_loop.simps
    by (intro wp_psI parser_vcg Suc.IH)
      (auto simp: block_post_def stmt_post_def chain_ok_def keeps_def contract_defs null_if_empty_def)
qed simp

lemma parse_block_wp:
  "parser_wf p \<Longrightarrow> length (stream p) < k \<Longrightarrow> length (stream p) < n \<Longrightarrow> wp (parse_block k ps p) (block_post p)"
  unfolding parse_block_def
  by (intro block_loop_wp) (auto simp: keeps_refl chain_ok_def dest: parser_wf_bounds(1))

lemma wp_exprI:
  assumes "parser_wf p" "length (stream p) \<le> n"
    and "\<And>p'. keeps p p' \<Longrightarrow> Q (None, p')"
    and "\<And>x p'. keeps p p' \<Longrightarrow> length (stream p') < length (stream p) \<Longrightarrow> expr_ok x \<Longrightarrow> height x \<le> 512 \<Longrightarrow> wp (k x p') Q"
  shows "wp (on_node (pe p) k) Q"
proof (rule expressions.wp_peI)
  fix x p' assume e: "expr_post Or_level 256 p (Some x, p')"
  then have "stays p p'" "length (stream p') < length (stream p)" by (simp_all add: expr_post_def)
  with expr_post_small [OF e] assms(4) show "wp (k x p') Q" by (simp add: stays_keeps)
qed (use assms(1-3) in \<open>simp_all add: fails_def stays_keeps\<close>)

lemma wp_expr_resultI:
  assumes "parser_wf p" "length (stream p) \<le> n"
    and "\<And>p'. keeps p p' \<Longrightarrow> wp (k None p') Q"
    and "\<And>x p'. keeps p p' \<Longrightarrow> length (stream p') < length (stream p) \<Longrightarrow> expr_ok x \<Longrightarrow> height x \<le> 512 \<Longrightarrow> wp (k (Some x) p') Q"
  shows "wp (pe p \<bind> case_prod k) Q"
proof (rule wp_resultI [OF expressions.pe_wp])
  fix x p' assume e: "expr_post Or_level 256 p (Some x, p')"
  then have "stays p p'" "length (stream p') < length (stream p)" by (simp_all add: expr_post_def)
  with expr_post_small [OF e] assms(4) show "wp (case_prod k (Some x, p')) Q" by (simp add: stays_keeps)
qed (use assms(1-3) in \<open>simp_all add: fails_def stays_keeps\<close>)

lemmas stmt_vcg = wp_exprI wp_expr_resultI wp_psI wp_prevI wp_moveI wp_expectI wp_if_moveI wp_optionI wp_textI wp_wordI wp_ifI wp_SomeI

lemmas stmt_defs = node_post_def stmt_post_def block_post_def chain_ok_def small_exprI moved_def
  keeps_def report_facts

lemma parse_let_declaration_wp:
  "parser_wf p \<Longrightarrow> cur_type p \<noteq> TOKEN_EOF \<Longrightarrow> length (stream p) \<le> n \<Longrightarrow> wp (parse_let_declaration pe p) (node_post p)"
  unfolding parse_let_declaration_def
  by (intro stmt_vcg) (auto simp: stmt_defs dest: parser_wf_bounds(1))

lemma parse_asm_statement_wp:
  "parser_wf p \<Longrightarrow> cur_type p \<noteq> TOKEN_EOF \<Longrightarrow> wp (parse_asm_statement p) (node_post p)"
  unfolding parse_asm_statement_def
  by (intro stmt_vcg) (auto simp: stmt_defs dest: parser_wf_bounds(1))

lemma parse_print_wp:
  "parser_wf p \<Longrightarrow> cur_type p \<noteq> TOKEN_EOF \<Longrightarrow> length (stream p) \<le> n \<Longrightarrow> wp (parse_print pe p) (node_post p)"
  unfolding parse_print_def
  by (intro stmt_vcg) (auto simp: stmt_defs dest: parser_wf_bounds(1))

lemma parse_return_wp:
  "parser_wf p \<Longrightarrow> cur_type p \<noteq> TOKEN_EOF \<Longrightarrow> length (stream p) \<le> n \<Longrightarrow> wp (parse_return pe p) (node_post p)"
  unfolding parse_return_def
  by (intro stmt_vcg) (auto simp: stmt_defs dest: parser_wf_bounds(1))

lemma parse_break_wp: "parser_wf p \<Longrightarrow> cur_type p \<noteq> TOKEN_EOF \<Longrightarrow> wp (parse_break p) (node_post p)"
  unfolding parse_break_def
  by (intro stmt_vcg) (auto simp: stmt_defs dest: parser_wf_bounds(1))

lemma parse_continue_wp: "parser_wf p \<Longrightarrow> cur_type p \<noteq> TOKEN_EOF \<Longrightarrow> wp (parse_continue p) (node_post p)"
  unfolding parse_continue_def
  by (intro stmt_vcg) (auto simp: stmt_defs dest: parser_wf_bounds(1))

lemma else_part_wp:
  "parser_wf p \<Longrightarrow> length (stream p) < k \<Longrightarrow> length (stream p) < n \<Longrightarrow> wp (else_part k ps p) (block_post p)"
  unfolding else_part_def
  by (intro wp_blockI [OF parse_block_wp] wp_mono [OF ps_wp] stmt_vcg)
    (auto simp: stmt_defs the_chain_def dest: parser_wf_bounds(1) split: option.splits)

lemma parse_if_wp:
  "parser_wf p \<Longrightarrow> cur_type p \<noteq> TOKEN_EOF \<Longrightarrow> length (stream p) < k \<Longrightarrow> length (stream p) \<le> n \<Longrightarrow>
     wp (parse_if k pe ps p) (node_post p)"
  unfolding parse_if_def
  by (intro wp_blockI [OF parse_block_wp] wp_nodeI [OF else_part_wp] stmt_vcg)
    (auto simp: stmt_defs the_chain_def dest: parser_wf_bounds(1))

lemma parse_while_wp:
  "parser_wf p \<Longrightarrow> cur_type p \<noteq> TOKEN_EOF \<Longrightarrow> length (stream p) < k \<Longrightarrow> length (stream p) \<le> n \<Longrightarrow>
     wp (parse_while k pe ps p) (node_post p)"
  unfolding parse_while_def
  by (intro wp_blockI [OF parse_block_wp] stmt_vcg)
    (auto simp: stmt_defs the_chain_def dest: parser_wf_bounds(1))

lemma parse_for_wp:
  "parser_wf p \<Longrightarrow> cur_type p \<noteq> TOKEN_EOF \<Longrightarrow> length (stream p) < k \<Longrightarrow> length (stream p) \<le> n \<Longrightarrow>
     wp (parse_for k pe ps p) (stmt_post 258 p)"
  unfolding parse_for_def Let_def
  by (intro wp_blockI [OF parse_block_wp] stmt_vcg)
    (auto simp: stmt_defs the_chain_def for_defs small_expr_def int64_def INT64_MIN_def INT64_MAX_def
      dest: parser_wf_bounds(1))

lemma parameter_type_wp:
  "parser_wf p \<Longrightarrow> wp (parameter_type p) (\<lambda>(r, p'). keeps p p')"
  unfolding parameter_type_def
  by (intro stmt_vcg) (auto simp: stmt_defs)

lemma return_type_part_wp:
  "parser_wf p \<Longrightarrow> wp (return_type_part p) (\<lambda>(r, p'). keeps p p')"
  unfolding return_type_part_def
  by (intro stmt_vcg) (auto simp: stmt_defs)

lemma parameter_loop_wp:
  assumes "keeps p0 p" "c = length parameters" "length types = c" "length (stream p) < k"
  shows "wp (parameter_loop k parameters types c p) (\<lambda>(r, p'). keeps p0 p' \<and>
    (case r of None \<Rightarrow> True | Some (parameters, types, c) \<Rightarrow> c = length parameters \<and> length types = c))"
  using assms
proof (induction k arbitrary: parameters types c p)
  case (Suc k)
  from Suc.prems show ?case
    unfolding parameter_loop.simps
    by (intro wp_nodeI [OF parameter_type_wp] stmt_vcg Suc.IH) (auto simp: stmt_defs)
qed simp

lemma wp_parametersI:
  assumes "parser_wf p" "length (stream p) < m"
    and "\<And>p'. keeps p p' \<Longrightarrow> Q (None, p')"
    and "\<And>parameters types p'. keeps p p' \<Longrightarrow> length types = length parameters \<Longrightarrow> wp (k parameters types (length parameters) p') Q"
  shows "wp (on_node (parameter_loop m [] [] 0 p) (\<lambda>(a, b, c). k a b c)) Q"
  by (rule wp_nodeI [OF parameter_loop_wp [of p p]]) (use assms in \<open>auto simp: keeps_refl\<close>)

lemma parse_function_wp:
  "parser_wf p \<Longrightarrow> cur_type p \<noteq> TOKEN_EOF \<Longrightarrow> length (stream p) < k \<Longrightarrow> length (stream p) \<le> n \<Longrightarrow>
     wp (parse_function k ps p) (node_post p)"
  unfolding parse_function_def
  by (intro wp_blockI [OF parse_block_wp] wp_parametersI wp_nodeI [OF return_type_part_wp] stmt_vcg)
    (auto simp: stmt_defs the_chain_def dest: parser_wf_bounds(1))

lemma statement_arguments_wp:
  assumes "keeps p0 p" "c = length es" "list_all small_expr es" "length (stream p) < k" "length (stream p) \<le> n"
  shows "wp (argument_loop k pe es c p) (\<lambda>(r, p'). keeps p0 p' \<and>
    (case r of None \<Rightarrow> True | Some (es, c) \<Rightarrow> c = length es \<and> list_all small_expr es))"
  using assms
proof (induction k arbitrary: es c p)
  case (Suc k)
  from Suc.prems show ?case
    unfolding argument_loop.simps
    by (intro stmt_vcg Suc.IH) (auto simp: stmt_defs)
qed simp

lemma wp_statement_argumentsI:
  assumes "parser_wf p" "length (stream p) < m" "length (stream p) \<le> n"
    and "\<And>p'. keeps p p' \<Longrightarrow> Q (None, p')"
    and "\<And>es p'. keeps p p' \<Longrightarrow> list_all small_expr es \<Longrightarrow> wp (k es (length es) p') Q"
  shows "wp (on_node (if \<not> b then argument_loop m pe [] 0 p else Some (Some ([], 0), p)) (case_prod k)) Q"
proof (rule wp_nodeI)
  let ?P = "\<lambda>(r, p'). keeps p p' \<and> (case r of None \<Rightarrow> True | Some (es, c) \<Rightarrow> c = length es \<and> list_all small_expr es)"
  show "wp (if \<not> b then argument_loop m pe [] 0 p else Some (Some ([], 0), p)) ?P"
    using statement_arguments_wp [of p p 0 "[]" m] assms(1-3) by (simp add: keeps_refl)
qed (use assms(4,5) in auto)

lemma parse_function_call_wp:
  "keeps p0 p \<Longrightarrow> length (stream p) < length (stream p0) \<Longrightarrow> nesting_depth p0 \<le> 256 \<Longrightarrow>
     length (stream p) < k \<Longrightarrow> length (stream p) \<le> n \<Longrightarrow> wp (parse_function_call k pe name p) (node_post p0)"
  unfolding parse_function_call_def
  by (intro wp_statement_argumentsI stmt_vcg) (auto simp: stmt_defs)

lemma field_loop_wp:
  assumes "keeps p0 p" "c = length names" "length (stream p) < k"
  shows "wp (field_loop k names c p) (\<lambda>(r, p'). keeps p0 p' \<and>
    (case r of None \<Rightarrow> True | Some (names, c) \<Rightarrow> c = length names))"
  using assms
proof (induction k arbitrary: names c p)
  case (Suc k)
  from Suc.prems show ?case
    unfolding field_loop.simps
    by (intro stmt_vcg Suc.IH) (auto simp: stmt_defs)
qed simp

lemma wp_fieldsI:
  assumes "parser_wf p" "length (stream p) < m"
    and "\<And>p'. keeps p p' \<Longrightarrow> Q (None, p')"
    and "\<And>names p'. keeps p p' \<Longrightarrow> wp (k names (length names) p') Q"
  shows "wp (on_node (if \<not> b then field_loop m [] 0 p else Some (Some ([], 0), p)) (case_prod k)) Q"
proof (rule wp_nodeI)
  let ?P = "\<lambda>(r, p'). keeps p p' \<and> (case r of None \<Rightarrow> True | Some (names, c) \<Rightarrow> c = length names)"
  show "wp (if \<not> b then field_loop m [] 0 p else Some (Some ([], 0), p)) ?P"
    using field_loop_wp [of p p 0 "[]" m] assms(1,2) by (simp add: keeps_refl)
qed (use assms(3,4) in auto)

lemma parse_struct_wp:
  "parser_wf p \<Longrightarrow> cur_type p \<noteq> TOKEN_EOF \<Longrightarrow> length (stream p) < k \<Longrightarrow> wp (parse_struct k p) (node_post p)"
  unfolding parse_struct_def
  by (intro wp_fieldsI stmt_vcg) (auto simp: stmt_defs dest: parser_wf_bounds(1))

lemma target_loop_wp:
  assumes "keeps p0 p" "expr_ok target" "lvalue target \<or> (\<exists>x. target = Variable x)"
    "length (stream p) < k" "length (stream p) \<le> n"
  shows "wp (target_loop k pe target p) (\<lambda>(r, p'). keeps p0 p' \<and>
    (case r of None \<Rightarrow> True | Some t \<Rightarrow> expr_ok t \<and> (lvalue t \<or> (\<exists>x. t = Variable x))))"
  using assms
proof (induction k arbitrary: target p)
  case (Suc k)
  from Suc.prems show ?case
    unfolding target_loop.simps
    by (intro stmt_vcg Suc.IH) (auto simp: stmt_defs)
qed simp

lemma finish_assignment_wp:
  "keeps p0 p \<Longrightarrow> length (stream p) < length (stream p0) \<Longrightarrow> nesting_depth p0 \<le> 256 \<Longrightarrow> length (stream p) \<le> n \<Longrightarrow>
     expr_ok target \<Longrightarrow> lvalue target \<or> (\<exists>x. target = Variable x) \<Longrightarrow>
     wp (finish_assignment pe target p) (node_post p0)"
  unfolding finish_assignment_def Let_def
  by (intro stmt_vcg) (auto simp: stmt_defs assignment_node_ok dest: clone_expression_eq)

lemma parse_identifier_statement_wp:
  "parser_wf p \<Longrightarrow> cur_type p = TOKEN_IDENTIFIER \<Longrightarrow> length (stream p) < k \<Longrightarrow> length (stream p) \<le> n \<Longrightarrow>
     wp (parse_identifier_statement k pe p) (node_post p)"
  unfolding parse_identifier_statement_def
  by (intro parse_function_call_wp finish_assignment_wp wp_nodeI [OF target_loop_wp [OF keeps_refl]] stmt_vcg)
    (auto simp: stmt_defs dest: parser_wf_bounds(1))

lemma parse_dereference_statement_wp:
  "parser_wf p \<Longrightarrow> cur_type p \<noteq> TOKEN_EOF \<Longrightarrow> length (stream p) \<le> n \<Longrightarrow> wp (parse_dereference_statement pe p) (node_post p)"
  unfolding parse_dereference_statement_def Let_def
  by (intro stmt_vcg) (auto simp: stmt_defs dest: parser_wf_bounds(1) clone_expression_eq split: Option.bind_splits)

lemma set_unsafe_ok: "chain_ok h p [set_unsafe f] = chain_ok h p [f]"
  by (cases f) (simp_all add: chain_ok_def)

lemma parse_unsafe_block_wp:
  "parser_wf p \<Longrightarrow> cur_type p \<noteq> TOKEN_EOF \<Longrightarrow> length (stream p) < k \<Longrightarrow> length (stream p) \<le> n \<Longrightarrow>
     wp (parse_unsafe_block k ps p) (node_post p)"
  unfolding parse_unsafe_block_def
  by (intro wp_blockI [OF parse_block_wp] wp_nodeI [OF parse_function_wp] stmt_vcg)
    (auto simp: node_post_def set_unsafe_ok keeps_def moved_def the_chain_def, auto simp: chain_ok_def dest: parser_wf_bounds(1))

lemma statement_dispatch_wp:
  assumes "parser_wf p" "length (stream p) < k" "length (stream p) \<le> n"
  shows "wp (statement_dispatch k pe ps p) (stmt_post 258 p)"
  unfolding statement_dispatch_def
  by (intro wp_on_wordI wp_singleI wp_ifI parse_unsafe_block_wp parse_asm_statement_wp parse_let_declaration_wp
      parse_print_wp parse_return_wp parse_break_wp parse_continue_wp parse_if_wp parse_while_wp parse_for_wp
      parse_function_wp parse_struct_wp parse_dereference_statement_wp parse_identifier_statement_wp)
    (use assms in \<open>auto simp: stmt_post_def keeps_def report_facts\<close>)

lemma statement_body_wp:
  assumes "parser_wf p" "length (stream p) < Suc n"
  shows "wp (statement_body (Suc n) pe ps p) (stmt_post 257 p)"
  unfolding statement_body_def
proof (rule wp_enterI [OF assms(1)])
  fix p' assume p': "parser_wf p'" "p' = p\<lparr>nesting_depth := nesting_depth p + 1\<rparr>" "stream p' = stream p"
  with assms statement_dispatch_wp [of p' "Suc n"] obtain r q
    where r: "statement_dispatch (Suc n) pe ps p' = Some (r, q)" "stmt_post 258 p' (r, q)" by (auto simp: wp_iff)
  show "wp (statement_dispatch (Suc n) pe ps p' \<bind>
      (\<lambda>(statement, p). Some (if nesting_failed p then None else statement, parser_leave_nesting p))) (stmt_post 257 p)"
    using r p' by (auto simp: stmt_post_def chain_ok_def keeps_def split: option.splits)
qed (simp add: stmt_post_def fails_def stays_keeps)

lemma statement_parser_Suc: "statement_parser (statement_body (Suc n) pe ps) (Suc n)"
  using statement_body_wp by unfold_locales

lemma program_loop_wp:
  assumes "keeps p0 p" "chain_ok 257 p0 ss" "length (stream p) < k" "length (stream p) < n"
  shows "wp (program_loop k ps ss p) (\<lambda>(r, p'). keeps p0 p' \<and>
    (case r of None \<Rightarrow> True | Some e \<Rightarrow> \<exists>ss. e = Program ss \<and> chain_ok 257 p0 ss \<and> stream p' = []))"
  using assms
proof (induction k arbitrary: ss p)
  case (Suc k)
  from Suc.prems show ?case
    unfolding program_loop.simps
    by (intro stmt_vcg Suc.IH) (auto simp: stmt_defs)
qed simp

end

section \<open>The statement parser\<close>

lemma statement_parser_parse_statement: "statement_parser (parse_statement n) n"
proof (induction n)
  case 0
  show ?case by unfold_locales simp
next
  case (Suc n)
  have "parse_statement (Suc n) = statement_body (Suc n) (parse_expression (Suc n)) (parse_statement n)"
    by (simp add: fun_eq_iff)
  with statement_parser.statement_parser_Suc [OF Suc] show ?case by simp
qed

interpretation statements: statement_parser "parse_statement n" n for n
  by (rule statement_parser_parse_statement)

lemma parser_init_wp:
  "wp (parser_init (lexer_init src)) (\<lambda>p. parser_wf p \<and> length (stream p) \<le> length src
     \<and> nesting_depth p = 0 \<and> expression_depth p = 0 \<and> for_counter p = 0 \<and> diags p = []
     \<and> source (parser_lexer p) = src)"
proof -
  let ?p = "\<lparr>parser_lexer = lexer_init src, cur = no_token, prev = no_token, nesting_depth = 0, nesting_failed = False,
    expression_depth = 0, expression_operator_count = 0, for_counter = 0, diags = []\<rparr>"
  have wf: "parser_wf ?p" "cur_type ?p \<noteq> TOKEN_EOF" using located_init(2) [of src]
    by (auto simp: parser_wf_def no_token_def lexer_init_def)
  from lex_tokens_total [OF located_init(2), of src] have "length (stream ?p) \<le> Suc (length src)"
    by (auto simp: stream_def no_token_def wp_iff lexer_init_def)
  with parser_advance_advanced [OF wf] show ?thesis
    unfolding parser_init_def by (rule_tac wp_mono) (auto simp: advanced_def lexer_init_def)
qed

lemma parse_source_wp:
  "wp (parse_source src) (\<lambda>(r, p). parser_wf p \<and> source (parser_lexer p) = src \<and> nesting_depth p = 0 \<and> expression_depth p = 0
     \<and> (case r of None \<Rightarrow> True | Some e \<Rightarrow> \<exists>ss. e = Program ss \<and> list_all stmt_ok ss
          \<and> maximum (map stmt_height ss) \<le> 257 \<and> stream p = []))"
proof -
  from parser_init_wp [of src] obtain p where p: "parser_init (lexer_init src) = Some p" "parser_wf p"
    "length (stream p) \<le> length src" "nesting_depth p = 0" "expression_depth p = 0" "source (parser_lexer p) = src"
    by (auto simp: wp_iff)
  then have "wp (program_loop (length src + 1) (parse_statement (length src + 1)) [] p)
    (\<lambda>(r, p'). keeps p p' \<and> (case r of None \<Rightarrow> True | Some e \<Rightarrow> \<exists>ss. e = Program ss \<and> chain_ok 257 p ss \<and> stream p' = []))"
    by (intro statements.program_loop_wp) (auto simp: keeps_refl chain_ok_def)
  then show ?thesis
    unfolding parse_source_def parser_parse_def p(1) Option.bind.simps
    by (rule wp_mono) (use p in \<open>auto simp: keeps_def chain_ok_def split: option.splits\<close>)
qed

end
