(* ===== verification/ParserSpec.thy ===== *)
theory ParserSpec
  imports StmtParserCorrect
begin

text \<open>
  The properties of the parser: it returns on every source text, its trees are well-formed,
  follow the expression grammar and are bounded, failures of expressions are reported, and
  literals are read back as they are written.
\<close>

section \<open>Every source text\<close>

text \<open>
  C4. Total and memory safe: on every source text the parser returns (a program or NULL); no
  token text is read outside the source, no token is requested after the end of file, the
  recursion ends, and the nesting counters are balanced again.
\<close>

theorem parse_source_total:
  "\<exists>r p. parse_source src = Some (r, p) \<and> nesting_depth p = 0 \<and> expression_depth p = 0
     \<and> source (parser_lexer p) = src"
  using parse_source_wp [of src] by (auto simp: wp_iff)

text \<open>
  C5. An accepted program is well-formed and complete: every token up to the end of file has
  been consumed; the stored counts agree with the chains, literals fit into 64 bits,
  assignment targets are assignable, and statements nest at most 257 deep.
\<close>

theorem parse_source_wellformed:
  assumes "parse_source src = Some (Some e, p)"
  shows "\<exists>ss. e = Program ss \<and> list_all stmt_ok ss \<and> maximum (map stmt_height ss) \<le> 257 \<and> cur_type p = TOKEN_EOF"
  using parse_source_wp [of src] assms by (auto simp: stream_Nil_iff)

theorem parse_source_wellformed_witness:
  "\<exists>ss p. parse_source ''f(1, [2])'' = Some (Some (Program ss), p) \<and> list_all stmt_ok ss"
proof -
  have "map_option fst (parse_source ''f(1, [2])'') =
      Some (Some (Program [FunctionCall ''f'' [IntegerLiteral 1, ArrayLiteral [IntegerLiteral 2] 1] 2]))"
    by code_simp
  then obtain p where "parse_source ''f(1, [2])'' =
      Some (Some (Program [FunctionCall ''f'' [IntegerLiteral 1, ArrayLiteral [IntegerLiteral 2] 1] 2]), p)" by auto
  from parse_source_wellformed [OF this] this show ?thesis by auto
qed

section \<open>Expressions\<close>

lemma parse_expression_post:
  assumes "parser_wf p" "length (stream p) < n" "parse_expression n p = Some r"
  shows "expr_post Or_level 256 p r"
  using expressions.pe_wp [OF assms(1,2)] assms(3) by simp

text \<open>
  C6. Precedence and associativity: a tree returned by \<open>parse_expression\<close> is derived by the
  grammar \<open>derives\<close> from exactly the tokens that were consumed.
\<close>

theorem parse_expression_sound:
  assumes "parser_wf p" "length (stream p) < n" "parse_expression n p = Some (Some e, p')"
  shows "derives Or_level (stream p) e (stream p') \<and> expr_ok e"
  using parse_expression_post [OF assms] by (simp add: expr_post_def)

text \<open>Starting the expression parser on a text, for the witnesses.\<close>

lemma start_expression:
  assumes "map_option fst (parser_init (lexer_init src) \<bind> parse_expression n) = Some r" "length src < n"
  obtains p p' where "parser_init (lexer_init src) = Some p" "parser_wf p" "length (stream p) < n"
    "nesting_depth p = 0" "expression_depth p = 0" "parse_expression n p = Some (r, p')"
  using parser_init_wp [of src] assms by (auto simp: wp_iff)

theorem parse_expression_sound_witness:
  "\<exists>ts ts'. derives Or_level ts
     (BinaryExpression (IntegerLiteral 1) (BinaryExpression (IntegerLiteral 2) (IntegerLiteral 3) BINARY_MULTIPLY) BINARY_ADD) ts'"
proof -
  have "map_option fst (parser_init (lexer_init ''1+2*3'') \<bind> parse_expression 6) = Some (Some
      (BinaryExpression (IntegerLiteral 1) (BinaryExpression (IntegerLiteral 2) (IntegerLiteral 3) BINARY_MULTIPLY) BINARY_ADD))"
    by code_simp
  then obtain p p' where "parser_wf p" "length (stream p) < 6" "parse_expression 6 p = Some (Some
      (BinaryExpression (IntegerLiteral 1) (BinaryExpression (IntegerLiteral 2) (IntegerLiteral 3) BINARY_MULTIPLY) BINARY_ADD), p')"
    by (rule start_expression) simp
  from parse_expression_sound [OF this] show ?thesis by blast
qed

text \<open>
  C7. No silent failure: when \<open>parse_expression\<close> returns NULL, a diagnostic has been printed.
\<close>

theorem parse_expression_reports:
  assumes "parser_wf p" "length (stream p) < n" "parse_expression n p = Some (None, p')"
  shows "diags p' \<noteq> []"
  using parse_expression_post [OF assms] by (auto simp: expr_post_def fails_def)

theorem parse_expression_reports_witness:
  "\<exists>p'. (parser_init (lexer_init ''1+'') \<bind> parse_expression 3) = Some (None, p') \<and> diags p' \<noteq> []"
proof -
  have "map_option fst (parser_init (lexer_init ''1+'') \<bind> parse_expression 3) = Some None" by code_simp
  then obtain p p' where i: "parser_init (lexer_init ''1+'') = Some p" and
    e: "parser_wf p" "length (stream p) < 3" "parse_expression 3 p = Some (None, p')"
    by (rule start_expression) simp
  from parse_expression_reports [OF e] i e(3) show ?thesis by auto
qed

text \<open>
  C8. Bounded trees: every expression that \<open>parse_expression\<close> returns has at most height 512, so every
  recursive pass over it runs in bounded stack space; inside an expression the height is
  bounded by the nesting and the operators that are left. (The target of an assignment is not built by
  \<open>parse_expression\<close>, and \<open>target_loop\<close> does not count its indices and members.)
\<close>

theorem parse_expression_height:
  assumes "parser_wf p" "length (stream p) < n" "parse_expression n p = Some (Some e, p')"
  shows "height e \<le> 512 \<and> height e + nesting_depth p + ops p \<le> 256 + expression_operator_count p'"
  using expr_post_small [OF parse_expression_post [OF assms]] parse_expression_post [OF assms]
  by (simp add: expr_post_def)

theorem parse_expression_height_witness:
  "\<exists>p p' e. parser_init (lexer_init ''-!x'') = Some p \<and> parse_expression 4 p = Some (Some e, p')
     \<and> height e + nesting_depth p + ops p \<le> 256 + expression_operator_count p'"
proof -
  have "map_option fst (parser_init (lexer_init ''-!x'') \<bind> parse_expression 4) =
      Some (Some (UnaryExpression (UnaryExpression (Variable ''x'') UNARY_NOT) UNARY_NEGATE))" by code_simp
  then obtain p p' where i: "parser_init (lexer_init ''-!x'') = Some p" and
    e: "parser_wf p" "length (stream p) < 4" "parse_expression 4 p =
      Some (Some (UnaryExpression (UnaryExpression (Variable ''x'') UNARY_NOT) UNARY_NEGATE), p')"
    by (rule start_expression) simp
  from parse_expression_height [OF e] i e(3) show ?thesis by blast
qed

section \<open>Literals\<close>

text \<open>
  C9. The buffer for a decoded string, one byte longer than the token, is long enough.
\<close>

theorem decode_escapes_bound: "length (decode_escapes w) \<le> length w"
  by (induction w rule: decode_escapes.induct) auto

definition escape :: "char \<Rightarrow> string" where
  "escape c =
     (if c = LF then [BACKSLASH, CHR ''n''] else if c = CR then [BACKSLASH, CHR ''r'']
      else if c = TAB then [BACKSLASH, CHR ''t''] else if c = BACKSLASH then [BACKSLASH, BACKSLASH]
      else if c = QUOTE then [BACKSLASH, QUOTE] else [c])"

definition encode_escapes :: "string \<Rightarrow> string" where
  "encode_escapes s = concat (map escape s)"

lemma decode_escapes_plain: "c \<noteq> BACKSLASH \<Longrightarrow> decode_escapes (c # cs) = c # decode_escapes cs"
  by (cases cs) simp_all

lemma decode_encode: "decode_escapes (encode_escapes s) = s"
proof (induction s)
  case (Cons c s)
  then show ?case by (auto simp: encode_escapes_def escape_def decode_escapes_plain)
qed (simp add: encode_escapes_def)

lemma scan_string_encode: "scan_string (encode_escapes s @ QUOTE # r) = (encode_escapes s, QUOTE # r)"
proof (induction s)
  case (Cons c s)
  then show ?case by (auto simp: encode_escapes_def escape_def)
qed (simp add: encode_escapes_def)

text \<open>The digits of a number, as \<open>strtoll\<close> reads them.\<close>

lemma decimal_digit: "d < 10 \<Longrightarrow> digit_value (char_of (48 + d)) = d" "d < 10 \<Longrightarrow> isdigit (char_of (48 + d))"
proof -
  assume d: "d < (10 :: nat)"
  then have "byte (char_of (48 + d)) = 48 + d" by (simp add: of_char_of)
  with d show "isdigit (char_of (48 + d))" "digit_value (char_of (48 + d)) = d"
    by (simp_all add: digit_value_def isdigit_def)
qed

lemma strto_scan_snoc:
  "strto_scan base acc w = (v, []) \<Longrightarrow> digit_value d < base \<Longrightarrow> strto_scan base acc (w @ [d]) = (v * base + digit_value d, [])"
  by (induction w arbitrary: acc) (auto split: if_splits)

lemma strto_scan_decimal: "strto_scan 10 0 (decimal n) = (n, [])"
proof (induction n rule: decimal.induct)
  case (1 n)
  show ?case
  proof (cases "n < 10")
    case True
    then show ?thesis by (subst decimal.simps) (simp add: decimal_digit)
  next
    case False
    with strto_scan_snoc [OF "1.IH" [OF False], of "char_of (48 + n mod 10)"] show ?thesis
      by (subst decimal.simps) (simp add: decimal_digit)
  qed
qed

lemma decimal_digits: "list_all isdigit (decimal n)" "decimal n \<noteq> []"
proof -
  show "list_all isdigit (decimal n)"
    by (induction n rule: decimal.induct) (subst decimal.simps, simp add: decimal_digit)
  show "decimal n \<noteq> []" by (subst decimal.simps) simp
qed

lemma decimal_length: "n < 10 ^ k \<Longrightarrow> 0 < k \<Longrightarrow> length (decimal n) \<le> k"
proof (induction k arbitrary: n)
  case (Suc k)
  show ?case
  proof (cases "n < 10")
    case True
    then show ?thesis by (subst decimal.simps) simp
  next
    case False
    with Suc.prems have "n div 10 < 10 ^ k" "0 < k" by (auto simp: less_mult_imp_div_less mult.commute intro: gr0I)
    with False Suc.IH [of "n div 10"] show ?thesis by (subst decimal.simps) simp
  qed
qed simp

lemma decimal_base: "literal_base (decimal n) = 10"
proof -
  have "isdigit (decimal n ! 1)" if "1 < length (decimal n)"
    using that decimal_digits(1) [of n] by (simp add: list_all_length)
  then show ?thesis by (auto simp: literal_base_def ctype_defs)
qed

text \<open>
  C10. Integer literals cover exactly the signed 64-bit range: the decimal digits of \<open>n\<close> are
  read as \<open>n\<close> up to \<open>INT64_MAX\<close> and rejected above, and behind a minus sign the one magnitude
  more that \<open>INT64_MIN\<close> needs is recognised, and no other.
\<close>

theorem integer_literal_decimal:
  "integer_literal (decimal n) = (if int n \<le> INT64_MAX then Some (int n) else None)
     \<and> int64_min_magnitude (decimal n) = (int n = INT64_MAX + 1)"
proof
  have s: "strto_digits (literal_base (decimal n)) (decimal n) = (n, [])"
    by (simp add: decimal_base strto_digits_def strto_scan_decimal)
  show "integer_literal (decimal n) = (if int n \<le> INT64_MAX then Some (int n) else None)"
    using decimal_digits(2) [of n] by (auto simp: integer_literal_def s)
  have "length (decimal n) < 64" if "int n = INT64_MAX + 1"
    using that decimal_length [of n 19] by (simp add: INT64_MAX_def)
  moreover have "INT64_MAX + 1 \<le> UINT64_MAX" by (simp add: INT64_MAX_def UINT64_MAX_def)
  ultimately show "int64_min_magnitude (decimal n) = (int n = INT64_MAX + 1)"
    using decimal_digits(2) [of n] by (auto simp: int64_min_magnitude_def s)
qed

section \<open>Texts of one token\<close>

lemma parser_init_stream:
  assumes "c_string src" "parser_init (lexer_init src) = Some p"
  shows "stream p = map (located_text src) (scan_all (length src) src)" "\<not> nesting_failed p"
proof -
  let ?p = "\<lparr>parser_lexer = lexer_init src, cur = no_token, prev = no_token, nesting_depth = 0, nesting_failed = False,
    expression_depth = 0, expression_operator_count = 0, for_counter = 0, diags = []\<rparr>"
  have wf: "parser_wf ?p" "cur_type ?p \<noteq> TOKEN_EOF" using located_init(2) [of src]
    by (auto simp: parser_wf_def no_token_def lexer_init_def)
  from parser_advance_advanced [OF wf] assms(2) have "advanced ?p p" by (simp add: parser_init_def)
  then have "the (lex_tokens (lexer_init src)) = stream p" by (simp add: advanced_def stream_def no_token_def)
  with lex_tokens_scan_all [of "lexer_init src"] located_init [of src] assms(1)
  show "stream p = map (located_text src) (scan_all (length src) src)" by (simp add: lexer_init_def)
  show "\<not> nesting_failed p"
    using assms(2) by (auto simp: parser_init_def parser_advance_def split: Option.bind_splits)
qed

text \<open>An expression of one primary at the end of the text passes every level unchanged.\<close>

lemma parse_expression_primary:
  assumes q: "q = p\<lparr>expression_operator_count := 0, nesting_depth := 1, expression_depth := 1\<rparr>"
    and p: "nesting_depth p = 0" "expression_depth p = 0" "\<not> nesting_failed p"
    and t: "cur_type p \<notin> {TOKEN_BANG, TOKEN_MINUS, TOKEN_AMPERSAND, TOKEN_STAR}"
    and e: "parse_primary (Suc n) (parse_expression n) q = Some (Some e, q')" "cur_type q' = TOKEN_EOF" "\<not> nesting_failed q'"
  shows "\<exists>p'. parse_expression (Suc n) p = Some (Some e, p') \<and> stream p' = []"
proof -
  have unary: "parse_unary (Suc n) (parse_expression n) q = Some (Some e, q')"
    using t e q by (simp add: parse_postfix_def on_node_def)
  have levels: "binary_loop (Suc n) op operand e q' = Some (Some e, q')" if "op TOKEN_EOF = None" for op operand
    using e(2) that by simp
  have "parse_or (Suc n) (parse_expression n) q = Some (Some e, q')"
    unfolding parse_or_def parse_and_def parse_equality_def parse_comparison_def parse_addition_def
      parse_multiplication_def unary on_node_def
    by (simp add: levels multiplication_operator_def addition_operator_def comparison_operator_def
        equality_operator_def and_operator_def or_operator_def del: binary_loop.simps)
  moreover have "stream (parser_leave_nesting (q'\<lparr>expression_depth := expression_depth q' - 1\<rparr>)) = []"
    using e(2) by simp
  ultimately show ?thesis
    using p q e(3) by (auto simp: parse_expression.simps expression_body_def on_ok_def parser_enter_nesting_def)
qed

lemma parse_one_token:
  assumes src: "c_string src" and scan: "scan src = (ty, src, [])" "ty \<noteq> TOKEN_EOF"
    "ty \<notin> {TOKEN_BANG, TOKEN_MINUS, TOKEN_AMPERSAND, TOKEN_STAR}"
    and prim: "\<And>q q'. parser_wf q \<Longrightarrow> cur_type q = ty \<Longrightarrow> parser_token_to_string q (cur q) = Some (token_text ty src) \<Longrightarrow>
      tok_length (cur q) = length (token_text ty src) \<Longrightarrow> parser_advance q = Some q' \<Longrightarrow> cur_type q' = TOKEN_EOF \<Longrightarrow>
      parse_primary (Suc n) (parse_expression n) q = Some (Some e, q')"
  shows "\<exists>p'. (parser_init (lexer_init src) \<bind> parse_expression (Suc n)) = Some (Some e, p') \<and> stream p' = []"
proof -
  from parser_init_wp [of src] obtain p where i: "parser_init (lexer_init src) = Some p"
    and p: "parser_wf p" "nesting_depth p = 0" "expression_depth p = 0" by (auto simp: wp_iff)
  note st = parser_init_stream [OF src i]
  have "scan_all (length src) [] = []" by (subst scan_all.simps) (simp add: scan_def)
  then have "scan_all (length src) src = [(ty, src, 0)]" using scan by (subst scan_all.simps) simp
  with st(1) have s: "stream p = [(ty, token_text ty src, pos_line src 0, pos_column src 0)]" by (simp add: located_text_def)
  define q where "q = p\<lparr>expression_operator_count := 0, nesting_depth := 1, expression_depth := 1\<rparr>"
  have q: "parser_wf q" "stream q = stream p" "cur q = cur p" "nesting_failed q = nesting_failed p"
    using p by (auto simp: q_def parser_wf_def stream_def token_string_def)
  have ne: "cur_type q \<noteq> TOKEN_EOF" using s q(2) stream_Nil_iff [of q] by auto
  have c: "cur_type q = ty" "token_string q (cur q) = token_text ty src"
    using s q(2) ne by (simp_all add: stream_def split: if_splits)
  from q(1) ne have len: "tok_length (cur q) = length (token_string q (cur q))" by (auto simp: token_string_def parser_wf_def)
  from parser_advance_advanced [OF q(1) ne] obtain q' where a: "parser_advance q = Some q'" "advanced q q'"
    by (auto simp: wp_iff)
  then have "stream q' = []" using s q(2) by (simp add: advanced_def)
  then have "cur_type q' = TOKEN_EOF" by (simp only: stream_Nil_iff)
  moreover have "\<not> nesting_failed q'"
    using a(1) st(2) q(4) by (auto simp: parser_advance_def split: Option.bind_splits)
  moreover have "parse_primary (Suc n) (parse_expression n) q = Some (Some e, q')"
    by (rule prim) (use q(1) ne c len a(1) calculation(1) parser_token_to_string_cur [OF q(1) ne] in simp_all)
  ultimately have "\<exists>p'. parse_expression (Suc n) p = Some (Some e, p') \<and> stream p' = []"
    using parse_expression_primary [OF q_def p(2,3) st(2)] scan(3) c(1) q(3) by simp
  with i show ?thesis by simp
qed

lemma c_string_encode: "c_string s \<Longrightarrow> c_string (encode_escapes s)"
  by (auto simp: c_string_def encode_escapes_def escape_def split: if_splits)

text \<open>
  C11. String literals round trip from text to tree: any text without NUL, written as a
  literal with its quotes, backslashes, newlines, carriage returns and tabs escaped, is
  lexed as one token and parsed to exactly that text.
\<close>

theorem string_literal_roundtrip:
  assumes "c_string s"
  shows "\<exists>p'. (parser_init (lexer_init (QUOTE # encode_escapes s @ [QUOTE])) \<bind> parse_expression (Suc n)) =
    Some (Some (StringLiteral s), p') \<and> stream p' = []"
proof (rule parse_one_token)
  let ?src = "QUOTE # encode_escapes s @ [QUOTE]"
  show "c_string ?src" using c_string_encode [OF assms] by (simp add: c_string_def)
  have "lexeme_ok TOKEN_STRING ?src" using scan_string_encode [of s "[]"] by (simp add: lexeme_ok_def butlast_append)
  from scan_string_back [OF this, of "[]"] show "scan ?src = (TOKEN_STRING, ?src, [])" by simp
  fix q q' assume "cur_type q = TOKEN_STRING" "parser_token_to_string q (cur q) = Some (token_text TOKEN_STRING ?src)"
    "parser_advance q = Some q'"
  then show "parse_primary (Suc n) (parse_expression n) q = Some (Some (StringLiteral s), q')"
    by (simp add: parse_primary_def token_text_def butlast_append decode_encode)
qed simp_all

theorem string_literal_roundtrip_witness:
  "\<exists>p'. (parser_init (lexer_init (QUOTE # ''a'' @ [BACKSLASH, CHR ''n''] @ [QUOTE])) \<bind> parse_expression 1) =
    Some (Some (StringLiteral [CHR ''a'', LF]), p')"
proof -
  have e: "encode_escapes [CHR ''a'', LF] = ''a'' @ [BACKSLASH, CHR ''n'']" by code_simp
  have c: "c_string [CHR ''a'', LF]" by code_simp
  from string_literal_roundtrip [OF c, of 0] show ?thesis unfolding e by auto
qed

text \<open>
  C12. Integer literals round trip from text to tree: the decimal digits of every number up to
  \<open>INT64_MAX\<close> are one token and parse to that number.
\<close>

theorem integer_roundtrip:
  assumes "int m \<le> INT64_MAX"
  shows "\<exists>p'. (parser_init (lexer_init (decimal m)) \<bind> parse_expression (Suc n)) =
    Some (Some (IntegerLiteral (int m)), p') \<and> stream p' = []"
proof (rule parse_one_token)
  have "NUL \<notin> set (decimal m)" using decimal_digits(1) [of m] by (auto simp: list_all_iff)
  then show "c_string (decimal m)" by (simp add: c_string_def)
  have "lexeme_ok TOKEN_INTEGER (decimal m)" using decimal_digits [of m] by (simp add: lexeme_ok_def)
  from scan_back [OF this, of "[]"] show "scan (decimal m) = (TOKEN_INTEGER, decimal m, [])"
    by (simp add: blank_or_end_def)
  have "length (decimal m) < 64" using assms decimal_length [of m 19] by (simp add: INT64_MAX_def)
  moreover have "integer_literal (decimal m) = Some (int m)"
    using assms decimal_digits(2) [of m]
    by (simp add: integer_literal_def decimal_base strto_digits_def strto_scan_decimal)
  moreover fix q q' assume "cur_type q = TOKEN_INTEGER" "tok_length (cur q) = length (token_text TOKEN_INTEGER (decimal m))"
    "parser_token_to_string q (cur q) = Some (token_text TOKEN_INTEGER (decimal m))" "parser_advance q = Some q'"
  ultimately show "parse_primary (Suc n) (parse_expression n) q = Some (Some (IntegerLiteral (int m)), q')"
    by (simp add: parse_primary_def token_text_def)
qed simp_all

theorem integer_roundtrip_witness:
  "\<exists>p'. (parser_init (lexer_init ''42'') \<bind> parse_expression 1) = Some (Some (IntegerLiteral 42), p')"
proof -
  have d: "decimal 42 = ''42''" by code_simp
  have "int 42 \<le> INT64_MAX" by (simp add: INT64_MAX_def)
  from integer_roundtrip [OF this, of 0] show ?thesis unfolding d by auto
qed

section \<open>Desugaring\<close>

text \<open>The expressions \<open>clone_expression\<close> has a case for.\<close>

fun copyable :: "ast \<Rightarrow> bool" where
  "copyable (MemberExpression e m) = copyable e"
| "copyable (IndexExpression e i) = (copyable e \<and> copyable i)"
| "copyable (BinaryExpression l r op) = (copyable l \<and> copyable r)"
| "copyable (UnaryExpression e op) = copyable e"
| "copyable e = (\<exists>x n b f. e = Variable x \<or> e = IntegerLiteral n \<or> e = BooleanLiteral b \<or> e = StringLiteral x \<or> e = FloatLiteral f)"

lemma clone_copyable: "clone_expression e = (if copyable e then Some e else None)"
  by (induction e rule: clone_expression.induct) auto

text \<open>
  C13. A compound assignment is desugared to what it abbreviates: behind a target \<open>t\<close>, the tokens \<open>+=\<close>, \<open>-=\<close>, \<open>*=\<close>, \<open>/=\<close> and \<open>%=\<close> and a
  value \<open>v\<close> give the assignment of \<open>t + v\<close>, \<open>t - v\<close>, \<open>t * v\<close>, \<open>t / v\<close> and \<open>t % v\<close> to \<open>t\<close>, with an exact copy of \<open>t\<close> as left operand, as a
  declaration when \<open>t\<close> is a variable. This fails exactly when \<open>t\<close> contains a call, an array literal or null, which \<open>clone_expression\<close> does
  not copy; the message then speaks of memory.
\<close>

theorem compound_assignment:
  assumes "(cur_type p, op) \<in> {(TOKEN_PLUS_EQUALS, BINARY_ADD), (TOKEN_MINUS_EQUALS, BINARY_SUBTRACT),
      (TOKEN_STAR_EQUALS, BINARY_MULTIPLY), (TOKEN_SLASH_EQUALS, BINARY_DIVIDE), (TOKEN_PERCENT_EQUALS, BINARY_MODULO)}"
    and "parser_advance p = Some q" "parse_expression n q = Some (Some v, p')"
  shows "finish_assignment (parse_expression n) t p = Some
    (if copyable t
     then (Some (case t of
         Variable x \<Rightarrow> VariableDeclaration x None (BinaryExpression t v op) False
       | _ \<Rightarrow> Assignment t (BinaryExpression t v op)), p')
     else (None, report p' ''out of memory.''))"
proof -
  have "compound_operator (cur_type p) = Some op" using assms(1) by auto
  then show ?thesis using assms(2,3)
    by (cases t) (auto simp: finish_assignment_def on_node_def clone_copyable assignment_node_def)
qed

lemma map_option_fst: "map_option (\<lambda>r. (a, fst r)) m = Some (b, x) \<Longrightarrow> a = b \<and> (\<exists>y. m = Some (x, y))"
  by (cases m) auto

theorem compound_assignment_witness:
  "\<exists>p p'. parser_init (lexer_init ''-=1'') = Some p \<and> finish_assignment (parse_expression 5) (Variable ''x'') p
     = Some (Some (VariableDeclaration ''x'' None (BinaryExpression (Variable ''x'') (IntegerLiteral 1) BINARY_SUBTRACT) False), p')"
proof -
  have "(parser_init (lexer_init ''-=1'') \<bind> (\<lambda>p. parser_advance p \<bind> (\<lambda>q. map_option (\<lambda>r. (cur_type p, fst r)) (parse_expression 5 q))))
      = Some (TOKEN_MINUS_EQUALS, Some (IntegerLiteral 1))"
    by code_simp
  moreover from parser_init_wp [of "''-=1''"] obtain p where p: "parser_init (lexer_init ''-=1'') = Some p"
    by (auto simp: wp_iff)
  ultimately obtain q where q: "parser_advance p = Some q"
    "map_option (\<lambda>r. (cur_type p, fst r)) (parse_expression 5 q) = Some (TOKEN_MINUS_EQUALS, Some (IntegerLiteral 1))"
    by (auto simp: bind_eq_Some_conv)
  from map_option_fst [OF q(2)] obtain p' where "cur_type p = TOKEN_MINUS_EQUALS" "parse_expression 5 q = Some (Some (IntegerLiteral 1), p')" by blast
  with compound_assignment [of p BINARY_SUBTRACT q 5 "IntegerLiteral 1" p' "Variable ''x''"] p q(1) show ?thesis by auto
qed

lemma decimal_inject: "decimal a = decimal b \<Longrightarrow> a = b"
  using strto_scan_decimal by (metis fst_conv)



end
