(* ===== verification/Hir.thy ===== *)
theory Hir
  imports Ast
begin

text \<open>
  The HIR, \<open>include/vnt/ir.h\<close>, and its validator, \<open>src/compiler/ir.c\<close>. Nodes live in one
  array and refer to each other by index; \<open>VNT_IR_NO_NODE\<close> is \<open>None\<close>. A \<open>double\<close> is a value of
  the type parameter \<open>'f\<close>. A loop over the children of a node reads the array through
  \<open>walk\<close>, whose \<open>None\<close> is an index out of range or a cycle of sibling links.
\<close>

section \<open>Data\<close>

datatype opcode =
    IR_PROGRAM | IR_PRINT | IR_IF | IR_WHILE | IR_FUNCTION | IR_STRUCT | IR_CALL | IR_RETURN
  | IR_BREAK | IR_CONTINUE | IR_STRING | IR_INTEGER | IR_FLOAT | IR_BOOLEAN | IR_NULL | IR_ARRAY
  | IR_VARIABLE_DECL | IR_VARIABLE | IR_INDEX | IR_MEMBER | IR_ASSIGN | IR_BINARY | IR_UNARY
  | IR_REASSIGN | IR_ASM

datatype edge_role =
    EDGE_ROOT | EDGE_STATEMENT | EDGE_CONDITION | EDGE_THEN | EDGE_ELSE | EDGE_BODY | EDGE_VALUE
  | EDGE_TARGET | EDGE_ARGUMENT | EDGE_ELEMENT | EDGE_OBJECT | EDGE_INDEX | EDGE_LEFT | EDGE_RIGHT
  | EDGE_OPERAND

text \<open>The \<open>int operation\<close>, whose range depends on the opcode, and the union \<open>value\<close>.\<close>

datatype operation =
    No_operation | Binary_operation binary_operator | Unary_operation unary_operator | Volatile_operation bool

datatype 'f hir_value = Integer_value int | Boolean_value bool | Floating_value 'f | Text_value string | No_value

record 'f hir_node =
  opcode :: opcode
  role :: edge_role
  operation :: operation
  names :: "string list"
  type_name :: "string option"
  first_child :: "nat option"
  last_child :: "nat option"
  next_sibling :: "nat option"
  child_count :: nat
  node_value :: "'f hir_value"

record 'f hir_program =
  nodes :: "'f hir_node list"
  root :: nat
  optimized_nodes :: nat

abbreviation node_count :: "'f hir_program \<Rightarrow> nat" where "node_count ir \<equiv> length (nodes ir)"
abbreviation hir_node_at :: "'f hir_program \<Rightarrow> nat \<Rightarrow> 'f hir_node" where "hir_node_at ir i \<equiv> nodes ir ! i"

fun value_text :: "'f hir_value \<Rightarrow> string option" where
  "value_text (Text_value t) = Some t"
| "value_text _ = None"

section \<open>Children\<close>

text \<open>\<open>for (c = first; c != VNT_IR_NO_NODE; c = nodes[c].next_sibling)\<close>, at most \<open>k\<close> rounds.\<close>

fun walk :: "nat \<Rightarrow> 'f hir_program \<Rightarrow> nat option \<Rightarrow> nat list option" where
  "walk k ir None = Some []"
| "walk 0 ir (Some c) = None"
| "walk (Suc k) ir (Some c) =
     (if c < node_count ir then map_option (\<lambda>cs. c # cs) (walk k ir (next_sibling (hir_node_at ir c))) else None)"

definition children :: "'f hir_program \<Rightarrow> nat \<Rightarrow> nat list option" where
  "children ir i =
     (if i < node_count ir then walk (node_count ir) ir (first_child (hir_node_at ir i)) else None)"

text \<open>\<open>child_role\<close> of \<open>cfg.c\<close>: the first child with the role, NULL out of range.\<close>

definition child_role :: "'f hir_program \<Rightarrow> nat \<Rightarrow> edge_role \<Rightarrow> nat option option" where
  "child_role ir i r =
     (if node_count ir \<le> i then Some None
      else map_option (find (\<lambda>c. role (hir_node_at ir c) = r)) (children ir i))"

section \<open>Validation\<close>

definition role_count :: "'f hir_program \<Rightarrow> nat list \<Rightarrow> edge_role \<Rightarrow> nat" where
  "role_count ir cs r = length (filter (\<lambda>c. role (hir_node_at ir c) = r) cs)"

definition validate_node_shape :: "'f hir_program \<Rightarrow> 'f hir_node \<Rightarrow> nat list \<Rightarrow> bool" where
  "validate_node_shape ir node cs =
     (let cnt = role_count ir cs; n = child_count node in
      case opcode node of
        IR_PROGRAM \<Rightarrow> cnt EDGE_STATEMENT = n \<and> cnt EDGE_CONDITION = 0 \<and> cnt EDGE_THEN = 0 \<and> cnt EDGE_ELSE = 0
          \<and> cnt EDGE_BODY = 0 \<and> cnt EDGE_VALUE = 0 \<and> cnt EDGE_TARGET = 0 \<and> cnt EDGE_ARGUMENT = 0 \<and> cnt EDGE_ELEMENT = 0
          \<and> cnt EDGE_OBJECT = 0 \<and> cnt EDGE_INDEX = 0 \<and> cnt EDGE_LEFT = 0 \<and> cnt EDGE_RIGHT = 0 \<and> cnt EDGE_OPERAND = 0
      | IR_PRINT \<Rightarrow> cnt EDGE_VALUE = n \<and> cnt EDGE_VALUE \<le> 1
      | IR_RETURN \<Rightarrow> cnt EDGE_VALUE = n \<and> cnt EDGE_VALUE \<le> 1
      | IR_IF \<Rightarrow> cnt EDGE_CONDITION = 1 \<and> cnt EDGE_THEN + cnt EDGE_ELSE + cnt EDGE_CONDITION = n \<and> cnt EDGE_STATEMENT = 0
          \<and> cnt EDGE_BODY = 0 \<and> cnt EDGE_VALUE = 0 \<and> cnt EDGE_TARGET = 0 \<and> cnt EDGE_ARGUMENT = 0 \<and> cnt EDGE_ELEMENT = 0
          \<and> cnt EDGE_OBJECT = 0 \<and> cnt EDGE_INDEX = 0 \<and> cnt EDGE_LEFT = 0 \<and> cnt EDGE_RIGHT = 0 \<and> cnt EDGE_OPERAND = 0
      | IR_WHILE \<Rightarrow> cnt EDGE_CONDITION = 1 \<and> cnt EDGE_BODY + cnt EDGE_CONDITION = n \<and> cnt EDGE_STATEMENT = 0
          \<and> cnt EDGE_THEN = 0 \<and> cnt EDGE_ELSE = 0 \<and> cnt EDGE_VALUE = 0 \<and> cnt EDGE_TARGET = 0 \<and> cnt EDGE_ARGUMENT = 0
          \<and> cnt EDGE_ELEMENT = 0 \<and> cnt EDGE_OBJECT = 0 \<and> cnt EDGE_INDEX = 0 \<and> cnt EDGE_LEFT = 0 \<and> cnt EDGE_RIGHT = 0
          \<and> cnt EDGE_OPERAND = 0
      | IR_FUNCTION \<Rightarrow> cnt EDGE_BODY = n \<and> cnt EDGE_CONDITION = 0 \<and> cnt EDGE_THEN = 0 \<and> cnt EDGE_ELSE = 0
          \<and> cnt EDGE_VALUE = 0 \<and> cnt EDGE_TARGET = 0 \<and> cnt EDGE_ARGUMENT = 0 \<and> cnt EDGE_ELEMENT = 0
          \<and> cnt EDGE_OBJECT = 0 \<and> cnt EDGE_INDEX = 0 \<and> cnt EDGE_LEFT = 0 \<and> cnt EDGE_RIGHT = 0 \<and> cnt EDGE_OPERAND = 0
      | IR_CALL \<Rightarrow> cnt EDGE_ARGUMENT = n
      | IR_ARRAY \<Rightarrow> cnt EDGE_ELEMENT = n
      | IR_VARIABLE_DECL \<Rightarrow> cnt EDGE_VALUE = n \<and> cnt EDGE_VALUE \<le> 1
      | IR_REASSIGN \<Rightarrow> cnt EDGE_VALUE = 1 \<and> n = 1
      | IR_INDEX \<Rightarrow> cnt EDGE_OBJECT = 1 \<and> cnt EDGE_INDEX = 1 \<and> n = 2
      | IR_MEMBER \<Rightarrow> cnt EDGE_OBJECT = 1 \<and> n = 1
      | IR_ASSIGN \<Rightarrow> cnt EDGE_TARGET = 1 \<and> cnt EDGE_VALUE = 1 \<and> n = 2
      | IR_BINARY \<Rightarrow> cnt EDGE_LEFT = 1 \<and> cnt EDGE_RIGHT = 1 \<and> n = 2
      | IR_UNARY \<Rightarrow> cnt EDGE_OPERAND = 1 \<and> n = 1
      | _ \<Rightarrow> n = 0)"

definition text_opcode :: "opcode \<Rightarrow> bool" where
  "text_opcode op \<longleftrightarrow> op \<in> {IR_STRING, IR_VARIABLE_DECL, IR_REASSIGN, IR_VARIABLE, IR_MEMBER, IR_CALL,
     IR_FUNCTION, IR_STRUCT, IR_ASM}"

text \<open>The tests on the fields of one node.\<close>

definition node_fields_ok :: "'f hir_node \<Rightarrow> bool" where
  "node_fields_ok node \<longleftrightarrow>
     (text_opcode (opcode node) \<longrightarrow> value_text (node_value node) \<noteq> None)
     \<and> (names node \<noteq> [] \<longrightarrow> opcode node = IR_FUNCTION \<or> opcode node = IR_STRUCT)
     \<and> (type_name node \<noteq> None \<longrightarrow> opcode node = IR_VARIABLE_DECL \<or> opcode node = IR_REASSIGN)
     \<and> (opcode node = IR_BINARY \<longrightarrow> (case operation node of Binary_operation _ \<Rightarrow> True | _ \<Rightarrow> False))
     \<and> (opcode node = IR_UNARY \<longrightarrow> (case operation node of Unary_operation _ \<Rightarrow> True | _ \<Rightarrow> False))
     \<and> (first_child node = None) = (child_count node = 0)"

text \<open>
  The loop over the children of node \<open>i\<close>: bounds, no self loop, at most one parent. The result
  is the children in order with the updated parent counts; \<open>None\<close> is \<open>return 0\<close>.
\<close>

fun validate_children :: "nat \<Rightarrow> 'f hir_program \<Rightarrow> nat \<Rightarrow> nat option \<Rightarrow> nat list \<Rightarrow> (nat list \<times> nat list) option" where
  "validate_children k ir i None parents = Some ([], parents)"
| "validate_children 0 ir i (Some c) parents = None"
| "validate_children (Suc k) ir i (Some c) parents =
     (if node_count ir \<le> c \<or> c = i \<or> 1 \<le> parents ! c then None
      else map_option (\<lambda>(cs, ps). (c # cs, ps))
             (validate_children k ir i (next_sibling (hir_node_at ir c)) (parents[c := parents ! c + 1])))"

fun validate_nodes :: "'f hir_program \<Rightarrow> nat list \<Rightarrow> nat list \<Rightarrow> nat list option" where
  "validate_nodes ir [] parents = Some parents"
| "validate_nodes ir (i # is) parents =
     (let node = hir_node_at ir i in
      if \<not> node_fields_ok node then None
      else case validate_children (node_count ir) ir i (first_child node) parents of
        None \<Rightarrow> None
      | Some (cs, parents) \<Rightarrow>
          if length cs \<noteq> child_count node
             \<or> (if cs = [] then None else Some (last cs)) \<noteq> last_child node
             \<or> (case last_child node of None \<Rightarrow> False | Some l \<Rightarrow> next_sibling (hir_node_at ir l) \<noteq> None)
             \<or> \<not> validate_node_shape ir node cs
          then None
          else validate_nodes ir is parents)"

text \<open>The walk from the root: push the children of one node; then visit the stack.\<close>

fun push_children :: "nat \<Rightarrow> 'f hir_program \<Rightarrow> bool list \<Rightarrow> nat option \<Rightarrow> nat list \<Rightarrow> nat list option" where
  "push_children k ir visited None stack = Some stack"
| "push_children 0 ir visited (Some c) stack = None"
| "push_children (Suc k) ir visited (Some c) stack =
     (if node_count ir \<le> c \<or> visited ! c \<or> node_count ir \<le> length stack then None
      else push_children k ir visited (next_sibling (hir_node_at ir c)) (c # stack))"

fun visit_nodes :: "nat \<Rightarrow> 'f hir_program \<Rightarrow> bool list \<Rightarrow> nat list \<Rightarrow> nat \<Rightarrow> nat option" where
  "visit_nodes k ir visited [] reached = Some reached"
| "visit_nodes 0 ir visited (current # stack) reached = None"
| "visit_nodes (Suc k) ir visited (current # stack) reached =
     (if node_count ir \<le> current \<or> visited ! current then None
      else let visited = visited[current := True] in
        case push_children (node_count ir) ir visited (first_child (hir_node_at ir current)) stack of
          None \<Rightarrow> None
        | Some stack \<Rightarrow> visit_nodes k ir visited stack (reached + 1))"

definition vnt_ir_validate :: "'f hir_program \<Rightarrow> bool" where
  "vnt_ir_validate ir =
     (let n = node_count ir in
      0 < n \<and> root ir < n \<and> opcode (hir_node_at ir (root ir)) = IR_PROGRAM
      \<and> role (hir_node_at ir (root ir)) = EDGE_ROOT \<and> next_sibling (hir_node_at ir (root ir)) = None
      \<and> (case validate_nodes ir [0..<n] (replicate n 0) of
           None \<Rightarrow> False
         | Some parents \<Rightarrow>
             parents ! root ir = 0 \<and> list_all (\<lambda>i. i \<noteq> root ir \<longrightarrow> parents ! i = 1) [0..<n]
             \<and> visit_nodes (n + 1) ir (replicate n False) [root ir] 0 = Some n))"

end
