(* ===== verification/HirTree.thy ===== *)
theory HirTree
  imports Hir
begin

text \<open>
  What \<open>vnt_ir_validate\<close> accepts is a tree: child lists are finite and in range, every node but
  the root has exactly one parent, all are reachable from the root, and descending terminates
  within as many steps as there are nodes. All later passes rely on this.
\<close>

section \<open>Child lists\<close>

definition kids :: "'f hir_program \<Rightarrow> nat \<Rightarrow> nat list" where
  "kids ir i = the (children ir i)"

definition child_rel :: "'f hir_program \<Rightarrow> (nat \<times> nat) set" where
  "child_rel ir = {(c, i). i < node_count ir \<and> c \<in> set (kids ir i)}"

lemma validate_children_walk:
  assumes "validate_children k ir i c parents = Some (cs, ps)" "length parents = node_count ir"
  shows "walk k ir c = Some cs \<and> length ps = node_count ir \<and> distinct cs \<and> set cs \<subseteq> {..<node_count ir}
    \<and> i \<notin> set cs
    \<and> (\<forall>x < node_count ir. ps ! x = parents ! x + (if x \<in> set cs then 1 else 0) \<and> (x \<in> set cs \<longrightarrow> parents ! x = 0))"
  using assms
proof (induction k ir i c parents arbitrary: cs ps rule: validate_children.induct)
  case (3 k ir i c parents)
  have g: "\<not> (node_count ir \<le> c \<or> c = i \<or> 1 \<le> parents ! c)"
    using 3(2) by (metis option.distinct(1) validate_children.simps(3))
  then have c: "c < node_count ir" "c \<noteq> i" "parents ! c = 0" by simp_all
  from 3(2) [unfolded validate_children.simps if_not_P [OF g] map_option_eq_Some] obtain cs'
    where cs: "cs = c # cs'"
    and v: "validate_children k ir i (next_sibling (hir_node_at ir c)) (parents[c := parents ! c + 1]) = Some (cs', ps)"
    by (metis (no_types, lifting) case_prod_conv prod.inject surj_pair)
  from 3(1) [OF g v] 3(3) have
    ih: "walk k ir (next_sibling (hir_node_at ir c)) = Some cs'" "length ps = node_count ir" "distinct cs'"
      "set cs' \<subseteq> {..<node_count ir}" "i \<notin> set cs'"
      "\<And>x. x < node_count ir \<Longrightarrow> ps ! x = parents[c := parents ! c + 1] ! x + (if x \<in> set cs' then 1 else 0)
         \<and> (x \<in> set cs' \<longrightarrow> parents[c := parents ! c + 1] ! x = 0)" by simp_all
  have "c \<notin> set cs'" using ih(6) [OF c(1)] c(1) 3(3) by auto
  moreover have "ps ! x = parents ! x + (if x \<in> set cs then 1 else 0) \<and> (x \<in> set cs \<longrightarrow> parents ! x = 0)"
    if "x < node_count ir" for x
    using ih(6) [OF that] that c(1,3) 3(3) cs \<open>c \<notin> set cs'\<close> by (cases "x = c") auto
  ultimately show ?case using ih(1-5) c cs by simp
qed auto

definition node_ok :: "'f hir_program \<Rightarrow> nat \<Rightarrow> bool" where
  "node_ok ir i \<longleftrightarrow> (\<exists>cs. children ir i = Some cs \<and> distinct cs \<and> set cs \<subseteq> {..<node_count ir}
     \<and> length cs = child_count (hir_node_at ir i) \<and> node_fields_ok (hir_node_at ir i)
     \<and> validate_node_shape ir (hir_node_at ir i) cs)"

lemma validate_nodes_ok:
  assumes "validate_nodes ir is parents = Some ps" "length parents = node_count ir" "set is \<subseteq> {..<node_count ir}"
  shows "(\<forall>i \<in> set is. node_ok ir i)
    \<and> (\<forall>x < node_count ir. ps ! x = parents ! x + length (filter (\<lambda>i. x \<in> set (kids ir i)) is))"
  using assms
proof (induction "is" arbitrary: parents)
  case (Cons i "is")
  let ?v = "validate_children (node_count ir) ir i (first_child (hir_node_at ir i)) parents"
  from Cons.prems(1) obtain cs ps1 where f: "node_fields_ok (hir_node_at ir i)" and v: "?v = Some (cs, ps1)"
    and l: "length cs = child_count (hir_node_at ir i)" and s: "validate_node_shape ir (hir_node_at ir i) cs"
    and r: "validate_nodes ir is ps1 = Some ps"
    by (auto simp: Let_def split: if_splits option.splits)
  note w = validate_children_walk [OF v Cons.prems(2)]
  have i: "i < node_count ir" using Cons.prems(3) by simp
  with w have ch: "children ir i = Some cs" by (simp add: children_def)
  with w l f s have ok: "node_ok ir i" by (simp add: node_ok_def)
  have "kids ir i = cs" using ch by (simp add: kids_def)
  with w Cons.IH [OF r] Cons.prems(3) ok show ?case by auto
qed simp

section \<open>Reachability\<close>

definition below_root :: "'f hir_program \<Rightarrow> nat \<Rightarrow> bool" where
  "below_root ir i \<longleftrightarrow> (i, root ir) \<in> (child_rel ir)\<^sup>*"

lemma push_children_walk:
  "push_children k ir visited c stack = Some stack' \<Longrightarrow> \<exists>cs. walk k ir c = Some cs \<and> stack' = rev cs @ stack"
  by (induction k ir visited c stack rule: push_children.induct) (auto split: if_splits)

lemma visit_nodes_reach:
  assumes "visit_nodes k ir visited stack reached = Some m" "length visited = node_count ir"
    and "\<And>x. x \<in> set stack \<Longrightarrow> below_root ir x" "\<And>i. i < node_count ir \<Longrightarrow> visited ! i \<Longrightarrow> below_root ir i"
    and "reached = card {i. i < node_count ir \<and> visited ! i}"
  shows "m \<le> card {i. i < node_count ir \<and> below_root ir i}"
  using assms
proof (induction k ir visited stack reached rule: visit_nodes.induct)
  case (1 k ir visited reached)
  then have "{i. i < node_count ir \<and> visited ! i} \<subseteq> {i. i < node_count ir \<and> below_root ir i}" by auto
  then have "card {i. i < node_count ir \<and> visited ! i} \<le> card {i. i < node_count ir \<and> below_root ir i}"
    by (rule card_mono [rotated]) simp
  with 1 show ?case by simp
next
  case (3 k ir visited current stack reached)
  let ?v = "visited[current := True]"
  from 3(2) obtain stack' where c: "current < node_count ir" "\<not> visited ! current"
    and p: "push_children (node_count ir) ir ?v (first_child (hir_node_at ir current)) stack = Some stack'"
    and v: "visit_nodes k ir ?v stack' (reached + 1) = Some m"
    by (auto simp: Let_def split: if_splits option.splits)
  from push_children_walk [OF p] c obtain cs where cs: "children ir current = Some cs" "stack' = rev cs @ stack"
    by (auto simp: children_def)
  have cur: "below_root ir current" using 3(4) by simp
  have kid: "below_root ir x" if "x \<in> set cs" for x
  proof -
    from that c cs have "(x, current) \<in> child_rel ir" by (simp add: child_rel_def kids_def)
    from this cur [unfolded below_root_def] show ?thesis
      unfolding below_root_def by (rule converse_rtrancl_into_rtrancl)
  qed
  have "{i. i < node_count ir \<and> ?v ! i} = insert current {i. i < node_count ir \<and> visited ! i}"
    using c 3(3) by (auto simp: nth_list_update)
  then have card: "reached + 1 = card {i. i < node_count ir \<and> ?v ! i}" using c 3(6) by simp
  show ?case
  proof (rule 3(1) [OF _ refl p v])
    show "\<not> (node_count ir \<le> current \<or> visited ! current)" using c by simp
    show "length ?v = node_count ir" using 3(3) by simp
    show "below_root ir x" if "x \<in> set stack'" for x using that cs(2) kid 3(4) by auto
    show "below_root ir i" if "i < node_count ir" "?v ! i" for i
      using that 3(5) [of i] cur 3(3) by (cases "i = current") auto
  qed (rule card)
qed simp

section \<open>The tree\<close>

text \<open>What every pass may assume of a validated program.\<close>

definition hir_tree :: "'f hir_program \<Rightarrow> bool" where
  "hir_tree ir \<longleftrightarrow> root ir < node_count ir \<and> (\<forall>i < node_count ir. node_ok ir i \<and> below_root ir i)
     \<and> (\<forall>c i j. (c, i) \<in> child_rel ir \<longrightarrow> (c, j) \<in> child_rel ir \<longrightarrow> i = j)
     \<and> (\<forall>i. (root ir, i) \<notin> child_rel ir)"

lemma filter_length_1: "length (filter P xs) \<le> 1 \<Longrightarrow> x \<in> set xs \<Longrightarrow> y \<in> set xs \<Longrightarrow> P x \<Longrightarrow> P y \<Longrightarrow> x = y"
proof (rule ccontr)
  assume h: "length (filter P xs) \<le> 1" "x \<in> set xs" "y \<in> set xs" "P x" "P y" and "x \<noteq> y"
  then have "card {x, y} \<le> card (set (filter P xs))" by (intro card_mono) auto
  also have "\<dots> \<le> 1" using h(1) card_length [of "filter P xs"] by linarith
  finally show False using \<open>x \<noteq> y\<close> by simp
qed

lemma vnt_ir_validate_tree: "vnt_ir_validate ir \<Longrightarrow> hir_tree ir"
proof -
  let ?n = "node_count ir"
  assume "vnt_ir_validate ir"
  then obtain ps where r: "root ir < ?n" and v: "validate_nodes ir [0..<?n] (replicate ?n 0) = Some ps"
    and pr: "ps ! root ir = 0" and p1: "\<And>i. i < ?n \<Longrightarrow> i \<noteq> root ir \<Longrightarrow> ps ! i = 1"
    and vis: "visit_nodes (?n + 1) ir (replicate ?n False) [root ir] 0 = Some ?n"
    by (auto simp: vnt_ir_validate_def Let_def list_all_iff split: option.splits)
  have "set [0..<?n] \<subseteq> {..<?n}" by auto
  from validate_nodes_ok [OF v _ this] have ok: "\<And>i. i < ?n \<Longrightarrow> node_ok ir i"
    and cnt: "\<And>x. x < ?n \<Longrightarrow> ps ! x = length (filter (\<lambda>i. x \<in> set (kids ir i)) [0..<?n])"
    by simp_all
  have range: "c < ?n" if "(c, i) \<in> child_rel ir" for c i
    using that ok [of i] by (auto simp: child_rel_def node_ok_def kids_def)
  have le1: "length (filter (\<lambda>i. c \<in> set (kids ir i)) [0..<?n]) \<le> 1" if "c < ?n" for c
    using cnt [OF that] p1 [OF that] pr by (cases "c = root ir") auto
  have uniq: "i = j" if h: "(c, i) \<in> child_rel ir" "(c, j) \<in> child_rel ir" for c i j
    by (rule filter_length_1 [OF le1 [OF range [OF h(1)]]]) (use h in \<open>auto simp: child_rel_def\<close>)
  have noroot: "(root ir, i) \<notin> child_rel ir" for i
    using cnt [OF r] pr by (auto simp: child_rel_def filter_empty_conv)
  have "?n \<le> card {i. i < ?n \<and> below_root ir i}"
    by (rule visit_nodes_reach [OF vis]) (auto simp: below_root_def)
  then have "{i. i < ?n \<and> below_root ir i} = {..<?n}"
    by (intro card_seteq) auto
  then have "below_root ir i" if "i < ?n" for i using that by auto
  with r ok uniq noroot show ?thesis unfolding hir_tree_def by blast
qed

lemma hir_tree_range: "hir_tree ir \<Longrightarrow> (c, i) \<in> child_rel ir \<Longrightarrow> c < node_count ir \<and> i < node_count ir"
proof -
  assume t: "hir_tree ir" and c: "(c, i) \<in> child_rel ir"
  then have i: "i < node_count ir" "c \<in> set (kids ir i)" by (simp_all add: child_rel_def)
  with t have "node_ok ir i" by (simp add: hir_tree_def)
  then show ?thesis using i by (auto simp: node_ok_def kids_def)
qed

lemma hir_tree_children: "hir_tree ir \<Longrightarrow> i < node_count ir \<Longrightarrow> children ir i = Some (kids ir i)"
  by (auto simp: hir_tree_def node_ok_def kids_def)

text \<open>A cycle would climb to the root, which has no parent.\<close>

lemma hir_tree_acyclic: "hir_tree ir \<Longrightarrow> (x, x) \<notin> (child_rel ir)\<^sup>+"
proof
  let ?R = "child_rel ir"
  assume t: "hir_tree ir" and x: "(x, x) \<in> ?R\<^sup>+"
  have up: "(y, y) \<in> ?R\<^sup>+" if "(z, z) \<in> ?R\<^sup>+" "(z, y) \<in> ?R" for y z
  proof -
    from \<open>(z, z) \<in> ?R\<^sup>+\<close> obtain w where w: "(z, w) \<in> ?R" "(w, z) \<in> ?R\<^sup>*" by (meson tranclD)
    with t that(2) have "w = y" by (auto simp: hir_tree_def)
    with w that(2) show ?thesis by (meson rtrancl_into_trancl1)
  qed
  from x obtain y where "(x, y) \<in> ?R" by (meson tranclD)
  with t have "x < node_count ir" by (auto dest: hir_tree_range)
  with t have "(x, root ir) \<in> ?R\<^sup>*" by (simp add: hir_tree_def below_root_def)
  then have "(root ir, root ir) \<in> ?R\<^sup>+" using x by (induction rule: rtrancl_induct) (auto intro: up)
  then show False using t by (meson hir_tree_def tranclD)
qed

definition descendants :: "'f hir_program \<Rightarrow> nat \<Rightarrow> nat set" where
  "descendants ir i = {d. (d, i) \<in> (child_rel ir)\<^sup>+}"

lemma descendants_range: "hir_tree ir \<Longrightarrow> descendants ir i \<subseteq> {..<node_count ir}"
  by (auto simp: descendants_def dest!: tranclD dest: hir_tree_range)

text \<open>The number of descendants: what recursive passes over the tree count down.\<close>

definition rank :: "'f hir_program \<Rightarrow> nat \<Rightarrow> nat" where
  "rank ir i = card (descendants ir i)"

lemma rank_child: "hir_tree ir \<Longrightarrow> (c, i) \<in> child_rel ir \<Longrightarrow> rank ir c < rank ir i"
proof -
  assume t: "hir_tree ir" and c: "(c, i) \<in> child_rel ir"
  have fin: "finite (descendants ir i)" using descendants_range [OF t, of i] by (rule finite_subset) simp
  have "descendants ir c \<subseteq> descendants ir i" using c by (auto simp: descendants_def)
  moreover have "c \<in> descendants ir i" using c by (auto simp: descendants_def)
  moreover have "c \<notin> descendants ir c" using hir_tree_acyclic [OF t] by (simp add: descendants_def)
  ultimately show ?thesis unfolding rank_def by (intro psubset_card_mono [OF fin]) blast
qed

lemma rank_bound: "hir_tree ir \<Longrightarrow> i < node_count ir \<Longrightarrow> rank ir i < node_count ir"
proof -
  assume t: "hir_tree ir" and i: "i < node_count ir"
  have "descendants ir i \<subseteq> {..<node_count ir} - {i}"
    using descendants_range [OF t] hir_tree_acyclic [OF t] by (auto simp: descendants_def)
  then have "card (descendants ir i) \<le> card ({..<node_count ir} - {i})" by (rule card_mono [rotated]) simp
  with i show ?thesis by (simp add: rank_def)
qed

end
