(* ===== verification/Cfg.thy ===== *)
theory Cfg
  imports HirTree
begin

text \<open>
  The control-flow graph, \<open>include/vnt/cfg.h\<close> and the construction half of
  \<open>src/compiler/cfg.c\<close>. A block refers to HIR nodes and to other blocks by index, and
  \<open>VNT_IR_NO_NODE\<close> is \<open>None\<close>. Allocation succeeds; the block array is a list, so its capacity
  has no counterpart. The recursion of the builder over the HIR carries a depth.
\<close>

section \<open>Data\<close>

datatype terminator = CFG_FALLTHROUGH | CFG_BRANCH | CFG_JUMP | CFG_RETURN | CFG_EXIT

record block =
  instruction :: "nat option"
  condition :: "nat option"
  true_successor :: "nat option"
  false_successor :: "nat option"
  terminator :: terminator

record cfg =
  blocks :: "block list"
  entries :: "nat list"
  exit_block :: nat

record builder =
  graph :: cfg
  failed :: bool

abbreviation block_count :: "cfg \<Rightarrow> nat" where "block_count g \<equiv> length (blocks g)"
abbreviation block_at :: "cfg \<Rightarrow> nat \<Rightarrow> block" where "block_at g i \<equiv> blocks g ! i"

section \<open>Building\<close>

definition fail :: "builder \<Rightarrow> nat option \<times> builder" where
  "fail b = (None, b\<lparr>failed := True\<rparr>)"

definition new_block :: "builder \<Rightarrow> terminator \<Rightarrow> nat option \<Rightarrow> nat option \<Rightarrow> nat option \<Rightarrow> nat option \<Rightarrow> nat option \<times> builder" where
  "new_block b term i c yes no =
     (let blk = \<lparr>instruction = i, condition = c, true_successor = yes, false_successor = no, terminator = term\<rparr>;
          g = graph b in
      (Some (block_count g), b\<lparr>graph := g\<lparr>blocks := blocks g @ [blk]\<rparr>\<rparr>))"

definition add_entry :: "cfg \<Rightarrow> nat option \<Rightarrow> cfg option" where
  "add_entry g entry = (case entry of None \<Rightarrow> None | Some e \<Rightarrow> Some (g\<lparr>entries := entries g @ [e]\<rparr>))"

text \<open>\<open>b->cfg->blocks[test].true_successor = body\<close>.\<close>

definition set_true_successor :: "builder \<Rightarrow> nat \<Rightarrow> nat option \<Rightarrow> builder" where
  "set_true_successor b t body =
     (let g = graph b in b\<lparr>graph := g\<lparr>blocks := (blocks g)[t := (block_at g t)\<lparr>true_successor := body\<rparr>]\<rparr>\<rparr>)"

definition is_definition :: "'f hir_node \<Rightarrow> bool" where
  "is_definition n \<longleftrightarrow> opcode n = IR_FUNCTION \<or> opcode n = IR_STRUCT"

text \<open>The children that \<open>build_sequence\<close> collects in \<open>items\<close>.\<close>

definition sequence_items :: "'f hir_program \<Rightarrow> nat list \<Rightarrow> edge_role \<Rightarrow> bool \<Rightarrow> nat list" where
  "sequence_items ir cs r skip =
     filter (\<lambda>c. role (hir_node_at ir c) = r \<and> \<not> (skip \<and> is_definition (hir_node_at ir c))) cs"

type_synonym statement_builder = "builder \<Rightarrow> nat \<Rightarrow> nat option \<Rightarrow> nat option \<Rightarrow> nat option
    \<Rightarrow> (nat option \<times> builder) option"

text \<open>
  \<open>build_sequence\<close> and its loop, with the recursive call of \<open>build_statement\<close> as the argument
  \<open>stm\<close>. The items are built from the last one.
\<close>

fun build_items :: "statement_builder \<Rightarrow> builder \<Rightarrow> nat list \<Rightarrow> nat option \<Rightarrow> nat option \<Rightarrow> nat option
    \<Rightarrow> (nat option \<times> builder) option" where
  "build_items stm b [] entry brk cont = Some (entry, b)"
| "build_items stm b (i # is) entry brk cont =
     (if failed b then Some (entry, b)
      else do {
        (entry, b) \<leftarrow> stm b i entry brk cont;
        build_items stm b is entry brk cont })"

definition build_sequence :: "statement_builder \<Rightarrow> 'f hir_program \<Rightarrow> builder \<Rightarrow> nat \<Rightarrow> edge_role
    \<Rightarrow> nat option \<Rightarrow> nat option \<Rightarrow> nat option \<Rightarrow> bool \<Rightarrow> (nat option \<times> builder) option" where
  "build_sequence stm ir b parent r next brk cont skip =
     (if node_count ir \<le> parent then Some (fail b)
      else do {
        cs \<leftarrow> children ir parent;
        let items = sequence_items ir cs r skip;
        if items = [] then Some (next, b) else do {
          (entry, b) \<leftarrow> build_items stm b (rev items) next brk cont;
          Some (if failed b then None else entry, b) } })"

fun build_statement :: "nat \<Rightarrow> 'f hir_program \<Rightarrow> statement_builder" where
  "build_statement 0 ir b index next brk cont = None"
| "build_statement (Suc k) ir b index next brk cont =
     (let op = opcode (hir_node_at ir index) in
      if failed b \<or> node_count ir \<le> index then Some (None, b)
      else if op = IR_PROGRAM then
        build_sequence (build_statement k ir) ir b index EDGE_STATEMENT next brk cont False
      else if op = IR_IF then do {
        cond \<leftarrow> child_role ir index EDGE_CONDITION;
        if cond = None then Some (fail b) else do {
          (yes, b) \<leftarrow> build_sequence (build_statement k ir) ir b index EDGE_THEN next brk cont False;
          (no, b) \<leftarrow> build_sequence (build_statement k ir) ir b index EDGE_ELSE next brk cont False;
          Some (new_block b CFG_BRANCH None cond yes no) } }
      else if op = IR_WHILE then do {
        cond \<leftarrow> child_role ir index EDGE_CONDITION;
        if cond = None then Some (fail b) else do {
          let (test, b) = new_block b CFG_BRANCH None cond None next;
          (body, b) \<leftarrow> build_sequence (build_statement k ir) ir b index EDGE_BODY test next test False;
          if body = None then Some (fail b) else Some (test, set_true_successor b (the test) body) } }
      else if op = IR_RETURN then
        Some (new_block b CFG_RETURN (Some index) None (Some (exit_block (graph b))) None)
      else if op = IR_BREAK then
        Some (if brk = None then fail b else new_block b CFG_JUMP (Some index) None brk None)
      else if op = IR_CONTINUE then
        Some (if cont = None then fail b else new_block b CFG_JUMP (Some index) None cont None)
      else if op = IR_FUNCTION \<or> op = IR_STRUCT then Some (next, b)
      else Some (new_block b CFG_FALLTHROUGH (Some index) None next None))"

section \<open>Pruning and simplification\<close>

text \<open>Marking one block: \<open>reachable\<close> with the stack; \<open>None\<close> is the \<open>return 0\<close> for a bad index.\<close>

definition mark_block :: "nat option \<Rightarrow> bool list \<times> nat list \<Rightarrow> (bool list \<times> nat list) option" where
  "mark_block next = (\<lambda>(reachable, stack). case next of
       None \<Rightarrow> Some (reachable, stack)
     | Some n \<Rightarrow> if length reachable \<le> n then None
                else if reachable ! n then Some (reachable, stack)
                else Some (reachable[n := True], n # stack))"

fun mark_entries :: "nat list \<Rightarrow> bool list \<times> nat list \<Rightarrow> (bool list \<times> nat list) option" where
  "mark_entries [] s = Some s"
| "mark_entries (e # es) s = (case mark_block (Some e) s of None \<Rightarrow> None | Some s \<Rightarrow> mark_entries es s)"

definition mark_successors :: "block \<Rightarrow> bool list \<times> nat list \<Rightarrow> (bool list \<times> nat list) option" where
  "mark_successors blk s =
     (case mark_block (true_successor blk) s of None \<Rightarrow> None | Some s \<Rightarrow> mark_block (false_successor blk) s)"

definition mark_measure :: "bool list \<times> nat list \<Rightarrow> nat" where
  "mark_measure = (\<lambda>(reachable, stack). 2 * length (filter Not reachable) + length stack)"

lemma filter_Not_update:
  "n < length xs \<Longrightarrow> \<not> xs ! n \<Longrightarrow> length (filter Not xs) = Suc (length (filter Not (xs[n := True])))"
  by (induction xs arbitrary: n) (auto split: nat.splits simp: nth_Cons)

lemma mark_block_measure: "mark_block next s = Some s' \<Longrightarrow> mark_measure s' \<le> mark_measure s"
  by (auto simp: mark_block_def mark_measure_def not_le split: option.splits if_splits prod.splits dest: filter_Not_update)

lemma mark_successors_measure: "mark_successors blk s = Some s' \<Longrightarrow> mark_measure s' \<le> mark_measure s"
  by (auto simp: mark_successors_def split: option.splits dest!: mark_block_measure)

function mark_reachable :: "block list \<Rightarrow> bool list \<times> nat list \<Rightarrow> bool list option" where
  "mark_reachable bs (reachable, []) = Some reachable"
| "mark_reachable bs (reachable, at # stack) =
     (case mark_successors (bs ! at) (reachable, stack) of None \<Rightarrow> None | Some s \<Rightarrow> mark_reachable bs s)"
  by pat_completeness auto
termination
  by (relation "measure (\<lambda>(bs, s). mark_measure s)")
    (auto dest!: mark_successors_measure simp: mark_measure_def)

text \<open>\<open>map[i] = reachable[i] ? kept++ : VNT_IR_NO_NODE\<close>.\<close>

fun number_blocks :: "nat \<Rightarrow> bool list \<Rightarrow> nat option list" where
  "number_blocks kept [] = []"
| "number_blocks kept (r # rs) =
     (if r then Some kept # number_blocks (kept + 1) rs else None # number_blocks kept rs)"

definition renumber_block :: "nat option list \<Rightarrow> block \<Rightarrow> block" where
  "renumber_block m blk =
     blk\<lparr>true_successor := (case true_successor blk of None \<Rightarrow> None | Some s \<Rightarrow> m ! s),
         false_successor := (case false_successor blk of None \<Rightarrow> None | Some s \<Rightarrow> m ! s)\<rparr>"

text \<open>
  The reachable blocks are stored at \<open>map[old]\<close>, that is, in order. \<open>the\<close> reads an entry of
  the map that is known not to be \<open>VNT_IR_NO_NODE\<close>.
\<close>

definition prune_unreachable_blocks :: "cfg \<Rightarrow> cfg option" where
  "prune_unreachable_blocks g =
     (let count = block_count g in
      case mark_entries (entries g) (replicate count False, []) of
        None \<Rightarrow> None
      | Some s \<Rightarrow>
          case mark_reachable (blocks g) s of
            None \<Rightarrow> None
          | Some reachable \<Rightarrow>
              let m = number_blocks 0 reachable in
              if \<not> list_ex id reachable \<or> m ! exit_block g = None then None
              else Some \<lparr>blocks = map (\<lambda>i. renumber_block m (block_at g i)) (filter (\<lambda>i. reachable ! i) [0..<count]),
                         entries = map (\<lambda>e. the (m ! e)) (entries g),
                         exit_block = the (m ! exit_block g)\<rparr>)"

fun value_boolean :: "'f hir_value \<Rightarrow> bool" where
  "value_boolean (Boolean_value v) = v"
| "value_boolean _ = False"

definition simplify_block :: "'f hir_program \<Rightarrow> block \<Rightarrow> block" where
  "simplify_block ir blk =
     (if terminator blk \<noteq> CFG_BRANCH then blk
      else case condition blk of
        None \<Rightarrow> blk
      | Some c \<Rightarrow>
          if node_count ir \<le> c \<or> opcode (hir_node_at ir c) \<noteq> IR_BOOLEAN then blk
          else \<lparr>instruction = None, condition = None,
                true_successor = (if value_boolean (node_value (hir_node_at ir c)) then true_successor blk else false_successor blk),
                false_successor = None, terminator = CFG_JUMP\<rparr>)"

definition simplify_constant_branches :: "'f hir_program \<Rightarrow> cfg \<Rightarrow> cfg" where
  "simplify_constant_branches ir g = g\<lparr>blocks := map (simplify_block ir) (blocks g)\<rparr>"

section \<open>Validation and the whole construction\<close>

definition validate_block :: "cfg \<Rightarrow> nat \<Rightarrow> bool" where
  "validate_block g i =
     (let b = block_at g i; in_range = (\<lambda>s. case s of None \<Rightarrow> True | Some s \<Rightarrow> s < block_count g) in
      in_range (true_successor b) \<and> in_range (false_successor b) \<and>
      (case terminator b of
         CFG_BRANCH \<Rightarrow> condition b \<noteq> None \<and> true_successor b \<noteq> None \<and> false_successor b \<noteq> None \<and> instruction b = None
       | CFG_EXIT \<Rightarrow> i = exit_block g \<and> instruction b = None \<and> condition b = None \<and> true_successor b = None
           \<and> false_successor b = None
       | CFG_RETURN \<Rightarrow> instruction b \<noteq> None \<and> condition b = None \<and> true_successor b = Some (exit_block g)
           \<and> false_successor b = None
       | CFG_JUMP \<Rightarrow> condition b = None \<and> true_successor b \<noteq> None \<and> false_successor b = None
       | CFG_FALLTHROUGH \<Rightarrow> instruction b \<noteq> None \<and> condition b = None \<and> true_successor b \<noteq> None
           \<and> false_successor b = None))"

definition vnt_cfg_validate :: "cfg \<Rightarrow> bool" where
  "vnt_cfg_validate g \<longleftrightarrow> blocks g \<noteq> [] \<and> exit_block g < block_count g \<and> entries g \<noteq> []
     \<and> list_all (\<lambda>e. e < block_count g) (entries g) \<and> list_all (validate_block g) [0..<block_count g]"

text \<open>The test of the analyses that a block refers to nodes of the HIR.\<close>

definition block_nodes_ok :: "'f hir_program \<Rightarrow> block \<Rightarrow> bool" where
  "block_nodes_ok ir blk \<longleftrightarrow> (case instruction blk of None \<Rightarrow> True | Some i \<Rightarrow> i < node_count ir)
     \<and> (case condition blk of None \<Rightarrow> True | Some c \<Rightarrow> c < node_count ir)"

text \<open>The loop of \<open>vnt_cfg_build\<close> over the function nodes; the inner \<open>None\<close> is \<open>goto fail\<close>.\<close>

fun build_functions :: "'f hir_program \<Rightarrow> nat list \<Rightarrow> builder \<Rightarrow> builder option option" where
  "build_functions ir [] b = Some (Some b)"
| "build_functions ir (i # is) b =
     (if opcode (hir_node_at ir i) \<noteq> IR_FUNCTION then build_functions ir is b
      else do {
        (entry, b) \<leftarrow> build_sequence (build_statement (node_count ir) ir) ir b i EDGE_BODY (Some (exit_block (graph b))) None None False;
        if failed b then Some None
        else case add_entry (graph b) entry of
          None \<Rightarrow> Some None
        | Some g \<Rightarrow> build_functions ir is (b\<lparr>graph := g\<rparr>) })"

definition empty_cfg :: cfg where
  "empty_cfg = \<lparr>blocks = [], entries = [], exit_block = 0\<rparr>"

text \<open>The graph before simplification and pruning.\<close>

definition build_graph :: "'f hir_program \<Rightarrow> cfg option option" where
  "build_graph ir = do {
     let (exit, b) = new_block \<lparr>graph = empty_cfg, failed = False\<rparr> CFG_EXIT None None None None;
     let b = b\<lparr>graph := (graph b)\<lparr>exit_block := the exit\<rparr>\<rparr>;
     (main_entry, b) \<leftarrow> build_sequence (build_statement (node_count ir) ir) ir b (root ir) EDGE_STATEMENT exit None None True;
     if failed b then Some None
     else case add_entry (graph b) main_entry of
       None \<Rightarrow> Some None
     | Some g \<Rightarrow> do {
         b \<leftarrow> build_functions ir [0..<node_count ir] (b\<lparr>graph := g\<rparr>);
         Some (map_option graph b) } }"

definition vnt_cfg_build :: "'f hir_program \<Rightarrow> cfg option option" where
  "vnt_cfg_build ir =
     (if \<not> vnt_ir_validate ir then Some None
      else do {
        g \<leftarrow> build_graph ir;
        Some (case g of
          None \<Rightarrow> None
        | Some g \<Rightarrow>
            case prune_unreachable_blocks (simplify_constant_branches ir g) of
              None \<Rightarrow> None
            | Some g \<Rightarrow> if vnt_cfg_validate g then Some g else None) })"

end
