(* ===== verification/CfgTrace.thy ===== *)
theory CfgTrace
  imports Cfg
begin

text \<open>
  What the control-flow graph must preserve: the traces of the structured program. A trace lists
  the statements run and the outcomes of the conditions tested; a condition that is a boolean
  literal is not observable and has its value. \<open>stmt_trace\<close> and \<open>seq_trace\<close> give the
  terminating traces of the HIR, \<open>path\<close> those of a graph, and \<open>simulates\<close> says that a part of a
  graph has the traces of a part of the program.
\<close>

section \<open>Traces of the structured program\<close>

datatype event = Run nat | Test nat bool

datatype outcome = Normal | Broke | Continued | Returned

definition test_events :: "'f hir_program \<Rightarrow> nat \<Rightarrow> bool \<Rightarrow> event list list" where
  "test_events ir c v =
     (if c < node_count ir \<and> opcode (hir_node_at ir c) = IR_BOOLEAN
      then if value_boolean (node_value (hir_node_at ir c)) = v then [[]] else []
      else [[Test c v]])"

abbreviation items_of :: "'f hir_program \<Rightarrow> nat \<Rightarrow> edge_role \<Rightarrow> nat list" where
  "items_of ir i r \<equiv> sequence_items ir (kids ir i) r False"

definition simple_opcode :: "opcode \<Rightarrow> bool" where
  "simple_opcode op \<longleftrightarrow> op \<notin> {IR_PROGRAM, IR_IF, IR_WHILE, IR_RETURN, IR_BREAK, IR_CONTINUE, IR_FUNCTION, IR_STRUCT}"

inductive stmt_trace :: "'f hir_program \<Rightarrow> nat \<Rightarrow> event list \<Rightarrow> outcome \<Rightarrow> bool"
  and seq_trace :: "'f hir_program \<Rightarrow> nat list \<Rightarrow> event list \<Rightarrow> outcome \<Rightarrow> bool" for ir where
  seq_nil: "seq_trace ir [] [] Normal"
| seq_cons: "stmt_trace ir i t1 Normal \<Longrightarrow> seq_trace ir is t2 oc \<Longrightarrow> seq_trace ir (i # is) (t1 @ t2) oc"
| seq_stop: "stmt_trace ir i t oc \<Longrightarrow> oc \<noteq> Normal \<Longrightarrow> seq_trace ir (i # is) t oc"
| program: "opcode (hir_node_at ir i) = IR_PROGRAM \<Longrightarrow> seq_trace ir (items_of ir i EDGE_STATEMENT) t oc
    \<Longrightarrow> stmt_trace ir i t oc"
| if_then: "opcode (hir_node_at ir i) = IR_IF \<Longrightarrow> child_role ir i EDGE_CONDITION = Some (Some c)
    \<Longrightarrow> t1 \<in> set (test_events ir c True) \<Longrightarrow> seq_trace ir (items_of ir i EDGE_THEN) t2 oc
    \<Longrightarrow> stmt_trace ir i (t1 @ t2) oc"
| if_else: "opcode (hir_node_at ir i) = IR_IF \<Longrightarrow> child_role ir i EDGE_CONDITION = Some (Some c)
    \<Longrightarrow> t1 \<in> set (test_events ir c False) \<Longrightarrow> seq_trace ir (items_of ir i EDGE_ELSE) t2 oc
    \<Longrightarrow> stmt_trace ir i (t1 @ t2) oc"
| while_end: "opcode (hir_node_at ir i) = IR_WHILE \<Longrightarrow> child_role ir i EDGE_CONDITION = Some (Some c)
    \<Longrightarrow> t \<in> set (test_events ir c False) \<Longrightarrow> stmt_trace ir i t Normal"
| while_more: "opcode (hir_node_at ir i) = IR_WHILE \<Longrightarrow> child_role ir i EDGE_CONDITION = Some (Some c)
    \<Longrightarrow> t1 \<in> set (test_events ir c True) \<Longrightarrow> seq_trace ir (items_of ir i EDGE_BODY) t2 oc
    \<Longrightarrow> oc = Normal \<or> oc = Continued \<Longrightarrow> stmt_trace ir i t3 oc' \<Longrightarrow> stmt_trace ir i (t1 @ t2 @ t3) oc'"
| while_break: "opcode (hir_node_at ir i) = IR_WHILE \<Longrightarrow> child_role ir i EDGE_CONDITION = Some (Some c)
    \<Longrightarrow> t1 \<in> set (test_events ir c True) \<Longrightarrow> seq_trace ir (items_of ir i EDGE_BODY) t2 Broke
    \<Longrightarrow> stmt_trace ir i (t1 @ t2) Normal"
| while_return: "opcode (hir_node_at ir i) = IR_WHILE \<Longrightarrow> child_role ir i EDGE_CONDITION = Some (Some c)
    \<Longrightarrow> t1 \<in> set (test_events ir c True) \<Longrightarrow> seq_trace ir (items_of ir i EDGE_BODY) t2 Returned
    \<Longrightarrow> stmt_trace ir i (t1 @ t2) Returned"
| return_stmt: "opcode (hir_node_at ir i) = IR_RETURN \<Longrightarrow> stmt_trace ir i [Run i] Returned"
| break_stmt: "opcode (hir_node_at ir i) = IR_BREAK \<Longrightarrow> stmt_trace ir i [Run i] Broke"
| continue_stmt: "opcode (hir_node_at ir i) = IR_CONTINUE \<Longrightarrow> stmt_trace ir i [Run i] Continued"
| definition_stmt: "is_definition (hir_node_at ir i) \<Longrightarrow> stmt_trace ir i [] Normal"
| simple_stmt: "simple_opcode (opcode (hir_node_at ir i)) \<Longrightarrow> stmt_trace ir i [Run i] Normal"

inductive_simps seq_trace_Nil: "seq_trace ir [] t oc"
inductive_simps seq_trace_Cons: "seq_trace ir (i # is) t oc"
inductive_simps stmt_trace_iff: "stmt_trace ir i t oc"

lemma stmt_trace_program: "opcode (hir_node_at ir i) = IR_PROGRAM \<Longrightarrow>
    stmt_trace ir i t oc \<longleftrightarrow> seq_trace ir (items_of ir i EDGE_STATEMENT) t oc"
  by (subst stmt_trace_iff) (simp add: is_definition_def simple_opcode_def)

lemma stmt_trace_leaf:
  "opcode (hir_node_at ir i) = IR_RETURN \<Longrightarrow> stmt_trace ir i t oc \<longleftrightarrow> t = [Run i] \<and> oc = Returned"
  "opcode (hir_node_at ir i) = IR_BREAK \<Longrightarrow> stmt_trace ir i t oc \<longleftrightarrow> t = [Run i] \<and> oc = Broke"
  "opcode (hir_node_at ir i) = IR_CONTINUE \<Longrightarrow> stmt_trace ir i t oc \<longleftrightarrow> t = [Run i] \<and> oc = Continued"
  by (subst stmt_trace_iff; simp add: is_definition_def simple_opcode_def)+

lemma stmt_trace_definition: "is_definition (hir_node_at ir i) \<Longrightarrow> stmt_trace ir i t oc \<longleftrightarrow> t = [] \<and> oc = Normal"
  by (subst stmt_trace_iff) (auto simp: is_definition_def simple_opcode_def)

lemma stmt_trace_simple: "simple_opcode (opcode (hir_node_at ir i)) \<Longrightarrow> stmt_trace ir i t oc \<longleftrightarrow> t = [Run i] \<and> oc = Normal"
  by (subst stmt_trace_iff) (auto simp: is_definition_def simple_opcode_def)

text \<open>A break or continue that no loop encloses.\<close>

inductive stray_jump :: "'f hir_program \<Rightarrow> nat \<Rightarrow> bool" for ir where
  "opcode (hir_node_at ir i) \<in> {IR_BREAK, IR_CONTINUE} \<Longrightarrow> stray_jump ir i"
| "opcode (hir_node_at ir i) = IR_PROGRAM \<Longrightarrow> c \<in> set (items_of ir i EDGE_STATEMENT) \<Longrightarrow> stray_jump ir c \<Longrightarrow> stray_jump ir i"
| "opcode (hir_node_at ir i) = IR_IF \<Longrightarrow> c \<in> set (items_of ir i EDGE_THEN) \<Longrightarrow> stray_jump ir c \<Longrightarrow> stray_jump ir i"
| "opcode (hir_node_at ir i) = IR_IF \<Longrightarrow> c \<in> set (items_of ir i EDGE_ELSE) \<Longrightarrow> stray_jump ir c \<Longrightarrow> stray_jump ir i"

inductive_simps stray_jump_iff: "stray_jump ir i"

section \<open>Paths of a graph\<close>

definition block_steps :: "'f hir_program \<Rightarrow> block \<Rightarrow> (event list \<times> nat) list" where
  "block_steps ir blk =
     (if terminator blk = CFG_BRANCH then
        (case condition blk of
           None \<Rightarrow> []
         | Some c \<Rightarrow>
             (case true_successor blk of None \<Rightarrow> [] | Some s \<Rightarrow> map (\<lambda>t. (t, s)) (test_events ir c True))
             @ (case false_successor blk of None \<Rightarrow> [] | Some s \<Rightarrow> map (\<lambda>t. (t, s)) (test_events ir c False)))
      else case true_successor blk of
        None \<Rightarrow> []
      | Some s \<Rightarrow> [(case instruction blk of None \<Rightarrow> [] | Some i \<Rightarrow> [Run i], s)])"

inductive path :: "'f hir_program \<Rightarrow> block list \<Rightarrow> nat \<Rightarrow> nat \<Rightarrow> event list \<Rightarrow> nat \<Rightarrow> bool" for ir bs where
  path_here: "path ir bs 0 x [] x"
| path_step: "x < length bs \<Longrightarrow> (t, y) \<in> set (block_steps ir (bs ! x)) \<Longrightarrow> path ir bs n y tr z
    \<Longrightarrow> path ir bs (Suc n) x (t @ tr) z"

inductive_simps path_0: "path ir bs 0 x tr z"
inductive_simps path_Suc: "path ir bs (Suc n) x tr z"

lemma path_trans: "path ir bs m x t1 y \<Longrightarrow> path ir bs n y t2 z \<Longrightarrow> path ir bs (m + n) x (t1 @ t2) z"
  by (induction rule: path.induct) (auto intro: path_step)

lemma path_single: "x < length bs \<Longrightarrow> (t, y) \<in> set (block_steps ir (bs ! x)) \<Longrightarrow> path ir bs 1 x t y"
  using path_step [OF _ _ path_here] by fastforce

lemma path_leaves: "path ir bs m x tr z \<Longrightarrow> x \<noteq> z \<Longrightarrow>
    \<exists>n t y tr'. m = Suc n \<and> tr = t @ tr' \<and> x < length bs \<and> (t, y) \<in> set (block_steps ir (bs ! x)) \<and> path ir bs n y tr' z"
  by (erule path.cases) auto

section \<open>Parts of a graph\<close>

definition simulates :: "'f hir_program \<Rightarrow> (event list \<Rightarrow> outcome \<Rightarrow> bool) \<Rightarrow> nat set \<Rightarrow> block list \<Rightarrow> nat
    \<Rightarrow> (outcome \<Rightarrow> nat option) \<Rightarrow> bool" where
  "simulates ir T R bs e tgt \<longleftrightarrow>
     (\<forall>tr oc. T tr oc \<longrightarrow> (\<exists>y m. tgt oc = Some y \<and> path ir bs m e tr y))
     \<and> (\<forall>m tr z. path ir bs m e tr z \<longrightarrow> z \<notin> R \<longrightarrow>
          (\<exists>t1 t2 oc y n. tr = t1 @ t2 \<and> T t1 oc \<and> tgt oc = Some y \<and> path ir bs n y t2 z \<and> n \<le> m))"

lemma simulatesI:
  assumes "\<And>tr oc. T tr oc \<Longrightarrow> \<exists>y m. tgt oc = Some y \<and> path ir bs m e tr y"
    and "\<And>m tr z. path ir bs m e tr z \<Longrightarrow> z \<notin> R \<Longrightarrow>
      \<exists>t1 t2 oc y n. tr = t1 @ t2 \<and> T t1 oc \<and> tgt oc = Some y \<and> path ir bs n y t2 z \<and> n \<le> m"
  shows "simulates ir T R bs e tgt"
  using assms unfolding simulates_def by blast

lemma simulates_forward: "simulates ir T R bs e tgt \<Longrightarrow> T tr oc \<Longrightarrow> \<exists>y m. tgt oc = Some y \<and> path ir bs m e tr y"
  unfolding simulates_def by blast

lemma simulates_backward: "simulates ir T R bs e tgt \<Longrightarrow> path ir bs m e tr z \<Longrightarrow> z \<notin> R \<Longrightarrow>
    \<exists>t1 t2 oc y n. tr = t1 @ t2 \<and> T t1 oc \<and> tgt oc = Some y \<and> path ir bs n y t2 z \<and> n \<le> m"
  unfolding simulates_def by blast

lemma simulates_widen: "simulates ir T R bs e tgt \<Longrightarrow> R \<subseteq> R' \<Longrightarrow> simulates ir T R' bs e tgt"
  unfolding simulates_def by blast

lemma simulates_nil:
  assumes "tgt Normal = Some e" "\<And>t oc. T t oc \<longleftrightarrow> t = [] \<and> oc = Normal"
  shows "simulates ir T R bs e tgt"
proof (rule simulatesI)
  fix m tr z assume "path ir bs m e tr z"
  then show "\<exists>t1 t2 oc y n. tr = t1 @ t2 \<and> T t1 oc \<and> tgt oc = Some y \<and> path ir bs n y t2 z \<and> n \<le> m"
    using assms by (intro exI [of _ "[]"] exI [of _ tr] exI [of _ Normal] exI [of _ e] exI [of _ m]) simp
qed (use assms in \<open>auto intro: path_here\<close>)

text \<open>One block with one way out.\<close>

lemma simulates_block:
  assumes "x < length bs" "x \<in> R" "block_steps ir (bs ! x) = [(t, y)]" "tgt oc = Some y"
    and T: "\<And>t' oc'. T t' oc' \<longleftrightarrow> t' = t \<and> oc' = oc"
  shows "simulates ir T R bs x tgt"
proof (rule simulatesI)
  fix m tr z assume "path ir bs m x tr z" "z \<notin> R"
  then have "\<exists>n tr'. m = Suc n \<and> tr = t @ tr' \<and> path ir bs n y tr' z"
    using path_leaves [of ir bs m x tr z] assms(2,3) by auto
  then show "\<exists>t1 t2 oc' y n. tr = t1 @ t2 \<and> T t1 oc' \<and> tgt oc' = Some y \<and> path ir bs n y t2 z \<and> n \<le> m"
    using assms(4) T by fastforce
next
  fix tr oc' assume "T tr oc'"
  then show "\<exists>y m. tgt oc' = Some y \<and> path ir bs m x tr y"
    using assms path_single [OF assms(1), of t y ir] by auto
qed

lemma simulates_seq:
  assumes s1: "simulates ir T1 R bs e1 (tgt(Normal := Some e2))" and s2: "simulates ir T2 R bs e2 tgt"
    and T: "\<And>t oc. T t oc \<longleftrightarrow> (\<exists>t1 t2. t = t1 @ t2 \<and> T1 t1 Normal \<and> T2 t2 oc) \<or> T1 t oc \<and> oc \<noteq> Normal"
  shows "simulates ir T R bs e1 tgt"
proof (rule simulatesI)
  fix tr oc assume "T tr oc"
  then show "\<exists>y m. tgt oc = Some y \<and> path ir bs m e1 tr y" unfolding T
    using simulates_forward [OF s1] simulates_forward [OF s2] path_trans by (auto split: if_splits) fastforce+
next
  fix m tr z assume p: "path ir bs m e1 tr z" and z: "z \<notin> R"
  from simulates_backward [OF s1 p z] obtain t1 t2 oc y n where 1: "tr = t1 @ t2" "T1 t1 oc"
    "(tgt(Normal := Some e2)) oc = Some y" "path ir bs n y t2 z" "n \<le> m" by blast
  show "\<exists>t1 t2 oc y n. tr = t1 @ t2 \<and> T t1 oc \<and> tgt oc = Some y \<and> path ir bs n y t2 z \<and> n \<le> m"
  proof (cases "oc = Normal")
    case True
    with 1 have "path ir bs n e2 t2 z" by simp
    from simulates_backward [OF s2 this z] obtain t3 t4 oc' y' n' where 2: "t2 = t3 @ t4" "T2 t3 oc'"
      "tgt oc' = Some y'" "path ir bs n' y' t4 z" "n' \<le> n" by blast
    with 1 True have "T (t1 @ t3) oc'" by (auto simp: T)
    with 1 2 show ?thesis by (intro exI [of _ "t1 @ t3"] exI [of _ t4] exI [of _ oc']) (auto intro: le_trans)
  next
    case False
    with 1 show ?thesis by (intro exI [of _ t1] exI [of _ t2] exI [of _ oc]) (auto simp: T)
  qed
qed

text \<open>A branch into two parts.\<close>

lemma simulates_branch:
  assumes x: "x < length bs" "x \<in> R" and st: "set (block_steps ir (bs ! x)) = {(t, e1) | t. t \<in> A} \<union> {(t, e2) | t. t \<in> B}"
    and s1: "simulates ir T1 R bs e1 tgt" and s2: "simulates ir T2 R bs e2 tgt"
    and T: "\<And>t oc. T t oc \<longleftrightarrow> (\<exists>t1 t2. t = t1 @ t2 \<and> (t1 \<in> A \<and> T1 t2 oc \<or> t1 \<in> B \<and> T2 t2 oc))"
  shows "simulates ir T R bs x tgt"
proof (rule simulatesI)
  fix tr oc assume "T tr oc"
  then obtain t1 t2 where t: "tr = t1 @ t2" and "t1 \<in> A \<and> T1 t2 oc \<or> t1 \<in> B \<and> T2 t2 oc" unfolding T by blast
  then consider "(t1, e1) \<in> set (block_steps ir (bs ! x))" "T1 t2 oc" | "(t1, e2) \<in> set (block_steps ir (bs ! x))" "T2 t2 oc"
    unfolding st by blast
  then obtain e y m where "(t1, e) \<in> set (block_steps ir (bs ! x))" "tgt oc = Some y" "path ir bs m e t2 y"
    by cases (use simulates_forward [OF s1] simulates_forward [OF s2] in blast)+
  then show "\<exists>y m. tgt oc = Some y \<and> path ir bs m x tr y" unfolding t using path_step [OF x(1)] by blast
next
  fix m tr z assume p: "path ir bs m x tr z" and z: "z \<notin> R"
  with x path_leaves [OF p] obtain n t y tr' where 1: "m = Suc n" "tr = t @ tr'" "(t, y) \<in> set (block_steps ir (bs ! x))"
    "path ir bs n y tr' z" by auto
  then consider "t \<in> A" "y = e1" | "t \<in> B" "y = e2" by (auto simp: st)
  then obtain t1 t2 oc y' n' where 2: "tr' = t1 @ t2" "T (t @ t1) oc" "tgt oc = Some y'" "path ir bs n' y' t2 z" "n' \<le> n"
  proof cases
    case 1
    with \<open>path ir bs n y tr' z\<close> simulates_backward [OF s1 _ z, of n tr'] show ?thesis using that unfolding T by blast
  next
    case 2
    with \<open>path ir bs n y tr' z\<close> simulates_backward [OF s2 _ z, of n tr'] show ?thesis using that unfolding T by blast
  qed
  with 1 show "\<exists>t1 t2 oc y n. tr = t1 @ t2 \<and> T t1 oc \<and> tgt oc = Some y \<and> path ir bs n y t2 z \<and> n \<le> m"
    by (intro exI [of _ "t @ t1"] exI [of _ t2] exI [of _ oc] exI [of _ y'] exI [of _ n']) simp
qed

text \<open>A loop whose test block leads to the body and to the continuation.\<close>

inductive loop_trace :: "event list set \<Rightarrow> event list set \<Rightarrow> (event list \<Rightarrow> outcome \<Rightarrow> bool) \<Rightarrow> event list \<Rightarrow> outcome \<Rightarrow> bool"
  for A B TB where
  loop_end: "t \<in> B \<Longrightarrow> loop_trace A B TB t Normal"
| loop_more: "t1 \<in> A \<Longrightarrow> TB t2 oc \<Longrightarrow> oc = Normal \<or> oc = Continued \<Longrightarrow> loop_trace A B TB t3 oc' \<Longrightarrow> loop_trace A B TB (t1 @ t2 @ t3) oc'"
| loop_break: "t1 \<in> A \<Longrightarrow> TB t2 Broke \<Longrightarrow> loop_trace A B TB (t1 @ t2) Normal"
| loop_return: "t1 \<in> A \<Longrightarrow> TB t2 Returned \<Longrightarrow> loop_trace A B TB (t1 @ t2) Returned"

lemma stmt_trace_while:
  assumes op: "opcode (hir_node_at ir i) = IR_WHILE" and c: "child_role ir i EDGE_CONDITION = Some (Some c)"
  shows "stmt_trace ir i t oc \<longleftrightarrow> loop_trace (set (test_events ir c True)) (set (test_events ir c False))
    (seq_trace ir (items_of ir i EDGE_BODY)) t oc" (is "?L \<longleftrightarrow> loop_trace ?A ?B ?TB t oc")
proof
  have "(stmt_trace ir j t oc \<longrightarrow> j = i \<longrightarrow> loop_trace ?A ?B ?TB t oc) \<and> (seq_trace ir is t' oc' \<longrightarrow> True)" for j "is" t' oc'
    by (induction rule: stmt_trace_seq_trace.induct)
      (use assms in \<open>auto intro: loop_trace.intros simp: is_definition_def simple_opcode_def\<close>)
  then show "?L \<Longrightarrow> loop_trace ?A ?B ?TB t oc" by blast
  show "loop_trace ?A ?B ?TB t oc \<Longrightarrow> ?L"
    by (induction rule: loop_trace.induct)
      (auto intro: while_end [OF assms] while_more [OF assms] while_break [OF assms] while_return [OF assms])
qed

lemma simulates_loop:
  assumes x: "x < length bs" "x \<in> R" and st: "set (block_steps ir (bs ! x)) = {(t, e) | t. t \<in> A} \<union> {(t, n) | t. t \<in> B}"
    and body: "simulates ir TB R bs e (\<lambda>oc. case oc of Returned \<Rightarrow> tgt Returned | Broke \<Rightarrow> Some n | _ \<Rightarrow> Some x)"
    and n: "tgt Normal = Some n"
  shows "simulates ir (loop_trace A B TB) R bs x tgt"
proof (rule simulatesI)
  fix tr oc assume "loop_trace A B TB tr oc"
  then show "\<exists>y m. tgt oc = Some y \<and> path ir bs m x tr y"
  proof induction
    case (loop_end t)
    with n show ?case using path_single [OF x(1), of t n ir] st by auto
  next
    case (loop_more t1 t2 oc t3 oc')
    then obtain m y m' where "path ir bs m e t2 x" "tgt oc' = Some y" "path ir bs m' x t3 y"
      using simulates_forward [OF body] by fastforce
    then show ?case using path_trans path_step [OF x(1), of t1 e ir] loop_more(1) st by blast
  next
    case (loop_break t1 t2)
    then obtain m where "path ir bs m e t2 n" using simulates_forward [OF body] by fastforce
    then show ?case using n path_step [OF x(1), of t1 e ir] loop_break(1) st by blast
  next
    case (loop_return t1 t2)
    then obtain m y where "path ir bs m e t2 y" "tgt Returned = Some y" using simulates_forward [OF body] by fastforce
    then show ?case using path_step [OF x(1), of t1 e ir] loop_return(1) st by blast
  qed
next
  fix m tr z assume "path ir bs m x tr z" and z: "z \<notin> R"
  then show "\<exists>t1 t2 oc y n. tr = t1 @ t2 \<and> loop_trace A B TB t1 oc \<and> tgt oc = Some y \<and> path ir bs n y t2 z \<and> n \<le> m"
  proof (induction m arbitrary: tr rule: less_induct)
    case (less m)
    let ?goal = "\<lambda>t1 t2 oc y k. tr = t1 @ t2 \<and> loop_trace A B TB t1 oc \<and> tgt oc = Some y \<and> path ir bs k y t2 z \<and> k \<le> m"
    from x z path_leaves [OF less.prems(1)] obtain k t y tr' where 1: "m = Suc k" "tr = t @ tr'"
      "(t, y) \<in> set (block_steps ir (bs ! x))" "path ir bs k y tr' z" by auto
    then consider "t \<in> B" "y = n" | "t \<in> A" "y = e" by (auto simp: st)
    then show ?case
    proof cases
      case 1
      with \<open>path ir bs k y tr' z\<close> \<open>tr = t @ tr'\<close> \<open>m = Suc k\<close> n have "?goal t tr' Normal n k" by (auto intro: loop_end)
      then show ?thesis by blast
    next
      case 2
      with 1(4) simulates_backward [OF body _ z, of k tr'] obtain t1 t2 oc y' k' where 3: "tr' = t1 @ t2" "TB t1 oc"
        "(case oc of Returned \<Rightarrow> tgt Returned | Broke \<Rightarrow> Some n | _ \<Rightarrow> Some x) = Some y'"
        "path ir bs k' y' t2 z" "k' \<le> k" by blast
      show ?thesis
      proof (cases "oc = Normal \<or> oc = Continued")
        case True
        with 3 have "path ir bs k' x t2 z" "k' < m" using 1(1) by auto
        from less.IH [OF this(2,1) z] obtain t3 t4 oc' y'' k'' where 4: "t2 = t3 @ t4" "loop_trace A B TB t3 oc'"
          "tgt oc' = Some y''" "path ir bs k'' y'' t4 z" "k'' \<le> k'" by blast
        from loop_more [OF \<open>t \<in> A\<close> 3(2) True 4(2)] 1(1,2) 3(1,5) 4 have "?goal (t @ t1 @ t3) t4 oc' y'' k''" by simp
        then show ?thesis by blast
      next
        case False
        with 2 3 1(1,2) n have "?goal (t @ t1) t2 (if oc = Broke then Normal else Returned) y' k'"
          by (cases oc) (auto intro: loop_break loop_return)
        then show ?thesis by blast
      qed
    qed
  qed
qed

end
