(* ===== verification/CfgBuild.thy ===== *)
theory CfgBuild
  imports CfgTrace
begin

text \<open>
  The builder is correct: \<open>built\<close> is the contract of one call (only new blocks, all of them
  well shaped, with exactly the traces of the statement, failing only for a stray jump). The locale
  \<open>statement_builder\<close> is what \<open>build_sequence\<close> needs of the recursive call.
\<close>

section \<open>The contract\<close>

definition shape_ok :: "'f hir_program \<Rightarrow> nat \<Rightarrow> nat \<Rightarrow> block \<Rightarrow> bool" where
  "shape_ok ir ex n b \<longleftrightarrow> block_nodes_ok ir b \<and>
     (\<forall>s. true_successor b = Some s \<longrightarrow> s < n) \<and> (\<forall>s. false_successor b = Some s \<longrightarrow> s < n) \<and>
     (case terminator b of
        CFG_BRANCH \<Rightarrow> condition b \<noteq> None \<and> true_successor b \<noteq> None \<and> false_successor b \<noteq> None \<and> instruction b = None
      | CFG_EXIT \<Rightarrow> False
      | CFG_RETURN \<Rightarrow> instruction b \<noteq> None \<and> condition b = None \<and> true_successor b = Some ex \<and> false_successor b = None
      | CFG_JUMP \<Rightarrow> condition b = None \<and> true_successor b \<noteq> None \<and> false_successor b = None
      | CFG_FALLTHROUGH \<Rightarrow> instruction b \<noteq> None \<and> condition b = None \<and> true_successor b \<noteq> None \<and> false_successor b = None)"

lemma shape_ok_mono: "shape_ok ir ex n b \<Longrightarrow> n \<le> m \<Longrightarrow> shape_ok ir ex m b"
  unfolding shape_ok_def by fastforce

definition target :: "nat option \<Rightarrow> nat option \<Rightarrow> nat option \<Rightarrow> nat \<Rightarrow> outcome \<Rightarrow> nat option" where
  "target next brk cont ex oc =
     (case oc of Normal \<Rightarrow> next | Broke \<Rightarrow> brk | Continued \<Rightarrow> cont | Returned \<Rightarrow> Some ex)"

lemma target_simps [simp]:
  "target next brk cont ex Normal = next" "target next brk cont ex Broke = brk"
  "target next brk cont ex Continued = cont" "target next brk cont ex Returned = Some ex"
  "(target next brk cont ex)(Normal := n) = target n brk cont ex"
  by (auto simp: target_def fun_eq_iff split: outcome.splits)

definition agree :: "nat \<Rightarrow> block list \<Rightarrow> block list \<Rightarrow> bool" where
  "agree lo bs bs' \<longleftrightarrow> length bs \<le> length bs' \<and> (\<forall>i. lo \<le> i \<longrightarrow> i < length bs \<longrightarrow> bs' ! i = bs ! i)"

abbreviation size_of :: "builder \<Rightarrow> nat" where "size_of b \<equiv> block_count (graph b)"
abbreviation exit_of :: "builder \<Rightarrow> nat" where "exit_of b \<equiv> exit_block (graph b)"

definition targets_ok :: "builder \<Rightarrow> nat option \<Rightarrow> nat option \<Rightarrow> nat option \<Rightarrow> bool" where
  "targets_ok b next brk cont \<longleftrightarrow> next \<noteq> None \<and> (brk = None) = (cont = None) \<and> exit_of b < size_of b
     \<and> (\<forall>x. next = Some x \<or> brk = Some x \<or> cont = Some x \<longrightarrow> x < size_of b)"

text \<open>What every call keeps: the blocks there are, the entries and the exit.\<close>

definition extends :: "builder \<Rightarrow> builder \<Rightarrow> bool" where
  "extends b b' \<longleftrightarrow> agree 0 (blocks (graph b)) (blocks (graph b')) \<and> entries (graph b') = entries (graph b)
     \<and> exit_of b' = exit_of b"

lemma extends_refl [simp]: "extends b b" by (simp add: extends_def agree_def)

lemma extends_trans [trans]: "extends a b \<Longrightarrow> extends b c \<Longrightarrow> extends a c"
  by (auto simp: extends_def agree_def)

lemma extends_size: "extends a b \<Longrightarrow> size_of a \<le> size_of b" by (simp add: extends_def agree_def)

lemma extends_exit: "extends a b \<Longrightarrow> exit_of b = exit_of a" by (simp add: extends_def)

lemma targets_ok_extends: "targets_ok a next brk cont \<Longrightarrow> extends a b \<Longrightarrow> targets_ok b next brk cont"
  using extends_size [of a b] extends_exit [of a b] unfolding targets_ok_def by fastforce

definition succs :: "block \<Rightarrow> nat set" where
  "succs blk = {s. true_successor blk = Some s \<or> false_successor blk = Some s}"

lemma shape_ok_succs: "shape_ok ir ex n blk \<Longrightarrow> succs blk \<subseteq> {..<n}"
  by (auto simp: shape_ok_def succs_def)

text \<open>The new blocks lead to new blocks and to the targets only.\<close>

definition region_ok :: "nat \<Rightarrow> builder \<Rightarrow> nat \<Rightarrow> (outcome \<Rightarrow> nat option) \<Rightarrow> bool" where
  "region_ok lo b e tgt \<longleftrightarrow> (lo \<le> e \<or> tgt Normal = Some e) \<and>
     (\<forall>i. lo \<le> i \<longrightarrow> i < size_of b \<longrightarrow> succs (block_at (graph b) i) \<subseteq> {lo..<size_of b} \<union> {y. Some y \<in> range tgt})"

lemma range_target: "Some y \<in> range (target n brk cont ex) \<longleftrightarrow> n = Some y \<or> brk = Some y \<or> cont = Some y \<or> y = ex"
proof
  assume "Some y \<in> range (target n brk cont ex)"
  then obtain oc where "target n brk cont ex oc = Some y" by (metis imageE)
  then show "n = Some y \<or> brk = Some y \<or> cont = Some y \<or> y = ex" by (cases oc) auto
qed (auto intro: range_eqI [of _ _ Normal] range_eqI [of _ _ Broke] range_eqI [of _ _ Continued] range_eqI [of _ _ Returned])

lemma region_extend:
  assumes "region_ok lo b e tgt" "extends b b'" "lo \<le> i" "i < size_of b"
  shows "succs (block_at (graph b') i) \<subseteq> {lo..<size_of b} \<union> {y. Some y \<in> range tgt}"
proof -
  have "block_at (graph b') i = block_at (graph b) i" using assms(2,4) by (simp add: extends_def agree_def)
  then show ?thesis using assms(1,3,4) by (simp add: region_ok_def)
qed

lemma region_seq:
  assumes r2: "region_ok lo b x2 (target next brk cont ex)" and r1: "region_ok (size_of b) b' x1 (target (Some x2) brk cont ex)"
    and ext: "extends b b'" and lo: "lo \<le> size_of b" and x2: "x2 < size_of b"
  shows "region_ok lo b' x1 (target next brk cont ex)"
proof -
  note le = extends_size [OF ext]
  have x2': "lo \<le> x2 \<or> next = Some x2" using r2 by (simp add: region_ok_def)
  have "succs (block_at (graph b') i) \<subseteq> {lo..<size_of b'} \<union> {y. Some y \<in> range (target next brk cont ex)}"
    if i: "lo \<le> i" "i < size_of b'" for i
  proof (cases "i < size_of b")
    case True
    then show ?thesis using region_extend [OF r2 ext i(1) True] le by auto
  next
    case False
    then have "succs (block_at (graph b') i) \<subseteq> {size_of b..<size_of b'} \<union> {y. Some y \<in> range (target (Some x2) brk cont ex)}"
      using r1 i(2) by (simp add: region_ok_def)
    then show ?thesis using x2' x2 lo le by (auto simp: range_target)
  qed
  moreover have "lo \<le> x1 \<or> next = Some x1" using r1 x2' lo by (auto simp: region_ok_def)
  ultimately show ?thesis by (simp add: region_ok_def)
qed

definition part_ok :: "'f hir_program \<Rightarrow> (event list \<Rightarrow> outcome \<Rightarrow> bool) \<Rightarrow> nat \<Rightarrow> builder \<Rightarrow> nat option
    \<Rightarrow> (outcome \<Rightarrow> nat option) \<Rightarrow> bool" where
  "part_ok ir T lo b r tgt \<longleftrightarrow> (\<exists>e. r = Some e \<and> e < size_of b
     \<and> (\<forall>i. lo \<le> i \<longrightarrow> i < size_of b \<longrightarrow> shape_ok ir (exit_of b) (size_of b) (block_at (graph b) i))
     \<and> (\<forall>bs. agree lo (blocks (graph b)) bs \<longrightarrow> simulates ir T {lo..<size_of b} bs e tgt)
     \<and> region_ok lo b e tgt)"

definition built :: "'f hir_program \<Rightarrow> (event list \<Rightarrow> outcome \<Rightarrow> bool) \<Rightarrow> bool \<Rightarrow> builder \<Rightarrow> nat option \<Rightarrow> nat option \<Rightarrow> nat option
    \<Rightarrow> nat option \<times> builder \<Rightarrow> bool" where
  "built ir T S b next brk cont = (\<lambda>(r, b'). extends b b' \<and> failed b' = (failed b \<or> brk = None \<and> S)
     \<and> (failed b' \<or> part_ok ir T (size_of b) b' r (target next brk cont (exit_of b))))"

lemma builtD:
  assumes "built ir T S b next brk cont (r, b')"
  shows "extends b b'" "failed b' = (failed b \<or> brk = None \<and> S)"
    "\<not> failed b' \<Longrightarrow> part_ok ir T (size_of b) b' r (target next brk cont (exit_of b))"
  using assms by (auto simp: built_def)

lemma built_nothing:
  assumes "targets_ok b next brk cont" "\<And>t oc. T t oc \<longleftrightarrow> t = [] \<and> oc = Normal" "\<not> S"
  shows "built ir T S b next brk cont (next, b)"
proof -
  from assms(1) obtain e where e: "next = Some e" "e < size_of b" by (auto simp: targets_ok_def)
  with assms(2) have "simulates ir T {} bs e (target next brk cont (exit_of b))" for bs by (simp add: simulates_nil)
  with e assms(3) show ?thesis by (simp add: built_def part_ok_def region_ok_def)
qed

text \<open>Adding one block behind a part that is well shaped.\<close>

lemma new_block_eq:
  assumes "new_block b term i c yes no = (r, b')"
  shows "r = Some (size_of b)" "failed b' = failed b" "extends b b'" "size_of b' = Suc (size_of b)"
    "block_at (graph b') (size_of b) =
       \<lparr>instruction = i, condition = c, true_successor = yes, false_successor = no, terminator = term\<rparr>"
  using assms by (auto simp: new_block_def Let_def extends_def agree_def nth_append)

lemma new_block_built:
  assumes n: "new_block b term (Some i) None (Some y) None = (r, b')" and "targets_ok b next brk cont"
    and tm: "term = CFG_FALLTHROUGH \<or> term = CFG_JUMP \<or> term = CFG_RETURN \<and> y = exit_of b"
    and y: "target next brk cont (exit_of b) oc = Some y"
    and i: "i < node_count ir" and T: "\<And>t oc'. T t oc' \<longleftrightarrow> t = [Run i] \<and> oc' = oc" and S: "S \<Longrightarrow> brk \<noteq> None"
  shows "built ir T S b next brk cont (r, b')"
proof -
  note nb = new_block_eq [OF n]
  have "y < size_of b" using y assms(2) by (auto simp: target_def targets_ok_def split: outcome.splits)
  then have sh: "shape_ok ir (exit_of b') (size_of b') (block_at (graph b') (size_of b))"
    using tm i by (auto simp: nb shape_ok_def block_nodes_ok_def extends_exit [OF nb(3)])
  have "simulates ir T {size_of b..<size_of b'} bs (size_of b) (target next brk cont (exit_of b))"
    if "agree (size_of b) (blocks (graph b')) bs" for bs
  proof (rule simulates_block [where oc = oc])
    show "size_of b < length bs" using that nb(4) by (simp add: agree_def)
    show "block_steps ir (bs ! size_of b) = [([Run i], y)]"
      using that nb(4,5) tm by (auto simp: agree_def block_steps_def)
  qed (use nb(4) y T in auto)
  moreover have "region_ok (size_of b) b' (size_of b) (target next brk cont (exit_of b))"
    using y rangeI [of "target next brk cont (exit_of b)" oc] by (auto simp: region_ok_def nb(4) less_Suc_eq nb(5) succs_def)
  ultimately show ?thesis using S sh nb by (auto simp: built_def part_ok_def less_Suc_eq)
qed

lemma built_fail: "brk = None \<Longrightarrow> built ir T True b next brk cont (fail b)"
  by (simp add: built_def fail_def extends_def agree_def)

lemma agree_extends:
  assumes "extends b b'" "agree lo (blocks (graph b')) bs"
  shows "agree lo (blocks (graph b)) bs"
  using assms unfolding extends_def agree_def by (metis le0 order_less_le_trans order_trans)

lemma agree_later: "agree lo bs bs' \<Longrightarrow> lo \<le> hi \<Longrightarrow> agree hi bs bs'" by (simp add: agree_def)

lemma part_ok_shape:
  assumes "extends b b'" "part_ok ir T lo b r tgt" "lo \<le> i" "i < size_of b"
  shows "shape_ok ir (exit_of b') (size_of b') (block_at (graph b') i)"
proof -
  have "shape_ok ir (exit_of b) (size_of b) (block_at (graph b) i)" using assms by (auto simp: part_ok_def)
  moreover have "block_at (graph b') i = block_at (graph b) i" using assms by (simp add: extends_def agree_def)
  ultimately show ?thesis using shape_ok_mono extends_size [OF assms(1)] extends_exit [OF assms(1)] by metis
qed

lemma built_seq:
  assumes t: "targets_ok b0 next brk cont"
    and 2: "built ir T2 S2 b0 next brk cont (e2, b)" and "\<not> failed b" and 1: "built ir T1 S1 b e2 brk cont (e1, b')"
    and T: "\<And>t oc. T t oc \<longleftrightarrow> (\<exists>t1 t2. t = t1 @ t2 \<and> T1 t1 Normal \<and> T2 t2 oc) \<or> T1 t oc \<and> oc \<noteq> Normal"
  shows "built ir T (S2 \<or> S1) b0 next brk cont (e1, b')"
proof -
  have ext: "extends b0 b" "extends b b'" using builtD(1) [OF 2] builtD(1) [OF 1] .
  have f: "failed b' = (failed b0 \<or> brk = None \<and> (S2 \<or> S1))"
    using builtD(2) [OF 2] builtD(2) [OF 1] \<open>\<not> failed b\<close> by auto
  have "part_ok ir T (size_of b0) b' e1 (target next brk cont (exit_of b0))" if nf: "\<not> failed b'"
  proof -
    note p2 = builtD(3) [OF 2 \<open>\<not> failed b\<close>] and p1 = builtD(3) [OF 1 nf]
    from p2 p1 obtain x2 x1 where x: "e2 = Some x2" "e1 = Some x1" "x1 < size_of b'" by (auto simp: part_ok_def)
    have shape: "shape_ok ir (exit_of b') (size_of b') (block_at (graph b') i)" if "size_of b0 \<le> i" "i < size_of b'" for i
      using that p1 part_ok_shape [OF ext(2) p2, of i] by (cases "i < size_of b") (auto simp: part_ok_def)
    have "simulates ir T {size_of b0..<size_of b'} bs x1 (target next brk cont (exit_of b0))"
      if a: "agree (size_of b0) (blocks (graph b')) bs" for bs
    proof (rule simulates_seq [OF _ _ T])
      have "simulates ir T1 {size_of b..<size_of b'} bs x1 (target e2 brk cont (exit_of b))"
        using p1 x agree_later [OF a extends_size [OF ext(1)]] by (auto simp: part_ok_def)
      then show "simulates ir T1 {size_of b0..<size_of b'} bs x1 ((target next brk cont (exit_of b0))(Normal := Some x2))"
        using x(1) extends_exit [OF ext(1)] extends_size [OF ext(1)] by (auto elim: simulates_widen)
      have "simulates ir T2 {size_of b0..<size_of b} bs x2 (target next brk cont (exit_of b0))"
        using p2 x agree_extends [OF ext(2) a] by (auto simp: part_ok_def)
      then show "simulates ir T2 {size_of b0..<size_of b'} bs x2 (target next brk cont (exit_of b0))"
        by (rule simulates_widen) (use extends_size [OF ext(2)] in auto)
    qed
    moreover have "region_ok (size_of b0) b' x1 (target next brk cont (exit_of b0))"
      using p1 p2 x extends_exit [OF ext(1)] by (intro region_seq [OF _ _ ext(2) extends_size [OF ext(1)]]) (auto simp: part_ok_def)
    ultimately show ?thesis using x shape by (simp add: part_ok_def)
  qed
  with f extends_trans [OF ext] show ?thesis by (auto simp: built_def)
qed

section \<open>If and while\<close>

lemma built_if:
  assumes t: "targets_ok b next brk cont" and 1: "built ir T1 S1 b next brk cont (yes, b1)"
    and 2: "built ir T2 S2 b1 next brk cont (no, b2)"
    and n: "new_block b2 CFG_BRANCH None (Some c) yes no = (r, b')" and c: "c < node_count ir"
    and T: "\<And>t oc. T t oc \<longleftrightarrow> (\<exists>t1 t2. t = t1 @ t2 \<and>
      (t1 \<in> set (test_events ir c True) \<and> T1 t2 oc \<or> t1 \<in> set (test_events ir c False) \<and> T2 t2 oc))"
  shows "built ir T (S1 \<or> S2) b next brk cont (r, b')"
proof -
  note nb = new_block_eq [OF n]
  have ext: "extends b b1" "extends b1 b2" "extends b2 b'" using builtD(1) [OF 1] builtD(1) [OF 2] nb(3) .
  have f: "failed b' = (failed b \<or> brk = None \<and> (S1 \<or> S2))" using builtD(2) [OF 2] builtD(2) [OF 1] nb(2) by auto
  have le: "size_of b \<le> size_of b1" "size_of b1 \<le> size_of b2" "size_of b2 < size_of b'"
    using ext extends_size nb(4) by auto
  have ex: "exit_of b1 = exit_of b" "exit_of b' = exit_of b" using ext extends_exit by auto
  have "part_ok ir T (size_of b) b' r (target next brk cont (exit_of b))" if nf: "\<not> failed b'"
  proof -
    have "\<not> failed b2" "\<not> failed b1" using nf nb(2) builtD(2) [OF 2] by auto
    note p1 = builtD(3) [OF 1 this(2)] and p2 = builtD(3) [OF 2 this(1), unfolded ex]
    from p1 p2 obtain y n where x: "yes = Some y" "y < size_of b1" "no = Some n" "n < size_of b2" by (auto simp: part_ok_def)
    have "shape_ok ir (exit_of b') (size_of b') (block_at (graph b') (size_of b2))"
      using x le c by (auto simp: nb(5) shape_ok_def block_nodes_ok_def)
    then have shape: "shape_ok ir (exit_of b') (size_of b') (block_at (graph b') i)" if "size_of b \<le> i" "i < size_of b'" for i
      using that part_ok_shape [OF extends_trans [OF ext(2,3)] p1, of i] part_ok_shape [OF ext(3) p2, of i] nb(4)
      by (cases "i < size_of b1"; cases "i < size_of b2") (auto simp: less_Suc_eq)
    have "simulates ir T {size_of b..<size_of b'} bs (size_of b2) (target next brk cont (exit_of b))"
      if a: "agree (size_of b) (blocks (graph b')) bs" for bs
    proof (rule simulates_branch [OF _ _ _ _ _ T])
      show "size_of b2 < length bs" "size_of b2 \<in> {size_of b..<size_of b'}" using a le by (auto simp: agree_def)
      have "bs ! size_of b2 = block_at (graph b') (size_of b2)" using a le by (simp add: agree_def)
      then show "set (block_steps ir (bs ! size_of b2)) = {(t, y) |t. t \<in> set (test_events ir c True)} \<union>
          {(t, n) |t. t \<in> set (test_events ir c False)}"
        by (auto simp: nb(5) block_steps_def x)
      have "simulates ir T1 {size_of b..<size_of b1} bs y (target next brk cont (exit_of b))"
        using p1 x agree_extends [OF extends_trans [OF ext(2,3)] a] by (auto simp: part_ok_def)
      then show "simulates ir T1 {size_of b..<size_of b'} bs y (target next brk cont (exit_of b))"
        by (rule simulates_widen) (use le in auto)
      have "simulates ir T2 {size_of b1..<size_of b2} bs n (target next brk cont (exit_of b))"
        using p2 x agree_later [OF agree_extends [OF ext(3) a] le(1)] by (auto simp: part_ok_def)
      then show "simulates ir T2 {size_of b..<size_of b'} bs n (target next brk cont (exit_of b))"
        by (rule simulates_widen) (use le in auto)
    qed
    moreover have "succs (block_at (graph b') i) \<subseteq> {size_of b..<size_of b'} \<union> {z. Some z \<in> range (target next brk cont (exit_of b))}"
      if i: "size_of b \<le> i" "i < size_of b'" for i
    proof -
      have r1: "region_ok (size_of b) b1 y (target next brk cont (exit_of b))" and r2: "region_ok (size_of b1) b2 n (target next brk cont (exit_of b))"
        using p1 p2 x by (auto simp: part_ok_def)
      consider "i < size_of b1" | "size_of b1 \<le> i" "i < size_of b2" | "i = size_of b2" using i(2) nb(4) by linarith
      then show ?thesis
      proof cases
        case 1
        then show ?thesis using region_extend [OF r1 extends_trans [OF ext(2,3)] i(1)] le by auto
      next
        case 2
        then show ?thesis using region_extend [OF r2 ext(3)] le by fastforce
      next
        case 3
        have "y < size_of b'" "n < size_of b'" "size_of b \<le> y \<or> next = Some y" "size_of b \<le> n \<or> next = Some n"
          using x le r1 r2 by (auto simp: region_ok_def)
        then show ?thesis using 3 nb(5) x by (auto simp: succs_def range_target)
      qed
    qed
    ultimately show ?thesis using shape le by (simp add: part_ok_def nb(1) region_ok_def)
  qed
  with f extends_trans [OF extends_trans [OF ext(1,2)] ext(3)] show ?thesis by (auto simp: built_def)
qed

lemma set_true_successor_eq:
  assumes "t < size_of b"
  shows "size_of (set_true_successor b t s) = size_of b" "failed (set_true_successor b t s) = failed b"
    "exit_of (set_true_successor b t s) = exit_of b" "entries (graph (set_true_successor b t s)) = entries (graph b)"
    "block_at (graph (set_true_successor b t s)) i =
       (if i = t then (block_at (graph b) t)\<lparr>true_successor := s\<rparr> else block_at (graph b) i)"
  using assms by (auto simp: set_true_successor_def Let_def)

lemma built_while:
  assumes t: "targets_ok b (Some n) brk cont" and nf: "\<not> failed b"
    and nb: "new_block b CFG_BRANCH None (Some c) None (Some n) = (Some x, b1)" and c: "c < node_count ir"
    and body: "built ir TB S b1 (Some x) (Some n) (Some x) (Some e, b2)"
  shows "built ir (loop_trace (set (test_events ir c True)) (set (test_events ir c False)) TB) False b (Some n) brk cont
    (Some x, set_true_successor b2 x (Some e))" (is "built ir ?T _ _ _ _ _ (_, ?b)")
proof -
  note nb = new_block_eq [OF nb]
  have ext: "extends b b1" "extends b1 b2" using nb(3) builtD(1) [OF body] .
  have x: "x = size_of b" "x < size_of b2" using nb(1,4) extends_size [OF ext(2)] by auto
  have nf2: "\<not> failed b2" using builtD(2) [OF body] nb(2) nf by simp
  note st = set_true_successor_eq [OF x(2), of "Some e"]
  note p = builtD(3) [OF body nf2]
  have n: "n < size_of b2" "e < size_of b2"
    using t p extends_size [OF extends_trans [OF ext]] by (auto simp: targets_ok_def part_ok_def)
  have blk: "block_at (graph b2) x = \<lparr>instruction = None, condition = Some c, true_successor = None,
      false_successor = Some n, terminator = CFG_BRANCH\<rparr>"
    using nb(4,5) ext(2) x(1) by (simp add: extends_def agree_def)
  have "extends b ?b" using extends_trans [OF ext] x(1) st by (auto simp: extends_def agree_def)
  moreover have "shape_ok ir (exit_of ?b) (size_of ?b) (block_at (graph ?b) i)" if i: "size_of b \<le> i" "i < size_of b2" for i
  proof (cases "i = x")
    case True
    then show ?thesis using n c by (simp add: st blk shape_ok_def block_nodes_ok_def)
  next
    case False
    with i x(1) nb(4) have "size_of b1 \<le> i" by simp
    with p i(2) False show ?thesis by (simp add: st part_ok_def)
  qed
  moreover have "simulates ir ?T {size_of b..<size_of ?b} bs x (target (Some n) brk cont (exit_of b))"
    if a: "agree (size_of b) (blocks (graph ?b)) bs" for bs
  proof (rule simulates_loop)
    show "x < length bs" "x \<in> {size_of b..<size_of ?b}" using a x st by (auto simp: agree_def)
    have "bs ! x = block_at (graph ?b) x" using a x st by (simp add: agree_def)
    then show "set (block_steps ir (bs ! x)) = {(t, e) |t. t \<in> set (test_events ir c True)} \<union>
        {(t, n) |t. t \<in> set (test_events ir c False)}"
      by (auto simp: st blk block_steps_def)
    have "agree (size_of b1) (blocks (graph b2)) bs" using a x(1) nb(4) st by (auto simp: agree_def)
    with p have "simulates ir TB {size_of b1..<size_of b2} bs e (target (Some x) (Some n) (Some x) (exit_of b1))"
      by (auto simp: part_ok_def)
    then have "simulates ir TB {size_of b..<size_of ?b} bs e (target (Some x) (Some n) (Some x) (exit_of b1))"
      by (rule simulates_widen) (use nb(4) st(1) in auto)
    moreover have "target (Some x) (Some n) (Some x) (exit_of b1) =
        (\<lambda>oc. case oc of Returned \<Rightarrow> target (Some n) brk cont (exit_of b) Returned | Broke \<Rightarrow> Some n | _ \<Rightarrow> Some x)"
      using extends_exit [OF ext(1)] by (auto simp: target_def fun_eq_iff split: outcome.splits)
    ultimately show "simulates ir TB {size_of b..<size_of ?b} bs e
        (\<lambda>oc. case oc of Returned \<Rightarrow> target (Some n) brk cont (exit_of b) Returned | Broke \<Rightarrow> Some n | _ \<Rightarrow> Some x)"
      by simp
  qed simp
  moreover have "region_ok (size_of b) ?b x (target (Some n) brk cont (exit_of b))"
  proof -
    have r: "region_ok (size_of b1) b2 e (target (Some x) (Some n) (Some x) (exit_of b))"
      using p extends_exit [OF ext(1)] by (auto simp: part_ok_def)
    have e: "size_of b \<le> e" using r nb(4) x(1) by (auto simp: region_ok_def)
    have "succs (block_at (graph ?b) i) \<subseteq> {size_of b..<size_of b2} \<union> {y. Some y \<in> range (target (Some n) brk cont (exit_of b))}"
      if i: "size_of b \<le> i" "i < size_of b2" for i
    proof (cases "i = x")
      case True
      then show ?thesis using n e by (auto simp: st(5) blk succs_def range_target)
    next
      case False
      with i nb(4) x(1) have "succs (block_at (graph b2) i) \<subseteq> {size_of b1..<size_of b2} \<union> {y. Some y \<in> range (target (Some x) (Some n) (Some x) (exit_of b))}"
        using r by (simp add: region_ok_def)
      moreover have "block_at (graph ?b) i = block_at (graph b2) i" using False by (simp add: st(5))
      ultimately show ?thesis using nb(4) x by (auto simp: range_target)
    qed
    moreover have "size_of b \<le> x" using x(1) by simp
    ultimately show ?thesis by (simp add: region_ok_def st(1))
  qed
  ultimately show ?thesis using nf nf2 x(2) by (simp add: built_def part_ok_def st(1,2))
qed

section \<open>Sequences and statements\<close>

lemma sequence_items_kids: "hir_tree ir \<Longrightarrow> i < node_count ir \<Longrightarrow> j \<in> set (sequence_items ir (kids ir i) r skip)
    \<Longrightarrow> j < node_count ir \<and> rank ir j < rank ir i"
  using hir_tree_range [of ir j i] rank_child [of ir j i] by (auto simp: sequence_items_def child_rel_def)

locale statement_builder =
  fixes stm :: "'f hir_program \<Rightarrow> statement_builder" and k :: nat
  assumes stm_built: "hir_tree ir \<Longrightarrow> i < node_count ir \<Longrightarrow> rank ir i < k \<Longrightarrow> targets_ok b next brk cont
    \<Longrightarrow> wp (stm ir b i next brk cont) (built ir (stmt_trace ir i) (stray_jump ir i) b next brk cont)"
begin

lemma build_items_built:
  assumes "hir_tree ir" "\<forall>j \<in> set js. j < node_count ir \<and> rank ir j < k" "targets_ok b0 next brk cont"
    and "built ir (seq_trace ir done) (\<exists>j \<in> set done. stray_jump ir j) b0 next brk cont (entry, b)"
  shows "wp (build_items (stm ir) b js entry brk cont)
    (built ir (seq_trace ir (rev js @ done)) (\<exists>j \<in> set js \<union> set done. stray_jump ir j) b0 next brk cont)"
  using assms(2,4)
proof (induction js arbitrary: b entry "done")
  case (Cons i js)
  show ?case
  proof (cases "failed b")
    case True
    with Cons.prems(2) show ?thesis by (auto simp: built_def)
  next
    case False
    note d = builtD [OF Cons.prems(2)]
    from d(3) [OF False] have e: "entry \<noteq> None" "\<forall>x. entry = Some x \<longrightarrow> x < size_of b" by (auto simp: part_ok_def)
    with assms(3) targets_ok_extends [OF assms(3) d(1)] have "targets_ok b entry brk cont" by (auto simp: targets_ok_def)
    with Cons.prems(1) assms(1) have "wp (stm ir b i entry brk cont) (built ir (stmt_trace ir i) (stray_jump ir i) b entry brk cont)"
      by (intro stm_built) auto
    then obtain e' b' where s: "stm ir b i entry brk cont = Some (e', b')"
      and b': "built ir (stmt_trace ir i) (stray_jump ir i) b entry brk cont (e', b')" by (auto simp: wp_iff)
    have "built ir (seq_trace ir (i # done)) ((\<exists>j \<in> set done. stray_jump ir j) \<or> stray_jump ir i) b0 next brk cont (e', b')"
      by (rule built_seq [OF assms(3) Cons.prems(2) False b']) (auto simp: seq_trace_Cons)
    then have "built ir (seq_trace ir (i # done)) (\<exists>j \<in> set (i # done). stray_jump ir j) b0 next brk cont (e', b')"
      by (simp add: disj_commute)
    from Cons.IH [OF _ this] Cons.prems(1) s False show ?thesis by (simp add: insert_commute disj_commute disj_left_commute Un_commute)
  qed
qed simp

lemma build_sequence_built:
  assumes "hir_tree ir" "i < node_count ir" "rank ir i \<le> k" "targets_ok b next brk cont"
  shows "wp (build_sequence (stm ir) ir b i r next brk cont skip)
    (built ir (seq_trace ir (sequence_items ir (kids ir i) r skip))
      (\<exists>j \<in> set (sequence_items ir (kids ir i) r skip). stray_jump ir j) b next brk cont)"
proof -
  let ?is = "sequence_items ir (kids ir i) r skip"
  have kids: "\<forall>j \<in> set (rev ?is). j < node_count ir \<and> rank ir j < k"
    using sequence_items_kids [OF assms(1,2)] assms(3) by fastforce
  have nil: "built ir (seq_trace ir []) (\<exists>j \<in> set []. stray_jump ir j) b next brk cont (next, b)"
    by (rule built_nothing [OF assms(4)]) (auto simp: seq_trace_Nil)
  from build_items_built [OF assms(1) kids assms(4) nil]
  have "wp (build_items (stm ir) b (rev ?is) next brk cont)
      (built ir (seq_trace ir ?is) (\<exists>j \<in> set ?is. stray_jump ir j) b next brk cont)" by simp
  with nil assms(2) hir_tree_children [OF assms(1,2)] show ?thesis
    by (auto simp: build_sequence_def Let_def built_def elim!: wp_mono)
qed

end

text \<open>The condition that \<open>vnt_ir_validate\<close> requires of an if and of a loop.\<close>

lemma condition_child:
  assumes "hir_tree ir" "i < node_count ir" "opcode (hir_node_at ir i) = IR_IF \<or> opcode (hir_node_at ir i) = IR_WHILE"
  obtains c where "child_role ir i EDGE_CONDITION = Some (Some c)" "c \<in> set (kids ir i)"
proof -
  from assms(1,2) have "node_ok ir i" by (simp add: hir_tree_def)
  with assms(3) have "role_count ir (kids ir i) EDGE_CONDITION = 1"
    by (auto simp: node_ok_def kids_def validate_node_shape_def Let_def)
  then have "\<exists>c \<in> set (kids ir i). role (hir_node_at ir c) = EDGE_CONDITION"
    by (auto simp: role_count_def length_Suc_conv filter_eq_Cons_iff)
  then obtain c where c: "find (\<lambda>c. role (hir_node_at ir c) = EDGE_CONDITION) (kids ir i) = Some c"
    by (cases "find (\<lambda>c. role (hir_node_at ir c) = EDGE_CONDITION) (kids ir i)") (auto simp: find_None_iff)
  then have "c \<in> set (kids ir i)" by (auto simp: find_Some_iff)
  with c that show ?thesis using hir_tree_children [OF assms(1,2)] assms(2) by (simp add: child_role_def)
qed

lemma child_role_range:
  assumes "hir_tree ir" "i < node_count ir" "child_role ir i r = Some (Some c)"
  shows "c < node_count ir"
proof -
  have "find (\<lambda>c. role (hir_node_at ir c) = r) (kids ir i) = Some c"
    using assms(2,3) hir_tree_children [OF assms(1,2)] by (simp add: child_role_def)
  then have "c \<in> set (kids ir i)" by (auto simp: find_Some_iff)
  then show ?thesis using hir_tree_range [OF assms(1), of c i] assms(2) by (simp add: child_rel_def)
qed

context statement_builder
begin

lemma build_if_built:
  assumes "hir_tree ir" "i < node_count ir" "rank ir i \<le> k" "targets_ok b next brk cont"
    and op: "opcode (hir_node_at ir i) = IR_IF" and c: "child_role ir i EDGE_CONDITION = Some (Some c)"
  shows "wp (do { (yes, b) \<leftarrow> build_sequence (stm ir) ir b i EDGE_THEN next brk cont False;
      (no, b) \<leftarrow> build_sequence (stm ir) ir b i EDGE_ELSE next brk cont False;
      Some (new_block b CFG_BRANCH None (Some c) yes no) })
    (built ir (stmt_trace ir i) (stray_jump ir i) b next brk cont)"
proof -
  let ?T = "\<lambda>r. seq_trace ir (items_of ir i r)" and ?S = "\<lambda>r. \<exists>j \<in> set (items_of ir i r). stray_jump ir j"
  from build_sequence_built [OF assms(1-4)] obtain yes b1 where
    1: "build_sequence (stm ir) ir b i EDGE_THEN next brk cont False = Some (yes, b1)"
      "built ir (?T EDGE_THEN) (?S EDGE_THEN) b next brk cont (yes, b1)" unfolding wp_iff by fastforce
  have "targets_ok b1 next brk cont" by (rule targets_ok_extends [OF assms(4) builtD(1) [OF 1(2)]])
  from build_sequence_built [OF assms(1-3) this] obtain no b2 where
    2: "build_sequence (stm ir) ir b1 i EDGE_ELSE next brk cont False = Some (no, b2)"
      "built ir (?T EDGE_ELSE) (?S EDGE_ELSE) b1 next brk cont (no, b2)" unfolding wp_iff by fastforce
  obtain r b' where n: "new_block b2 CFG_BRANCH None (Some c) yes no = (r, b')" by fastforce
  have "stray_jump ir i = (?S EDGE_THEN \<or> ?S EDGE_ELSE)" using op by (subst stray_jump_iff) auto
  moreover have "stmt_trace ir i t oc \<longleftrightarrow> (\<exists>t1 t2. t = t1 @ t2 \<and> (t1 \<in> set (test_events ir c True) \<and> ?T EDGE_THEN t2 oc
      \<or> t1 \<in> set (test_events ir c False) \<and> ?T EDGE_ELSE t2 oc))" for t oc
    using op c by (subst stmt_trace_iff) (auto simp: is_definition_def simple_opcode_def)
  ultimately show ?thesis using built_if [OF assms(4) 1(2) 2(2) n child_role_range [OF assms(1,2) c]] 1(1) 2(1) n by simp
qed

lemma build_while_built:
  assumes "hir_tree ir" "i < node_count ir" "rank ir i \<le> k" "targets_ok b (Some n) brk cont" "\<not> failed b"
    and op: "opcode (hir_node_at ir i) = IR_WHILE" and c: "child_role ir i EDGE_CONDITION = Some (Some c)"
    and nb: "new_block b CFG_BRANCH None (Some c) None (Some n) = (Some x, b1)"
  shows "wp (do { (body, b) \<leftarrow> build_sequence (stm ir) ir b1 i EDGE_BODY (Some x) (Some n) (Some x) False;
      if body = None then Some (fail b) else Some (Some x, set_true_successor b x body) })
    (built ir (stmt_trace ir i) (stray_jump ir i) b (Some n) brk cont)"
proof -
  let ?T = "seq_trace ir (items_of ir i EDGE_BODY)" and ?S = "\<exists>j \<in> set (items_of ir i EDGE_BODY). stray_jump ir j"
  note e = new_block_eq [OF nb]
  have "targets_ok b1 (Some x) (Some n) (Some x)"
    using targets_ok_extends [OF assms(4) e(3)] e by (auto simp: targets_ok_def)
  from build_sequence_built [OF assms(1-3) this] obtain body b2 where
    1: "build_sequence (stm ir) ir b1 i EDGE_BODY (Some x) (Some n) (Some x) False = Some (body, b2)"
      "built ir ?T ?S b1 (Some x) (Some n) (Some x) (body, b2)" unfolding wp_iff by fastforce
  have "\<not> failed b2" using builtD(2) [OF 1(2)] e(2) assms(5) by simp
  from builtD(3) [OF 1(2) this] obtain y where y: "body = Some y" by (auto simp: part_ok_def)
  have "stray_jump ir i = False" using op by (subst stray_jump_iff) auto
  moreover have "stmt_trace ir i = loop_trace (set (test_events ir c True)) (set (test_events ir c False)) ?T"
    by (intro ext stmt_trace_while [OF op c])
  ultimately show ?thesis using built_while [OF assms(4,5) nb child_role_range [OF assms(1,2) c] 1(2) [unfolded y]] 1(1) y by simp
qed

end

lemma build_statement_built: "statement_builder (build_statement k) k"
proof (induction k)
  case (Suc k)
  show ?case
  proof
    fix ir :: "'a hir_program" and i b "next" brk cont
    let ?op = "opcode (hir_node_at ir i)"
    assume t: "hir_tree ir" and i: "i < node_count ir" and "rank ir i < Suc k" and ok: "targets_ok b next brk cont"
    then have r: "rank ir i \<le> k" by simp
    obtain n where n: "next = Some n" using ok by (auto simp: targets_ok_def)
    note defs = is_definition_def simple_opcode_def stray_jump_iff [of ir i]
    note seq = statement_builder.build_sequence_built [OF Suc t i r ok]
    note block = new_block_built [OF _ ok]
    show "wp (build_statement (Suc k) ir b i next brk cont) (built ir (stmt_trace ir i) (stray_jump ir i) b next brk cont)"
    proof (cases "failed b")
      case True
      then show ?thesis by (simp add: built_def)
    next
      case False
      consider "?op = IR_PROGRAM" | "?op = IR_IF" | "?op = IR_WHILE" | "?op = IR_RETURN" | "?op = IR_BREAK"
        | "?op = IR_CONTINUE" | "is_definition (hir_node_at ir i)" | "simple_opcode ?op"
        by (auto simp: is_definition_def simple_opcode_def)
      then show ?thesis
      proof cases
        case 1
        then have "stmt_trace ir i = seq_trace ir (items_of ir i EDGE_STATEMENT)"
          "stray_jump ir i = (\<exists>j \<in> set (items_of ir i EDGE_STATEMENT). stray_jump ir j)" by (auto simp: fun_eq_iff stmt_trace_program defs)
        with 1 seq [of EDGE_STATEMENT False] False i show ?thesis by simp
      next
        case 2
        with t i obtain c where "child_role ir i EDGE_CONDITION = Some (Some c)" by (auto elim: condition_child)
        from statement_builder.build_if_built [OF Suc t i r ok 2 this] 2 False i this show ?thesis by simp
      next
        case 3
        with t i obtain c where c: "child_role ir i EDGE_CONDITION = Some (Some c)" by (auto elim: condition_child)
        obtain x b1 where nb: "new_block b CFG_BRANCH None (Some c) None (Some n) = (Some x, b1)"
          by (simp add: new_block_def Let_def)
        from statement_builder.build_while_built [OF Suc t i r ok [unfolded n] False 3 c nb] 3 False i c nb n
        show ?thesis by (simp cong: if_cong prod.case_cong)
      next
        case 4
        obtain r b' where nb: "new_block b CFG_RETURN (Some i) None (Some (exit_of b)) None = (r, b')" by fastforce
        have "built ir (stmt_trace ir i) (stray_jump ir i) b next brk cont (r, b')"
          by (rule block [OF nb]) (use 4 i in \<open>simp_all add: stmt_trace_leaf defs\<close>)
        with 4 False i nb show ?thesis by simp
      next
        case 5
        then have j: "stray_jump ir i = True" by (simp add: defs)
        show ?thesis
        proof (cases brk)
          case None
          with 5 False i show ?thesis by (simp add: j built_fail)
        next
          case (Some y)
          obtain r b' where nb: "new_block b CFG_JUMP (Some i) None (Some y) None = (r, b')" by fastforce
          have "built ir (stmt_trace ir i) (stray_jump ir i) b next brk cont (r, b')"
            by (rule block [OF nb]) (use 5 i Some in \<open>simp_all add: stmt_trace_leaf\<close>)
          with 5 False i nb Some show ?thesis by simp
        qed
      next
        case 6
        then have j: "stray_jump ir i = True" by (simp add: defs)
        show ?thesis
        proof (cases cont)
          case None
          with ok have "brk = None" by (simp add: targets_ok_def)
          with 6 False i None show ?thesis by (simp add: j built_fail)
        next
          case (Some y)
          with ok have brk: "brk \<noteq> None" by (simp add: targets_ok_def)
          obtain r b' where nb: "new_block b CFG_JUMP (Some i) None (Some y) None = (r, b')" by fastforce
          have "built ir (stmt_trace ir i) (stray_jump ir i) b next brk cont (r, b')"
            by (rule block [OF nb]) (use 6 i Some brk in \<open>simp_all add: stmt_trace_leaf\<close>)
          with 6 False i nb Some show ?thesis by simp
        qed
      next
        case 7
        then have "built ir (stmt_trace ir i) (stray_jump ir i) b next brk cont (next, b)"
          by (intro built_nothing [OF ok] stmt_trace_definition) (auto simp: defs)
        with 7 False i show ?thesis by (auto simp: is_definition_def)
      next
        case 8
        obtain r b' where nb: "new_block b CFG_FALLTHROUGH (Some i) None (Some n) None = (r, b')" by fastforce
        have "built ir (stmt_trace ir i) (stray_jump ir i) b next brk cont (r, b')"
          by (rule block [OF nb]) (use 8 i n in \<open>auto simp: stmt_trace_simple defs\<close>)
        with 8 False i nb n show ?thesis by (simp add: simple_opcode_def)
      qed
    qed
  qed
qed (simp add: statement_builder_def)

interpretation cfg_builder: statement_builder "build_statement k" k for k
  by (rule build_statement_built)

end
