(* ===== verification/CfgPrune.thy ===== *)
theory CfgPrune
  imports CfgBuild
begin

text \<open>
  Simplification and pruning preserve the paths of a graph. The marking loop of
  \<open>prune_unreachable_blocks\<close> computes exactly the blocks reachable from the entries, and the
  renumbering is an isomorphism of the kept part.
\<close>

section \<open>Simplification\<close>

lemma block_steps_simplify: "block_steps ir (simplify_block ir blk) = block_steps ir blk"
  by (auto simp: simplify_block_def block_steps_def test_events_def split: option.splits)

lemma path_cong:
  assumes "path ir bs m x tr y" "length bs' = length bs"
    and "\<And>i. i < length bs \<Longrightarrow> block_steps ir (bs' ! i) = block_steps ir (bs ! i)"
  shows "path ir bs' m x tr y"
  using assms by induction (auto intro: path.intros)

lemma path_simplify: "path ir (map (simplify_block ir) bs) m x tr y \<longleftrightarrow> path ir bs m x tr y"
  by (auto elim!: path_cong simp: block_steps_simplify)

lemma shape_ok_simplify: "shape_ok ir ex n blk \<Longrightarrow> shape_ok ir ex n (simplify_block ir blk)"
  by (auto simp: simplify_block_def shape_ok_def block_nodes_ok_def split: option.splits terminator.splits)

section \<open>Reachability\<close>

definition edge :: "block list \<Rightarrow> (nat \<times> nat) set" where
  "edge bs = {(x, y). x < length bs \<and> y \<in> succs (bs ! x)}"

definition reachable_from :: "block list \<Rightarrow> nat list \<Rightarrow> nat set" where
  "reachable_from bs es = {y. \<exists>e \<in> set es. (e, y) \<in> (edge bs)\<^sup>*}"

definition graph_closed :: "block list \<Rightarrow> nat list \<Rightarrow> bool" where
  "graph_closed bs es \<longleftrightarrow> (\<forall>x < length bs. succs (bs ! x) \<subseteq> {..<length bs}) \<and> set es \<subseteq> {..<length bs}"

lemma reachable_from_entry: "e \<in> set es \<Longrightarrow> e \<in> reachable_from bs es"
  by (auto simp: reachable_from_def)

lemma reachable_from_succ: "x \<in> reachable_from bs es \<Longrightarrow> x < length bs \<Longrightarrow> y \<in> succs (bs ! x) \<Longrightarrow> y \<in> reachable_from bs es"
  by (auto simp: reachable_from_def edge_def intro: rtrancl_into_rtrancl)

lemma reachable_from_least:
  assumes "set es \<subseteq> M" "\<And>x y. x \<in> M \<Longrightarrow> x < length bs \<Longrightarrow> y \<in> succs (bs ! x) \<Longrightarrow> y \<in> M"
  shows "reachable_from bs es \<subseteq> M"
proof
  fix y assume "y \<in> reachable_from bs es"
  then obtain e where "e \<in> M" "(e, y) \<in> (edge bs)\<^sup>*" using assms(1) by (auto simp: reachable_from_def)
  from this(2,1) show "y \<in> M" by (induction rule: rtrancl_induct) (auto simp: edge_def intro: assms(2))
qed

lemma reachable_from_range: "graph_closed bs es \<Longrightarrow> reachable_from bs es \<subseteq> {..<length bs}"
  by (rule reachable_from_least) (auto simp: graph_closed_def)

section \<open>Marking\<close>

definition marked :: "bool list \<Rightarrow> nat set" where
  "marked r = {i. i < length r \<and> r ! i}"

lemma mark_block_ok:
  assumes "set_option next \<subseteq> {..<length r}"
  obtains r' st' where "mark_block next (r, st) = Some (r', st')" "length r' = length r"
    "marked r' = marked r \<union> set_option next" "set st' = set st \<union> (set_option next - marked r)"
proof (cases "next")
  case None
  then show thesis by (intro that [of r st]) (simp_all add: mark_block_def)
next
  case (Some n)
  with assms have n: "n < length r" by simp
  show thesis
  proof (cases "r ! n")
    case True
    with Some n show thesis by (intro that [of r st]) (auto simp: mark_block_def marked_def)
  next
    case False
    with Some n show thesis
      by (intro that [of "r[n := True]" "n # st"]) (auto simp: mark_block_def marked_def nth_list_update)
  qed
qed

lemma set_option_succs: "set_option (true_successor blk) \<union> set_option (false_successor blk) = succs blk"
  by (auto simp: succs_def elem_set)

lemma mark_successors_ok:
  assumes "succs blk \<subseteq> {..<length r}"
  obtains r' st' where "mark_successors blk (r, st) = Some (r', st')" "length r' = length r"
    "marked r' = marked r \<union> succs blk" "set st' = set st \<union> (succs blk - marked r)"
proof -
  have s: "set_option (true_successor blk) \<subseteq> {..<length r}" "set_option (false_successor blk) \<subseteq> {..<length r}"
    using assms set_option_succs [of blk] by auto
  obtain r1 st1 where 1: "mark_block (true_successor blk) (r, st) = Some (r1, st1)" "length r1 = length r"
    "marked r1 = marked r \<union> set_option (true_successor blk)"
    "set st1 = set st \<union> (set_option (true_successor blk) - marked r)"
    using mark_block_ok [OF s(1), of st] by blast
  obtain r2 st2 where 2: "mark_block (false_successor blk) (r1, st1) = Some (r2, st2)" "length r2 = length r1"
    "marked r2 = marked r1 \<union> set_option (false_successor blk)"
    "set st2 = set st1 \<union> (set_option (false_successor blk) - marked r1)"
    using mark_block_ok [of "false_successor blk" r1 st1] s(2) 1(2) by auto
  show thesis
  proof (rule that [of r2 st2])
    show "mark_successors blk (r, st) = Some (r2, st2)" using 1(1) 2(1) by (simp add: mark_successors_def)
    show "length r2 = length r" using 1(2) 2(2) by simp
    show "marked r2 = marked r \<union> succs blk" "set st2 = set st \<union> (succs blk - marked r)"
      using 1(3,4) 2(3,4) set_option_succs [of blk] by auto
  qed
qed

lemma mark_entries_ok:
  assumes "set es \<subseteq> {..<length r}"
  obtains r' st' where "mark_entries es (r, st) = Some (r', st')" "length r' = length r"
    "marked r' = marked r \<union> set es" "set st' = set st \<union> (set es - marked r)"
  using assms
proof (induction es arbitrary: r st thesis)
  case (Cons e es)
  obtain r1 st1 where 1: "mark_block (Some e) (r, st) = Some (r1, st1)" "length r1 = length r"
    "marked r1 = marked r \<union> {e}" "set st1 = set st \<union> ({e} - marked r)"
    using mark_block_ok [of "Some e" r st] Cons.prems(2) by auto
  show ?case
  proof (rule Cons.IH [of r1 st1])
    fix r2 st2 assume "mark_entries es (r1, st1) = Some (r2, st2)" "length r2 = length r1"
      "marked r2 = marked r1 \<union> set es" "set st2 = set st1 \<union> (set es - marked r1)"
    with 1 show thesis by (intro Cons.prems(1) [of r2 st2]) auto
  qed (use 1(2) Cons.prems(2) in simp)
qed simp

lemma mark_reachable_ok:
  assumes "graph_closed bs es" "length r = length bs" "set st \<subseteq> marked r" "marked r \<subseteq> reachable_from bs es"
    "set es \<subseteq> marked r" "\<forall>x \<in> marked r - set st. succs (bs ! x) \<subseteq> marked r"
  shows "\<exists>r'. mark_reachable bs (r, st) = Some r' \<and> length r' = length bs \<and> marked r' = reachable_from bs es"
  using assms
proof (induction bs "(r, st)" arbitrary: r st rule: mark_reachable.induct)
  case (1 bs r)
  then have "reachable_from bs es \<subseteq> marked r" by (intro reachable_from_least) auto
  with 1 show ?case by auto
next
  case (2 bs r at st)
  have at: "at < length bs" "at \<in> reachable_from bs es" using 2(4,5) 2(3) by (auto simp: marked_def)
  then have "succs (bs ! at) \<subseteq> {..<length r}" using 2(2,3) by (auto simp: graph_closed_def)
  then obtain r' st' where m: "mark_successors (bs ! at) (r, st) = Some (r', st')" "length r' = length r"
    "marked r' = marked r \<union> succs (bs ! at)" "set st' = set st \<union> (succs (bs ! at) - marked r)"
    by (rule mark_successors_ok)
  have "\<exists>r''. mark_reachable bs (r', st') = Some r'' \<and> length r'' = length bs \<and> marked r'' = reachable_from bs es"
  proof (rule 2(1) [OF m(1) 2(2)])
    show "length r' = length bs" using m(2) 2(3) by simp
    show "set st' \<subseteq> marked r'" "set es \<subseteq> marked r'" using m(3,4) 2(4,6) by auto
    show "marked r' \<subseteq> reachable_from bs es" using m(3) 2(5) reachable_from_succ [OF at(2,1)] by auto
    show "\<forall>x \<in> marked r' - set st'. succs (bs ! x) \<subseteq> marked r'" using m(3,4) 2(7) by auto
  qed
  with m(1) show ?case by simp
qed

section \<open>Renumbering\<close>

definition position :: "bool list \<Rightarrow> nat \<Rightarrow> nat" where
  "position r i = length (filter (\<lambda>j. r ! j) [0..<i])"

lemma filter_upt_Suc: "filter (\<lambda>j. (x # r) ! j) [0..<Suc i] = (if x then [0] else []) @ map Suc (filter (\<lambda>j. r ! j) [0..<i])"
proof -
  have "[0..<Suc i] = 0 # map Suc [0..<i]" by (simp add: map_Suc_upt upt_conv_Cons del: upt_Suc)
  then show ?thesis by (simp add: filter_map o_def del: upt_Suc)
qed

lemma number_blocks_nth:
  "i < length r \<Longrightarrow> number_blocks k r ! i = (if r ! i then Some (k + position r i) else None)"
proof (induction r arbitrary: k i)
  case (Cons x r)
  show ?case
  proof (cases i)
    case 0
    then show ?thesis by (simp add: position_def)
  next
    case (Suc j)
    have "position (x # r) (Suc j) = (if x then 1 else 0) + position r j"
      by (simp add: position_def filter_upt_Suc del: upt_Suc)
    with Cons Suc show ?thesis by simp
  qed
qed simp

definition kept :: "bool list \<Rightarrow> nat list" where
  "kept r = filter (\<lambda>i. r ! i) [0..<length r]"

lemma position_kept: "i \<in> marked r \<Longrightarrow> position r i < length (kept r) \<and> kept r ! position r i = i"
proof -
  assume i: "i \<in> marked r"
  then have "[0..<length r] = [0..<i] @ i # [Suc i..<length r]"
    using upt_add_eq_append [of 0 i "length r - i"] by (simp add: marked_def upt_conv_Cons)
  then have "kept r = filter (\<lambda>i. r ! i) [0..<i] @ i # filter (\<lambda>i. r ! i) [Suc i..<length r]"
    using i by (simp add: kept_def marked_def)
  then show ?thesis by (simp add: position_def)
qed

lemma kept_marked: "j < length (kept r) \<Longrightarrow> kept r ! j \<in> marked r \<and> position r (kept r ! j) = j"
proof -
  assume j: "j < length (kept r)"
  then have "kept r ! j \<in> set (kept r)" by (rule nth_mem)
  then have m: "kept r ! j \<in> marked r" by (auto simp: kept_def marked_def)
  have "distinct (kept r)" by (simp add: kept_def)
  with j m position_kept [OF m] show ?thesis by (metis nth_eq_iff_index_eq)
qed

lemma position_inj: "i \<in> marked r \<Longrightarrow> j \<in> marked r \<Longrightarrow> position r i = position r j \<Longrightarrow> i = j"
  by (metis position_kept)

text \<open>The blocks that pruning keeps, with the marks \<open>r\<close>.\<close>

definition kept_blocks :: "bool list \<Rightarrow> block list \<Rightarrow> block list" where
  "kept_blocks r bs = map (\<lambda>i. renumber_block (number_blocks 0 r) (bs ! i)) (kept r)"

definition closed_marks :: "bool list \<Rightarrow> block list \<Rightarrow> bool" where
  "closed_marks r bs \<longleftrightarrow> length r = length bs \<and> (\<forall>x \<in> marked r. succs (bs ! x) \<subseteq> marked r)"

lemma renumber_successors:
  assumes "succs blk \<subseteq> marked r"
  shows "true_successor (renumber_block (number_blocks 0 r) blk) = map_option (position r) (true_successor blk)"
    "false_successor (renumber_block (number_blocks 0 r) blk) = map_option (position r) (false_successor blk)"
proof -
  have "number_blocks 0 r ! s = Some (position r s)" if "s \<in> succs blk" for s
    using that assms number_blocks_nth [of s r 0] by (auto simp: marked_def)
  then show "true_successor (renumber_block (number_blocks 0 r) blk) = map_option (position r) (true_successor blk)"
    "false_successor (renumber_block (number_blocks 0 r) blk) = map_option (position r) (false_successor blk)"
    by (auto simp: renumber_block_def succs_def split: option.splits)
qed

lemma renumber_same [simp]:
  "terminator (renumber_block m blk) = terminator blk" "condition (renumber_block m blk) = condition blk"
  "instruction (renumber_block m blk) = instruction blk"
  by (simp_all add: renumber_block_def)

lemma simplify_simplify: "simplify_block ir (simplify_block ir blk) = simplify_block ir blk"
  by (auto simp: simplify_block_def split: option.splits)

lemma simplify_renumber:
  "simplify_block ir blk = blk \<Longrightarrow> simplify_block ir (renumber_block m blk) = renumber_block m blk"
  by (cases blk) (auto simp: simplify_block_def renumber_block_def split: option.splits if_splits)

lemma kept_blocks_nth:
  "x \<in> marked r \<Longrightarrow> kept_blocks r bs ! position r x = renumber_block (number_blocks 0 r) (bs ! x)"
  "x \<in> marked r \<Longrightarrow> position r x < length (kept_blocks r bs)"
  using position_kept [of x r] by (simp_all add: kept_blocks_def)

lemma block_steps_kept:
  assumes "closed_marks r bs" "x \<in> marked r"
  shows "block_steps ir (kept_blocks r bs ! position r x) = map (\<lambda>(t, s). (t, position r s)) (block_steps ir (bs ! x))"
proof -
  from assms have "succs (bs ! x) \<subseteq> marked r" by (simp add: closed_marks_def)
  then show ?thesis using assms(2)
    by (simp add: kept_blocks_nth block_steps_def renumber_successors split: option.splits)
qed

lemma block_steps_succs: "(t, y) \<in> set (block_steps ir blk) \<Longrightarrow> y \<in> succs blk"
  by (auto simp: block_steps_def succs_def split: if_splits option.splits)

lemma path_kept: "path ir bs m x tr y \<Longrightarrow> closed_marks r bs \<Longrightarrow> x \<in> marked r
    \<Longrightarrow> y \<in> marked r \<and> path ir (kept_blocks r bs) m (position r x) tr (position r y)"
proof (induction rule: path.induct)
  case (path_step x t y n tr z)
  then have "y \<in> marked r" using block_steps_succs by (fastforce simp: closed_marks_def)
  moreover have "(t, position r y) \<in> set (block_steps ir (kept_blocks r bs ! position r x))"
    using path_step(2) imageI [of "(t, y)" _ "\<lambda>(t, s). (t, position r s)"]
    by (simp add: block_steps_kept [OF path_step.prems])
  ultimately show ?case using path_step by (auto intro: path.path_step kept_blocks_nth(2))
qed (auto intro: path_here)

lemma path_kept_rev: "path ir (kept_blocks r bs) m x' tr y' \<Longrightarrow> closed_marks r bs \<Longrightarrow> x \<in> marked r \<Longrightarrow> x' = position r x
    \<Longrightarrow> \<exists>y. y' = position r y \<and> y \<in> marked r \<and> path ir bs m x tr y"
proof (induction arbitrary: x rule: path.induct)
  case (path_step x' t y' n tr z')
  then obtain y where y: "y' = position r y" "(t, y) \<in> set (block_steps ir (bs ! x))"
    by (auto simp: block_steps_kept)
  have "x < length bs" using path_step.prems by (auto simp: closed_marks_def marked_def)
  moreover have "y \<in> marked r" using y(2) path_step.prems block_steps_succs by (fastforce simp: closed_marks_def)
  ultimately show ?case using path_step.IH [of y] path_step.prems(1) y path.path_step [of x bs t y ir] by blast
qed (auto intro: path_here)

end
