(* ===== verification/CfgSpec.thy ===== *)
theory CfgSpec
  imports CfgPrune
begin

text \<open>
  The correctness of \<open>vnt_cfg_build\<close>: the graph it returns has, from each entry, exactly the
  terminating traces of the corresponding body, all its blocks are reachable, and it fails for
  exactly two reasons.
\<close>

section \<open>The bodies of a program\<close>

definition is_function :: "'f hir_program \<Rightarrow> nat \<Rightarrow> bool" where
  "is_function ir i \<longleftrightarrow> opcode (hir_node_at ir i) = IR_FUNCTION"

text \<open>The statements of the main program, then of each function.\<close>

definition bodies :: "'f hir_program \<Rightarrow> nat list list" where
  "bodies ir = sequence_items ir (kids ir (root ir)) EDGE_STATEMENT True
     # map (\<lambda>i. items_of ir i EDGE_BODY) (filter (is_function ir) [0..<node_count ir])"

definition body_trace :: "'f hir_program \<Rightarrow> nat list \<Rightarrow> event list \<Rightarrow> bool" where
  "body_trace ir is tr \<longleftrightarrow> seq_trace ir is tr Normal \<or> seq_trace ir is tr Returned"

definition stray_body :: "'f hir_program \<Rightarrow> nat list \<Rightarrow> bool" where
  "stray_body ir is \<longleftrightarrow> (\<exists>j \<in> set is. stray_jump ir j)"

section \<open>The graph before pruning\<close>

definition exit_shape :: block where
  "exit_shape = \<lparr>instruction = None, condition = None, true_successor = None, false_successor = None, terminator = CFG_EXIT\<rparr>"

definition body_built :: "'f hir_program \<Rightarrow> block list \<Rightarrow> nat list \<Rightarrow> nat \<Rightarrow> bool" where
  "body_built ir bs is e \<longleftrightarrow> (\<forall>bs'. agree 1 bs bs' \<longrightarrow> simulates ir (seq_trace ir is) {1..} bs' e (target (Some 0) None None 0))"

text \<open>No body leads into another, except to the exit.\<close>

definition separate :: "block list \<Rightarrow> nat list \<Rightarrow> nat \<Rightarrow> bool" where
  "separate bs es ex \<longleftrightarrow> (\<forall>j < length es. \<forall>k < length es. j \<noteq> k \<longrightarrow> es ! k \<noteq> ex \<longrightarrow> es ! k \<notin> reachable_from bs [es ! j])"

lemma reachable_from_closed:
  assumes "e \<in> M" "\<And>x. x \<in> M \<Longrightarrow> x < length bs \<Longrightarrow> succs (bs ! x) \<subseteq> M"
  shows "reachable_from bs [e] \<subseteq> M"
  using assms by (intro reachable_from_least) auto

lemma separate_snoc:
  assumes "separate bs es 0" "agree 0 bs bs'" and closed: "\<And>x. x < length bs \<Longrightarrow> succs (bs ! x) \<subseteq> {..<length bs}"
    and es: "set es \<subseteq> {..<length bs}" and e: "length bs \<le> e \<or> e = 0" and z: "succs (bs' ! 0) = {}"
    and new: "\<And>x. length bs \<le> x \<Longrightarrow> x < length bs' \<Longrightarrow> succs (bs' ! x) \<subseteq> {length bs..<length bs'} \<union> {0}"
  shows "separate bs' (es @ [e]) 0"
proof -
  have keep: "bs' ! x = bs ! x" if "x < length bs" for x using assms(2) that by (simp add: agree_def)
  have old: "reachable_from bs' [x] \<subseteq> reachable_from bs [x] \<inter> {..<length bs}" if "x \<in> set es" for x
  proof (rule reachable_from_closed)
    show "x \<in> reachable_from bs [x] \<inter> {..<length bs}" using that es by (auto intro: reachable_from_entry)
    show "succs (bs' ! y) \<subseteq> reachable_from bs [x] \<inter> {..<length bs}" if "y \<in> reachable_from bs [x] \<inter> {..<length bs}" for y
      using that closed [of y] keep [of y] by (auto intro: reachable_from_succ)
  qed
  have fresh: "reachable_from bs' [e] \<subseteq> {length bs..} \<union> {0}"
  proof (rule reachable_from_closed)
    show "succs (bs' ! x) \<subseteq> {length bs..} \<union> {0}" if "x \<in> {length bs..} \<union> {0}" "x < length bs'" for x
      using that z new [of x] by (cases "length bs \<le> x") auto
  qed (use e in auto)
  have "(es @ [e]) ! k \<notin> reachable_from bs' [(es @ [e]) ! j]"
    if jk: "j < Suc (length es)" "k < Suc (length es)" "j \<noteq> k" "(es @ [e]) ! k \<noteq> 0" for j k
  proof (cases "j < length es")
    case True
    then have "es ! j \<in> set es" by simp
    from old [OF this] jk True e assms(1) show ?thesis
      by (cases "k < length es") (auto simp: nth_append separate_def)
  next
    case False
    then have "j = length es" "k < length es" using jk by auto
    moreover from this(2) es have "es ! k < length bs" using nth_mem by blast
    ultimately show ?thesis using fresh jk(4) by (auto simp: nth_append)
  qed
  then show ?thesis by (simp add: separate_def)
qed

definition graph_inv :: "'f hir_program \<Rightarrow> cfg \<Rightarrow> nat list list \<Rightarrow> bool" where
  "graph_inv ir g done \<longleftrightarrow> exit_block g = 0 \<and> 0 < block_count g \<and> block_at g 0 = exit_shape
     \<and> (\<forall>i. 1 \<le> i \<longrightarrow> i < block_count g \<longrightarrow> shape_ok ir 0 (block_count g) (block_at g i))
     \<and> set (entries g) \<subseteq> {..<block_count g} \<and> list_all2 (body_built ir (blocks g)) done (entries g)
     \<and> separate (blocks g) (entries g) 0"

lemma graph_inv_targets: "graph_inv ir (graph b) done \<Longrightarrow> targets_ok b (Some (exit_of b)) None None"
  by (simp add: graph_inv_def targets_ok_def)

lemma graph_inv_step:
  assumes inv: "graph_inv ir (graph b) done" and "built ir (seq_trace ir is) S b (Some (exit_of b)) None None (r, b')" "\<not> failed b'"
  shows "\<exists>e. add_entry (graph b') r = Some ((graph b')\<lparr>entries := entries (graph b') @ [e]\<rparr>)
    \<and> graph_inv ir ((graph b')\<lparr>entries := entries (graph b') @ [e]\<rparr>) (done @ [is])"
proof -
  note b = builtD [OF assms(2)]
  have ex: "exit_of b = 0" and pos: "1 \<le> size_of b" using inv by (auto simp: graph_inv_def Suc_le_eq)
  note p = b(3) [OF assms(3), unfolded ex]
  have keep: "block_at (graph b') i = block_at (graph b) i" if "i < size_of b" for i
    using b(1) that by (simp add: extends_def agree_def)
  have le: "size_of b \<le> size_of b'" by (rule extends_size [OF b(1)])
  from p obtain e where e: "r = Some e" "e < size_of b'" by (auto simp: part_ok_def)
  have new: "body_built ir (blocks (graph b')) is e" unfolding body_built_def
  proof (intro allI impI)
    fix bs assume "agree 1 (blocks (graph b')) bs"
    then have "agree (size_of b) (blocks (graph b')) bs" using pos by (rule agree_later)
    with p e have "simulates ir (seq_trace ir is) {size_of b..<size_of b'} bs e (target (Some 0) None None 0)"
      by (auto simp: part_ok_def)
    then show "simulates ir (seq_trace ir is) {1..} bs e (target (Some 0) None None 0)"
      by (rule simulates_widen) (use pos in auto)
  qed
  have old: "body_built ir (blocks (graph b')) js x" if "body_built ir (blocks (graph b)) js x" for js x
    using that agree_extends [OF b(1)] unfolding body_built_def by blast
  have shape: "shape_ok ir 0 (size_of b') (block_at (graph b') i)" if "1 \<le> i" "i < size_of b'" for i
  proof (cases "i < size_of b")
    case True
    then have "shape_ok ir 0 (size_of b) (block_at (graph b) i)" using inv that(1) by (auto simp: graph_inv_def)
    then show ?thesis using keep [OF True] shape_ok_mono le by metis
  next
    case False
    with p that show ?thesis using extends_exit [OF b(1)] ex by (auto simp: part_ok_def)
  qed
  have sep: "separate (blocks (graph b')) (entries (graph b) @ [e]) 0"
  proof (rule separate_snoc)
    show "succs (block_at (graph b) x) \<subseteq> {..<size_of b}" if "x < size_of b" for x
    proof (cases "x = 0")
      case True
      then show ?thesis using inv by (simp add: graph_inv_def succs_def exit_shape_def)
    next
      case False
      then show ?thesis using that inv by (intro shape_ok_succs [where ex = 0 and ir = ir]) (simp add: graph_inv_def)
    qed
    have "region_ok (size_of b) b' e (target (Some 0) None None 0)" using p e(1) by (auto simp: part_ok_def)
    then show "size_of b \<le> e \<or> e = 0" "\<And>x. size_of b \<le> x \<Longrightarrow> x < size_of b' \<Longrightarrow> succs (block_at (graph b') x) \<subseteq> {size_of b..<size_of b'} \<union> {0}"
      by (auto simp: region_ok_def range_target)
    show "succs (block_at (graph b') 0) = {}" using keep [of 0] pos inv by (auto simp: graph_inv_def succs_def exit_shape_def)
  qed (use inv b(1) in \<open>auto simp: graph_inv_def extends_def\<close>)
  have "graph_inv ir ((graph b')\<lparr>entries := entries (graph b') @ [e]\<rparr>) (done @ [is])"
    using sep inv new old shape e(2) keep [of 0] le pos b(1) unfolding graph_inv_def
    by (auto simp: extends_def intro!: list_all2_appendI elim: list_all2_mono)
  then show ?thesis by (auto simp: add_entry_def e(1))
qed

lemma build_functions_ok:
  assumes "hir_tree ir" "set js \<subseteq> {..<node_count ir}" "\<not> failed b" "graph_inv ir (graph b) done"
  shows "wp (build_functions ir js b) (\<lambda>r.
    (r = None \<longleftrightarrow> (\<exists>i \<in> set (filter (is_function ir) js). stray_body ir (items_of ir i EDGE_BODY)))
    \<and> pred_option (\<lambda>b'. graph_inv ir (graph b') (done @ map (\<lambda>i. items_of ir i EDGE_BODY) (filter (is_function ir) js))) r)"
  using assms(2-4)
proof (induction js arbitrary: b "done")
  case (Cons i js)
  let ?is = "items_of ir i EDGE_BODY"
  show ?case
  proof (cases "is_function ir i")
    case False
    with Cons show ?thesis by (simp add: is_function_def)
  next
    case True
    have i: "i < node_count ir" using Cons.prems(1) by simp
    from cfg_builder.build_sequence_built [OF assms(1) i less_imp_le [OF rank_bound [OF assms(1) i]]
        graph_inv_targets [OF Cons.prems(3)]] obtain r b' where
      1: "build_sequence (build_statement (node_count ir) ir) ir b i EDGE_BODY (Some (exit_of b)) None None False = Some (r, b')"
        "built ir (seq_trace ir ?is) (stray_body ir ?is) b (Some (exit_of b)) None None (r, b')"
      unfolding wp_iff stray_body_def by fastforce
    show ?thesis
    proof (cases "failed b'")
      case f: True
      with builtD(2) [OF 1(2)] Cons.prems(2) have "stray_body ir ?is" by simp
      with 1(1) f True show ?thesis by (simp add: is_function_def)
    next
      case f: False
      with builtD(2) [OF 1(2)] have ns: "\<not> stray_body ir ?is" by simp
      from graph_inv_step [OF Cons.prems(3) 1(2) f] obtain e where
        e: "add_entry (graph b') r = Some ((graph b')\<lparr>entries := entries (graph b') @ [e]\<rparr>)"
          "graph_inv ir ((graph b')\<lparr>entries := entries (graph b') @ [e]\<rparr>) (done @ [?is])" by blast
      from Cons.IH [of "b'\<lparr>graph := (graph b')\<lparr>entries := entries (graph b') @ [e]\<rparr>\<rparr>" "done @ [?is]"]
      show ?thesis using Cons.prems(1) 1(1) e f ns True by (simp add: is_function_def)
    qed
  qed
qed simp

lemma build_graph_ok:
  assumes "hir_tree ir"
  shows "wp (build_graph ir) (\<lambda>r. (r = None \<longleftrightarrow> (\<exists>is \<in> set (bodies ir). stray_body ir is))
    \<and> pred_option (\<lambda>g. graph_inv ir g (bodies ir)) r)"
proof -
  let ?g = "\<lparr>blocks = [exit_shape], entries = [], exit_block = 0\<rparr>" and ?n = "node_count ir"
  let ?b = "\<lparr>graph = ?g, failed = False\<rparr>" and ?main = "sequence_items ir (kids ir (root ir)) EDGE_STATEMENT True"
  have root: "root ir < ?n" using assms by (simp add: hir_tree_def)
  have inv: "graph_inv ir (graph ?b) []" by (simp add: graph_inv_def separate_def)
  from cfg_builder.build_sequence_built [OF assms root less_imp_le [OF rank_bound [OF assms root]] graph_inv_targets [OF inv]]
  obtain r b' where
    1: "build_sequence (build_statement ?n ir) ir ?b (root ir) EDGE_STATEMENT (Some 0) None None True = Some (r, b')"
      "built ir (seq_trace ir ?main) (stray_body ir ?main) ?b (Some (exit_of ?b)) None None (r, b')"
    unfolding wp_iff stray_body_def by fastforce
  have start: "new_block \<lparr>graph = empty_cfg, failed = False\<rparr> CFG_EXIT None None None None = (Some 0, ?b)"
    by (simp add: new_block_def empty_cfg_def exit_shape_def)
  show ?thesis
  proof (cases "failed b'")
    case True
    with builtD(2) [OF 1(2)] have "stray_body ir ?main" by simp
    with 1(1) start True show ?thesis by (simp add: build_graph_def bodies_def)
  next
    case f: False
    with builtD(2) [OF 1(2)] have ns: "\<not> stray_body ir ?main" by simp
    from graph_inv_step [OF inv 1(2) f] obtain e where
      e: "add_entry (graph b') r = Some ((graph b')\<lparr>entries := entries (graph b') @ [e]\<rparr>)"
        "graph_inv ir ((graph b')\<lparr>entries := entries (graph b') @ [e]\<rparr>) [?main]" by auto
    let ?b' = "b'\<lparr>graph := (graph b')\<lparr>entries := entries (graph b') @ [e]\<rparr>\<rparr>"
    have "wp (build_functions ir [0..<?n] ?b') (\<lambda>r. (r = None \<longleftrightarrow> (\<exists>is \<in> set (bodies ir). stray_body ir is))
        \<and> pred_option (\<lambda>b. graph_inv ir (graph b) (bodies ir)) r)"
      using build_functions_ok [OF assms, of "[0..<?n]" ?b' "[?main]"] f e(2) ns by (simp add: bodies_def atLeast0LessThan)
    with 1(1) start e(1) f show ?thesis
      by (auto simp: build_graph_def elim!: wp_mono split: option.splits)
  qed
qed

section \<open>Pruning\<close>

lemma prune_ok:
  assumes "graph_closed (blocks g) (entries g)" "entries g \<noteq> []" "exit_block g < block_count g"
  obtains r where "closed_marks r (blocks g)" "marked r = reachable_from (blocks g) (entries g)"
    "prune_unreachable_blocks g = (if exit_block g \<in> marked r then
       Some \<lparr>blocks = kept_blocks r (blocks g), entries = map (position r) (entries g), exit_block = position r (exit_block g)\<rparr>
     else None)"
proof -
  let ?n = "block_count g" and ?R = "reachable_from (blocks g) (entries g)"
  have none: "marked (replicate ?n False) = {}" by (auto simp: marked_def)
  obtain r0 st0 where 0: "mark_entries (entries g) (replicate ?n False, []) = Some (r0, st0)" "length r0 = ?n"
    "marked r0 = set (entries g)" "set st0 = set (entries g)"
    using mark_entries_ok [of "entries g" "replicate ?n False" "[]"] assms(1) none by (auto simp: graph_closed_def)
  obtain r where r: "mark_reachable (blocks g) (r0, st0) = Some r" "length r = ?n" "marked r = ?R"
    using mark_reachable_ok [OF assms(1) 0(2), of st0] 0(3,4) reachable_from_entry by fastforce
  have closed: "closed_marks r (blocks g)"
    using r(2,3) reachable_from_succ reachable_from_range [OF assms(1)] by (fastforce simp: closed_marks_def)
  have num: "number_blocks 0 r ! x = (if x \<in> marked r then Some (position r x) else None)" if "x < ?n" for x
    using that r(2) number_blocks_nth [of x r 0] by (simp add: marked_def)
  have ent: "e \<in> marked r" "e < ?n" if "e \<in> set (entries g)" for e
    using that r(3) reachable_from_entry assms(1) by (auto simp: graph_closed_def)
  have "hd (entries g) \<in> marked r" using ent assms(2) by simp
  then have "r ! hd (entries g)" "hd (entries g) < length r" by (simp_all add: marked_def)
  then have "list_ex id r" unfolding list_ex_iff id_apply by (meson nth_mem)
  moreover have "map (\<lambda>e. the (number_blocks 0 r ! e)) (entries g) = map (position r) (entries g)"
    using ent num by simp
  ultimately have "prune_unreachable_blocks g = (if exit_block g \<in> marked r then
      Some \<lparr>blocks = kept_blocks r (blocks g), entries = map (position r) (entries g), exit_block = position r (exit_block g)\<rparr>
    else None)"
    using 0(1) r(1,2) num [OF assms(3)] by (simp add: prune_unreachable_blocks_def Let_def kept_blocks_def kept_def)
  with closed r(3) show thesis by (rule that)
qed

text \<open>After simplification every edge can be taken.\<close>

lemma simplified_edge:
  assumes "shape_ok ir ex n blk" "y \<in> succs (simplify_block ir blk)"
  shows "\<exists>t. (t, y) \<in> set (block_steps ir (simplify_block ir blk))"
proof (cases "terminator blk = CFG_BRANCH")
  case True
  then obtain c where c: "condition blk = Some c" using assms(1) by (auto simp: shape_ok_def)
  show ?thesis
  proof (cases "c < node_count ir \<and> opcode (hir_node_at ir c) = IR_BOOLEAN")
    case lit: True
    then show ?thesis using assms(2) True c by (auto simp: simplify_block_def succs_def block_steps_def)
  next
    case False
    then have "simplify_block ir blk = blk" "\<And>v. test_events ir c v = [[Test c v]]"
      using True c by (auto simp: simplify_block_def test_events_def)
    then show ?thesis using assms(2) True c by (auto simp: succs_def block_steps_def)
  qed
next
  case False
  then have "false_successor blk = None" using assms(1) by (cases "terminator blk") (auto simp: shape_ok_def)
  with False assms(2) show ?thesis by (auto simp: simplify_block_def succs_def block_steps_def)
qed

abbreviation simp_cfg :: "'f hir_program \<Rightarrow> cfg \<Rightarrow> cfg" where
  "simp_cfg ir g \<equiv> simplify_constant_branches ir g"

lemma s_simps:
  assumes inv: "graph_inv ir g ds"
  shows "blocks (simp_cfg ir g) = map (simplify_block ir) (blocks g)" "entries (simp_cfg ir g) = entries g" "exit_block (simp_cfg ir g) = 0"
  "block_count (simp_cfg ir g) = block_count g"
  using inv by (simp_all add: simplify_constant_branches_def graph_inv_def)

lemma s_exit:
  assumes inv: "graph_inv ir g ds"
  shows "0 < block_count g" "block_at (simp_cfg ir g) 0 = exit_shape"
  using inv by (auto simp: graph_inv_def s_simps [OF inv] simplify_block_def exit_shape_def)

lemma s_shape:
  assumes inv: "graph_inv ir g ds"
  shows "1 \<le> i \<Longrightarrow> i < block_count g \<Longrightarrow> shape_ok ir 0 (block_count g) (block_at (simp_cfg ir g) i)"
  using inv by (simp add: graph_inv_def s_simps [OF inv] shape_ok_simplify)

lemma s_closed:
  assumes inv: "graph_inv ir g ds"
  shows "graph_closed (blocks (simp_cfg ir g)) (entries (simp_cfg ir g))"
proof -
  have "succs (block_at (simp_cfg ir g) x) \<subseteq> {..<block_count g}" if "x < block_count g" for x
    using s_exit(2) [OF inv] s_shape [OF inv, of x] that by (cases "x = 0") (auto simp: succs_def exit_shape_def shape_ok_def)
  then show ?thesis using inv by (auto simp: graph_closed_def s_simps [OF inv] graph_inv_def)
qed

lemma edge_path:
  assumes inv: "graph_inv ir g ds"
  shows "(x, y) \<in> (edge (blocks (simp_cfg ir g)))\<^sup>* \<Longrightarrow> \<exists>m tr. path ir (blocks (simp_cfg ir g)) m x tr y"
proof (induction rule: rtrancl_induct)
  case (step y z)
  then have y: "y < block_count g" "z \<in> succs (block_at (simp_cfg ir g) y)" by (auto simp: edge_def s_simps [OF inv])
  with s_exit(2) [OF inv] have "1 \<le> y" by (cases "y = 0") (auto simp: succs_def exit_shape_def)
  with y inv have "shape_ok ir 0 (block_count g) (block_at g y)" by (simp add: graph_inv_def)
  with y obtain t where "(t, z) \<in> set (block_steps ir (block_at (simp_cfg ir g) y))"
    using simplified_edge [of ir 0 "block_count g" "block_at g y" z] by (auto simp: s_simps [OF inv])
  then have "path ir (blocks (simp_cfg ir g)) 1 y t z" using y(1) by (intro path_single) (simp_all add: s_simps [OF inv])
  with step.IH show ?case using path_trans by blast
qed (blast intro: path_here)

lemma path_edge: "path ir bs m x tr y \<Longrightarrow> (x, y) \<in> (edge bs)\<^sup>*"
  by (induction rule: path.induct)
    (auto dest: block_steps_succs simp: edge_def intro: converse_rtrancl_into_rtrancl)

lemma exit_stays:
  assumes inv: "graph_inv ir g ds"
  shows "path ir (blocks (simp_cfg ir g)) m 0 tr y \<Longrightarrow> tr = [] \<and> y = 0"
  by (erule path.cases) (use s_exit(2) [OF inv] in \<open>auto simp: block_steps_def exit_shape_def\<close>)

lemma entry_trace:
  assumes inv: "graph_inv ir g ds" and "body_built ir (blocks g) is e"
  shows "body_trace ir is tr \<longleftrightarrow> (\<exists>m. path ir (blocks (simp_cfg ir g)) m e tr 0)"
proof -
  have sim: "simulates ir (seq_trace ir is) {1..} (blocks g) e (target (Some 0) None None 0)"
    using assms(2) by (auto simp: body_built_def agree_def)
  have p: "path ir (blocks (simp_cfg ir g)) = path ir (blocks g)" by (intro ext) (simp add: s_simps [OF inv] path_simplify)
  show ?thesis
  proof
    assume "body_trace ir is tr"
    with simulates_forward [OF sim] show "\<exists>m. path ir (blocks (simp_cfg ir g)) m e tr 0" unfolding p body_trace_def by fastforce
  next
    assume "\<exists>m. path ir (blocks (simp_cfg ir g)) m e tr 0"
    then obtain m where "path ir (blocks g) m e tr 0" unfolding p by blast
    from simulates_backward [OF sim this] obtain t1 t2 oc y n where 1: "tr = t1 @ t2" "seq_trace ir is t1 oc"
      "target (Some 0) None None 0 oc = Some y" "path ir (blocks g) n y t2 0" by fastforce
    have "y = 0" "oc = Normal \<or> oc = Returned" using 1(3) by (cases oc; simp)+
    moreover from this(1) 1(4) have "t2 = []" using exit_stays [OF inv] unfolding p by blast
    ultimately show "body_trace ir is tr" using 1 by (auto simp: body_trace_def)
  qed
qed

lemma exit_reachable:
  assumes inv: "graph_inv ir g ds"
  shows "0 \<in> reachable_from (blocks (simp_cfg ir g)) (entries (simp_cfg ir g)) \<longleftrightarrow> (\<exists>is \<in> set ds. \<exists>tr. body_trace ir is tr)"
proof
  have built: "list_all2 (body_built ir (blocks g)) ds (entries g)" using inv by (simp add: graph_inv_def)
  show "\<exists>is \<in> set ds. \<exists>tr. body_trace ir is tr" if "0 \<in> reachable_from (blocks (simp_cfg ir g)) (entries (simp_cfg ir g))"
  proof -
    from that obtain e where e: "e \<in> set (entries g)" "(e, 0) \<in> (edge (blocks (simp_cfg ir g)))\<^sup>*"
      unfolding reachable_from_def s_simps(2) [OF inv] by blast
    from edge_path [OF inv e(2)] e(1) obtain m tr where "e \<in> set (entries g)" "path ir (blocks (simp_cfg ir g)) m e tr 0" by blast
    moreover from this(1) built obtain "is" where "is \<in> set ds" "body_built ir (blocks g) is e"
      by (auto dest: list_all2_set_right)
    ultimately show ?thesis using entry_trace [OF inv] by blast
  qed
  show "0 \<in> reachable_from (blocks (simp_cfg ir g)) (entries (simp_cfg ir g))" if "\<exists>is \<in> set ds. \<exists>tr. body_trace ir is tr"
  proof -
    from that obtain "is" tr where "is \<in> set ds" "body_trace ir is tr" by blast
    moreover from this(1) built obtain e where "e \<in> set (entries g)" "body_built ir (blocks g) is e"
      by (auto dest: list_all2_set_left)
    ultimately show ?thesis using entry_trace [OF inv] path_edge unfolding reachable_from_def s_simps(2) [OF inv] by blast
  qed
qed

section \<open>The whole construction\<close>

lemma pruned_shape:
  assumes "shape_ok ir ex n blk" "succs blk \<subseteq> marked r" "ex \<in> marked r" "m = length (kept r)"
  shows "shape_ok ir (position r ex) m (renumber_block (number_blocks 0 r) blk)"
proof -
  have lt: "position r s < m" if "s \<in> succs blk" for s using that assms(2,4) position_kept by blast
  show ?thesis using assms(1) lt
    by (auto simp: shape_ok_def block_nodes_ok_def renumber_successors [OF assms(2)] succs_def split: terminator.splits)
qed

lemma validate_block_shape: "shape_ok ir (exit_block g) (block_count g) (block_at g i) \<Longrightarrow> validate_block g i"
  by (auto simp: shape_ok_def validate_block_def Let_def split: terminator.splits option.splits)

text \<open>What pruning makes of a simplified graph whose exit is reachable.\<close>

definition pruned :: "bool list \<Rightarrow> cfg \<Rightarrow> cfg" where
  "pruned r g = \<lparr>blocks = kept_blocks r (blocks g), entries = map (position r) (entries g), exit_block = position r (exit_block g)\<rparr>"

lemma pruned_valid:
  assumes inv: "graph_inv ir g ds" and "ds \<noteq> []" and c: "closed_marks r (blocks (simp_cfg ir g))"
    and m: "set (entries g) \<subseteq> marked r" "0 \<in> marked r"
  shows "vnt_cfg_validate (pruned r (simp_cfg ir g))"
proof -
  let ?s = "simp_cfg ir g" and ?p = "pruned r (simp_cfg ir g)"
  note s = s_simps [OF inv]
  have len: "block_count ?p = length (kept r)" by (simp add: pruned_def kept_blocks_def)
  have ent: "entries g \<noteq> []" using assms(2) inv by (auto simp: graph_inv_def)
  have "validate_block ?p j" if j: "j < length (kept r)" for j
  proof -
    from kept_marked [OF j] obtain x where x: "x \<in> marked r" "j = position r x" by metis
    have blk: "block_at ?p j = renumber_block (number_blocks 0 r) (block_at ?s x)"
      using kept_blocks_nth(1) [OF x(1)] x(2) by (simp add: pruned_def)
    show ?thesis
    proof (cases "x = 0")
      case True
      with blk x s_exit(2) [OF inv] show ?thesis
        by (simp add: validate_block_def Let_def exit_shape_def renumber_block_def pruned_def s)
    next
      case False
      have "x < block_count g" using x(1) c s(4) by (simp add: closed_marks_def marked_def)
      with False s_shape [OF inv, of x] have "shape_ok ir 0 (block_count g) (block_at ?s x)" by simp
      moreover have "succs (block_at ?s x) \<subseteq> marked r" using c x(1) by (simp add: closed_marks_def)
      ultimately have "shape_ok ir (exit_block ?p) (block_count ?p) (block_at ?p j)"
        using pruned_shape [OF _ _ m(2) len] blk s(3) by (simp add: pruned_def)
      then show ?thesis by (rule validate_block_shape)
    qed
  qed
  moreover have "position r x < length (kept r)" if "x \<in> marked r" for x using position_kept [OF that] by simp
  ultimately show ?thesis using m ent len s
    by (auto simp: vnt_cfg_validate_def list_all_iff) (auto simp: pruned_def kept_blocks_def)
qed

text \<open>The shape of every result of \<open>vnt_cfg_build\<close> on a valid program.\<close>

lemma cfg_build_cases:
  assumes "vnt_ir_validate ir"
  shows "(\<exists>is \<in> set (bodies ir). stray_body ir is) \<and> vnt_cfg_build ir = Some None
    \<or> (\<forall>is \<in> set (bodies ir). \<not> stray_body ir is) \<and> (\<exists>g r. graph_inv ir g (bodies ir)
        \<and> closed_marks r (blocks (simp_cfg ir g)) \<and> marked r = reachable_from (blocks (simp_cfg ir g)) (entries g)
        \<and> vnt_cfg_build ir = Some (if 0 \<in> marked r then Some (pruned r (simp_cfg ir g)) else None))"
proof -
  from build_graph_ok [OF vnt_ir_validate_tree [OF assms]] obtain q where q: "build_graph ir = Some q"
    "q = None \<longleftrightarrow> (\<exists>is \<in> set (bodies ir). stray_body ir is)" "pred_option (\<lambda>g. graph_inv ir g (bodies ir)) q"
    unfolding wp_iff by blast
  show ?thesis
  proof (cases q)
    case None
    with q assms show ?thesis by (simp add: vnt_cfg_build_def)
  next
    case (Some g)
    with q have inv: "graph_inv ir g (bodies ir)" by simp
    note s = s_simps [OF inv]
    have "bodies ir \<noteq> []" by (simp add: bodies_def)
    with inv have ne: "entries (simp_cfg ir g) \<noteq> []" by (auto simp: s graph_inv_def)
    have ex: "exit_block (simp_cfg ir g) < block_count (simp_cfg ir g)" using s_exit(1) [OF inv] by (simp add: s)
    obtain r where r: "closed_marks r (blocks (simp_cfg ir g))"
      "marked r = reachable_from (blocks (simp_cfg ir g)) (entries (simp_cfg ir g))"
      "prune_unreachable_blocks (simp_cfg ir g) = (if exit_block (simp_cfg ir g) \<in> marked r then
         Some \<lparr>blocks = kept_blocks r (blocks (simp_cfg ir g)), entries = map (position r) (entries (simp_cfg ir g)),
           exit_block = position r (exit_block (simp_cfg ir g))\<rparr> else None)"
      by (rule prune_ok [OF s_closed [OF inv] ne ex])
    have "set (entries g) \<subseteq> marked r" using r(2) s(2) reachable_from_entry by fastforce
    with pruned_valid [OF inv \<open>bodies ir \<noteq> []\<close> r(1)] r(3)
    have "vnt_cfg_build ir = Some (if 0 \<in> marked r then Some (pruned r (simp_cfg ir g)) else None)"
      using q(1) Some assms s(3) by (simp add: vnt_cfg_build_def pruned_def)
    with q Some inv r s(2) show ?thesis by auto
  qed
qed

lemma pruned_reachable:
  assumes c: "closed_marks r (blocks g)" and m: "marked r = reachable_from (blocks g) (entries g)"
    and "x < block_count (pruned r g)"
  shows "x \<in> reachable_from (blocks (pruned r g)) (entries (pruned r g))"
proof -
  have step: "(position r x, position r y) \<in> (edge (kept_blocks r (blocks g)))\<^sup>*"
    if "(x, y) \<in> (edge (blocks g))\<^sup>*" "x \<in> marked r" for x y
    using that
  proof (induction rule: rtrancl_induct)
    case (step y z)
    then have "y \<in> marked r" using m reachable_from_def by (fastforce intro: rtrancl_trans)
    moreover from this c have "succs (block_at g y) \<subseteq> marked r" by (simp add: closed_marks_def)
    ultimately have "(position r y, position r z) \<in> edge (kept_blocks r (blocks g))"
      using step(2) kept_blocks_nth [of y r "blocks g"] renumber_successors [of "block_at g y" r]
      by (auto simp: edge_def succs_def)
    with step.IH [OF step.prems] show ?case by (rule rtrancl_into_rtrancl)
  qed simp
  have "x < length (kept r)" using assms(3) by (simp add: pruned_def kept_blocks_def)
  from kept_marked [OF this] m obtain e y where "e \<in> set (entries g)" "(e, y) \<in> (edge (blocks g))\<^sup>*" "x = position r y"
    unfolding reachable_from_def by fastforce
  moreover from this(1) m have "e \<in> marked r" using reachable_from_entry by fastforce
  ultimately show ?thesis using step by (auto simp: reachable_from_def pruned_def)
qed

lemma pruned_separate:
  assumes inv: "graph_inv ir g ds" and c: "closed_marks r (blocks (simp_cfg ir g))"
    and m: "marked r = reachable_from (blocks (simp_cfg ir g)) (entries g)" "0 \<in> marked r"
  shows "separate (blocks (pruned r (simp_cfg ir g))) (entries (pruned r (simp_cfg ir g))) (exit_block (pruned r (simp_cfg ir g)))"
proof -
  let ?s = "simp_cfg ir g"
  note s = s_simps [OF inv]
  have sub: "reachable_from (blocks ?s) [e] \<subseteq> reachable_from (blocks g) [e]" for e
  proof (rule reachable_from_closed)
    show "succs (block_at ?s x) \<subseteq> reachable_from (blocks g) [e]" if "x \<in> reachable_from (blocks g) [e]" "x < block_count ?s" for x
    proof -
      have "succs (simplify_block ir (block_at g x)) \<subseteq> succs (block_at g x)"
        by (auto simp: simplify_block_def succs_def split: option.splits)
      with that s(1,4) show ?thesis using reachable_from_succ [of x "blocks g"] by auto
    qed
  qed (simp add: reachable_from_entry)
  have pos: "reachable_from (kept_blocks r (blocks ?s)) [position r e] \<subseteq> position r ` (reachable_from (blocks ?s) [e] \<inter> marked r)"
    if "e \<in> marked r" for e
  proof (rule reachable_from_closed)
    fix y assume "y \<in> position r ` (reachable_from (blocks ?s) [e] \<inter> marked r)"
    then obtain x where x: "x \<in> reachable_from (blocks ?s) [e]" "x \<in> marked r" "y = position r x" by blast
    have sc: "succs (block_at ?s x) \<subseteq> marked r" using c x(2) by (simp add: closed_marks_def)
    have lt: "x < block_count ?s" using c x(2) by (simp add: closed_marks_def marked_def)
    have "succs (kept_blocks r (blocks ?s) ! y) = position r ` succs (block_at ?s x)"
      using kept_blocks_nth(1) [OF x(2)] x(3) by (auto simp: succs_def renumber_successors [OF sc])
    then show "succs (kept_blocks r (blocks ?s) ! y) \<subseteq> position r ` (reachable_from (blocks ?s) [e] \<inter> marked r)"
      using sc reachable_from_succ [OF x(1) lt] by auto
  qed (use that in \<open>auto intro!: imageI reachable_from_entry\<close>)
  have ent: "e \<in> marked r" if "e \<in> set (entries g)" for e using that m(1) reachable_from_entry by fastforce
  have "position r (entries g ! k) \<notin> reachable_from (kept_blocks r (blocks ?s)) [position r (entries g ! j)]"
    if jk: "j < length (entries g)" "k < length (entries g)" "j \<noteq> k" "position r (entries g ! k) \<noteq> position r 0" for j k
  proof
    have mk: "entries g ! j \<in> marked r" "entries g ! k \<in> marked r" using ent jk by simp_all
    assume "position r (entries g ! k) \<in> reachable_from (kept_blocks r (blocks ?s)) [position r (entries g ! j)]"
    with pos [OF mk(1)] obtain x where "x \<in> reachable_from (blocks ?s) [entries g ! j]" "x \<in> marked r"
      "position r (entries g ! k) = position r x" by auto
    with mk(2) sub position_inj have "entries g ! k \<in> reachable_from (blocks g) [entries g ! j]" by blast
    moreover have "entries g ! k \<noteq> 0" using jk(4) by metis
    ultimately show False using inv jk(1-3) by (auto simp: graph_inv_def separate_def)
  qed
  then show ?thesis by (simp add: separate_def pruned_def s)
qed

lemma pruned_traces:
  assumes inv: "graph_inv ir g ds" and c: "closed_marks r (blocks (simp_cfg ir g))"
    and m: "marked r = reachable_from (blocks (simp_cfg ir g)) (entries g)" "0 \<in> marked r" and j: "j < length ds"
  shows "body_trace ir (ds ! j) tr \<longleftrightarrow> (\<exists>n. path ir (blocks (pruned r (simp_cfg ir g))) n
    (entries (pruned r (simp_cfg ir g)) ! j) tr (exit_block (pruned r (simp_cfg ir g))))"
proof -
  let ?s = "simp_cfg ir g" and ?e = "entries g ! j"
  have l: "list_all2 (body_built ir (blocks g)) ds (entries g)" using inv by (simp add: graph_inv_def)
  then have "j < length (entries g)" using j by (simp add: list_all2_lengthD)
  then have e: "entries (pruned r ?s) ! j = position r ?e" "?e \<in> marked r"
    using m(1) reachable_from_entry [of ?e "entries g"] by (simp_all add: pruned_def s_simps [OF inv])
  have x: "exit_block (pruned r ?s) = position r 0" "blocks (pruned r ?s) = kept_blocks r (blocks ?s)"
    by (simp_all add: pruned_def s_simps [OF inv])
  have "(\<exists>n. path ir (kept_blocks r (blocks ?s)) n (position r ?e) tr (position r 0)) \<longleftrightarrow> (\<exists>n. path ir (blocks ?s) n ?e tr 0)"
    using path_kept [OF _ c e(2)] path_kept_rev [OF _ c e(2) refl] position_inj m(2) by metis
  with entry_trace [OF inv list_all2_nthD [OF l j]] show ?thesis by (simp add: e(1) x)
qed

text \<open>All that is known of a graph that was built.\<close>

lemma simplified_block_step:
  assumes "validate_block g x" "simplify_block ir (block_at g x) = block_at g x" "y \<in> succs (block_at g x)"
  shows "\<exists>t. (t, y) \<in> set (block_steps ir (block_at g x))"
proof (cases "terminator (block_at g x) = CFG_BRANCH")
  case True
  with assms(1) obtain c where c: "condition (block_at g x) = Some c" by (auto simp: validate_block_def Let_def)
  have "\<not> (c < node_count ir \<and> opcode (hir_node_at ir c) = IR_BOOLEAN)"
  proof
    assume "c < node_count ir \<and> opcode (hir_node_at ir c) = IR_BOOLEAN"
    with True c have "terminator (simplify_block ir (block_at g x)) = CFG_JUMP" by (simp add: simplify_block_def)
    with assms(2) True show False by simp
  qed
  then have "test_events ir c v = [[Test c v]]" for v by (auto simp: test_events_def)
  with True c assms(3) show ?thesis by (auto simp: succs_def block_steps_def)
next
  case False
  with assms(1) have "false_successor (block_at g x) = None"
    by (cases "terminator (block_at g x)") (auto simp: validate_block_def Let_def)
  with False assms(3) show ?thesis by (auto simp: succs_def block_steps_def)
qed

lemma cfg_build_graph:
  assumes "vnt_cfg_build ir = Some (Some g)"
  shows "vnt_ir_validate ir" "vnt_cfg_validate g" "separate (blocks g) (entries g) (exit_block g)"
    "length (entries g) = length (bodies ir)"
    "\<And>x. x < block_count g \<Longrightarrow> x \<in> reachable_from (blocks g) (entries g)"
    "\<And>x. x < block_count g \<Longrightarrow> simplify_block ir (block_at g x) = block_at g x"
    "\<And>j tr. j < length (bodies ir) \<Longrightarrow> body_trace ir (bodies ir ! j) tr \<longleftrightarrow>
       (\<exists>n. path ir (blocks g) n (entries g ! j) tr (exit_block g))"
proof -
  show v: "vnt_ir_validate ir" and ok: "vnt_cfg_validate g"
    using assms by (auto simp: vnt_cfg_build_def bind_eq_Some_conv split: if_splits option.splits)
  from cfg_build_cases [OF v] assms obtain g0 r where
    inv: "graph_inv ir g0 (bodies ir)" and c: "closed_marks r (blocks (simp_cfg ir g0))"
    and m: "marked r = reachable_from (blocks (simp_cfg ir g0)) (entries g0)" "0 \<in> marked r"
    and g: "g = pruned r (simp_cfg ir g0)" by (auto split: if_splits)
  show "separate (blocks g) (entries g) (exit_block g)" unfolding g by (rule pruned_separate [OF inv c m])
  show "length (entries g) = length (bodies ir)"
    using inv by (auto simp: g pruned_def s_simps [OF inv] graph_inv_def dest: list_all2_lengthD)
  show "x \<in> reachable_from (blocks g) (entries g)" if "x < block_count g" for x
    using that pruned_reachable [OF c] m(1) s_simps(2) [OF inv] g by simp
  show "simplify_block ir (block_at g x) = block_at g x" if "x < block_count g" for x
  proof -
    from that have x: "x < length (kept r)" by (simp add: g pruned_def kept_blocks_def)
    then have "kept r ! x < block_count g0"
      using kept_marked [OF x] c s_simps(4) [OF inv] by (simp add: closed_marks_def marked_def)
    then show ?thesis using x
      by (simp add: g pruned_def kept_blocks_def s_simps [OF inv] simplify_renumber simplify_simplify)
  qed
  show "body_trace ir (bodies ir ! j) tr \<longleftrightarrow> (\<exists>n. path ir (blocks g) n (entries g ! j) tr (exit_block g))"
    if "j < length (bodies ir)" for j tr
    unfolding g by (rule pruned_traces [OF inv c m that])
qed

lemma pruned_nodes:
  assumes inv: "graph_inv ir g ds" and c: "closed_marks r (blocks (simp_cfg ir g))" and j: "j < block_count (pruned r (simp_cfg ir g))"
  shows "block_nodes_ok ir (block_at (pruned r (simp_cfg ir g)) j)"
proof -
  from j have "j < length (kept r)" by (simp add: pruned_def kept_blocks_def)
  from kept_marked [OF this] obtain x where x: "x \<in> marked r" "j = position r x" by metis
  then have blk: "block_at (pruned r (simp_cfg ir g)) j = renumber_block (number_blocks 0 r) (block_at (simp_cfg ir g) x)"
    using kept_blocks_nth(1) [OF x(1)] by (simp add: pruned_def)
  have "x < block_count g" using x(1) c s_simps(4) [OF inv] by (simp add: closed_marks_def marked_def)
  then have "block_nodes_ok ir (block_at (simp_cfg ir g) x)"
    using s_exit(2) [OF inv] s_shape [OF inv, of x] by (cases "x = 0") (auto simp: exit_shape_def block_nodes_ok_def shape_ok_def)
  then show ?thesis by (simp add: blk block_nodes_ok_def)
qed

lemma cfg_build_nodes:
  assumes "vnt_cfg_build ir = Some (Some g)"
  shows "list_all (block_nodes_ok ir) (blocks g)"
proof -
  from cfg_build_cases [OF cfg_build_graph(1) [OF assms]] assms obtain g0 r where
    inv: "graph_inv ir g0 (bodies ir)" and c: "closed_marks r (blocks (simp_cfg ir g0))" and g: "g = pruned r (simp_cfg ir g0)"
    by (auto split: if_splits)
  from pruned_nodes [OF inv c] show ?thesis unfolding list_all_length g by blast
qed

lemma cfg_build_exit:
  assumes "vnt_cfg_build ir = Some (Some g)"
  shows "terminator (block_at g (exit_block g)) = CFG_EXIT"
proof -
  from cfg_build_cases [OF cfg_build_graph(1) [OF assms]] assms obtain g0 r where
    inv: "graph_inv ir g0 (bodies ir)" and m: "0 \<in> marked r" and g: "g = pruned r (simp_cfg ir g0)" by (auto split: if_splits)
  have "block_at g (exit_block g) = renumber_block (number_blocks 0 r) (block_at (simp_cfg ir g0) 0)"
    using kept_blocks_nth(1) [OF m] by (simp add: g pruned_def s_simps [OF inv])
  then show ?thesis using s_exit(2) [OF inv] by (simp add: exit_shape_def)
qed

lemma cfg_build_step:
  assumes "vnt_cfg_build ir = Some (Some g)" "x < block_count g" "y \<in> succs (block_at g x)"
  shows "\<exists>t. (t, y) \<in> set (block_steps ir (block_at g x))"
  using cfg_build_graph(2,6) [OF assms(1)] assms(2,3)
  by (intro simplified_block_step) (auto simp: vnt_cfg_validate_def list_all_iff)

end
