(* ===== verification/RoundRobin.thy ===== *)
theory RoundRobin
  imports VntPrelude
begin

text \<open>
  The iteration scheme of the dataflow analyses of \<open>src/compiler/cfg.c\<close>,
  \<open>do { changed = 0; for (each block) update; } while (changed)\<close>, each update working on the
  current state. Not returning is \<open>None\<close>. The locale \<open>round_robin\<close> gives what both analyses
  need: with a measure that every change decreases the loop returns a stable state.
\<close>

section \<open>Passes\<close>

definition pass_step :: "('b \<Rightarrow> 's \<Rightarrow> 's \<times> bool) \<Rightarrow> 's \<times> bool \<Rightarrow> 'b \<Rightarrow> 's \<times> bool" where
  "pass_step upd = (\<lambda>(s, changed) b. let (s', c) = upd b s in (s', changed \<or> c))"

definition run_pass :: "('b \<Rightarrow> 's \<Rightarrow> 's \<times> bool) \<Rightarrow> 'b list \<Rightarrow> 's \<Rightarrow> 's \<times> bool" where
  "run_pass upd bs s = foldl (pass_step upd) (s, False) bs"

partial_function (option) repeat_pass :: "('s \<Rightarrow> 's \<times> bool) \<Rightarrow> 's \<Rightarrow> 's option" where
  "repeat_pass f s = (if snd (f s) then repeat_pass f (fst (f s)) else Some (fst (f s)))"

declare repeat_pass.simps [code]

section \<open>Termination and stability\<close>

locale round_robin =
  fixes upd :: "'b \<Rightarrow> 's \<Rightarrow> 's \<times> bool" and order :: "'b list" and inv :: "'s \<Rightarrow> bool" and weight :: "'s \<Rightarrow> nat"
  assumes upd_ok: "inv s \<Longrightarrow> b \<in> set order \<Longrightarrow> upd b s = (s', c) \<Longrightarrow> inv s' \<and> (if c then weight s' < weight s else s' = s)"
begin

lemma pass_fold:
  assumes "inv s" "set bs \<subseteq> set order"
  shows "\<exists>s' c'. foldl (pass_step upd) (s, c) bs = (s', c') \<and> inv s' \<and> weight s' \<le> weight s \<and> (c \<longrightarrow> c')
    \<and> (\<not> c' \<longrightarrow> s' = s \<and> (\<forall>b \<in> set bs. upd b s = (s, False))) \<and> (c' \<and> \<not> c \<longrightarrow> weight s' < weight s)"
  using assms
proof (induction bs arbitrary: s c)
  case (Cons b bs)
  obtain s1 c1 where 1: "upd b s = (s1, c1)" by fastforce
  with Cons.prems have i: "inv s1 \<and> (if c1 then weight s1 < weight s else s1 = s)" using upd_ok [of s b s1 c1] by simp
  obtain s' c' where 2: "foldl (pass_step upd) (s1, c \<or> c1) bs = (s', c')" "inv s'" "weight s' \<le> weight s1" "c \<or> c1 \<longrightarrow> c'"
    "\<not> c' \<longrightarrow> s' = s1 \<and> (\<forall>b \<in> set bs. upd b s1 = (s1, False))" "c' \<and> \<not> (c \<or> c1) \<longrightarrow> weight s' < weight s1"
    using Cons.IH [of s1 "c \<or> c1"] i Cons.prems(2) by auto
  have "foldl (pass_step upd) (s, c) (b # bs) = (s', c')" using 1 2(1) by (simp add: pass_step_def)
  then show ?case using 1 2 i by (intro exI [of _ s'] exI [of _ c']) (auto split: if_splits)
qed simp

lemma run_pass_ok:
  assumes "inv s" "run_pass upd order s = (s', c)"
  shows "inv s' \<and> (if c then weight s' < weight s else s' = s \<and> (\<forall>b \<in> set order. upd b s = (s, False)))"
  using pass_fold [OF assms(1), of order False] assms(2) by (auto simp: run_pass_def)

theorem repeat_pass_returns:
  "inv s \<Longrightarrow> \<exists>s'. repeat_pass (run_pass upd order) s = Some s' \<and> inv s' \<and> (\<forall>b \<in> set order. upd b s' = (s', False))"
proof (induction "weight s" arbitrary: s rule: less_induct)
  case less
  obtain s1 c where 1: "run_pass upd order s = (s1, c)" by fastforce
  note ok = run_pass_ok [OF less.prems 1]
  show ?case
  proof (cases c)
    case True
    with ok less.hyps [of s1] 1 show ?thesis by (simp add: repeat_pass.simps [of _ s])
  next
    case False
    with ok 1 less.prems show ?thesis by (simp add: repeat_pass.simps [of _ s])
  qed
qed

end

end
