(* ===== verification/CfgDataflow.thy ===== *)
theory CfgDataflow
  imports CfgSpec RoundRobin
begin

text \<open>
  The dataflow analyses of \<open>src/compiler/cfg.c\<close>: the variables of a program, what a block reads
  and writes, the definite-assignment check and liveness. A row of bytes is a \<open>bool list\<close>, a
  matrix a list of rows, one for each block. The option of a result is the descent into the HIR
  (\<open>None\<close> for a walk out of the array) or the loop that does not end.
\<close>

section \<open>Variables\<close>

definition variable_set_add :: "string list \<Rightarrow> string option \<Rightarrow> string list" where
  "variable_set_add vs name = (case name of None \<Rightarrow> vs | Some n \<Rightarrow> if n \<in> set vs then vs else vs @ [n])"

definition variable_index :: "string list \<Rightarrow> string option \<Rightarrow> nat option" where
  "variable_index vs name = (case name of None \<Rightarrow> None | Some n \<Rightarrow> find (\<lambda>i. vs ! i = n) [0..<length vs])"

abbreviation node_text :: "'f hir_program \<Rightarrow> nat \<Rightarrow> string option" where
  "node_text ir i \<equiv> value_text (node_value (hir_node_at ir i))"

definition collect_node_variables :: "'f hir_node \<Rightarrow> string list \<Rightarrow> string list" where
  "collect_node_variables n vs =
     (let vs = (if opcode n \<in> {IR_VARIABLE, IR_VARIABLE_DECL, IR_REASSIGN}
                then variable_set_add vs (value_text (node_value n)) else vs) in
      if opcode n = IR_FUNCTION then fold (\<lambda>p vs. variable_set_add vs (Some p)) (names n) vs else vs)"

definition collect_variables :: "'f hir_program \<Rightarrow> string list" where
  "collect_variables ir = fold collect_node_variables (nodes ir) []"

definition mark_variable :: "bool list \<Rightarrow> string list \<Rightarrow> string option \<Rightarrow> bool list" where
  "mark_variable bits vs name = (case variable_index vs name of None \<Rightarrow> bits | Some i \<Rightarrow> bits[i := True])"

section \<open>Reads and writes of a block\<close>

text \<open>A loop whose body can leave the array.\<close>

fun fold_option :: "('a \<Rightarrow> 's \<Rightarrow> 's option) \<Rightarrow> 'a list \<Rightarrow> 's \<Rightarrow> 's option" where
  "fold_option f [] s = Some s"
| "fold_option f (x # xs) s = (case f x s of None \<Rightarrow> None | Some s \<Rightarrow> fold_option f xs s)"

fun collect_expression_reads :: "nat \<Rightarrow> 'f hir_program \<Rightarrow> string list \<Rightarrow> nat option \<Rightarrow> bool list \<Rightarrow> bool list option" where
  "collect_expression_reads 0 ir vs node uses = None"
| "collect_expression_reads (Suc k) ir vs node uses =
     (case node of
        None \<Rightarrow> Some uses
      | Some n \<Rightarrow>
          if node_count ir \<le> n then Some uses
          else if opcode (hir_node_at ir n) = IR_VARIABLE then Some (mark_variable uses vs (node_text ir n))
          else do {
            cs \<leftarrow> children ir n;
            fold_option (\<lambda>c uses. collect_expression_reads k ir vs (Some c) uses) cs uses })"

definition expression_reads :: "'f hir_program \<Rightarrow> string list \<Rightarrow> nat option \<Rightarrow> bool list \<Rightarrow> bool list option" where
  "expression_reads ir vs = collect_expression_reads (node_count ir) ir vs"

definition instruction_effects :: "'f hir_program \<Rightarrow> string list \<Rightarrow> nat \<Rightarrow> bool list \<times> bool list \<Rightarrow> (bool list \<times> bool list) option" where
  "instruction_effects ir vs i = (\<lambda>(uses, defs).
     let op = opcode (hir_node_at ir i) in
     if op = IR_VARIABLE_DECL then do {
       v \<leftarrow> child_role ir i EDGE_VALUE;
       if v = None then Some (uses, defs) else do {
         uses \<leftarrow> expression_reads ir vs v uses;
         Some (uses, mark_variable defs vs (node_text ir i)) } }
     else if op = IR_REASSIGN then do {
       v \<leftarrow> child_role ir i EDGE_VALUE;
       uses \<leftarrow> expression_reads ir vs v uses;
       Some (uses, mark_variable defs vs (node_text ir i)) }
     else if op = IR_PRINT \<or> op = IR_RETURN then do {
       v \<leftarrow> child_role ir i EDGE_VALUE;
       uses \<leftarrow> expression_reads ir vs v uses;
       Some (uses, defs) }
     else if op = IR_ASSIGN then do {
       t \<leftarrow> child_role ir i EDGE_TARGET;
       (uses, defs) \<leftarrow>
         (case t of
            Some t \<Rightarrow> if opcode (hir_node_at ir t) = IR_VARIABLE then Some (uses, mark_variable defs vs (node_text ir t))
                      else map_option (\<lambda>uses. (uses, defs)) (expression_reads ir vs (Some t) uses)
          | None \<Rightarrow> map_option (\<lambda>uses. (uses, defs)) (expression_reads ir vs None uses));
       v \<leftarrow> child_role ir i EDGE_VALUE;
       uses \<leftarrow> expression_reads ir vs v uses;
       Some (uses, defs) }
     else do {
       uses \<leftarrow> expression_reads ir vs (Some i) uses;
       Some (uses, defs) })"

definition collect_block_effects :: "'f hir_program \<Rightarrow> string list \<Rightarrow> block \<Rightarrow> bool list \<times> bool list \<Rightarrow> (bool list \<times> bool list) option" where
  "collect_block_effects ir vs blk = (\<lambda>(uses, defs). do {
     uses \<leftarrow> (if condition blk = None then Some uses else expression_reads ir vs (condition blk) uses);
     case instruction blk of None \<Rightarrow> Some (uses, defs) | Some i \<Rightarrow> instruction_effects ir vs i (uses, defs) })"

text \<open>The rows of \<open>uses\<close> and \<open>defs\<close> of every block.\<close>

fun block_effects :: "'f hir_program \<Rightarrow> string list \<Rightarrow> block list \<Rightarrow> (bool list list \<times> bool list list) option" where
  "block_effects ir vs [] = Some ([], [])"
| "block_effects ir vs (blk # bs) = do {
     (u, d) \<leftarrow> collect_block_effects ir vs blk (replicate (length vs) False, replicate (length vs) False);
     (us, ds) \<leftarrow> block_effects ir vs bs;
     Some (u # us, d # ds) }"

section \<open>Definite assignment\<close>

definition source_name_for_diagnostic :: "string option \<Rightarrow> string" where
  "source_name_for_diagnostic key =
     (case key of
        None \<Rightarrow> ''<unknown>''
      | Some key \<Rightarrow>
          (case strstr key ''__vnt_symbol_'' of
             None \<Rightarrow> key
           | Some prefix \<Rightarrow>
               (case strchr (drop (length ''__vnt_symbol_'') prefix) (CHR ''_'') of
                  None \<Rightarrow> key
                | Some separator \<Rightarrow> tl separator)))"

definition block_has_predecessor :: "cfg \<Rightarrow> nat \<Rightarrow> nat \<Rightarrow> bool" where
  "block_has_predecessor g predecessor b \<longleftrightarrow>
     true_successor (block_at g predecessor) = Some b \<or> false_successor (block_at g predecessor) = Some b"

text \<open>The globals: declarations at the root with a value.\<close>

definition mark_global :: "'f hir_program \<Rightarrow> string list \<Rightarrow> nat \<Rightarrow> bool list \<Rightarrow> bool list option" where
  "mark_global ir vs c bits =
     (if role (hir_node_at ir c) = EDGE_STATEMENT \<and> opcode (hir_node_at ir c) = IR_VARIABLE_DECL then do {
        v \<leftarrow> child_role ir c EDGE_VALUE;
        Some (if v \<noteq> None then mark_variable bits vs (node_text ir c) else bits) }
      else Some bits)"

definition collect_globals :: "'f hir_program \<Rightarrow> string list \<Rightarrow> bool list option" where
  "collect_globals ir vs = do {
     cs \<leftarrow> children ir (root ir);
     fold_option (mark_global ir vs) cs (replicate (length vs) False) }"

text \<open>The seed of an entry: the globals for a function, then its parameters.\<close>

definition seed_entries :: "cfg \<Rightarrow> bool list \<Rightarrow> bool list list \<Rightarrow> bool list list" where
  "seed_entries g globals seed = fold (\<lambda>e seed. seed[e := globals]) (tl (entries g)) seed"

definition seed_parameters :: "'f hir_program \<Rightarrow> string list \<Rightarrow> nat \<times> nat \<Rightarrow> bool list list \<Rightarrow> bool list list" where
  "seed_parameters ir vs = (\<lambda>(i, e) seed.
     seed[e := fold (\<lambda>p bits. mark_variable bits vs (Some p)) (names (hir_node_at ir i)) (seed ! e)])"

text \<open>The functions in node order, paired with the entries behind the first.\<close>

definition function_entries :: "'f hir_program \<Rightarrow> cfg \<Rightarrow> (nat \<times> nat) list" where
  "function_entries ir g = zip (filter (is_function ir) [0..<node_count ir]) (tl (entries g))"

definition entry_seeds :: "'f hir_program \<Rightarrow> cfg \<Rightarrow> string list \<Rightarrow> bool list \<Rightarrow> bool list list" where
  "entry_seeds ir g vs globals =
     fold (seed_parameters ir vs) (function_entries ir g)
       (seed_entries g globals (replicate (block_count g) (replicate (length vs) False)))"

type_synonym rows = "bool list list \<times> bool list list"

text \<open>One round of the loop for block \<open>b\<close>.\<close>

definition incoming :: "cfg \<Rightarrow> nat \<Rightarrow> bool list list \<Rightarrow> nat \<Rightarrow> bool" where
  "incoming g b out v =
     (let ps = filter (\<lambda>p. block_has_predecessor g p b) [0..<block_count g] in
      ps \<noteq> [] \<and> list_all (\<lambda>p. out ! p ! v) ps)"

definition assign_row :: "cfg \<Rightarrow> nat \<Rightarrow> bool list list \<Rightarrow> nat \<Rightarrow> bool list list \<Rightarrow> bool list" where
  "assign_row g vars seed b out =
     (if b \<in> set (entries g) then seed ! b else map (incoming g b out) [0..<vars])"

definition assign_update :: "cfg \<Rightarrow> nat \<Rightarrow> bool list list \<Rightarrow> bool list list \<Rightarrow> nat \<Rightarrow> rows \<Rightarrow> rows \<times> bool" where
  "assign_update g vars seed defs b = (\<lambda>(inn, out).
     let bin = assign_row g vars seed b out;
         bout = map (\<lambda>v. bin ! v \<or> defs ! b ! v) [0..<vars] in
     ((inn[b := bin], out[b := bout]), bin \<noteq> inn ! b \<or> bout \<noteq> out ! b))"

definition all_rows :: "nat \<Rightarrow> nat \<Rightarrow> bool \<Rightarrow> bool list list" where
  "all_rows n vars x = replicate n (replicate vars x)"

definition assign_solution :: "cfg \<Rightarrow> nat \<Rightarrow> bool list list \<Rightarrow> bool list list \<Rightarrow> rows option" where
  "assign_solution g vars seed defs =
     repeat_pass (run_pass (assign_update g vars seed defs) [0..<block_count g])
       (all_rows (block_count g) vars True, all_rows (block_count g) vars True)"

text \<open>The first variable read before it is initialised, in block order.\<close>

definition first_violation :: "nat \<Rightarrow> nat \<Rightarrow> bool list list \<Rightarrow> bool list list \<Rightarrow> (nat \<times> nat) option" where
  "first_violation n vars uses inn =
     find (\<lambda>(b, v). uses ! b ! v \<and> \<not> inn ! b ! v) (List.product [0..<n] [0..<vars])"

definition vnt_cfg_check_definite_assignment :: "'f hir_program \<Rightarrow> cfg \<Rightarrow> (string + unit) option" where
  "vnt_cfg_check_definite_assignment ir g =
     (if \<not> vnt_ir_validate ir \<or> \<not> vnt_cfg_validate g then Some (Inl ''invalid HIR or CFG for dataflow analysis'')
      else if \<not> list_all (block_nodes_ok ir) (blocks g) then Some (Inl ''CFG block references an invalid HIR node'')
      else let vs = collect_variables ir in do {
        (uses, defs) \<leftarrow> block_effects ir vs (blocks g);
        globals \<leftarrow> collect_globals ir vs;
        (inn, out) \<leftarrow> assign_solution g (length vs) (entry_seeds ir g vs globals) defs;
        Some (case first_violation (block_count g) (length vs) uses inn of
          None \<Rightarrow> Inr ()
        | Some (b, v) \<Rightarrow> Inl (''variable '' @ [CHR 0x27] @ source_name_for_diagnostic (Some (vs ! v)) @ [CHR 0x27]
            @ '' may be read before initialization'')) })"

section \<open>Liveness\<close>

record liveness =
  live_names :: "string list"
  live_in :: "bool list list"
  live_out :: "bool list list"

definition successor_bit :: "bool list list \<Rightarrow> nat \<Rightarrow> nat option \<Rightarrow> bool" where
  "successor_bit inn v s = (case s of None \<Rightarrow> False | Some s \<Rightarrow> inn ! s ! v)"

text \<open>
  The variables of a block one after the other: a block that is its own successor reads the bits
  \<open>in[b][v]\<close> of the same round only at \<open>v\<close>, before they are written.
\<close>

definition live_update :: "cfg \<Rightarrow> nat \<Rightarrow> bool list list \<Rightarrow> bool list list \<Rightarrow> nat \<Rightarrow> rows \<Rightarrow> rows \<times> bool" where
  "live_update g vars uses defs b = (\<lambda>(inn, out).
     let blk = block_at g b;
         next_out = map (\<lambda>v. successor_bit inn v (true_successor blk) \<or> successor_bit inn v (false_successor blk)) [0..<vars];
         next_in = map (\<lambda>v. uses ! b ! v \<or> next_out ! v \<and> \<not> defs ! b ! v) [0..<vars] in
     ((inn[b := next_in], out[b := next_out]), next_out \<noteq> out ! b \<or> next_in \<noteq> inn ! b))"

definition live_solution :: "cfg \<Rightarrow> nat \<Rightarrow> bool list list \<Rightarrow> bool list list \<Rightarrow> rows option" where
  "live_solution g vars uses defs =
     repeat_pass (run_pass (live_update g vars uses defs) (rev [0..<block_count g]))
       (all_rows (block_count g) vars False, all_rows (block_count g) vars False)"

definition vnt_cfg_compute_liveness :: "'f hir_program \<Rightarrow> cfg \<Rightarrow> liveness option option" where
  "vnt_cfg_compute_liveness ir g =
     (if \<not> vnt_ir_validate ir \<or> \<not> vnt_cfg_validate g \<or> \<not> list_all (block_nodes_ok ir) (blocks g) then Some None
      else let vs = collect_variables ir in do {
        (uses, defs) \<leftarrow> block_effects ir vs (blocks g);
        (inn, out) \<leftarrow> live_solution g (length vs) uses defs;
        Some (Some \<lparr>live_names = vs, live_in = inn, live_out = out\<rparr>) })"

text \<open>The queries; \<open>block_count\<close> of the result is the number of rows.\<close>

definition live_query :: "string list \<Rightarrow> bool list list \<Rightarrow> nat \<Rightarrow> string option \<Rightarrow> bool" where
  "live_query vs rows b name =
     (b < length rows \<and> (case variable_index vs name of None \<Rightarrow> False | Some v \<Rightarrow> rows ! b ! v))"

definition vnt_cfg_variable_live_in :: "liveness \<Rightarrow> nat \<Rightarrow> string option \<Rightarrow> bool" where
  "vnt_cfg_variable_live_in a b name = live_query (live_names a) (live_in a) b name"

definition vnt_cfg_variable_live_out :: "liveness \<Rightarrow> nat \<Rightarrow> string option \<Rightarrow> bool" where
  "vnt_cfg_variable_live_out a b name = live_query (live_names a) (live_out a) b name"

end
