(* ===== verification/CfgEffects.thy ===== *)
theory CfgEffects
  imports CfgDataflow
begin

text \<open>
  What a statement reads and writes, as relations on the HIR, and that the byte rows of
  \<open>collect_block_effects\<close> represent them.
\<close>

section \<open>Reads and writes\<close>

inductive reads :: "'f hir_program \<Rightarrow> nat \<Rightarrow> string \<Rightarrow> bool" for ir where
  reads_variable: "n < node_count ir \<Longrightarrow> opcode (hir_node_at ir n) = IR_VARIABLE \<Longrightarrow> node_text ir n = Some x \<Longrightarrow> reads ir n x"
| reads_child: "n < node_count ir \<Longrightarrow> opcode (hir_node_at ir n) \<noteq> IR_VARIABLE \<Longrightarrow> c \<in> set (kids ir n) \<Longrightarrow> reads ir c x \<Longrightarrow> reads ir n x"

inductive_simps reads_iff: "reads ir n x"

definition role_reads :: "'f hir_program \<Rightarrow> nat \<Rightarrow> edge_role \<Rightarrow> string \<Rightarrow> bool" where
  "role_reads ir i r x \<longleftrightarrow> (\<exists>c. child_role ir i r = Some (Some c) \<and> reads ir c x)"

text \<open>An assignment to a variable does not read its target.\<close>

definition instruction_reads :: "'f hir_program \<Rightarrow> nat \<Rightarrow> string \<Rightarrow> bool" where
  "instruction_reads ir i x \<longleftrightarrow>
     (let op = opcode (hir_node_at ir i) in
      if op \<in> {IR_VARIABLE_DECL, IR_REASSIGN, IR_PRINT, IR_RETURN} then role_reads ir i EDGE_VALUE x
      else if op = IR_ASSIGN then role_reads ir i EDGE_VALUE x
        \<or> (\<exists>t. child_role ir i EDGE_TARGET = Some (Some t) \<and> opcode (hir_node_at ir t) \<noteq> IR_VARIABLE \<and> reads ir t x)
      else reads ir i x)"

definition instruction_writes :: "'f hir_program \<Rightarrow> nat \<Rightarrow> string \<Rightarrow> bool" where
  "instruction_writes ir i x \<longleftrightarrow>
     (let op = opcode (hir_node_at ir i) in
      op = IR_VARIABLE_DECL \<and> child_role ir i EDGE_VALUE \<noteq> Some None \<and> node_text ir i = Some x
      \<or> op = IR_REASSIGN \<and> node_text ir i = Some x
      \<or> op = IR_ASSIGN \<and> (\<exists>t. child_role ir i EDGE_TARGET = Some (Some t) \<and> opcode (hir_node_at ir t) = IR_VARIABLE
          \<and> node_text ir t = Some x))"

definition block_reads :: "'f hir_program \<Rightarrow> block \<Rightarrow> string \<Rightarrow> bool" where
  "block_reads ir blk x \<longleftrightarrow> (\<exists>c. condition blk = Some c \<and> reads ir c x) \<or> (\<exists>i. instruction blk = Some i \<and> instruction_reads ir i x)"

definition block_writes :: "'f hir_program \<Rightarrow> block \<Rightarrow> string \<Rightarrow> bool" where
  "block_writes ir blk x \<longleftrightarrow> (\<exists>i. instruction blk = Some i \<and> instruction_writes ir i x)"

fun event_reads :: "'f hir_program \<Rightarrow> event \<Rightarrow> string \<Rightarrow> bool" where
  "event_reads ir (Run i) x = instruction_reads ir i x"
| "event_reads ir (Test c v) x = reads ir c x"

fun event_writes :: "'f hir_program \<Rightarrow> event \<Rightarrow> string \<Rightarrow> bool" where
  "event_writes ir (Run i) x = instruction_writes ir i x"
| "event_writes ir (Test c v) x = False"

section \<open>The variable set\<close>

lemma variable_set_add_props:
  "distinct vs \<Longrightarrow> distinct (variable_set_add vs n)" "set (variable_set_add vs n) = set vs \<union> set_option n"
  by (auto simp: variable_set_add_def split: option.splits)

lemma fold_add_props:
  "distinct vs \<Longrightarrow> distinct (fold (\<lambda>p vs. variable_set_add vs (Some p)) ps vs)"
  "set (fold (\<lambda>p vs. variable_set_add vs (Some p)) ps vs) = set vs \<union> set ps"
  by (induction ps arbitrary: vs) (auto simp: variable_set_add_props)

definition node_variables :: "'f hir_node \<Rightarrow> string set" where
  "node_variables n = (if opcode n \<in> {IR_VARIABLE, IR_VARIABLE_DECL, IR_REASSIGN} then set_option (value_text (node_value n)) else {})
     \<union> (if opcode n = IR_FUNCTION then set (names n) else {})"

lemma collect_node_props:
  "distinct vs \<Longrightarrow> distinct (collect_node_variables n vs)" "set (collect_node_variables n vs) = set vs \<union> node_variables n"
  by (auto simp: collect_node_variables_def Let_def fold_add_props variable_set_add_props node_variables_def)

lemma fold_collect_props:
  "distinct vs \<Longrightarrow> distinct (fold collect_node_variables ns vs)"
  "set (fold collect_node_variables ns vs) = set vs \<union> (\<Union>n \<in> set ns. node_variables n)"
  by (induction ns arbitrary: vs) (auto simp: collect_node_props)

lemma collect_variables_props:
  "distinct (collect_variables ir)" "set (collect_variables ir) = (\<Union>n \<in> set (nodes ir). node_variables n)"
  by (simp_all add: collect_variables_def fold_collect_props)

lemma collect_variables_node: "i < node_count ir \<Longrightarrow> node_variables (hir_node_at ir i) \<subseteq> set (collect_variables ir)"
  using collect_variables_props(2) [of ir] nth_mem [of i "nodes ir"] by blast

lemma reads_collected: "reads ir n x \<Longrightarrow> x \<in> set (collect_variables ir)"
  by (induction rule: reads.induct) (auto dest!: collect_variables_node simp: node_variables_def)

lemma block_reads_collected: "block_reads ir blk x \<Longrightarrow> x \<in> set (collect_variables ir)"
  by (auto simp: block_reads_def instruction_reads_def role_reads_def Let_def split: if_splits dest: reads_collected)

section \<open>Rows as sets of variables\<close>

definition represents :: "string list \<Rightarrow> bool list \<Rightarrow> (string \<Rightarrow> bool) \<Rightarrow> bool" where
  "represents vs bits P \<longleftrightarrow> length bits = length vs \<and> (\<forall>v < length vs. bits ! v \<longleftrightarrow> P (vs ! v))"

lemma represents_none: "represents vs (replicate (length vs) False) (\<lambda>_. False)"
  by (simp add: represents_def)

lemma represents_cong: "represents vs bits P \<Longrightarrow> (\<And>x. x \<in> set vs \<Longrightarrow> P x = Q x) \<Longrightarrow> represents vs bits Q"
  by (simp add: represents_def)

lemma variable_index_Some: "distinct vs \<Longrightarrow> v < length vs \<Longrightarrow> variable_index vs (Some (vs ! v)) = Some v"
  by (auto simp: variable_index_def find_Some_iff nth_eq_iff_index_eq intro!: exI [of _ v])

lemma variable_index_None: "variable_index vs (Some x) = None \<longleftrightarrow> x \<notin> set vs"
  by (auto simp: variable_index_def find_None_iff in_set_conv_nth)

lemma mark_variable_represents:
  assumes "distinct vs" "represents vs bits P"
  shows "represents vs (mark_variable bits vs name) (\<lambda>x. P x \<or> name = Some x)"
proof (cases "\<exists>v < length vs. name = Some (vs ! v)")
  case True
  then obtain v where "v < length vs" "name = Some (vs ! v)" by blast
  with assms show ?thesis
    by (auto simp: represents_def mark_variable_def variable_index_Some nth_list_update nth_eq_iff_index_eq)
next
  case False
  then have "variable_index vs name = None"
    by (cases name) (auto simp: variable_index_None in_set_conv_nth, simp add: variable_index_def)
  with False assms(2) show ?thesis by (auto simp: represents_def mark_variable_def)
qed

lemma fold_option_represents:
  assumes "represents vs bits P" and "\<And>c bits P. c \<in> set cs \<Longrightarrow> represents vs bits P \<Longrightarrow>
      wp (f c bits) (\<lambda>bits'. represents vs bits' (\<lambda>x. P x \<or> Q c x))"
  shows "wp (fold_option f cs bits) (\<lambda>bits'. represents vs bits' (\<lambda>x. P x \<or> (\<exists>c \<in> set cs. Q c x)))"
  using assms
proof (induction cs arbitrary: bits P)
  case (Cons c cs)
  from Cons.prems(2) [OF _ Cons.prems(1), of c] obtain bits' where
    b: "f c bits = Some bits'" "represents vs bits' (\<lambda>x. P x \<or> Q c x)" by (auto simp: wp_iff)
  from Cons.IH [OF b(2)] Cons.prems(2) b(1) show ?case by (simp add: disj_assoc)
qed simp

lemma collect_expression_reads_represents:
  assumes "hir_tree ir" "distinct vs" "represents vs bits P" "n < node_count ir" "rank ir n < k"
  shows "wp (collect_expression_reads k ir vs (Some n) bits) (\<lambda>bits'. represents vs bits' (\<lambda>x. P x \<or> reads ir n x))"
  using assms(3-5)
proof (induction k arbitrary: n bits P)
  case (Suc k)
  show ?case
  proof (cases "opcode (hir_node_at ir n) = IR_VARIABLE")
    case True
    then have r: "reads ir n = (\<lambda>x. node_text ir n = Some x)" using Suc.prems(2) by (intro ext, subst reads_iff) simp
    from mark_variable_represents [OF assms(2) Suc.prems(1), of "node_text ir n"] True Suc.prems(2)
    show ?thesis by (simp add: r)
  next
    case False
    have kid: "c < node_count ir \<and> rank ir c < k" if "c \<in> set (kids ir n)" for c
    proof -
      have "(c, n) \<in> child_rel ir" using that Suc.prems(2) by (simp add: child_rel_def)
      from hir_tree_range [OF assms(1) this] rank_child [OF assms(1) this] Suc.prems(3) show ?thesis by simp
    qed
    have r: "reads ir n = (\<lambda>x. \<exists>c \<in> set (kids ir n). reads ir c x)"
      using False Suc.prems(2) by (intro ext, subst reads_iff) auto
    have "wp (fold_option (\<lambda>c uses. collect_expression_reads k ir vs (Some c) uses) (kids ir n) bits)
        (\<lambda>bits'. represents vs bits' (\<lambda>x. P x \<or> (\<exists>c \<in> set (kids ir n). reads ir c x)))"
    proof (rule fold_option_represents [OF Suc.prems(1)])
      fix c bits P assume c: "c \<in> set (kids ir n)" and r: "represents vs bits P"
      from Suc.IH [OF r] kid [OF c] show "wp (collect_expression_reads k ir vs (Some c) bits)
          (\<lambda>bits'. represents vs bits' (\<lambda>x. P x \<or> reads ir c x))" by simp
    qed
    then show ?thesis using False Suc.prems(2) hir_tree_children [OF assms(1) Suc.prems(2)] unfolding r by simp
  qed
qed simp

lemma expression_reads_represents:
  assumes "hir_tree ir" "distinct vs" "represents vs bits P" "case n of None \<Rightarrow> True | Some n \<Rightarrow> n < node_count ir"
  shows "wp (expression_reads ir vs n bits) (\<lambda>bits'. represents vs bits' (\<lambda>x. P x \<or> (\<exists>c. n = Some c \<and> reads ir c x)))"
proof (cases n)
  case None
  from assms(1) have "node_count ir \<noteq> 0" by (auto simp: hir_tree_def)
  with None assms(3) show ?thesis by (cases "node_count ir") (auto simp: expression_reads_def)
next
  case (Some c)
  with collect_expression_reads_represents [OF assms(1-3), of c] rank_bound [OF assms(1)] assms(4)
  show ?thesis by (simp add: expression_reads_def)
qed

section \<open>Blocks\<close>

lemma child_role_tree:
  assumes "hir_tree ir" "i < node_count ir"
  obtains "child_role ir i r = Some None" | c where "child_role ir i r = Some (Some c)" "c < node_count ir"
proof -
  obtain v where "child_role ir i r = Some v" using hir_tree_children [OF assms] assms(2) by (simp add: child_role_def)
  with that child_role_range [OF assms] show thesis by (cases v) auto
qed

text \<open>Reading the child with a role, NULL included.\<close>

lemma role_reads_represents:
  assumes "hir_tree ir" "distinct vs" "represents vs uses P" "i < node_count ir"
  obtains v uses' where "child_role ir i r = Some v" "expression_reads ir vs v uses = Some uses'"
    "represents vs uses' (\<lambda>x. P x \<or> role_reads ir i r x)"
proof (rule child_role_tree [OF assms(1,4), of r])
  assume v: "child_role ir i r = Some None"
  with expression_reads_represents [OF assms(1-3), of None] that [OF v] show thesis
    by (auto simp: wp_iff role_reads_def)
next
  fix c assume v: "child_role ir i r = Some (Some c)" and c: "c < node_count ir"
  with expression_reads_represents [OF assms(1-3), of "Some c"] that [OF v] show thesis
    by (auto simp: wp_iff role_reads_def)
qed

definition effects_ok :: "string list \<Rightarrow> (string \<Rightarrow> bool) \<Rightarrow> (string \<Rightarrow> bool) \<Rightarrow> bool list \<times> bool list \<Rightarrow> bool" where
  "effects_ok vs R W = (\<lambda>(u, d). represents vs u R \<and> represents vs d W)"

lemma instruction_effects_represents:
  assumes t: "hir_tree ir" and d: "distinct vs" and u: "represents vs uses P" and e: "represents vs defs Q" and i: "i < node_count ir"
  shows "wp (instruction_effects ir vs i (uses, defs))
    (effects_ok vs (\<lambda>x. P x \<or> instruction_reads ir i x) (\<lambda>x. Q x \<or> instruction_writes ir i x))"
proof -
  let ?op = "opcode (hir_node_at ir i)"
  note defs = instruction_effects_def effects_ok_def instruction_reads_def instruction_writes_def Let_def
  obtain v u1 where v: "child_role ir i EDGE_VALUE = Some v" "expression_reads ir vs v uses = Some u1"
    "represents vs u1 (\<lambda>x. P x \<or> role_reads ir i EDGE_VALUE x)" by (rule role_reads_represents [OF t d u i])
  note m = mark_variable_represents [OF d e, of "node_text ir i"]
  consider "?op = IR_VARIABLE_DECL" | "?op = IR_REASSIGN" | "?op = IR_PRINT \<or> ?op = IR_RETURN" | "?op = IR_ASSIGN"
    | "?op \<notin> {IR_VARIABLE_DECL, IR_REASSIGN, IR_PRINT, IR_RETURN, IR_ASSIGN}" by auto
  then show ?thesis
  proof cases
    case 1
    show ?thesis
    proof (cases v)
      case None
      with v(1) have "\<not> role_reads ir i EDGE_VALUE x" for x by (simp add: role_reads_def)
      with 1 None v(1) u e show ?thesis by (simp add: defs)
    next
      case (Some c)
      with 1 v m show ?thesis by (simp add: defs)
    qed
  next
    case 2
    with v m show ?thesis by (simp add: defs)
  next
    case 3
    with v e show ?thesis by (auto simp: defs)
  next
    case 4
    show ?thesis
    proof (rule child_role_tree [OF t i, of EDGE_TARGET])
      assume n: "child_role ir i EDGE_TARGET = Some None"
      from expression_reads_represents [OF t d u, of None] obtain u0 where
        u0: "expression_reads ir vs None uses = Some u0" "represents vs u0 P" by (auto simp: wp_iff)
      obtain v' u2 where "child_role ir i EDGE_VALUE = Some v'" "expression_reads ir vs v' u0 = Some u2"
        "represents vs u2 (\<lambda>x. P x \<or> role_reads ir i EDGE_VALUE x)" by (rule role_reads_represents [OF t d u0(2) i])
      with 4 n u0 e show ?thesis by (simp add: defs)
    next
      fix tg assume n: "child_role ir i EDGE_TARGET = Some (Some tg)" and tg: "tg < node_count ir"
      show ?thesis
      proof (cases "opcode (hir_node_at ir tg) = IR_VARIABLE")
        case True
        with 4 n v mark_variable_represents [OF d e, of "node_text ir tg"] show ?thesis by (simp add: defs)
      next
        case False
        from expression_reads_represents [OF t d u, of "Some tg"] tg obtain u0 where
          u0: "expression_reads ir vs (Some tg) uses = Some u0" "represents vs u0 (\<lambda>x. P x \<or> reads ir tg x)" by (auto simp: wp_iff)
        obtain v' u2 where "child_role ir i EDGE_VALUE = Some v'" "expression_reads ir vs v' u0 = Some u2"
          "represents vs u2 (\<lambda>x. (P x \<or> reads ir tg x) \<or> role_reads ir i EDGE_VALUE x)" by (rule role_reads_represents [OF t d u0(2) i])
        with 4 n u0 e False show ?thesis by (simp add: defs) (erule represents_cong, blast)
      qed
    qed
  next
    case 5
    from expression_reads_represents [OF t d u, of "Some i"] i 5 e show ?thesis by (auto simp: defs wp_iff)
  qed
qed

lemma collect_block_effects_represents:
  assumes t: "hir_tree ir" and d: "distinct vs" and ok: "block_nodes_ok ir blk"
  shows "wp (collect_block_effects ir vs blk (replicate (length vs) False, replicate (length vs) False))
    (effects_ok vs (block_reads ir blk) (block_writes ir blk))"
proof -
  let ?z = "replicate (length vs) False"
  have "case condition blk of None \<Rightarrow> True | Some c \<Rightarrow> c < node_count ir" using ok by (simp add: block_nodes_ok_def)
  from expression_reads_represents [OF t d represents_none this] obtain u where
    u: "(if condition blk = None then Some ?z else expression_reads ir vs (condition blk) ?z) = Some u"
    "represents vs u (\<lambda>x. \<exists>c. condition blk = Some c \<and> reads ir c x)"
    using represents_none by (cases "condition blk") (auto simp: wp_iff)
  show ?thesis
  proof (cases "instruction blk")
    case None
    then have "block_reads ir blk = (\<lambda>x. \<exists>c. condition blk = Some c \<and> reads ir c x)" "block_writes ir blk = (\<lambda>_. False)"
      by (simp_all add: fun_eq_iff block_reads_def block_writes_def)
    with u represents_none None show ?thesis by (simp add: collect_block_effects_def effects_ok_def)
  next
    case (Some i)
    with ok have i: "i < node_count ir" by (simp add: block_nodes_ok_def)
    then have "block_reads ir blk = (\<lambda>x. (\<exists>c. condition blk = Some c \<and> reads ir c x) \<or> instruction_reads ir i x)"
      "block_writes ir blk = (\<lambda>x. False \<or> instruction_writes ir i x)"
      using Some by (simp_all add: fun_eq_iff block_reads_def block_writes_def)
    with instruction_effects_represents [OF t d u(2) represents_none i] u(1) Some
    show ?thesis by (simp add: collect_block_effects_def)
  qed
qed

lemma block_effects_represents:
  assumes "hir_tree ir" "distinct vs" "list_all (block_nodes_ok ir) bs"
  obtains us ds where "block_effects ir vs bs = Some (us, ds)" "length us = length bs" "length ds = length bs"
    "\<And>b. b < length bs \<Longrightarrow> represents vs (us ! b) (block_reads ir (bs ! b)) \<and> represents vs (ds ! b) (block_writes ir (bs ! b))"
  using assms(3)
proof (induction bs arbitrary: thesis)
  case (Cons blk bs)
  from collect_block_effects_represents [OF assms(1,2), of blk] Cons.prems(2) obtain u d where
    1: "collect_block_effects ir vs blk (replicate (length vs) False, replicate (length vs) False) = Some (u, d)"
      "represents vs u (block_reads ir blk)" "represents vs d (block_writes ir blk)" by (auto simp: wp_iff effects_ok_def)
  from Cons.prems(2) obtain us ds where 2: "block_effects ir vs bs = Some (us, ds)" "length us = length bs" "length ds = length bs"
    "\<And>b. b < length bs \<Longrightarrow> represents vs (us ! b) (block_reads ir (bs ! b)) \<and> represents vs (ds ! b) (block_writes ir (bs ! b))"
    using Cons.IH by auto
  show thesis
  proof (rule Cons.prems(1) [of "u # us" "d # ds"])
    show "represents vs ((u # us) ! b) (block_reads ir ((blk # bs) ! b)) \<and> represents vs ((d # ds) ! b) (block_writes ir ((blk # bs) ! b))"
      if "b < length (blk # bs)" for b using that 1 2(4) by (cases b) auto
  qed (use 1 2 in auto)
qed simp

end
