(* ===== verification/CfgAssign.thy ===== *)
theory CfgAssign
  imports CfgEffects
begin

text \<open>
  The definite-assignment check: its loop ends in the greatest solution of the dataflow equations,
  every missing bit of which is explained by a path from an entry.
\<close>

section \<open>Matrices of bits\<close>

definition rows_ok :: "nat \<Rightarrow> nat \<Rightarrow> bool list list \<Rightarrow> bool" where
  "rows_ok n vars m \<longleftrightarrow> length m = n \<and> (\<forall>b < n. length (m ! b) = vars)"

definition true_count :: "bool list list \<Rightarrow> nat" where
  "true_count m = sum_list (map (\<lambda>r. length (filter id r)) m)"

lemma rows_ok_update: "rows_ok n vars m \<Longrightarrow> length r = vars \<Longrightarrow> rows_ok n vars (m[b := r])"
  by (cases "b < n") (auto simp: rows_ok_def nth_list_update list_update_beyond)

lemma rows_ok_all: "rows_ok n vars (all_rows n vars x)"
  by (simp add: rows_ok_def all_rows_def)

lemma all_rows_nth [simp]: "b < n \<Longrightarrow> v < vars \<Longrightarrow> all_rows n vars x ! b ! v = x"
  by (simp add: all_rows_def)

lemma filter_id_le:
  assumes "length r = length r'" "\<And>v. v < length r \<Longrightarrow> r ! v \<Longrightarrow> r' ! v"
  shows "length (filter id r) \<le> length (filter id r') \<and> (r \<noteq> r' \<longrightarrow> length (filter id r) < length (filter id r'))"
proof -
  have "list_all2 (\<longrightarrow>) r r'" using assms by (simp add: list_all2_conv_all_nth)
  then show ?thesis by (induction rule: list_all2_induct) auto
qed

text \<open>Lowering a row lowers the count.\<close>

lemma true_count_update:
  assumes "rows_ok n vars m" "b < n" "length r = vars" "\<And>v. v < vars \<Longrightarrow> r ! v \<Longrightarrow> m ! b ! v"
  shows "true_count (m[b := r]) \<le> true_count m" "r \<noteq> m ! b \<Longrightarrow> true_count (m[b := r]) < true_count m"
proof -
  let ?c = "\<lambda>r. length (filter id r)" and ?w = "map (\<lambda>r. length (filter id r)) m"
  have b: "b < length ?w" "length (m ! b) = vars" using assms(1,2) by (auto simp: rows_ok_def)
  have w: "true_count (m[b := r]) = sum_list ?w + ?c r - ?c (m ! b)"
    using b(1) by (simp add: true_count_def map_update sum_list_update)
  have le: "?c (m ! b) \<le> sum_list ?w" using member_le_sum_list [of "?c (m ! b)" ?w] b(1) by force
  have f: "?c r \<le> ?c (m ! b)" "r \<noteq> m ! b \<Longrightarrow> ?c r < ?c (m ! b)"
    using filter_id_le [of r "m ! b"] assms(3,4) b(2) by simp_all
  have m: "true_count m = sum_list ?w" by (simp add: true_count_def)
  show "true_count (m[b := r]) \<le> true_count m" unfolding w m using le f(1) by linarith
  show "true_count (m[b := r]) < true_count m" if "r \<noteq> m ! b" unfolding w m using le f(2) [OF that] by linarith
qed

section \<open>The iteration\<close>

definition explained :: "cfg \<Rightarrow> nat \<Rightarrow> bool list list \<Rightarrow> bool list list \<Rightarrow> (nat \<Rightarrow> nat \<Rightarrow> bool) \<Rightarrow> bool" where
  "explained g vars seed defs B \<longleftrightarrow> (\<forall>b < block_count g. \<forall>v < vars.
     (b \<in> set (entries g) \<longrightarrow> \<not> seed ! b ! v \<longrightarrow> B b v)
     \<and> (b \<notin> set (entries g) \<longrightarrow> (\<exists>p < block_count g. block_has_predecessor g p b))
     \<and> (\<forall>p < block_count g. block_has_predecessor g p b \<longrightarrow> B p v \<longrightarrow> \<not> defs ! p ! v \<longrightarrow> B b v))"

definition assign_inv :: "cfg \<Rightarrow> nat \<Rightarrow> bool list list \<Rightarrow> bool list list \<Rightarrow> (nat \<Rightarrow> nat \<Rightarrow> bool) \<Rightarrow> rows \<Rightarrow> bool" where
  "assign_inv g vars seed defs B = (\<lambda>(inn, out).
     rows_ok (block_count g) vars seed \<and> rows_ok (block_count g) vars inn \<and> rows_ok (block_count g) vars out
     \<and> explained g vars seed defs B
     \<and> (\<forall>b < block_count g. \<forall>v < vars.
          (assign_row g vars seed b out ! v \<longrightarrow> inn ! b ! v) \<and> (inn ! b ! v \<or> defs ! b ! v \<longrightarrow> out ! b ! v)
          \<and> (\<not> inn ! b ! v \<longrightarrow> B b v) \<and> (\<not> out ! b ! v \<longrightarrow> B b v \<and> \<not> defs ! b ! v)))"

lemma assign_row_mono:
  assumes "\<And>p. p < block_count g \<Longrightarrow> out' ! p ! v \<Longrightarrow> out ! p ! v" "v < vars" "assign_row g vars seed b out' ! v"
  shows "assign_row g vars seed b out ! v"
  using assms by (auto simp: assign_row_def incoming_def Let_def list_all_iff filter_empty_conv split: if_splits)

lemma assign_row_explained:
  assumes "explained g vars seed defs B" "b < block_count g" "v < vars" "\<not> assign_row g vars seed b out ! v"
    and "\<And>p. p < block_count g \<Longrightarrow> \<not> out ! p ! v \<Longrightarrow> B p v \<and> \<not> defs ! p ! v"
  shows "B b v"
proof (cases "b \<in> set (entries g)")
  case True
  with assms show ?thesis by (auto simp: assign_row_def explained_def)
next
  case False
  from assms(1-3) False obtain p0 where p0: "p0 < block_count g" "block_has_predecessor g p0 b" unfolding explained_def by blast
  from False assms(3,4) have "\<not> incoming g b out v" by (simp add: assign_row_def)
  with p0 obtain p where "p < block_count g" "block_has_predecessor g p b" "\<not> out ! p ! v"
    by (auto simp: incoming_def Let_def list_all_iff filter_empty_conv)
  with assms(1-3,5) show ?thesis unfolding explained_def by blast
qed

lemma assign_update_ok:
  assumes inv: "assign_inv g vars seed defs B (inn, out)" and b: "b < block_count g"
    and u: "assign_update g vars seed defs b (inn, out) = ((inn', out'), c)"
  shows "assign_inv g vars seed defs B (inn', out')
    \<and> (if c then true_count inn' + true_count out' < true_count inn + true_count out else (inn', out') = (inn, out))"
proof -
  let ?n = "block_count g"
  define bin where "bin = assign_row g vars seed b out"
  define bout where "bout = map (\<lambda>v. bin ! v \<or> defs ! b ! v) [0..<vars]"
  have e: "inn' = inn[b := bin]" "out' = out[b := bout]" "c \<longleftrightarrow> bin \<noteq> inn ! b \<or> bout \<noteq> out ! b"
    using u by (auto simp: assign_update_def Let_def bin_def bout_def)
  have ok: "rows_ok ?n vars seed" "rows_ok ?n vars inn" "rows_ok ?n vars out" "explained g vars seed defs B"
    and i: "\<And>b v. b < ?n \<Longrightarrow> v < vars \<Longrightarrow> assign_row g vars seed b out ! v \<Longrightarrow> inn ! b ! v"
      "\<And>b v. b < ?n \<Longrightarrow> v < vars \<Longrightarrow> inn ! b ! v \<or> defs ! b ! v \<Longrightarrow> out ! b ! v"
      "\<And>b v. b < ?n \<Longrightarrow> v < vars \<Longrightarrow> \<not> inn ! b ! v \<Longrightarrow> B b v"
      "\<And>b v. b < ?n \<Longrightarrow> v < vars \<Longrightarrow> \<not> out ! b ! v \<Longrightarrow> B b v \<and> \<not> defs ! b ! v"
    using inv by (auto simp: assign_inv_def)
  have len: "length bin = vars" "length bout = vars" using ok(1) b by (auto simp: bin_def bout_def assign_row_def rows_ok_def)
  have bb: "b < length inn" "b < length out" using ok(2,3) b by (simp_all add: rows_ok_def)
  have le: "inn ! b ! v" if "bin ! v" "v < vars" for v using i(1) [OF b that(2)] that(1) by (simp add: bin_def)
  have lo: "out ! b ! v" if "bout ! v" "v < vars" for v
    using that le [of v] i(2) [OF b that(2)] by (auto simp: bout_def)
  have down: "out ! p ! v" if "out' ! p ! v" "p < ?n" "v < vars" for p v
    using that lo [of v] bb(2) by (cases "p = b") (auto simp: e(2))
  have ex: "B b v" if "\<not> bin ! v" "v < vars" for v
    by (rule assign_row_explained [OF ok(4) b that(2)]) (use that i(4) in \<open>auto simp: bin_def\<close>)
  have "assign_inv g vars seed defs B (inn', out')" unfolding assign_inv_def case_prod_conv
  proof (intro conjI allI impI)
    show "rows_ok ?n vars inn'" "rows_ok ?n vars out'" using ok(2,3) len by (auto simp: e rows_ok_update)
    fix x v assume x: "x < ?n" "v < vars"
    show "inn' ! x ! v" if "assign_row g vars seed x out' ! v"
    proof -
      have r: "assign_row g vars seed x out ! v" by (rule assign_row_mono [OF _ x(2) that]) (use down x(2) in blast)
      with i(1) [OF x] show ?thesis using bb(1) by (cases "x = b") (auto simp: e(1) bin_def)
    qed
    show "out' ! x ! v" if "inn' ! x ! v \<or> defs ! x ! v"
      using that i(2) [OF x] bb x by (cases "x = b") (auto simp: e bout_def)
    show "B x v" if "\<not> inn' ! x ! v" using that ex [of v] i(3) [OF x] bb x(2) by (cases "x = b") (auto simp: e)
    show "B x v" "\<not> defs ! x ! v" if "\<not> out' ! x ! v"
      using that ex [of v] i(4) [OF x] bb x(2) by (cases "x = b"; auto simp: e bout_def)+
  qed (use ok in auto)
  moreover have "if c then true_count inn' + true_count out' < true_count inn + true_count out else (inn', out') = (inn, out)"
  proof -
    note t1 = true_count_update [OF ok(2) b len(1) le] and t2 = true_count_update [OF ok(3) b len(2) lo]
    show ?thesis using t1 t2 by (cases "bin = inn ! b"; cases "bout = out ! b") (auto simp: e intro: add_le_less_mono add_less_le_mono)
  qed
  ultimately show ?thesis by blast
qed

interpretation assignment: round_robin "assign_update g vars seed defs" "[0..<block_count g]" "assign_inv g vars seed defs B"
    "\<lambda>(inn, out). true_count inn + true_count out" for g vars seed defs B
proof
  fix s b s' c
  assume "assign_inv g vars seed defs B s" "b \<in> set [0..<block_count g]" "assign_update g vars seed defs b s = (s', c)"
  then show "assign_inv g vars seed defs B s' \<and> (if c then (case s' of (inn, out) \<Rightarrow> true_count inn + true_count out)
      < (case s of (inn, out) \<Rightarrow> true_count inn + true_count out) else s' = s)"
    using assign_update_ok [of g vars seed defs B "fst s" "snd s" b "fst s'" "snd s'" c]
    by (cases s; cases s') (simp split: if_splits)
qed

lemma assign_solution_ok:
  assumes "rows_ok (block_count g) vars seed" "explained g vars seed defs B"
  obtains inn out where "assign_solution g vars seed defs = Some (inn, out)"
    "\<And>b v. b < block_count g \<Longrightarrow> v < vars \<Longrightarrow> inn ! b ! v = assign_row g vars seed b out ! v"
    "\<And>b v. b < block_count g \<Longrightarrow> v < vars \<Longrightarrow> out ! b ! v = (inn ! b ! v \<or> defs ! b ! v)"
    "\<And>b v. b < block_count g \<Longrightarrow> v < vars \<Longrightarrow> \<not> inn ! b ! v \<Longrightarrow> B b v"
proof -
  let ?n = "block_count g"
  have "assign_inv g vars seed defs B (all_rows ?n vars True, all_rows ?n vars True)"
    using assms by (simp add: assign_inv_def rows_ok_all)
  from assignment.repeat_pass_returns [OF this] obtain inn out where
    s: "assign_solution g vars seed defs = Some (inn, out)" "assign_inv g vars seed defs B (inn, out)"
    and st: "\<And>b. b < ?n \<Longrightarrow> assign_update g vars seed defs b (inn, out) = ((inn, out), False)"
    by (auto simp: assign_solution_def)
  have eq: "inn ! b = assign_row g vars seed b out"
    "out ! b = map (\<lambda>v. assign_row g vars seed b out ! v \<or> defs ! b ! v) [0..<vars]" if "b < ?n" for b
    using st [OF that] by (auto simp: assign_update_def Let_def)
  show thesis
  proof (rule that [OF s(1)])
    show "out ! b ! v = (inn ! b ! v \<or> defs ! b ! v)" if "b < ?n" "v < vars" for b v using that by (simp add: eq)
    show "B b v" if "b < ?n" "v < vars" "\<not> inn ! b ! v" for b v using that s(2) by (simp add: assign_inv_def)
  qed (simp add: eq)
qed

section \<open>Seeds\<close>

text \<open>What a body may read from the start: nothing in the main program, the globals and the parameters in a function.\<close>

definition global_variable :: "'f hir_program \<Rightarrow> string \<Rightarrow> bool" where
  "global_variable ir x \<longleftrightarrow> (\<exists>c \<in> set (kids ir (root ir)). role (hir_node_at ir c) = EDGE_STATEMENT
     \<and> opcode (hir_node_at ir c) = IR_VARIABLE_DECL \<and> child_role ir c EDGE_VALUE \<noteq> Some None \<and> node_text ir c = Some x)"

definition entry_variable :: "'f hir_program \<Rightarrow> nat \<Rightarrow> string \<Rightarrow> bool" where
  "entry_variable ir j x \<longleftrightarrow> 0 < j \<and> (global_variable ir x
     \<or> x \<in> set (names (hir_node_at ir (filter (is_function ir) [0..<node_count ir] ! (j - 1)))))"

lemma collect_globals_represents:
  assumes t: "hir_tree ir" and d: "distinct vs"
  obtains globals where "collect_globals ir vs = Some globals" "represents vs globals (global_variable ir)"
proof -
  let ?Q = "\<lambda>c x. role (hir_node_at ir c) = EDGE_STATEMENT \<and> opcode (hir_node_at ir c) = IR_VARIABLE_DECL
    \<and> child_role ir c EDGE_VALUE \<noteq> Some None \<and> node_text ir c = Some x"
  have root: "root ir < node_count ir" using t by (simp add: hir_tree_def)
  have "wp (fold_option (mark_global ir vs) (kids ir (root ir)) (replicate (length vs) False))
      (\<lambda>bits. represents vs bits (\<lambda>x. False \<or> (\<exists>c \<in> set (kids ir (root ir)). ?Q c x)))"
  proof (rule fold_option_represents [OF represents_none])
    fix c bits P assume "c \<in> set (kids ir (root ir))" and r: "represents vs bits P"
    then have c: "c < node_count ir" using hir_tree_range [OF t, of c] root by (simp add: child_rel_def)
    show "wp (mark_global ir vs c bits) (\<lambda>bits'. represents vs bits' (\<lambda>x. P x \<or> ?Q c x))"
      using r mark_variable_represents [OF d r, of "node_text ir c"]
      by (rule_tac child_role_tree [OF t c, of EDGE_VALUE])
        (auto simp: mark_global_def elim!: represents_cong)
  qed
  moreover have "global_variable ir = (\<lambda>x. \<exists>c \<in> set (kids ir (root ir)). ?Q c x)" by (simp add: fun_eq_iff global_variable_def)
  ultimately show thesis using that hir_tree_children [OF t root] by (auto simp: collect_globals_def wp_iff)
qed

lemma fold_mark_represents:
  "distinct vs \<Longrightarrow> represents vs bits P \<Longrightarrow>
     represents vs (fold (\<lambda>p bits. mark_variable bits vs (Some p)) ps bits) (\<lambda>x. P x \<or> x \<in> set ps)"
proof (induction ps arbitrary: bits P)
  case (Cons p ps)
  from Cons.IH [OF Cons.prems(1) mark_variable_represents [OF Cons.prems, of "Some p"]] show ?case
    by (auto elim!: represents_cong)
qed simp

text \<open>Updates of rows one after the other.\<close>

lemma fold_seed_length [simp]: "length (fold (\<lambda>(i, e) seed. seed[e := h i (seed ! e)]) ps seed) = length seed"
  by (induction ps arbitrary: seed) auto

lemma fold_seed_other:
  "b \<notin> snd ` set ps \<Longrightarrow> fold (\<lambda>(i, e) seed. seed[e := h i (seed ! e)]) ps seed ! b = seed ! b"
  by (induction ps arbitrary: seed) auto

lemma fold_seed_nth:
  assumes "k < length ps" "snd (ps ! k) < length seed" "\<And>l. l < length ps \<Longrightarrow> l \<noteq> k \<Longrightarrow> snd (ps ! l) \<noteq> snd (ps ! k)"
  shows "fold (\<lambda>(i, e) seed. seed[e := h i (seed ! e)]) ps seed ! snd (ps ! k) = h (fst (ps ! k)) (seed ! snd (ps ! k))"
  using assms
proof (induction ps arbitrary: k seed)
  case (Cons p ps)
  obtain i e where p: "p = (i, e)" by fastforce
  show ?case
  proof (cases k)
    case 0
    have "e \<notin> snd ` set ps"
    proof
      assume "e \<in> snd ` set ps"
      then obtain l where "l < length ps" "snd (ps ! l) = e" by (auto simp: in_set_conv_nth)
      with Cons.prems(3) [of "Suc l"] 0 p show False by simp
    qed
    with 0 p Cons.prems(2) fold_seed_other [of e ps h] show ?thesis by simp
  next
    case (Suc l)
    have ne: "snd (ps ! l) \<noteq> e" using Cons.prems(3) [of 0] Cons.prems(1) Suc p by auto
    have "fold (\<lambda>(i, e) seed. seed[e := h i (seed ! e)]) ps (seed[e := h i (seed ! e)]) ! snd (ps ! l)
        = h (fst (ps ! l)) (seed[e := h i (seed ! e)] ! snd (ps ! l))"
      by (rule Cons.IH) (use Cons.prems Suc in \<open>auto, use Cons.prems(3) in fastforce\<close>)
    with ne Suc p show ?thesis by simp
  qed
qed simp

lemma fold_const_nth: "b < length seed \<Longrightarrow> fold (\<lambda>e seed. seed[e := c]) es seed ! b = (if b \<in> set es then c else seed ! b)"
  by (induction es arbitrary: seed) (auto simp: nth_list_update)

lemma fold_const_length [simp]: "length (fold (\<lambda>e seed. seed[e := c]) es seed) = length seed"
  by (induction es arbitrary: seed) auto

lemma separate_distinct:
  "separate bs es ex \<Longrightarrow> j < length es \<Longrightarrow> k < length es \<Longrightarrow> j \<noteq> k \<Longrightarrow> es ! k \<noteq> ex \<Longrightarrow> es ! j \<noteq> es ! k"
  unfolding separate_def by (metis list.set_intros(1) reachable_from_entry)

lemma mark_variable_length [simp]: "length (mark_variable bits vs n) = length bits"
  by (simp add: mark_variable_def split: option.splits)

lemma fold_mark_length [simp]: "length (fold (\<lambda>p bits. mark_variable bits vs (Some p)) ps bits) = length bits"
  by (induction ps arbitrary: bits) auto

lemma fold_seed_rows:
  "rows_ok n vars seed \<Longrightarrow> (\<And>i bits. length (h i bits) = length bits) \<Longrightarrow> (\<And>p. p \<in> set ps \<Longrightarrow> snd p < n) \<Longrightarrow>
     rows_ok n vars (fold (\<lambda>(i, e) seed. seed[e := h i (seed ! e)]) ps seed)"
proof (induction ps arbitrary: seed)
  case (Cons p ps)
  have "rows_ok n vars (seed[snd p := h (fst p) (seed ! snd p)])"
    using Cons.prems by (intro rows_ok_update) (auto simp: rows_ok_def)
  with Cons.IH Cons.prems show ?case by (auto simp: case_prod_beta)
qed simp

lemma entry_seeds_ok:
  assumes b: "vnt_cfg_build ir = Some (Some g)" and d: "distinct vs" and gl: "represents vs globals (global_variable ir)"
  shows "rows_ok (block_count g) (length vs) (entry_seeds ir g vs globals)"
    and "\<And>j. j < length (entries g) \<Longrightarrow> entries g ! j \<noteq> exit_block g \<Longrightarrow>
      represents vs (entry_seeds ir g vs globals ! (entries g ! j)) (entry_variable ir j)"
proof -
  let ?n = "block_count g" and ?es = "entries g" and ?fs = "filter (is_function ir) [0..<node_count ir]"
  let ?z = "replicate ?n (replicate (length vs) False)"
  let ?h = "\<lambda>i bits. fold (\<lambda>p bits. mark_variable bits vs (Some p)) (names (hir_node_at ir i)) bits"
  define s0 where "s0 = seed_entries g globals ?z"
  note g = cfg_build_graph [OF b]
  have len: "length ?es = Suc (length ?fs)" using g(4) by (simp add: bodies_def)
  have lt: "e < ?n" if "e \<in> set ?es" for e using g(2) that by (simp add: vnt_cfg_validate_def list_all_iff)
  have tl: "set (tl ?es) \<subseteq> set ?es" by (cases ?es) auto
  have s0: "s0 ! e = (if e \<in> set (tl ?es) then globals else replicate (length vs) False)" if "e < ?n" for e
    using that fold_const_nth [of e ?z globals "tl ?es"] by (simp add: s0_def seed_entries_def)
  have r0: "rows_ok ?n (length vs) s0"
    unfolding rows_ok_def using s0 gl by (auto simp: represents_def) (simp add: s0_def seed_entries_def)
  have fe: "length (function_entries ir g) = length ?fs" "set (map snd (function_entries ir g)) = set (tl ?es)"
    "\<And>k. k < length ?fs \<Longrightarrow> function_entries ir g ! k = (?fs ! k, ?es ! Suc k)"
    using len by (auto simp: function_entries_def nth_tl simp flip: set_map)
  have s: "entry_seeds ir g vs globals = fold (\<lambda>(i, e) seed. seed[e := ?h i (seed ! e)]) (function_entries ir g) s0"
    by (simp add: entry_seeds_def s0_def seed_parameters_def)
  show "rows_ok ?n (length vs) (entry_seeds ir g vs globals)" unfolding s
    by (rule fold_seed_rows [OF r0]) (use fe(2) lt tl in auto)
  fix j assume j: "j < length ?es" "?es ! j \<noteq> exit_block g"
  have other: "?es ! k \<noteq> ?es ! j" if "k < length ?es" "k \<noteq> j" for k using separate_distinct [OF g(3) that(1) j(1) that(2) j(2)] .
  show "represents vs (entry_seeds ir g vs globals ! (?es ! j)) (entry_variable ir j)"
  proof (cases j)
    case 0
    have "?es ! j \<notin> set (tl ?es)"
    proof
      assume "?es ! j \<in> set (tl ?es)"
      then obtain k where "k < length (tl ?es)" "tl ?es ! k = ?es ! j" by (auto simp: in_set_conv_nth)
      with other [of "Suc k"] 0 show False by (simp add: nth_tl)
    qed
    moreover from this fe(2) have "?es ! j \<notin> snd ` set (function_entries ir g)" by auto
    ultimately have "entry_seeds ir g vs globals ! (?es ! j) = replicate (length vs) False"
      using s0 [of "?es ! j"] lt [of "?es ! j"] j(1) fold_seed_other [of "?es ! j" "function_entries ir g" ?h s0] s by simp
    moreover have "entry_variable ir j = (\<lambda>_. False)" using 0 by (simp add: fun_eq_iff entry_variable_def)
    ultimately show ?thesis using represents_none by simp
  next
    case (Suc k)
    with j(1) len have k: "k < length ?fs" by simp
    have e: "?es ! j < ?n" "?es ! j \<in> set (tl ?es)" using lt j(1) Suc nth_mem [of k "tl ?es"] by (auto simp: nth_tl)
    have ne: "snd (function_entries ir g ! l) \<noteq> snd (function_entries ir g ! k)" if "l < length (function_entries ir g)" "l \<noteq> k" for l
      using other [of "Suc l"] that fe(1,3) k Suc len by simp
    have "entry_seeds ir g vs globals ! (?es ! j) = ?h (?fs ! k) globals"
      using fold_seed_nth [of k "function_entries ir g" s0 ?h] ne k fe(1,3) Suc e s0 [OF e(1)] r0 s by (simp add: rows_ok_def)
    moreover have "entry_variable ir j = (\<lambda>x. global_variable ir x \<or> x \<in> set (names (hir_node_at ir (?fs ! k))))"
      using Suc by (simp add: fun_eq_iff entry_variable_def)
    ultimately show ?thesis using fold_mark_represents [OF d gl] by simp
  qed
qed

section \<open>The check\<close>

lemma path_snoc: "path ir bs n x tr y \<Longrightarrow> y < length bs \<Longrightarrow> (t, z) \<in> set (block_steps ir (bs ! y)) \<Longrightarrow> path ir bs (n + 1) x (tr @ t) z"
  by (rule path_trans [OF _ path_single])

lemma step_writes:
  assumes "validate_block g x" "(t, y) \<in> set (block_steps ir (block_at g x))"
  shows "(\<exists>ev \<in> set t. event_writes ir ev z) \<longleftrightarrow> block_writes ir (block_at g x) z"
  using assms
  by (cases "terminator (block_at g x)")
    (auto simp: validate_block_def Let_def block_steps_def block_writes_def test_events_def split: option.splits if_splits)

lemma step_reads:
  assumes "validate_block g x" "(t, y) \<in> set (block_steps ir (block_at g x))" "ev \<in> set t" "event_reads ir ev z"
  shows "block_reads ir (block_at g x) z"
  using assms
  by (cases "terminator (block_at g x)")
    (auto simp: validate_block_def Let_def block_steps_def block_reads_def test_events_def split: option.splits if_splits)

text \<open>Every read on every path from an entry is of a variable known there or written before.\<close>

definition reads_assigned :: "'f hir_program \<Rightarrow> cfg \<Rightarrow> bool" where
  "reads_assigned ir g \<longleftrightarrow> (\<forall>j < length (entries g). \<forall>n tr b x. path ir (blocks g) n (entries g ! j) tr b \<longrightarrow>
     b < block_count g \<longrightarrow> block_reads ir (block_at g b) x \<longrightarrow> entry_variable ir j x \<or> (\<exists>ev \<in> set tr. event_writes ir ev x))"

lemma predecessor_succs: "block_has_predecessor g p b \<longleftrightarrow> b \<in> succs (block_at g p)"
  by (simp add: block_has_predecessor_def succs_def)

lemma has_predecessor:
  assumes "b \<in> reachable_from (blocks g) (entries g)" "b \<notin> set (entries g)"
  shows "\<exists>p < block_count g. block_has_predecessor g p b"
proof -
  from assms obtain e where "e \<in> set (entries g)" "(e, b) \<in> (edge (blocks g))\<^sup>*" by (auto simp: reachable_from_def)
  moreover from this(1) assms(2) have "e \<noteq> b" by blast
  ultimately obtain p where "(p, b) \<in> edge (blocks g)" by (meson rtranclE)
  then show ?thesis by (auto simp: edge_def predecessor_succs)
qed

lemma exit_block_ends:
  assumes "vnt_cfg_build ir = Some (Some g)" "path ir (blocks g) n (exit_block g) tr b"
  shows "b = exit_block g"
  using assms(2)
proof (cases rule: path.cases)
  case (path_step t y m tr')
  have "terminator (block_at g (exit_block g)) = CFG_EXIT" by (rule cfg_build_exit [OF assms(1)])
  moreover have "validate_block g (exit_block g)"
    using cfg_build_graph(2) [OF assms(1)] by (simp add: vnt_cfg_validate_def list_all_iff)
  ultimately show ?thesis using path_step by (simp add: validate_block_def Let_def block_steps_def)
qed simp

lemma assigned_along_path:
  assumes b: "vnt_cfg_build ir = Some (Some g)" and j: "j < length (entries g)"
    and vs: "v < length vs" and defs: "\<And>b. b < block_count g \<Longrightarrow> represents vs (defs ! b) (block_writes ir (block_at g b))"
    and eqs: "\<And>b. b < block_count g \<Longrightarrow> inn ! b ! v = assign_row g (length vs) seed b out ! v"
      "\<And>b. b < block_count g \<Longrightarrow> out ! b ! v = (inn ! b ! v \<or> defs ! b ! v)"
    and p: "path ir (blocks g) n x tr y" and x: "x \<in> reachable_from (blocks g) [entries g ! j]"
    and y: "y \<noteq> exit_block g" "inn ! y ! v"
  shows "inn ! x ! v \<or> (\<exists>ev \<in> set tr. event_writes ir ev (vs ! v)) \<or> seed ! (entries g ! j) ! v"
  using p x y
proof (induction rule: path.induct)
  case (path_step x t y n tr z)
  note g = cfg_build_graph [OF b]
  have ok: "validate_block g x" using g(2) path_step(1) by (simp add: vnt_cfg_validate_def list_all_iff)
  have ys: "y \<in> succs (block_at g x)" using block_steps_succs path_step(2) by blast
  then have yr: "y \<in> reachable_from (blocks g) [entries g ! j]" using reachable_from_succ path_step by blast
  have yn: "y < block_count g" using ok ys by (auto simp: validate_block_def Let_def succs_def split: option.splits)
  have ye: "y \<noteq> exit_block g" using exit_block_ends [OF b] path_step by blast
  from path_step.IH [OF yr path_step.prems(2,3)] consider "inn ! y ! v" | "\<exists>ev \<in> set tr. event_writes ir ev (vs ! v)"
    | "seed ! (entries g ! j) ! v" by blast
  then show ?case
  proof cases
    case 1
    show ?thesis
    proof (cases "y \<in> set (entries g)")
      case True
      then obtain k where k: "k < length (entries g)" "entries g ! k = y" by (auto simp: in_set_conv_nth)
      then have "k = j" using g(3) j ye yr unfolding separate_def by blast
      with k 1 eqs(1) [OF yn] True show ?thesis by (simp add: assign_row_def)
    next
      case False
      with 1 eqs(1) [OF yn] vs have "incoming g y out v" by (simp add: assign_row_def)
      then have "out ! x ! v" using path_step(1) ys by (auto simp: incoming_def Let_def list_all_iff predecessor_succs)
      then have "inn ! x ! v \<or> block_writes ir (block_at g x) (vs ! v)"
        using eqs(2) defs vs path_step(1) by (auto simp: represents_def)
      then show ?thesis using step_writes [OF ok path_step(2)] by auto
    qed
  qed auto
qed simp

text \<open>A path from an entry on which a variable stays unassigned: what a missing bit stands for.\<close>

definition unassigned_path :: "'f hir_program \<Rightarrow> cfg \<Rightarrow> string list \<Rightarrow> bool list list \<Rightarrow> nat \<Rightarrow> nat \<Rightarrow> bool" where
  "unassigned_path ir g vs seed x v \<longleftrightarrow> (\<exists>e \<in> set (entries g). \<exists>n tr. path ir (blocks g) n e tr x
     \<and> \<not> seed ! e ! v \<and> (\<forall>ev \<in> set tr. \<not> event_writes ir ev (vs ! v)))"

lemma unassigned_path_explained:
  assumes b: "vnt_cfg_build ir = Some (Some g)"
    and ds: "\<And>x. x < block_count g \<Longrightarrow> represents vs (ds ! x) (block_writes ir (block_at g x))"
  shows "explained g (length vs) seed ds (unassigned_path ir g vs seed)"
  unfolding explained_def
proof (intro allI impI conjI)
  note g = cfg_build_graph [OF b]
  fix x v assume x: "x < block_count g" "v < length vs"
  show "unassigned_path ir g vs seed x v" if "x \<in> set (entries g)" "\<not> seed ! x ! v"
    using that path_here unfolding unassigned_path_def by fastforce
  show "\<exists>p < block_count g. block_has_predecessor g p x" if "x \<notin> set (entries g)" by (rule has_predecessor [OF g(5) [OF x(1)] that])
  fix p assume p: "p < block_count g" "block_has_predecessor g p x" "unassigned_path ir g vs seed p v" "\<not> ds ! p ! v"
  then obtain e n tr where e: "e \<in> set (entries g)" "path ir (blocks g) n e tr p" "\<not> seed ! e ! v"
    "\<forall>ev \<in> set tr. \<not> event_writes ir ev (vs ! v)" unfolding unassigned_path_def by blast
  obtain s where s: "(s, x) \<in> set (block_steps ir (block_at g p))" using cfg_build_step [OF b p(1)] p(2) by (auto simp: predecessor_succs)
  have "validate_block g p" using g(2) p(1) by (simp add: vnt_cfg_validate_def list_all_iff)
  moreover have "\<not> block_writes ir (block_at g p) (vs ! v)" using ds [OF p(1)] p(4) x(2) by (simp add: represents_def)
  ultimately have "\<forall>ev \<in> set s. \<not> event_writes ir ev (vs ! v)" using step_writes s by blast
  then show "unassigned_path ir g vs seed x v" unfolding unassigned_path_def
    using e path_snoc [OF e(2) p(1) s] by (intro bexI [OF _ e(1)] exI [of _ "n + 1"] exI [of _ "tr @ s"]) auto
qed

lemma check_exact:
  assumes b: "vnt_cfg_build ir = Some (Some g)"
  obtains r where "vnt_cfg_check_definite_assignment ir g = Some r" "r = Inr () \<longleftrightarrow> reads_assigned ir g"
proof -
  note g = cfg_build_graph [OF b]
  note t = vnt_ir_validate_tree [OF g(1)]
  let ?n = "block_count g"
  define vs where "vs = collect_variables ir"
  have d: "distinct vs" by (simp add: vs_def collect_variables_props)
  obtain us ds where e: "block_effects ir vs (blocks g) = Some (us, ds)"
    and ud: "\<And>x. x < ?n \<Longrightarrow> represents vs (us ! x) (block_reads ir (block_at g x)) \<and> represents vs (ds ! x) (block_writes ir (block_at g x))"
    using block_effects_represents [OF t d cfg_build_nodes [OF b]] by metis
  obtain globals where gl: "collect_globals ir vs = Some globals" "represents vs globals (global_variable ir)"
    by (rule collect_globals_represents [OF t d])
  define seed where "seed = entry_seeds ir g vs globals"
  note seeds = entry_seeds_ok [OF b d gl(2), folded seed_def]
  let ?B = "unassigned_path ir g vs seed"
  have valid: "validate_block g x" if "x < ?n" for x using g(2) that by (simp add: vnt_cfg_validate_def list_all_iff)
  have ex: "explained g (length vs) seed ds ?B" by (rule unassigned_path_explained [OF b]) (use ud in blast)
  obtain inn out where sol: "assign_solution g (length vs) seed ds = Some (inn, out)"
    and eq: "\<And>x v. x < ?n \<Longrightarrow> v < length vs \<Longrightarrow> inn ! x ! v = assign_row g (length vs) seed x out ! v"
      "\<And>x v. x < ?n \<Longrightarrow> v < length vs \<Longrightarrow> out ! x ! v = (inn ! x ! v \<or> ds ! x ! v)"
    and bad: "\<And>x v. x < ?n \<Longrightarrow> v < length vs \<Longrightarrow> \<not> inn ! x ! v \<Longrightarrow> ?B x v"
    by (rule assign_solution_ok [OF seeds(1) ex]) blast
  have exit: "\<not> block_reads ir (block_at g (exit_block g)) x" for x
    using cfg_build_exit [OF b] valid [of "exit_block g"] g(2)
    by (simp add: validate_block_def Let_def block_reads_def vnt_cfg_validate_def)
  have seed_iff: "seed ! (entries g ! j) ! v \<longleftrightarrow> entry_variable ir j (vs ! v)"
    if "j < length (entries g)" "entries g ! j \<noteq> exit_block g" "v < length vs" for j v
    using seeds(2) [OF that(1,2)] that(3) by (simp add: represents_def)
  have row: "us ! x ! v \<longleftrightarrow> block_reads ir (block_at g x) (vs ! v)" if "x < ?n" "v < length vs" for x v
    using ud [OF that(1)] that(2) by (simp add: represents_def)
  have "(\<forall>x < ?n. \<forall>v < length vs. us ! x ! v \<longrightarrow> inn ! x ! v) \<longleftrightarrow> reads_assigned ir g"
  proof
    assume all: "\<forall>x < ?n. \<forall>v < length vs. us ! x ! v \<longrightarrow> inn ! x ! v"
    show "reads_assigned ir g" unfolding reads_assigned_def
    proof (intro allI impI)
      fix j n tr x y assume j: "j < length (entries g)" and p: "path ir (blocks g) n (entries g ! j) tr x"
        and x: "x < ?n" and r: "block_reads ir (block_at g x) y"
      obtain v where v: "v < length vs" "vs ! v = y"
        using block_reads_collected [OF r] by (auto simp: vs_def in_set_conv_nth)
      with all r x row have "inn ! x ! v" by blast
      moreover have xe: "x \<noteq> exit_block g" using r exit by blast
      moreover have "entries g ! j \<in> reachable_from (blocks g) [entries g ! j]" by (simp add: reachable_from_entry)
      moreover have ent: "entries g ! j < ?n" "entries g ! j \<in> set (entries g)"
        using j g(2) by (auto simp: vnt_cfg_validate_def list_all_iff)
      moreover have ne: "entries g ! j \<noteq> exit_block g" using exit_block_ends [OF b] p xe by metis
      ultimately have "inn ! (entries g ! j) ! v \<or> (\<exists>ev \<in> set tr. event_writes ir ev (vs ! v)) \<or> seed ! (entries g ! j) ! v"
        using assigned_along_path [OF b j v(1) _ eq(1) [OF _ v(1)] eq(2) [OF _ v(1)] p] ud by blast
      then show "entry_variable ir j y \<or> (\<exists>ev \<in> set tr. event_writes ir ev y)"
        using eq(1) [OF ent(1) v(1)] ent(2) seed_iff [OF j ne v(1)] v(2) by (auto simp: assign_row_def)
    qed
  next
    assume ra: "reads_assigned ir g"
    show "\<forall>x < ?n. \<forall>v < length vs. us ! x ! v \<longrightarrow> inn ! x ! v"
    proof (intro allI impI, rule ccontr)
      fix x v assume x: "x < ?n" "v < length vs" "us ! x ! v" "\<not> inn ! x ! v"
      from bad [OF x(1,2,4)] obtain e n tr where e: "e \<in> set (entries g)" "path ir (blocks g) n e tr x" "\<not> seed ! e ! v"
        "\<forall>ev \<in> set tr. \<not> event_writes ir ev (vs ! v)" unfolding unassigned_path_def by blast
      then obtain j where j: "j < length (entries g)" "entries g ! j = e" by (auto simp: in_set_conv_nth)
      have r: "block_reads ir (block_at g x) (vs ! v)" using row x by blast
      then have "e \<noteq> exit_block g" using exit exit_block_ends [OF b] e(2) by metis
      with ra j e r x seed_iff [OF j(1) _ x(2)] show False unfolding reads_assigned_def by metis
    qed
  qed
  moreover have "first_violation ?n (length vs) us inn = None \<longleftrightarrow> (\<forall>x < ?n. \<forall>v < length vs. us ! x ! v \<longrightarrow> inn ! x ! v)"
    by (auto simp: first_violation_def find_None_iff)
  ultimately show thesis
    using that g(1,2) cfg_build_nodes [OF b] e gl(1) sol
    by (cases "first_violation ?n (length vs) us inn")
      (auto simp: vnt_cfg_check_definite_assignment_def Let_def vs_def seed_def)
qed

end
