(* ===== verification/CfgLive.thy ===== *)
theory CfgLive
  imports CfgAssign
begin

text \<open>
  Liveness: the loop ends in the least solution, which is the set of variables that some path of
  the graph reads before it writes them.
\<close>

section \<open>Live variables\<close>

inductive live :: "'f hir_program \<Rightarrow> cfg \<Rightarrow> nat \<Rightarrow> string \<Rightarrow> bool" for ir g where
  live_here: "b < block_count g \<Longrightarrow> block_reads ir (block_at g b) x \<Longrightarrow> live ir g b x"
| live_later: "b < block_count g \<Longrightarrow> s \<in> succs (block_at g b) \<Longrightarrow> live ir g s x \<Longrightarrow> \<not> block_writes ir (block_at g b) x \<Longrightarrow> live ir g b x"

definition live_after :: "'f hir_program \<Rightarrow> cfg \<Rightarrow> nat \<Rightarrow> string \<Rightarrow> bool" where
  "live_after ir g b x \<longleftrightarrow> (\<exists>s \<in> succs (block_at g b). live ir g s x)"

lemma live_collected: "live ir g b x \<Longrightarrow> x \<in> set (collect_variables ir)"
  by (induction rule: live.induct) (auto dest: block_reads_collected)

section \<open>The iteration\<close>

definition live_next :: "cfg \<Rightarrow> bool list list \<Rightarrow> nat \<Rightarrow> nat \<Rightarrow> bool" where
  "live_next g inn b v \<longleftrightarrow> successor_bit inn v (true_successor (block_at g b)) \<or> successor_bit inn v (false_successor (block_at g b))"

lemma live_next_iff: "live_next g inn b v \<longleftrightarrow> (\<exists>s \<in> succs (block_at g b). inn ! s ! v)"
  by (auto simp: live_next_def succs_def successor_bit_def split: option.splits)

lemma live_update_eq:
  "live_update g vars uses defs b (inn, out) =
     (let bout = map (live_next g inn b) [0..<vars];
          bin = map (\<lambda>v. uses ! b ! v \<or> bout ! v \<and> \<not> defs ! b ! v) [0..<vars] in
      ((inn[b := bin], out[b := bout]), bout \<noteq> out ! b \<or> bin \<noteq> inn ! b))"
proof -
  have "live_next g inn b = (\<lambda>v. successor_bit inn v (true_successor (block_at g b)) \<or> successor_bit inn v (false_successor (block_at g b)))"
    by (simp add: fun_eq_iff live_next_def)
  then show ?thesis by (simp add: live_update_def Let_def)
qed

definition false_count :: "bool list list \<Rightarrow> nat" where
  "false_count m = true_count (map (map Not) m)"

lemma false_count_update:
  assumes "rows_ok n vars m" "b < n" "length r = vars" "\<And>v. v < vars \<Longrightarrow> m ! b ! v \<Longrightarrow> r ! v"
  shows "false_count (m[b := r]) \<le> false_count m" "r \<noteq> m ! b \<Longrightarrow> false_count (m[b := r]) < false_count m"
proof -
  have len: "b < length m" "length (m ! b) = vars" using assms(1,2) by (simp_all add: rows_ok_def)
  have m: "rows_ok n vars (map (map Not) m)" using assms(1) by (simp add: rows_ok_def)
  note t = true_count_update [OF m assms(2), of "map Not r"]
  show "false_count (m[b := r]) \<le> false_count m" "r \<noteq> m ! b \<Longrightarrow> false_count (m[b := r]) < false_count m"
    using t assms(3,4) len inj_map_eq_map [of Not r "m ! b"] by (auto simp: false_count_def map_update inj_def)
qed

text \<open>The bounds \<open>L\<close> and \<open>L'\<close> on \<open>in\<close> and \<open>out\<close>: what the rows may contain.\<close>

definition live_bound :: "cfg \<Rightarrow> nat \<Rightarrow> bool list list \<Rightarrow> bool list list \<Rightarrow> (nat \<Rightarrow> nat \<Rightarrow> bool) \<Rightarrow> (nat \<Rightarrow> nat \<Rightarrow> bool) \<Rightarrow> bool" where
  "live_bound g vars uses defs L L' \<longleftrightarrow> (\<forall>b < block_count g. \<forall>v < vars.
     (uses ! b ! v \<longrightarrow> L b v) \<and> (L' b v \<longrightarrow> \<not> defs ! b ! v \<longrightarrow> L b v)
     \<and> succs (block_at g b) \<subseteq> {..<block_count g} \<and> (\<forall>s \<in> succs (block_at g b). L s v \<longrightarrow> L' b v))"

definition live_inv :: "cfg \<Rightarrow> nat \<Rightarrow> bool list list \<Rightarrow> bool list list \<Rightarrow> (nat \<Rightarrow> nat \<Rightarrow> bool) \<Rightarrow> (nat \<Rightarrow> nat \<Rightarrow> bool) \<Rightarrow> rows \<Rightarrow> bool" where
  "live_inv g vars uses defs L L' = (\<lambda>(inn, out).
     rows_ok (block_count g) vars inn \<and> rows_ok (block_count g) vars out \<and> live_bound g vars uses defs L L'
     \<and> (\<forall>b < block_count g. \<forall>v < vars.
          (out ! b ! v \<longrightarrow> live_next g inn b v) \<and> (inn ! b ! v \<longrightarrow> uses ! b ! v \<or> out ! b ! v \<and> \<not> defs ! b ! v)
          \<and> (inn ! b ! v \<longrightarrow> L b v) \<and> (out ! b ! v \<longrightarrow> L' b v)))"

lemma live_update_ok:
  assumes inv: "live_inv g vars uses defs L L' (inn, out)" and b: "b < block_count g"
    and u: "live_update g vars uses defs b (inn, out) = ((inn', out'), c)"
  shows "live_inv g vars uses defs L L' (inn', out')
    \<and> (if c then false_count inn' + false_count out' < false_count inn + false_count out else (inn', out') = (inn, out))"
proof -
  let ?n = "block_count g"
  define bout where "bout = map (live_next g inn b) [0..<vars]"
  define bin where "bin = map (\<lambda>v. uses ! b ! v \<or> bout ! v \<and> \<not> defs ! b ! v) [0..<vars]"
  have e: "inn' = inn[b := bin]" "out' = out[b := bout]" "c \<longleftrightarrow> bin \<noteq> inn ! b \<or> bout \<noteq> out ! b"
    using u unfolding live_update_eq Let_def bout_def [symmetric] bin_def [symmetric] by auto
  have ok: "rows_ok ?n vars inn" "rows_ok ?n vars out" "live_bound g vars uses defs L L'"
    and i: "\<And>b v. b < ?n \<Longrightarrow> v < vars \<Longrightarrow> out ! b ! v \<Longrightarrow> live_next g inn b v"
      "\<And>b v. b < ?n \<Longrightarrow> v < vars \<Longrightarrow> inn ! b ! v \<Longrightarrow> uses ! b ! v \<or> out ! b ! v \<and> \<not> defs ! b ! v"
      "\<And>b v. b < ?n \<Longrightarrow> v < vars \<Longrightarrow> inn ! b ! v \<Longrightarrow> L b v"
      "\<And>b v. b < ?n \<Longrightarrow> v < vars \<Longrightarrow> out ! b ! v \<Longrightarrow> L' b v"
    using inv by (auto simp: live_inv_def)
  have len: "length bin = vars" "length bout = vars" by (simp_all add: bin_def bout_def)
  have bb: "b < length inn" "b < length out" using ok b by (simp_all add: rows_ok_def)
  have lo: "bout ! v" if "out ! b ! v" "v < vars" for v using i(1) [OF b that(2,1)] that(2) by (simp add: bout_def)
  have le: "bin ! v" if "inn ! b ! v" "v < vars" for v using i(2) [OF b that(2,1)] lo [of v] that(2) by (auto simp: bin_def)
  have up: "inn' ! s ! v" if "inn ! s ! v" "v < vars" for s v using that le [of v] bb(1) by (cases "s = b") (auto simp: e(1))
  have up': "live_next g inn' x v" if "live_next g inn x v" "v < vars" for x v using that up by (auto simp: live_next_iff)
  have L': "L' b v" if "bout ! v" "v < vars" for v
  proof -
    from that obtain s where s: "s \<in> succs (block_at g b)" "inn ! s ! v" by (auto simp: bout_def live_next_iff)
    moreover from s(1) ok(3) b that(2) have "s < ?n" unfolding live_bound_def by blast
    ultimately show ?thesis using ok(3) b that(2) i(3) unfolding live_bound_def by blast
  qed
  have L: "L b v" if "bin ! v" "v < vars" for v using that L' [of v] ok(3) b by (auto simp: bin_def live_bound_def)
  have "live_inv g vars uses defs L L' (inn', out')" unfolding live_inv_def case_prod_conv
  proof (intro conjI allI impI)
    show "rows_ok ?n vars inn'" "rows_ok ?n vars out'" using ok(1,2) len by (auto simp: e rows_ok_update)
    fix x v assume x: "x < ?n" "v < vars"
    show "live_next g inn' x v" if "out' ! x ! v"
    proof (rule up' [OF _ x(2)])
      show "live_next g inn x v" using that i(1) [OF x] bb x(2) by (cases "x = b") (auto simp: e bout_def)
    qed
    show "uses ! x ! v \<or> out' ! x ! v \<and> \<not> defs ! x ! v" if "inn' ! x ! v"
      using that i(2) [OF x] bb x(2) by (cases "x = b") (auto simp: e bin_def)
    show "L x v" if "inn' ! x ! v" using that L [of v] i(3) [OF x] bb x(2) by (cases "x = b") (auto simp: e)
    show "L' x v" if "out' ! x ! v" using that L' [of v] i(4) [OF x] bb x(2) by (cases "x = b") (auto simp: e)
  qed (rule ok(3))
  moreover have "if c then false_count inn' + false_count out' < false_count inn + false_count out else (inn', out') = (inn, out)"
  proof -
    note t1 = false_count_update [OF ok(1) b len(1) le] and t2 = false_count_update [OF ok(2) b len(2) lo]
    show ?thesis using t1 t2 by (cases "bin = inn ! b"; cases "bout = out ! b") (auto simp: e intro: add_le_less_mono add_less_le_mono)
  qed
  ultimately show ?thesis by blast
qed

interpretation liveness: round_robin "live_update g vars uses defs" "rev [0..<block_count g]" "live_inv g vars uses defs L L'"
    "\<lambda>(inn, out). false_count inn + false_count out" for g vars uses defs L L'
proof
  fix s b s' c
  assume "live_inv g vars uses defs L L' s" "b \<in> set (rev [0..<block_count g])" "live_update g vars uses defs b s = (s', c)"
  then show "live_inv g vars uses defs L L' s' \<and> (if c then (case s' of (inn, out) \<Rightarrow> false_count inn + false_count out)
      < (case s of (inn, out) \<Rightarrow> false_count inn + false_count out) else s' = s)"
    using live_update_ok [of g vars uses defs L L' "fst s" "snd s" b "fst s'" "snd s'" c]
    by (cases s; cases s') (simp split: if_splits)
qed

lemma live_solution_ok:
  assumes "live_bound g vars uses defs L L'"
  obtains inn out where "live_solution g vars uses defs = Some (inn, out)" "length inn = block_count g" "length out = block_count g"
    "\<And>b v. b < block_count g \<Longrightarrow> v < vars \<Longrightarrow> out ! b ! v \<longleftrightarrow> (\<exists>s \<in> succs (block_at g b). inn ! s ! v)"
    "\<And>b v. b < block_count g \<Longrightarrow> v < vars \<Longrightarrow> inn ! b ! v \<longleftrightarrow> uses ! b ! v \<or> out ! b ! v \<and> \<not> defs ! b ! v"
    "\<And>b v. b < block_count g \<Longrightarrow> v < vars \<Longrightarrow> inn ! b ! v \<Longrightarrow> L b v"
proof -
  let ?n = "block_count g"
  have "live_inv g vars uses defs L L' (all_rows ?n vars False, all_rows ?n vars False)"
    using assms by (simp add: live_inv_def rows_ok_all)
  from liveness.repeat_pass_returns [OF this] obtain inn out where
    s: "live_solution g vars uses defs = Some (inn, out)" "live_inv g vars uses defs L L' (inn, out)"
    and st: "\<And>b. b < ?n \<Longrightarrow> live_update g vars uses defs b (inn, out) = ((inn, out), False)"
    by (auto simp: live_solution_def)
  have eq: "out ! b = map (live_next g inn b) [0..<vars]"
    "inn ! b = map (\<lambda>v. uses ! b ! v \<or> live_next g inn b v \<and> \<not> defs ! b ! v) [0..<vars]" if "b < ?n" for b
  proof -
    from st [OF that] show o: "out ! b = map (live_next g inn b) [0..<vars]" by (simp add: live_update_eq Let_def)
    from st [OF that] have "map (\<lambda>v. uses ! b ! v \<or> map (live_next g inn b) [0..<vars] ! v \<and> \<not> defs ! b ! v) [0..<vars] = inn ! b"
      by (simp add: live_update_eq Let_def)
    from this [symmetric] show "inn ! b = map (\<lambda>v. uses ! b ! v \<or> live_next g inn b v \<and> \<not> defs ! b ! v) [0..<vars]"
      by (rule trans) (rule map_cong, simp_all)
  qed
  show thesis
    by (rule that [OF s(1)]) (use s(2) in \<open>auto simp: eq live_next_iff live_inv_def rows_ok_def\<close>)
qed

section \<open>The analysis\<close>

lemma validate_block_succs:
  assumes "validate_block g b"
  shows "succs (block_at g b) \<subseteq> {..<block_count g}"
proof -
  from assms have "case true_successor (block_at g b) of None \<Rightarrow> True | Some s \<Rightarrow> s < block_count g"
    "case false_successor (block_at g b) of None \<Rightarrow> True | Some s \<Rightarrow> s < block_count g" by (simp_all add: validate_block_def Let_def)
  then show ?thesis by (auto simp: succs_def)
qed

lemma live_query_iff:
  assumes "distinct vs" "b < length rows" "\<And>v. v < length vs \<Longrightarrow> rows ! b ! v \<longleftrightarrow> P (vs ! v)" "P x \<Longrightarrow> x \<in> set vs"
  shows "live_query vs rows b (Some x) \<longleftrightarrow> P x"
proof (cases "x \<in> set vs")
  case True
  then obtain v where "v < length vs" "vs ! v = x" by (auto simp: in_set_conv_nth)
  with assms show ?thesis using variable_index_Some [of vs v] by (auto simp: live_query_def)
next
  case False
  with assms(4) show ?thesis by (auto simp: live_query_def variable_index_None [THEN iffD2])
qed

lemma liveness_exact:
  assumes v: "vnt_ir_validate ir" "vnt_cfg_validate g" and n: "list_all (block_nodes_ok ir) (blocks g)"
  obtains a where "vnt_cfg_compute_liveness ir g = Some (Some a)"
    "\<And>b x. b < block_count g \<Longrightarrow> vnt_cfg_variable_live_in a b (Some x) \<longleftrightarrow> live ir g b x"
    "\<And>b x. b < block_count g \<Longrightarrow> vnt_cfg_variable_live_out a b (Some x) \<longleftrightarrow> live_after ir g b x"
proof -
  let ?n = "block_count g"
  define vs where "vs = collect_variables ir"
  have d: "distinct vs" by (simp add: vs_def collect_variables_props)
  obtain us ds where e: "block_effects ir vs (blocks g) = Some (us, ds)"
    and ud: "\<And>x. x < ?n \<Longrightarrow> represents vs (us ! x) (block_reads ir (block_at g x)) \<and> represents vs (ds ! x) (block_writes ir (block_at g x))"
    using block_effects_represents [OF vnt_ir_validate_tree [OF v(1)] d n] by metis
  have us: "us ! x ! w \<longleftrightarrow> block_reads ir (block_at g x) (vs ! w)" and ds: "ds ! x ! w \<longleftrightarrow> block_writes ir (block_at g x) (vs ! w)"
    if "x < ?n" "w < length vs" for x w using ud [OF that(1)] that(2) by (simp_all add: represents_def)
  have cl: "succs (block_at g x) \<subseteq> {..<?n}" if "x < ?n" for x
    using validate_block_succs [of g x] v(2) that by (simp add: vnt_cfg_validate_def list_all_iff)
  have "live_bound g (length vs) us ds (\<lambda>b w. live ir g b (vs ! w)) (\<lambda>b w. live_after ir g b (vs ! w))"
    unfolding live_bound_def
  proof (intro allI impI conjI ballI)
    fix b w assume b: "b < ?n" "w < length vs"
    show "live ir g b (vs ! w)" if "us ! b ! w" using that us [OF b] live_here [OF b(1)] by blast
    show "live ir g b (vs ! w)" if "live_after ir g b (vs ! w)" "\<not> ds ! b ! w"
      using that ds [OF b] live_later [OF b(1)] unfolding live_after_def by blast
    show "live_after ir g b (vs ! w)" if "s \<in> succs (block_at g b)" "live ir g s (vs ! w)" for s
      using that unfolding live_after_def by blast
  qed (rule cl)
  then obtain inn out where s: "live_solution g (length vs) us ds = Some (inn, out)" "length inn = ?n" "length out = ?n"
    and eq: "\<And>b v. b < ?n \<Longrightarrow> v < length vs \<Longrightarrow> out ! b ! v \<longleftrightarrow> (\<exists>s \<in> succs (block_at g b). inn ! s ! v)"
      "\<And>b v. b < ?n \<Longrightarrow> v < length vs \<Longrightarrow> inn ! b ! v \<longleftrightarrow> us ! b ! v \<or> out ! b ! v \<and> \<not> ds ! b ! v"
    and L: "\<And>b v. b < ?n \<Longrightarrow> v < length vs \<Longrightarrow> inn ! b ! v \<Longrightarrow> live ir g b (vs ! v)"
    by (rule live_solution_ok) blast
  have "live ir g b x \<Longrightarrow> x = vs ! w \<Longrightarrow> w < length vs \<Longrightarrow> inn ! b ! w" for b x w
  proof (induction rule: live.induct)
    case (live_here b x)
    then show ?case using eq(2) [of b w] us [of b w] by simp
  next
    case (live_later b s x)
    then show ?case using eq(1) [of b w] eq(2) [of b w] ds [of b w] by auto
  qed
  then have inn: "inn ! b ! w \<longleftrightarrow> live ir g b (vs ! w)" if "b < ?n" "w < length vs" for b w using that L by blast
  have out: "out ! b ! w \<longleftrightarrow> live_after ir g b (vs ! w)" if "b < ?n" "w < length vs" for b w
    using eq(1) [OF that] inn [OF _ that(2)] cl [OF that(1)] by (auto simp: live_after_def)
  let ?a = "\<lparr>live_names = vs, live_in = inn, live_out = out\<rparr>"
  have c: "vnt_cfg_compute_liveness ir g = Some (Some ?a)"
    using v n e s(1) by (simp add: vnt_cfg_compute_liveness_def Let_def vs_def)
  show thesis
  proof (rule that [OF c])
    fix b x assume b: "b < ?n"
    show "vnt_cfg_variable_live_in ?a b (Some x) \<longleftrightarrow> live ir g b x"
      using live_query_iff [OF d, of b inn "live ir g b" x] inn b s(2) live_collected [of ir g b x] by (auto simp: vnt_cfg_variable_live_in_def vs_def)
    show "vnt_cfg_variable_live_out ?a b (Some x) \<longleftrightarrow> live_after ir g b x"
    proof -
      have "live_after ir g b x \<Longrightarrow> x \<in> set vs" using live_collected by (fastforce simp: live_after_def vs_def)
      with live_query_iff [OF d, of b out "live_after ir g b" x] out b s(3) show ?thesis
        by (simp add: vnt_cfg_variable_live_out_def)
    qed
  qed
qed

end
