(* ===== verification/CfgProps.thy ===== *)
theory CfgProps
  imports CfgSpec
begin

text \<open>
  The properties of the HIR validator and of the construction of the control-flow graph, with
  their witnesses on two small programs.
\<close>

section \<open>Sample programs\<close>

definition sample_node :: "opcode \<Rightarrow> edge_role \<Rightarrow> nat list \<Rightarrow> nat option \<Rightarrow> nat hir_value \<Rightarrow> nat hir_node" where
  "sample_node op r cs nxt v =
     \<lparr>opcode = op, role = r, operation = No_operation, names = [], type_name = None,
      first_child = (if cs = [] then None else Some (hd cs)), last_child = (if cs = [] then None else Some (last cs)),
      next_sibling = nxt, child_count = length cs, node_value = v\<rparr>"

text \<open>\<open>while x { break }\<close> and \<open>while true { print(1) }\<close>.\<close>

definition break_program :: "nat hir_program" where
  "break_program = \<lparr>nodes =
     [sample_node IR_PROGRAM EDGE_ROOT [1] None No_value,
      sample_node IR_WHILE EDGE_STATEMENT [2, 3] None No_value,
      sample_node IR_VARIABLE EDGE_CONDITION [] (Some 3) (Text_value ''x''),
      sample_node IR_BREAK EDGE_BODY [] None No_value],
     root = 0, optimized_nodes = 0\<rparr>"

definition break_cfg :: cfg where
  "break_cfg = \<lparr>blocks =
     [\<lparr>instruction = None, condition = None, true_successor = None, false_successor = None, terminator = CFG_EXIT\<rparr>,
      \<lparr>instruction = None, condition = Some 2, true_successor = Some 2, false_successor = Some 0, terminator = CFG_BRANCH\<rparr>,
      \<lparr>instruction = Some 3, condition = None, true_successor = Some 0, false_successor = None, terminator = CFG_JUMP\<rparr>],
     entries = [1], exit_block = 0\<rparr>"

lemma break_program_valid: "vnt_ir_validate break_program"
  by code_simp

lemma break_program_builds: "vnt_cfg_build break_program = Some (Some break_cfg)"
  by code_simp

section \<open>Properties\<close>

text \<open>
  C15. A program that \<open>vnt_ir_validate\<close> accepts is a tree: every child list is read without leaving
  the array, the parent relation has no cycle, every node but the root has exactly one parent, and
  every node is below the root.
\<close>

theorem vnt_ir_validate_sound:
  assumes "vnt_ir_validate ir"
  shows "acyclic (child_rel ir) \<and> (\<forall>i < node_count ir. children ir i = Some (kids ir i)
    \<and> set (kids ir i) \<subseteq> {..<node_count ir} \<and> (i, root ir) \<in> (child_rel ir)\<^sup>*
    \<and> (if i = root ir then \<nexists>p. (i, p) \<in> child_rel ir else \<exists>!p. (i, p) \<in> child_rel ir))"
proof -
  note t = vnt_ir_validate_tree [OF assms]
  have "(if i = root ir then \<nexists>p. (i, p) \<in> child_rel ir else \<exists>!p. (i, p) \<in> child_rel ir)" if "i < node_count ir" for i
  proof (cases "i = root ir")
    case False
    from t that have "(i, root ir) \<in> (child_rel ir)\<^sup>*" by (simp add: hir_tree_def below_root_def)
    with False obtain p where "(i, p) \<in> child_rel ir" by (meson converse_rtranclE)
    with False t show ?thesis by (auto simp: hir_tree_def)
  qed (use t in \<open>simp add: hir_tree_def\<close>)
  moreover have "set (kids ir i) \<subseteq> {..<node_count ir}" if "i < node_count ir" for i
    using hir_tree_range [OF t] that by (auto simp: child_rel_def)
  ultimately show ?thesis
    using hir_tree_acyclic [OF t] hir_tree_children [OF t] t by (simp add: acyclic_def hir_tree_def below_root_def)
qed


theorem vnt_ir_validate_sound_witness:
  "children break_program 1 = Some (kids break_program 1) \<and> (\<exists>!p. (3, p) \<in> child_rel break_program)"
proof -
  have n: "node_count break_program = 4" "root break_program = 0" by (simp_all add: break_program_def)
  note t = vnt_ir_validate_sound [OF break_program_valid, unfolded n, THEN conjunct2, rule_format]
  show ?thesis using t [of 1] t [of 3] by simp
qed

text \<open>
  C16. \<open>vnt_cfg_build\<close> preserves the behaviour of the program: from the entry of each body, main
  program first and then the functions in order, the paths of the graph to the exit block have
  exactly the terminating traces of the body.
\<close>

theorem vnt_cfg_build_traces:
  assumes "vnt_cfg_build ir = Some (Some g)"
  shows "length (entries g) = length (bodies ir) \<and> (\<forall>j < length (bodies ir). \<forall>tr.
    body_trace ir (bodies ir ! j) tr \<longleftrightarrow> (\<exists>n. path ir (blocks g) n (entries g ! j) tr (exit_block g)))"
  using cfg_build_graph(4,7) [OF assms] by blast

theorem vnt_cfg_build_traces_witness:
  "body_trace break_program (bodies break_program ! 0) [Test 2 False]"
proof -
  have b: "length (bodies break_program) = 1" by code_simp
  have step: "1 < length (blocks break_cfg)" "([Test 2 False], 0) \<in> set (block_steps break_program (blocks break_cfg ! 1))"
    by code_simp+
  have "path break_program (blocks break_cfg) 1 (entries break_cfg ! 0) [Test 2 False] (exit_block break_cfg)"
    using path_single [OF step] by (simp add: break_cfg_def)
  with vnt_cfg_build_traces [OF break_program_builds] show ?thesis unfolding b by blast
qed

lemma cfg_build_total:
  assumes "vnt_ir_validate ir"
  shows "\<exists>r. vnt_cfg_build ir = Some r \<and>
    (r \<noteq> None \<longleftrightarrow> \<not> (\<exists>is \<in> set (bodies ir). stray_body ir is) \<and> (\<exists>is \<in> set (bodies ir). \<exists>tr. body_trace ir is tr))"
  using cfg_build_cases [OF assms]
proof (elim disjE conjE exE)
  fix g r
  assume ns: "\<forall>is \<in> set (bodies ir). \<not> stray_body ir is" and inv: "graph_inv ir g (bodies ir)"
    and m: "marked r = reachable_from (blocks (simp_cfg ir g)) (entries g)"
    and b: "vnt_cfg_build ir = Some (if 0 \<in> marked r then Some (pruned r (simp_cfg ir g)) else None)"
  have "0 \<in> marked r \<longleftrightarrow> (\<exists>is \<in> set (bodies ir). \<exists>tr. body_trace ir is tr)"
    using exit_reachable [OF inv] m s_simps(2) [OF inv] by simp
  with ns b show ?thesis by simp
qed simp

text \<open>
  C17. On a valid program \<open>vnt_cfg_build\<close> always returns, and it fails in exactly two cases: some
  body has a break or continue outside every loop, or no body has a terminating trace (so that
  pruning finds the exit block unreachable).
\<close>

theorem vnt_cfg_build_result:
  assumes "vnt_ir_validate ir"
  shows "\<exists>r. vnt_cfg_build ir = Some r \<and>
    (r \<noteq> None \<longleftrightarrow> \<not> (\<exists>is \<in> set (bodies ir). stray_body ir is) \<and> (\<exists>is \<in> set (bodies ir). \<exists>tr. body_trace ir is tr))"
  using assms by (rule cfg_build_total)

theorem vnt_cfg_build_result_witness: "\<exists>is \<in> set (bodies break_program). \<exists>tr. body_trace break_program is tr"
  using vnt_cfg_build_result [OF break_program_valid] break_program_builds by auto

text \<open>
  C18. In the graph that \<open>vnt_cfg_build\<close> returns every block is reachable from an entry, so the exit is; every block refers to
  nodes of the program; and every branch has two successors in the graph and tests a node that is not a boolean literal.
\<close>

theorem vnt_cfg_build_sound:
  assumes "vnt_cfg_build ir = Some (Some g)"
  shows "exit_block g < block_count g \<and> (\<forall>x < block_count g. x \<in> reachable_from (blocks g) (entries g)
    \<and> (\<forall>i. instruction (block_at g x) = Some i \<longrightarrow> i < node_count ir)
    \<and> (terminator (block_at g x) = CFG_BRANCH \<longrightarrow>
        (\<exists>c t f. block_at g x = \<lparr>instruction = None, condition = Some c, true_successor = Some t, false_successor = Some f, terminator = CFG_BRANCH\<rparr>
          \<and> c < node_count ir \<and> opcode (hir_node_at ir c) \<noteq> IR_BOOLEAN \<and> t < block_count g \<and> f < block_count g)))"
proof -
  note g = cfg_build_graph [OF assms]
  have nodes: "list_all (block_nodes_ok ir) (blocks g)" by (rule cfg_build_nodes [OF assms])
  have "\<exists>c t f. block_at g x = \<lparr>instruction = None, condition = Some c, true_successor = Some t, false_successor = Some f, terminator = CFG_BRANCH\<rparr>
      \<and> c < node_count ir \<and> opcode (hir_node_at ir c) \<noteq> IR_BOOLEAN \<and> t < block_count g \<and> f < block_count g"
    if x: "x < block_count g" and b: "terminator (block_at g x) = CFG_BRANCH" for x
  proof -
    have ok: "validate_block g x" "block_nodes_ok ir (block_at g x)" using g(2) nodes x by (auto simp: vnt_cfg_validate_def list_all_length)
    then obtain c t f where f: "condition (block_at g x) = Some c" "true_successor (block_at g x) = Some t" "false_successor (block_at g x) = Some f"
      "instruction (block_at g x) = None" "t < block_count g" "f < block_count g" "c < node_count ir"
      using b by (auto simp: validate_block_def block_nodes_ok_def Let_def)
    then have "block_at g x = \<lparr>instruction = None, condition = Some c, true_successor = Some t, false_successor = Some f, terminator = CFG_BRANCH\<rparr>"
      using b by (cases "block_at g x") simp
    moreover have "opcode (hir_node_at ir c) \<noteq> IR_BOOLEAN"
      using g(6) [OF x] f b by (auto simp: simplify_block_def dest: arg_cong [of _ _ terminator])
    ultimately show ?thesis using f by blast
  qed
  moreover have "exit_block g < block_count g" using g(2) by (simp add: vnt_cfg_validate_def)
  moreover have "i < node_count ir" if "x < block_count g" "instruction (block_at g x) = Some i" for x i
    using nodes that by (auto simp: list_all_length block_nodes_ok_def)
  ultimately show ?thesis using g(5) by blast
qed

theorem vnt_cfg_build_sound_witness: "0 \<in> reachable_from (blocks break_cfg) [1] \<and> opcode (hir_node_at break_program 2) \<noteq> IR_BOOLEAN"
proof -
  have "0 < block_count break_cfg" "1 < block_count break_cfg" "entries break_cfg = [1]" "terminator (block_at break_cfg 1) = CFG_BRANCH"
    "condition (block_at break_cfg 1) = Some 2" by (simp_all add: break_cfg_def)
  with vnt_cfg_build_sound [OF break_program_builds] show ?thesis by (metis block.select_convs(2) option.inject)
qed

end
