(* ===== verification/CfgFlowProps.thy ===== *)
theory CfgFlowProps
  imports CfgLive CfgProps
begin

text \<open>
  The properties of the dataflow analyses, down to the traces of the program.
\<close>

section \<open>Sample programs\<close>

text \<open>\<open>x = 1; print(x)\<close>.\<close>

definition print_program :: "nat hir_program" where
  "print_program = \<lparr>nodes =
     [sample_node IR_PROGRAM EDGE_ROOT [1, 3] None No_value,
      sample_node IR_VARIABLE_DECL EDGE_STATEMENT [2] (Some 3) (Text_value ''x''),
      sample_node IR_INTEGER EDGE_VALUE [] None (Integer_value 1),
      sample_node IR_PRINT EDGE_STATEMENT [4] None No_value,
      sample_node IR_VARIABLE EDGE_VALUE [] None (Text_value ''x'')],
     root = 0, optimized_nodes = 0\<rparr>"

definition print_cfg :: cfg where
  "print_cfg = \<lparr>blocks =
     [\<lparr>instruction = None, condition = None, true_successor = None, false_successor = None, terminator = CFG_EXIT\<rparr>,
      \<lparr>instruction = Some 3, condition = None, true_successor = Some 0, false_successor = None, terminator = CFG_FALLTHROUGH\<rparr>,
      \<lparr>instruction = Some 1, condition = None, true_successor = Some 1, false_successor = None, terminator = CFG_FALLTHROUGH\<rparr>],
     entries = [2], exit_block = 0\<rparr>"

lemma print_program_valid: "vnt_ir_validate print_program" by code_simp

lemma print_program_builds: "vnt_cfg_build print_program = Some (Some print_cfg)" by code_simp

section \<open>Definite assignment\<close>

text \<open>
  C19. On a graph that \<open>vnt_cfg_build\<close> made, \<open>vnt_cfg_check_definite_assignment\<close> returns, and it
  accepts exactly when on every path of the graph from an entry each variable a block reads is
  known at that entry or has been written on the path: no read before initialisation is missed and
  none is reported without a path.
\<close>

theorem definite_assignment_exact:
  assumes "vnt_cfg_build ir = Some (Some g)"
  shows "\<exists>r. vnt_cfg_check_definite_assignment ir g = Some r \<and> (r = Inr () \<longleftrightarrow> reads_assigned ir g)"
  using check_exact [OF assms] by metis

theorem definite_assignment_exact_witness: "\<not> reads_assigned break_program break_cfg"
proof -
  have "vnt_cfg_check_definite_assignment break_program break_cfg \<noteq> Some (Inr ())" by code_simp
  with definite_assignment_exact [OF break_program_builds] show ?thesis by auto
qed

lemma path_split:
  assumes "path ir bs n x (t1 @ ev # t2) z"
  shows "\<exists>m b t y. path ir bs m x t1 b \<and> b < length bs \<and> (t, y) \<in> set (block_steps ir (bs ! b)) \<and> ev \<in> set t"
  using assms
proof (induction n x "t1 @ ev # t2" z arbitrary: t1 rule: path.induct)
  case (path_step x t y n tr z)
  have "length t \<le> 1" using path_step(2) by (auto simp: block_steps_def test_events_def split: if_splits option.splits)
  then consider "t = []" | e where "t = [e]" by (cases t) auto
  then show ?case
  proof cases
    case 1
    with path_step(5) have "tr = t1 @ ev # t2" by simp
    from path_step(4) [OF this] obtain m b t' y' where
      "path ir bs m y t1 b" "b < length bs" "(t', y') \<in> set (block_steps ir (bs ! b))" "ev \<in> set t'" by blast
    with path.path_step [OF path_step(1,2), of m t1 b] 1 show ?thesis by auto
  next
    case 2
    show ?thesis
    proof (cases t1)
      case Nil
      with 2 path_step(5) have "t = [ev]" by simp
      with Nil path_step(1,2) path_here [of ir bs x] show ?thesis by fastforce
    next
      case (Cons a t1')
      with 2 path_step(5) have "tr = t1' @ ev # t2" "t @ t1' = t1" by auto
      from path_step(4) [OF this(1)] obtain m b t' y' where
        "path ir bs m y t1' b" "b < length bs" "(t', y') \<in> set (block_steps ir (bs ! b))" "ev \<in> set t'" by blast
      with path.path_step [OF path_step(1,2), of m t1' b] \<open>t @ t1' = t1\<close> show ?thesis by auto
    qed
  qed
qed simp

text \<open>
  C20. What the check means for the program: when it accepts, then in every terminating trace of
  every body each variable that a statement or a condition reads has been written earlier in the
  trace, or is, in a function, a parameter or a global.
\<close>

theorem definite_assignment_sound:
  assumes "vnt_cfg_build ir = Some (Some g)" "vnt_cfg_check_definite_assignment ir g = Some (Inr ())"
    and "j < length (bodies ir)" "body_trace ir (bodies ir ! j) (t1 @ ev # t2)" "event_reads ir ev x"
  shows "entry_variable ir j x \<or> (\<exists>ev' \<in> set t1. event_writes ir ev' x)"
proof -
  note g = cfg_build_graph [OF assms(1)]
  obtain r where "vnt_cfg_check_definite_assignment ir g = Some r" "r = Inr () \<longleftrightarrow> reads_assigned ir g"
    by (rule check_exact [OF assms(1)])
  with assms(2) have ra: "reads_assigned ir g" by simp
  from assms(4) g(7) [OF assms(3)] obtain n where "path ir (blocks g) n (entries g ! j) (t1 @ ev # t2) (exit_block g)" by blast
  from path_split [OF this] obtain m b t y where p: "path ir (blocks g) m (entries g ! j) t1 b" "b < block_count g"
    "(t, y) \<in> set (block_steps ir (block_at g b))" "ev \<in> set t" by blast
  have "validate_block g b" using g(2) p(2) by (simp add: vnt_cfg_validate_def list_all_iff)
  then have "block_reads ir (block_at g b) x" by (rule step_reads [OF _ p(3,4) assms(5)])
  with ra p(1,2) assms(3) g(4) show ?thesis unfolding reads_assigned_def by simp
qed

theorem definite_assignment_sound_witness:
  "entry_variable print_program 0 ''x'' \<or> (\<exists>ev \<in> set [Run 1]. event_writes print_program ev ''x'')"
proof (rule definite_assignment_sound [OF print_program_builds])
  show "vnt_cfg_check_definite_assignment print_program print_cfg = Some (Inr ())" by code_simp
  show "0 < length (bodies print_program)" by (simp add: bodies_def)
  have items: "bodies print_program ! 0 = [1, 3]" by code_simp
  have "stmt_trace print_program 1 [Run 1] Normal" "stmt_trace print_program 3 [Run 3] Normal"
    by (rule simple_stmt, code_simp)+
  from seq_cons [OF this(1) seq_cons [OF this(2) seq_nil]]
  show "body_trace print_program (bodies print_program ! 0) ([Run 1] @ Run 3 # [])"
    by (simp add: body_trace_def items)
  have "opcode (hir_node_at print_program 4) = IR_VARIABLE" "node_text print_program 4 = Some ''x''" "4 < node_count print_program"
    "child_role print_program 3 EDGE_VALUE = Some (Some 4)" "opcode (hir_node_at print_program 3) = IR_PRINT" by code_simp+
  then show "event_reads print_program (Run 3) ''x''"
    by (auto simp: instruction_reads_def Let_def role_reads_def intro: reads_variable)
qed

section \<open>Liveness\<close>

text \<open>
  C21. For a valid program and graph whose blocks refer to nodes of the program,
  \<open>vnt_cfg_compute_liveness\<close> returns, and a variable is live at the start of a block exactly when
  some path from it reads the variable before writing it, and live at the end exactly when it is
  live at the start of a successor.
\<close>

theorem vnt_cfg_compute_liveness_exact:
  assumes "vnt_ir_validate ir" "vnt_cfg_validate g" "list_all (block_nodes_ok ir) (blocks g)"
  shows "\<exists>a. vnt_cfg_compute_liveness ir g = Some (Some a) \<and> (\<forall>b < block_count g. \<forall>x.
    (vnt_cfg_variable_live_in a b (Some x) \<longleftrightarrow> live ir g b x)
    \<and> (vnt_cfg_variable_live_out a b (Some x) \<longleftrightarrow> live_after ir g b x))"
  using liveness_exact [OF assms] by metis

theorem vnt_cfg_compute_liveness_exact_witness: "live print_program print_cfg 1 ''x'' \<and> \<not> live print_program print_cfg 2 ''x''"
proof -
  have v: "vnt_cfg_validate print_cfg" "list_all (block_nodes_ok print_program) (blocks print_cfg)" by code_simp+
  have n: "1 < block_count print_cfg" "2 < block_count print_cfg" by code_simp+
  have "case vnt_cfg_compute_liveness print_program print_cfg of Some (Some a) \<Rightarrow> vnt_cfg_variable_live_in a 1 (Some ''x'')
      \<and> \<not> vnt_cfg_variable_live_in a 2 (Some ''x'') | _ \<Rightarrow> False" by code_simp
  with vnt_cfg_compute_liveness_exact [OF print_program_valid v] n show ?thesis by auto
qed

end
