(* ===== verification/HirLower.thy ===== *)
theory HirLower
  imports HirTree
begin

text \<open>
  Lowering of the syntax tree to the HIR, the first half of \<open>src/compiler/ir_lower.c\<close>. The result
  \<open>None\<close> stands for \<open>return 0\<close> and for an access outside an array; neither happens
  (theory \<open>HirLowerSpec\<close>). The switch over the node types is split in two: \<open>node_payload\<close>
  fills the fields of the new node, \<open>ast_edges\<close> lists the children in the order in which they are
  lowered, with the role each gets. \<open>strtod\<close> is a parameter: a float literal is kept as its
  digits in the tree of this development.
\<close>

section \<open>The node array\<close>

definition blank_node :: "'f hir_node" where
  "blank_node = \<lparr>opcode = IR_PROGRAM, role = EDGE_ROOT, operation = No_operation, names = [], type_name = None,
     first_child = None, last_child = None, next_sibling = None, child_count = 0, node_value = No_value\<rparr>"

definition update_node :: "'f hir_program \<Rightarrow> nat \<Rightarrow> ('f hir_node \<Rightarrow> 'f hir_node) \<Rightarrow> 'f hir_program" where
  "update_node ir i f = ir\<lparr>nodes := (nodes ir)[i := f (hir_node_at ir i)]\<rparr>"

definition reserve_node :: "'f hir_program \<Rightarrow> nat \<times> 'f hir_program" where
  "reserve_node ir = (node_count ir, ir\<lparr>nodes := nodes ir @ [blank_node]\<rparr>)"

definition add_child :: "'f hir_program \<Rightarrow> nat \<Rightarrow> nat \<Rightarrow> 'f hir_program option" where
  "add_child ir parent child =
     (if node_count ir \<le> parent \<or> node_count ir \<le> child then None
      else do {
        ir \<leftarrow> (case last_child (hir_node_at ir parent) of
                None \<Rightarrow> Some (update_node ir parent (\<lambda>n. n\<lparr>first_child := Some child\<rparr>))
              | Some l \<Rightarrow> if l < node_count ir then Some (update_node ir l (\<lambda>n. n\<lparr>next_sibling := Some child\<rparr>)) else None);
        Some (update_node ir parent (\<lambda>n. n\<lparr>last_child := Some child, child_count := child_count n + 1\<rparr>))
      })"

section \<open>Lowering\<close>

fun opcode_for :: "ast \<Rightarrow> opcode" where
  "opcode_for (Program ss) = IR_PROGRAM"
| "opcode_for (UnsafeBlock ss) = IR_PROGRAM"
| "opcode_for (AsmStatement a v) = IR_ASM"
| "opcode_for (PrintStatement e) = IR_PRINT"
| "opcode_for (IfStatement c t e) = IR_IF"
| "opcode_for (WhileStatement c b) = IR_WHILE"
| "opcode_for (FunctionDeclaration f ps ts n r u b) = IR_FUNCTION"
| "opcode_for (StructDeclaration s fs n) = IR_STRUCT"
| "opcode_for (FunctionCall f as n) = IR_CALL"
| "opcode_for (ReturnStatement e) = IR_RETURN"
| "opcode_for BreakStatement = IR_BREAK"
| "opcode_for ContinueStatement = IR_CONTINUE"
| "opcode_for (StringLiteral s) = IR_STRING"
| "opcode_for (IntegerLiteral v) = IR_INTEGER"
| "opcode_for (FloatLiteral t) = IR_FLOAT"
| "opcode_for (BooleanLiteral b) = IR_BOOLEAN"
| "opcode_for NullLiteral = IR_NULL"
| "opcode_for (ArrayLiteral es n) = IR_ARRAY"
| "opcode_for (VariableDeclaration x t v r) = (if r then IR_REASSIGN else IR_VARIABLE_DECL)"
| "opcode_for (Variable x) = IR_VARIABLE"
| "opcode_for (IndexExpression a i) = IR_INDEX"
| "opcode_for (MemberExpression ob m) = IR_MEMBER"
| "opcode_for (Assignment t v) = IR_ASSIGN"
| "opcode_for (BinaryExpression l r op) = IR_BINARY"
| "opcode_for (UnaryExpression e op) = IR_UNARY"

fun operation_for :: "ast \<Rightarrow> operation" where
  "operation_for (BinaryExpression l r op) = Binary_operation op"
| "operation_for (UnaryExpression e op) = Unary_operation op"
| "operation_for (AsmStatement a v) = Volatile_operation v"
| "operation_for _ = No_operation"

fun type_name_for :: "ast \<Rightarrow> string option" where
  "type_name_for (VariableDeclaration x t v r) = t"
| "type_name_for _ = None"

fun value_for :: "(string \<Rightarrow> 'f) \<Rightarrow> ast \<Rightarrow> 'f hir_value" where
  "value_for strtod (IntegerLiteral v) = Integer_value v"
| "value_for strtod (BooleanLiteral b) = Boolean_value b"
| "value_for strtod (FloatLiteral t) = Floating_value (strtod t)"
| "value_for strtod (StringLiteral s) = Text_value s"
| "value_for strtod (AsmStatement a v) = Text_value a"
| "value_for strtod (VariableDeclaration x t v r) = Text_value x"
| "value_for strtod (Variable x) = Text_value x"
| "value_for strtod (MemberExpression ob m) = Text_value m"
| "value_for strtod (FunctionCall f as n) = Text_value f"
| "value_for strtod (FunctionDeclaration f ps ts n r u b) = Text_value f"
| "value_for strtod (StructDeclaration s fs n) = Text_value s"
| "value_for strtod _ = No_value"

text \<open>\<open>names[i]\<close> is read for every \<open>i\<close> below the stored count.\<close>

definition copy_names :: "string list \<Rightarrow> nat \<Rightarrow> string list option" where
  "copy_names ns n = (if n \<le> length ns then Some (take n ns) else None)"

fun names_for :: "ast \<Rightarrow> string list option" where
  "names_for (FunctionDeclaration f ps ts n r u b) = copy_names ps n"
| "names_for (StructDeclaration s fs n) = copy_names fs n"
| "names_for _ = Some []"

definition node_payload :: "(string \<Rightarrow> 'f) \<Rightarrow> ast \<Rightarrow> 'f hir_node option" where
  "node_payload strtod a = do {
     ns \<leftarrow> names_for a;
     Some (blank_node\<lparr>opcode := opcode_for a, role := EDGE_ROOT, operation := operation_for a, names := ns,
       type_name := type_name_for a, node_value := value_for strtod a\<rparr>)
   }"

abbreviation edges :: "edge_role \<Rightarrow> ast list \<Rightarrow> (edge_role \<times> ast) list" where
  "edges r as \<equiv> map (Pair r) as"

fun ast_edges :: "ast \<Rightarrow> (edge_role \<times> ast) list" where
  "ast_edges (Program ss) = edges EDGE_STATEMENT ss"
| "ast_edges (UnsafeBlock ss) = edges EDGE_STATEMENT ss"
| "ast_edges (PrintStatement e) = [(EDGE_VALUE, e)]"
| "ast_edges (IfStatement c t e) = (EDGE_CONDITION, c) # edges EDGE_THEN t @ edges EDGE_ELSE e"
| "ast_edges (WhileStatement c b) = (EDGE_CONDITION, c) # edges EDGE_BODY b"
| "ast_edges (FunctionDeclaration f ps ts n r u b) = edges EDGE_BODY b"
| "ast_edges (VariableDeclaration x t v r) = [(EDGE_VALUE, v)]"
| "ast_edges (FunctionCall f as n) = edges EDGE_ARGUMENT as"
| "ast_edges (ReturnStatement e) = (case e of None \<Rightarrow> [] | Some e \<Rightarrow> [(EDGE_VALUE, e)])"
| "ast_edges (ArrayLiteral es n) = edges EDGE_ELEMENT es"
| "ast_edges (IndexExpression a i) = [(EDGE_OBJECT, a), (EDGE_INDEX, i)]"
| "ast_edges (MemberExpression ob m) = [(EDGE_OBJECT, ob)]"
| "ast_edges (Assignment t v) = [(EDGE_TARGET, t), (EDGE_VALUE, v)]"
| "ast_edges (BinaryExpression l r op) = [(EDGE_LEFT, l), (EDGE_RIGHT, r)]"
| "ast_edges (UnaryExpression e op) = [(EDGE_OPERAND, e)]"
| "ast_edges _ = []"

definition edges_size :: "(edge_role \<times> ast) list \<Rightarrow> nat" where
  "edges_size es = sum_list (map (\<lambda>(r, a). 4 * size a + 2) es)"

lemma edges_size_simps [simp]:
  "edges_size [] = 0" "edges_size ((r, a) # es) = 4 * size a + 2 + edges_size es"
  "edges_size (es @ es') = edges_size es + edges_size es'"
  by (simp_all add: edges_size_def)

lemma edges_size_map: "edges_size (edges r as) < 4 * size_list size as + 1"
  by (induction as) simp_all

lemma ast_edges_size: "edges_size (ast_edges a) < 4 * size a + 1"
proof (cases a)
  case (IfStatement c t e)
  then show ?thesis using edges_size_map [of EDGE_THEN t] edges_size_map [of EDGE_ELSE e] by simp
qed (auto split: option.splits intro: less_trans [OF edges_size_map])

text \<open>
  \<open>lower_node\<close>, and the loops of \<open>lower_list\<close> and \<open>lower_one\<close> over all children of a node.
\<close>

function lower_node :: "(string \<Rightarrow> 'f) \<Rightarrow> 'f hir_program \<Rightarrow> ast \<Rightarrow> (nat \<times> 'f hir_program) option"
  and lower_edges :: "(string \<Rightarrow> 'f) \<Rightarrow> 'f hir_program \<Rightarrow> nat \<Rightarrow> (edge_role \<times> ast) list \<Rightarrow> 'f hir_program option" where
  "lower_node strtod ir a = do {
     let (i, ir) = reserve_node ir;
     node \<leftarrow> node_payload strtod a;
     ir \<leftarrow> lower_edges strtod (update_node ir i (\<lambda>_. node)) i (ast_edges a);
     Some (i, ir)
   }"
| "lower_edges strtod ir parent [] = Some ir"
| "lower_edges strtod ir parent ((r, a) # es) = do {
     (child, ir) \<leftarrow> lower_node strtod ir a;
     ir \<leftarrow> add_child (update_node ir child (\<lambda>n. n\<lparr>role := r\<rparr>)) parent child;
     lower_edges strtod ir parent es
   }"
  by pat_completeness auto
termination
proof (relation "measure (case_sum (\<lambda>(s, ir, a). 4 * size a + 1) (\<lambda>(s, ir, p, es). edges_size es))")
qed (use ast_edges_size in auto)

end
