(* ===== verification/HirResolve.thy ===== *)
theory HirResolve
  imports HirLower
begin

text \<open>
  The second half of \<open>src/compiler/ir_lower.c\<close>: every variable of the lowered program is renamed
  to a storage key of its own, and \<open>vnt_ir_lower\<close>. The capacity of the symbol array and the size
  of the buffer for the number in a key are not modelled: both would need more symbols than
  memory can hold. The outer \<open>None\<close> is a fault: an index out of range, or the text of a node that has
  none. The recursion is bounded by the number of nodes, as in theory \<open>Cfg\<close>.
\<close>

record hir_symbol =
  source_name :: string
  storage_key :: string
  symbol_depth :: nat

record 'f hir_resolver =
  res_ir :: "'f hir_program"
  res_symbols :: "hir_symbol list"
  next_id :: nat
  res_depth :: nat
  res_error :: bool

definition resolver_error :: "'f hir_resolver \<Rightarrow> 'f hir_resolver" where
  "resolver_error rs = rs\<lparr>res_error := True\<rparr>"

text \<open>The latest symbol of a name.\<close>

definition resolver_find :: "hir_symbol list \<Rightarrow> string \<Rightarrow> hir_symbol option" where
  "resolver_find symbols name = find (\<lambda>s. source_name s = name) (rev symbols)"

definition symbol_key :: "nat \<Rightarrow> string \<Rightarrow> string" where
  "symbol_key k name = ''__vnt_symbol_'' @ decimal k @ ''_'' @ name"

definition resolver_declare :: "'f hir_resolver \<Rightarrow> string \<Rightarrow> hir_symbol \<times> 'f hir_resolver" where
  "resolver_declare rs name =
     (let symbol = \<lparr>source_name = name, storage_key = symbol_key (next_id rs) name, symbol_depth = res_depth rs\<rparr> in
      (symbol, rs\<lparr>next_id := next_id rs + 1, res_symbols := res_symbols rs @ [symbol]\<rparr>))"

definition set_text :: "'f hir_resolver \<Rightarrow> nat \<Rightarrow> string \<Rightarrow> 'f hir_resolver" where
  "set_text rs i key = rs\<lparr>res_ir := update_node (res_ir rs) i (\<lambda>n. n\<lparr>node_value := Text_value key\<rparr>)\<rparr>"

text \<open>Rename node \<open>i\<close> to the symbol of its text, or to a new symbol.\<close>

definition rename_found :: "'f hir_resolver \<Rightarrow> nat \<Rightarrow> 'f hir_resolver option" where
  "rename_found rs i = do {
     name \<leftarrow> value_text (node_value (hir_node_at (res_ir rs) i));
     Some (case resolver_find (res_symbols rs) name of
         None \<Rightarrow> resolver_error rs
       | Some s \<Rightarrow> set_text rs i (storage_key s))
   }"

definition rename_declared :: "'f hir_resolver \<Rightarrow> nat \<Rightarrow> 'f hir_resolver option" where
  "rename_declared rs i = do {
     name \<leftarrow> value_text (node_value (hir_node_at (res_ir rs) i));
     let (s, rs) = resolver_declare rs name;
     Some (set_text rs i (storage_key s))
   }"

text \<open>The loop that drops the symbols of the scope just left.\<close>

definition drop_scope :: "'f hir_resolver \<Rightarrow> 'f hir_resolver" where
  "drop_scope rs = rs\<lparr>res_symbols := rev (dropWhile (\<lambda>s. res_depth rs \<le> symbol_depth s) (rev (res_symbols rs)))\<rparr>"

type_synonym 'f bind_step = "'f hir_resolver \<Rightarrow> nat option \<Rightarrow> 'f hir_resolver option"

fun bind_all :: "'f bind_step \<Rightarrow> 'f hir_resolver \<Rightarrow> nat list \<Rightarrow> 'f hir_resolver option" where
  "bind_all go rs [] = Some rs"
| "bind_all go rs (c # cs) = (if res_error rs then Some rs else do { rs \<leftarrow> go rs (Some c); bind_all go rs cs })"

definition resolver_bind_role :: "'f bind_step \<Rightarrow> 'f hir_resolver \<Rightarrow> nat \<Rightarrow> edge_role \<Rightarrow> 'f hir_resolver option" where
  "resolver_bind_role go rs i r = do {
     cs \<leftarrow> children (res_ir rs) i;
     bind_all go rs (filter (\<lambda>c. role (hir_node_at (res_ir rs) c) = r) cs)
   }"

definition bind_child :: "'f bind_step \<Rightarrow> 'f hir_resolver \<Rightarrow> nat \<Rightarrow> edge_role \<Rightarrow> 'f hir_resolver option" where
  "bind_child go rs i r = do { c \<leftarrow> child_role (res_ir rs) i r; go rs c }"

text \<open>The body of a block with a scope of its own.\<close>

definition bind_if :: "'f bind_step \<Rightarrow> 'f hir_resolver \<Rightarrow> nat \<Rightarrow> 'f hir_resolver option" where
  "bind_if go rs i = do {
     rs \<leftarrow> bind_child go rs i EDGE_CONDITION;
     if res_error rs then Some rs else do {
       rs \<leftarrow> resolver_bind_role go (rs\<lparr>res_depth := res_depth rs + 1\<rparr>) i EDGE_THEN;
       if res_error rs then Some rs else do {
         rs \<leftarrow> resolver_bind_role go (drop_scope rs) i EDGE_ELSE;
         let rs = drop_scope rs;
         Some (rs\<lparr>res_depth := res_depth rs - 1\<rparr>) } } }"

definition bind_while :: "'f bind_step \<Rightarrow> 'f hir_resolver \<Rightarrow> nat \<Rightarrow> 'f hir_resolver option" where
  "bind_while go rs i = do {
     rs \<leftarrow> bind_child go rs i EDGE_CONDITION;
     if res_error rs then Some rs else do {
       rs \<leftarrow> resolver_bind_role go (rs\<lparr>res_depth := res_depth rs + 1\<rparr>) i EDGE_BODY;
       let rs = drop_scope rs;
       Some (rs\<lparr>res_depth := res_depth rs - 1\<rparr>) } }"

definition bind_declaration :: "'f bind_step \<Rightarrow> 'f hir_resolver \<Rightarrow> nat \<Rightarrow> 'f hir_resolver option" where
  "bind_declaration go rs i = do {
     rs \<leftarrow> bind_child go rs i EDGE_VALUE;
     if res_error rs then Some rs
     else if opcode (hir_node_at (res_ir rs) i) = IR_REASSIGN then rename_found rs i
     else rename_declared rs i }"

definition bind_pair :: "'f bind_step \<Rightarrow> 'f hir_resolver \<Rightarrow> nat \<Rightarrow> edge_role \<Rightarrow> edge_role \<Rightarrow> 'f hir_resolver option" where
  "bind_pair go rs i r r' = do { rs \<leftarrow> bind_child go rs i r; bind_child go rs i r' }"

fun resolver_bind_expr :: "nat \<Rightarrow> 'f bind_step" where
  "resolver_bind_expr k rs None = Some rs"
| "resolver_bind_expr 0 rs (Some i) = None"
| "resolver_bind_expr (Suc k) rs (Some i) =
     (if res_error rs \<or> node_count (res_ir rs) \<le> i then Some rs
      else let op = opcode (hir_node_at (res_ir rs) i); go = resolver_bind_expr k in
      if op = IR_VARIABLE then rename_found rs i
      else if op = IR_VARIABLE_DECL \<or> op = IR_REASSIGN then bind_declaration go rs i
      else if op = IR_PROGRAM then resolver_bind_role go rs i EDGE_STATEMENT
      else if op = IR_PRINT \<or> op = IR_RETURN then bind_child go rs i EDGE_VALUE
      else if op = IR_IF then bind_if go rs i
      else if op = IR_WHILE then bind_while go rs i
      else if op = IR_ASSIGN then bind_pair go rs i EDGE_TARGET EDGE_VALUE
      else if op = IR_CALL \<or> op = IR_ARRAY then do { cs \<leftarrow> children (res_ir rs) i; bind_all go rs cs }
      else if op = IR_INDEX then bind_pair go rs i EDGE_OBJECT EDGE_INDEX
      else if op = IR_MEMBER then bind_child go rs i EDGE_OBJECT
      else if op = IR_BINARY then bind_pair go rs i EDGE_LEFT EDGE_RIGHT
      else if op = IR_UNARY then bind_child go rs i EDGE_OPERAND
      else Some rs)"

section \<open>The whole program\<close>

text \<open>Top-level declarations get their symbols first.\<close>

fun declare_globals :: "'f hir_resolver \<Rightarrow> nat list \<Rightarrow> 'f hir_resolver option" where
  "declare_globals rs [] = Some rs"
| "declare_globals rs (c # cs) =
     (if opcode (hir_node_at (res_ir rs) c) = IR_VARIABLE_DECL then do {
        name \<leftarrow> value_text (node_value (hir_node_at (res_ir rs) c));
        declare_globals (snd (resolver_declare rs name)) cs
      } else declare_globals rs cs)"

fun declare_parameters :: "'f hir_resolver \<Rightarrow> nat \<Rightarrow> nat list \<Rightarrow> 'f hir_resolver" where
  "declare_parameters rs i [] = rs"
| "declare_parameters rs i (p # ps) =
     (if res_error rs then rs
      else let (s, rs) = resolver_declare rs (names (hir_node_at (res_ir rs) i) ! p) in
        declare_parameters
          (rs\<lparr>res_ir := update_node (res_ir rs) i (\<lambda>n. n\<lparr>names := (names n)[p := storage_key s]\<rparr>)\<rparr>) i ps)"

definition bind_function :: "nat \<Rightarrow> 'f hir_resolver \<Rightarrow> nat \<Rightarrow> 'f hir_resolver option" where
  "bind_function k rs c = do {
     let function_base = length (res_symbols rs);
     let rs = declare_parameters (rs\<lparr>res_depth := 1\<rparr>) c [0..<length (names (hir_node_at (res_ir rs) c))];
     rs \<leftarrow> resolver_bind_role (resolver_bind_expr k) rs c EDGE_BODY;
     Some (rs\<lparr>res_symbols := take function_base (res_symbols rs), res_depth := 0\<rparr>)
   }"

definition bind_global :: "nat \<Rightarrow> nat \<Rightarrow> 'f hir_resolver \<Rightarrow> nat \<Rightarrow> 'f hir_resolver option" where
  "bind_global k global_count rs c = do {
     name \<leftarrow> value_text (node_value (hir_node_at (res_ir rs) c));
     let rs = (case find (\<lambda>s. source_name s = name) (take global_count (res_symbols rs)) of
         None \<Rightarrow> resolver_error rs
       | Some s \<Rightarrow> set_text rs c (storage_key s));
     bind_child (resolver_bind_expr k) rs c EDGE_VALUE
   }"

definition top_statement :: "nat \<Rightarrow> nat \<Rightarrow> 'f bind_step" where
  "top_statement k global_count rs index =
     (case index of None \<Rightarrow> Some rs | Some c \<Rightarrow>
      let op = opcode (hir_node_at (res_ir rs) c) in
      if op = IR_FUNCTION then bind_function k rs c
      else if op = IR_VARIABLE_DECL then bind_global k global_count rs c
      else resolver_bind_expr k rs (Some c))"

definition resolve_hir_symbols :: "'f hir_program \<Rightarrow> (bool \<times> 'f hir_program) option" where
  "resolve_hir_symbols ir = do {
     cs \<leftarrow> children ir (root ir);
     rs \<leftarrow> declare_globals \<lparr>res_ir = ir, res_symbols = [], next_id = 0, res_depth = 0, res_error = False\<rparr> cs;
     rs \<leftarrow> bind_all (top_statement (node_count ir) (length (res_symbols rs))) rs cs;
     Some (\<not> res_error rs, res_ir rs)
   }"

text \<open>
  \<open>vnt_ir_lower\<close>: \<open>None\<close> is a fault, \<open>Some None\<close> is \<open>return 0\<close>.
\<close>

definition build_hir :: "(string \<Rightarrow> 'f) \<Rightarrow> ast \<Rightarrow> 'f hir_program option option" where
  "build_hir strtod program =
     (case program of
        Program _ \<Rightarrow> do {
          (r, ir) \<leftarrow> lower_node strtod \<lparr>nodes = [], root = 0, optimized_nodes = 0\<rparr> program;
          (ok, ir) \<leftarrow> resolve_hir_symbols (ir\<lparr>root := r\<rparr>);
          Some (if ok \<and> vnt_ir_validate ir then Some ir else None)
        }
      | _ \<Rightarrow> Some None)"

definition vnt_ir_lower :: "(string \<Rightarrow> 'f) \<Rightarrow> ast \<Rightarrow> 'f hir_program option option" where
  "vnt_ir_lower strtod program = build_hir strtod program"

end
