(* ===== verification/HirStore.thy ===== *)
theory HirStore
  imports HirLower
begin

text \<open>
  The node array as a store of linked trees. \<open>tree_at ir t\<close> says that the links of the array form
  the tree \<open>t\<close>, whose nodes carry their index and the fields that are no links. A pass over
  the array is then a function on trees, and a node outside the indices of a tree can change
  without changing the tree.
\<close>

section \<open>Trees in the array\<close>

datatype 'f htree = HTree (tree_index: nat) (tree_label: "'f hir_node") (tree_kids: "'f htree list")

definition node_label :: "'f hir_node \<Rightarrow> 'f hir_node" where
  "node_label n = n\<lparr>first_child := None, last_child := None, next_sibling := None, child_count := 0\<rparr>"

fun linked :: "'f hir_program \<Rightarrow> nat option \<Rightarrow> nat list \<Rightarrow> bool" where
  "linked ir c [] \<longleftrightarrow> c = None"
| "linked ir c (i # is) \<longleftrightarrow> c = Some i \<and> linked ir (next_sibling (hir_node_at ir i)) is"

definition last_index :: "nat list \<Rightarrow> nat option" where
  "last_index is = (if is = [] then None else Some (last is))"

fun tree_at :: "'f hir_program \<Rightarrow> 'f htree \<Rightarrow> bool" where
  "tree_at ir (HTree i l ts) \<longleftrightarrow> i < node_count ir \<and> node_label (hir_node_at ir i) = l
     \<and> linked ir (first_child (hir_node_at ir i)) (map tree_index ts)
     \<and> last_child (hir_node_at ir i) = last_index (map tree_index ts)
     \<and> child_count (hir_node_at ir i) = length ts \<and> list_all (tree_at ir) ts"

fun indices :: "'f htree \<Rightarrow> nat list" where
  "indices (HTree i l ts) = i # concat (map indices ts)"

text \<open>The tree without its place in the array.\<close>

fun erase :: "'f htree \<Rightarrow> 'f htree" where
  "erase (HTree i l ts) = HTree 0 l (map erase ts)"

lemma tree_index_indices: "tree_index t \<in> set (indices t)"
  by (cases t) simp

lemma tree_at_range: "tree_at ir t \<Longrightarrow> i \<in> set (indices t) \<Longrightarrow> i < node_count ir"
  by (induction t) (auto simp: list_all_iff)

lemma distinct_map_index: "distinct (concat (map indices ts)) \<Longrightarrow> distinct (map tree_index ts)"
proof (induction ts)
  case (Cons t ts)
  have "tree_index t \<notin> tree_index ` set ts"
  proof
    assume "tree_index t \<in> tree_index ` set ts"
    then obtain u where "u \<in> set ts" "tree_index t \<in> set (indices u)" by (metis imageE tree_index_indices)
    with Cons.prems tree_index_indices [of t] show False by auto
  qed
  with Cons show ?case by simp
qed simp

section \<open>Framing\<close>

definition same_but_next :: "'f hir_node \<Rightarrow> 'f hir_node \<Rightarrow> bool" where
  "same_but_next a b \<longleftrightarrow> a\<lparr>next_sibling := None\<rparr> = b\<lparr>next_sibling := None\<rparr>"

lemma same_but_next_refl [simp]: "same_but_next a a"
  by (simp add: same_but_next_def)

lemma same_but_nextD:
  assumes "same_but_next a b"
  shows "node_label a = node_label b" "first_child a = first_child b" "last_child a = last_child b"
    "child_count a = child_count b"
proof -
  let ?f = "\<lambda>n :: 'a hir_node. n\<lparr>next_sibling := None\<rparr>"
  have e: "?f a = ?f b" using assms by (simp add: same_but_next_def)
  have "node_label n = node_label (?f n)" "first_child n = first_child (?f n)" "last_child n = last_child (?f n)"
    "child_count n = child_count (?f n)" for n by (simp_all add: node_label_def)
  with e show "node_label a = node_label b" "first_child a = first_child b" "last_child a = last_child b"
    "child_count a = child_count b" by metis+
qed

lemma linked_last: "linked ir c is \<Longrightarrow> is \<noteq> [] \<Longrightarrow> next_sibling (hir_node_at ir (last is)) = None"
  by (induction "is" arbitrary: c) (auto split: if_splits)

lemma linked_frame:
  "(\<And>i. i \<in> set is \<Longrightarrow> hir_node_at ir' i = hir_node_at ir i) \<Longrightarrow> linked ir c is \<Longrightarrow> linked ir' c is"
  by (induction "is" arbitrary: c) auto

lemma tree_at_frame:
  "tree_at ir t \<Longrightarrow> (\<And>i. i \<in> set (indices t) \<Longrightarrow> i < node_count ir' \<and> hir_node_at ir' i = hir_node_at ir i) \<Longrightarrow> tree_at ir' t"
proof (induction t)
  case (HTree i l ts)
  have "linked ir' (first_child (hir_node_at ir i)) (map tree_index ts)"
    by (rule linked_frame [of _ _ ir]) (use HTree.prems tree_index_indices in fastforce)+
  moreover have "list_all (tree_at ir') ts"
    using HTree by (fastforce simp: list_all_iff)
  ultimately show ?case using HTree.prems by simp
qed

text \<open>The link to the next sibling belongs to the list a tree is in, not to the tree.\<close>

lemma tree_at_frame_root:
  assumes "tree_at ir (HTree i l ts)" "i < node_count ir'"
    and "first_child (hir_node_at ir' i) = first_child (hir_node_at ir i)"
      "last_child (hir_node_at ir' i) = last_child (hir_node_at ir i)"
      "child_count (hir_node_at ir' i) = child_count (hir_node_at ir i)"
    and same: "\<And>j. j \<in> set (concat (map indices ts)) \<Longrightarrow> j < node_count ir' \<and> hir_node_at ir' j = hir_node_at ir j"
  shows "tree_at ir' (HTree i (node_label (hir_node_at ir' i)) ts)"
proof -
  have "linked ir' (first_child (hir_node_at ir i)) (map tree_index ts)"
    by (rule linked_frame [of _ _ ir]) (use assms(1) same tree_index_indices in fastforce)+
  moreover have "tree_at ir' t" if "t \<in> set ts" for t
  proof (rule tree_at_frame [of ir])
    show "tree_at ir t" using assms(1) that by (simp add: list_all_iff)
    show "j < node_count ir' \<and> hir_node_at ir' j = hir_node_at ir j" if "j \<in> set (indices t)" for j
      using same that \<open>t \<in> set ts\<close> by simp blast
  qed
  ultimately show ?thesis using assms by (simp add: list_all_iff)
qed

lemma tree_at_frame_next:
  assumes "tree_at ir t" "distinct (indices t)"
    and "\<And>j. j \<in> set (indices t) \<Longrightarrow> j < node_count ir' \<and> same_but_next (hir_node_at ir' j) (hir_node_at ir j)
        \<and> (j \<noteq> tree_index t \<longrightarrow> hir_node_at ir' j = hir_node_at ir j)"
  shows "tree_at ir' t"
proof (cases t)
  case (HTree i l ts)
  have i: "i < node_count ir'" "same_but_next (hir_node_at ir' i) (hir_node_at ir i)" using assms(3) HTree by auto
  have "tree_at ir' (HTree i (node_label (hir_node_at ir' i)) ts)"
  proof (rule tree_at_frame_root [of ir])
    show "j < node_count ir' \<and> hir_node_at ir' j = hir_node_at ir j" if "j \<in> set (concat (map indices ts))" for j
      using assms(2,3) [unfolded HTree] that by fastforce
  qed (use assms(1) HTree i same_but_nextD [OF i(2)] in auto)
  then show ?thesis using assms(1) HTree same_but_nextD(1) [OF i(2)] by simp
qed

section \<open>Appending a child\<close>

lemma linked_append:
  assumes "linked ir c is" "distinct (is @ [m])" "is \<noteq> []"
    and "\<And>i. i \<in> set is \<Longrightarrow> i \<noteq> last is \<Longrightarrow> hir_node_at ir' i = hir_node_at ir i"
    and "next_sibling (hir_node_at ir' (last is)) = Some m" "next_sibling (hir_node_at ir' m) = None"
  shows "linked ir' c (is @ [m])"
  using assms
proof (induction "is" arbitrary: c)
  case (Cons i "is")
  show ?case
  proof (cases "is = []")
    case False
    then have "i \<noteq> last is" using Cons.prems(2) by auto
    with Cons False show ?thesis by auto
  qed (use Cons.prems in simp)
qed simp

lemma update_node_simps [simp]:
  "node_count (update_node ir i f) = node_count ir" "root (update_node ir i f) = root ir"
  "optimized_nodes (update_node ir i f) = optimized_nodes ir"
  by (simp_all add: update_node_def)

lemma update_node_nth [simp]:
  "j < node_count ir \<Longrightarrow> hir_node_at (update_node ir i f) j = (if i = j then f (hir_node_at ir j) else hir_node_at ir j)"
  by (simp add: update_node_def nth_list_update)

text \<open>What \<open>add_child\<close> does to each node, when the new child is not yet linked.\<close>

lemma add_child_nodes:
  assumes "p < node_count ir" "m < node_count ir" "l = last_child (hir_node_at ir p)"
    and "\<And>k. l = Some k \<Longrightarrow> k < node_count ir \<and> k \<noteq> p"
  shows "\<exists>ir'. add_child ir p m = Some ir' \<and> node_count ir' = node_count ir \<and> root ir' = root ir
    \<and> optimized_nodes ir' = optimized_nodes ir
    \<and> (\<forall>j < node_count ir. hir_node_at ir' j =
         (if j = p then (hir_node_at ir p)\<lparr>first_child := (if l = None then Some m else first_child (hir_node_at ir p)),
            last_child := Some m, child_count := child_count (hir_node_at ir p) + 1\<rparr>
          else if l = Some j then (hir_node_at ir j)\<lparr>next_sibling := Some m\<rparr> else hir_node_at ir j))"
  using assms by (auto simp: add_child_def split: option.splits)

lemma add_child_tree:
  assumes t: "tree_at ir (HTree p l ts)" "tree_at ir c" and d: "distinct (indices (HTree p l ts) @ indices c)"
    and n: "next_sibling (hir_node_at ir (tree_index c)) = None"
  shows "\<exists>ir'. add_child ir p (tree_index c) = Some ir' \<and> tree_at ir' (HTree p l (ts @ [c]))
    \<and> node_count ir' = node_count ir \<and> root ir' = root ir \<and> optimized_nodes ir' = optimized_nodes ir
    \<and> next_sibling (hir_node_at ir' p) = next_sibling (hir_node_at ir p)
    \<and> (\<forall>j < node_count ir. j \<notin> set (indices (HTree p l ts)) \<longrightarrow> hir_node_at ir' j = hir_node_at ir j)"
proof -
  let ?m = "tree_index c" and ?is = "map tree_index ts"
  have p: "p < node_count ir" "node_label (hir_node_at ir p) = l"
    and ln: "linked ir (first_child (hir_node_at ir p)) ?is" "last_child (hir_node_at ir p) = last_index ?is"
    and cc: "child_count (hir_node_at ir p) = length ts" and ts: "\<And>t. t \<in> set ts \<Longrightarrow> tree_at ir t"
    using t(1) by (simp_all add: list_all_iff)
  have m: "?m < node_count ir" using t(2) by (cases c) simp
  have mem: "?m \<in> set (indices c)" by (rule tree_index_indices)
  have kid: "tree_index t \<in> set (concat (map indices ts))" if "t \<in> set ts" for t
    using that tree_index_indices by fastforce
  have pk: "p \<notin> set (concat (map indices ts))" "p \<notin> set (indices c)" using d by auto
  have dis: "set (concat (map indices ts)) \<inter> set (indices c) = {}" using d by auto
  have last: "k < node_count ir \<and> k \<noteq> p \<and> k \<in> set (concat (map indices ts))" if k: "last_index ?is = Some k" for k
  proof -
    from k have ne: "ts \<noteq> []" and k: "k = tree_index (last ts)" by (auto simp: last_index_def last_map split: if_splits)
    then have "tree_at ir (last ts)" "k \<in> set (concat (map indices ts))" using ts kid by auto
    with k pk show ?thesis by (cases "last ts") auto
  qed
  obtain ir' where a: "add_child ir p ?m = Some ir'" "node_count ir' = node_count ir" "root ir' = root ir"
      "optimized_nodes ir' = optimized_nodes ir"
    and nodes: "\<And>j. j < node_count ir \<Longrightarrow> hir_node_at ir' j =
         (if j = p then (hir_node_at ir p)\<lparr>first_child := (if last_index ?is = None then Some ?m else first_child (hir_node_at ir p)),
            last_child := Some ?m, child_count := child_count (hir_node_at ir p) + 1\<rparr>
          else if last_index ?is = Some j then (hir_node_at ir j)\<lparr>next_sibling := Some ?m\<rparr> else hir_node_at ir j)"
    using add_child_nodes [OF p(1) m ln(2) [symmetric]] last by metis
  have same: "hir_node_at ir' j = hir_node_at ir j" if "j < node_count ir" "j \<noteq> p" "last_index ?is \<noteq> Some j" for j
    using nodes [OF that(1)] that by simp
  have c': "tree_at ir' c"
  proof (rule tree_at_frame [OF t(2)])
    fix i assume i: "i \<in> set (indices c)"
    then have "i \<noteq> p" "last_index ?is \<noteq> Some i" using pk dis last by blast+
    moreover have "i < node_count ir" using tree_at_range [OF t(2) i] .
    ultimately show "i < node_count ir' \<and> hir_node_at ir' i = hir_node_at ir i" using same a(2) by simp
  qed
  have kids': "tree_at ir' t" if "t \<in> set ts" for t
  proof (rule tree_at_frame_next [OF ts [OF that]])
    show "distinct (indices t)" using d that by (auto simp: distinct_concat_iff)
    fix j assume j: "j \<in> set (indices t)"
    then have jn: "j < node_count ir" using tree_at_range [OF ts [OF that]] by simp
    have "j \<noteq> p" using pk j that by auto
    moreover have "j = tree_index t" if k: "last_index ?is = Some j"
    proof -
      from k obtain ts0 t0 where s: "ts = ts0 @ [t0]" "j = tree_index t0"
        by (cases ts rule: rev_cases) (auto simp: last_index_def)
      then have "j \<in> set (indices t0)" using tree_index_indices by simp
      with d s(1) j \<open>t \<in> set ts\<close> have "t \<notin> set ts0" by auto
      with s \<open>t \<in> set ts\<close> show ?thesis by simp
    qed
    ultimately show "j < node_count ir' \<and> same_but_next (hir_node_at ir' j) (hir_node_at ir j)
        \<and> (j \<noteq> tree_index t \<longrightarrow> hir_node_at ir' j = hir_node_at ir j)"
      using nodes [OF jn] jn a(2) by (auto simp: same_but_next_def)
  qed
  have "next_sibling (hir_node_at ir' ?m) = None" using same [OF m] n pk mem dis last by force
  moreover have "?m \<notin> set ?is" using kid dis mem by fastforce
  moreover have "distinct ?is" by (rule distinct_map_index) (use d in simp)
  ultimately have mn: "next_sibling (hir_node_at ir' ?m) = None" "distinct (?is @ [?m])" by simp_all
  have "linked ir' (first_child (hir_node_at ir' p)) (?is @ [?m])"
  proof (cases "ts = []")
    case True
    then show ?thesis using nodes [OF p(1)] mn(1) by (simp add: last_index_def)
  next
    case False
    then have li: "last_index ?is = Some (last ?is)" by (simp add: last_index_def)
    note lst = last [OF li]
    have "linked ir' (first_child (hir_node_at ir p)) (?is @ [?m])"
    proof (rule linked_append [OF ln(1) mn(2) _ _ _ mn(1)])
      show "next_sibling (hir_node_at ir' (last ?is)) = Some ?m" using nodes [of "last ?is"] lst li by simp
      fix i assume i: "i \<in> set ?is" "i \<noteq> last ?is"
      then obtain t where "t \<in> set ts" "i = tree_index t" by auto
      then have "i < node_count ir" "i \<noteq> p" using tree_at_range [OF ts tree_index_indices] kid pk by metis+
      then show "hir_node_at ir' i = hir_node_at ir i" using same li i(2) by auto
    qed (use False in simp)
    then show ?thesis using nodes [OF p(1)] li by simp
  qed
  then have "tree_at ir' (HTree p l (ts @ [c]))"
    using p a(2) nodes [OF p(1)] cc kids' c'
    by (auto simp: list_all_iff last_index_def node_label_def)
  moreover have "next_sibling (hir_node_at ir' p) = next_sibling (hir_node_at ir p)" using nodes [OF p(1)] by simp
  moreover have "hir_node_at ir' j = hir_node_at ir j" if "j < node_count ir" "j \<notin> set (indices (HTree p l ts))" for j
    by (rule same [OF that(1)]) (use that(2) last in auto)
  ultimately show ?thesis using a by blast
qed

end
