(* ===== verification/HirLowerSpec.thy ===== *)
theory HirLowerSpec
  imports HirStore
begin

text \<open>
  Lowering writes the syntax tree into the array: the nodes in the order of a depth-first walk,
  linked to exactly the tree \<open>ast_tree\<close>.
\<close>

section \<open>The tree of a syntax tree\<close>

lemma edge_smaller: "(r, c) \<in> set (ast_edges a) \<Longrightarrow> size c < size a"
  by (cases a) (auto split: option.splits simp: less_Suc_eq_le trans_le_add1 trans_le_add2 size_list_estimation')

function counts_ok :: "ast \<Rightarrow> bool" where
  "counts_ok a \<longleftrightarrow> names_for a \<noteq> None \<and> (\<forall>(r, c) \<in> set (ast_edges a). counts_ok c)"
  by pat_completeness auto
termination by (relation "measure size") (auto intro: edge_smaller)

function ast_tree :: "(string \<Rightarrow> 'f) \<Rightarrow> edge_role \<Rightarrow> ast \<Rightarrow> 'f htree" where
  "ast_tree strtod r a = HTree 0 ((the (node_payload strtod a))\<lparr>role := r\<rparr>)
     (map (\<lambda>(r, c). ast_tree strtod r c) (ast_edges a))"
  by pat_completeness auto
termination by (relation "measure (\<lambda>(s, r, a). size a)") (auto intro: edge_smaller)

text \<open>How deep the tree is; recursion over the children goes no deeper.\<close>

function ast_depth :: "ast \<Rightarrow> nat" where
  "ast_depth a = maximum (map (\<lambda>(r, c). Suc (ast_depth c)) (ast_edges a))"
  by pat_completeness auto
termination by (relation "measure size") (auto intro: edge_smaller)

declare ast_depth.simps [simp del]

lemma maximum_ge: "n \<in> set ns \<Longrightarrow> n \<le> maximum ns"
  by (induction ns) auto

lemma maximum_le: "(\<And>n. n \<in> set ns \<Longrightarrow> n \<le> m) \<Longrightarrow> maximum ns \<le> m"
  by (induction ns) auto

lemma edge_deeper: "(r, c) \<in> set (ast_edges a) \<Longrightarrow> ast_depth c < ast_depth a"
  using maximum_ge [of "Suc (ast_depth c)" "map (\<lambda>(r, c). Suc (ast_depth c)) (ast_edges a)"]
  by (subst (2) ast_depth.simps) force

declare counts_ok.simps [simp del] ast_tree.simps [simp del] lower_node.simps [simp del]

section \<open>Correctness\<close>

definition grows :: "nat \<Rightarrow> 'f hir_program \<Rightarrow> 'f hir_program \<Rightarrow> bool" where
  "grows m ir ir' \<longleftrightarrow> node_count ir \<le> node_count ir' \<and> root ir' = root ir \<and> optimized_nodes ir' = optimized_nodes ir
     \<and> (\<forall>j < m. hir_node_at ir' j = hir_node_at ir j)"

lemma grows_trans: "grows m ir ir' \<Longrightarrow> grows k ir' ir'' \<Longrightarrow> m \<le> k \<Longrightarrow> grows m ir ir''"
  by (auto simp: grows_def)

definition lowered :: "(string \<Rightarrow> 'f) \<Rightarrow> 'f hir_program \<Rightarrow> ast \<Rightarrow> nat \<Rightarrow> 'f hir_program \<Rightarrow> bool" where
  "lowered strtod ir a i ir' \<longleftrightarrow> i = node_count ir \<and> grows i ir ir' \<and> next_sibling (hir_node_at ir' i) = None
     \<and> (\<exists>t. tree_at ir' t \<and> indices t = [i..<node_count ir'] \<and> erase t = ast_tree strtod EDGE_ROOT a)"

lemma tree_at_set_role:
  assumes "tree_at ir (HTree i l ts)" "i \<notin> set (concat (map indices ts))"
  shows "tree_at (update_node ir i (\<lambda>n. n\<lparr>role := r\<rparr>)) (HTree i (l\<lparr>role := r\<rparr>) ts)"
proof -
  let ?ir = "update_node ir i (\<lambda>n. n\<lparr>role := r\<rparr>)"
  have i: "i < node_count ir" "node_label (hir_node_at ir i) = l" using assms(1) by simp_all
  have "tree_at ?ir (HTree i (node_label (hir_node_at ?ir i)) ts)"
  proof (rule tree_at_frame_root [OF assms(1)])
    fix j assume j: "j \<in> set (concat (map indices ts))"
    then have "j \<in> set (indices (HTree i l ts))" by simp
    from tree_at_range [OF assms(1) this] j assms(2)
    show "j < node_count ?ir \<and> hir_node_at ?ir j = hir_node_at ir j" by auto
  qed (use i in simp_all)
  moreover have "node_label (hir_node_at ?ir i) = l\<lparr>role := r\<rparr>" using i by (auto simp: node_label_def)
  ultimately show ?thesis by (simp only:)
qed

lemma erase_set_role:
  "erase (HTree i l ts) = ast_tree strtod EDGE_ROOT a \<Longrightarrow> erase (HTree i (l\<lparr>role := r\<rparr>) ts) = ast_tree strtod r a"
  by (subst (asm) ast_tree.simps, subst ast_tree.simps) auto

lemma counts_okD:
  assumes "counts_ok a"
  shows "\<exists>node. node_payload strtod a = Some node" "\<forall>(r, c) \<in> set (ast_edges a). counts_ok c"
  using assms by (subst (asm) counts_ok.simps, force simp: node_payload_def)+

lemma node_payload_links:
  "node_payload strtod a = Some node \<Longrightarrow> first_child node = None \<and> last_child node = None \<and> next_sibling node = None
    \<and> child_count node = 0 \<and> node_label node = node \<and> role node = EDGE_ROOT"
  by (auto simp: node_payload_def blank_node_def node_label_def bind_eq_Some_conv)

text \<open>A subtree at the end of the array becomes the last child of the tree before it.\<close>

lemma attach_tree:
  assumes t: "tree_at ir (HTree p l ts)" "indices (HTree p l ts) = [p..<node_count ir]" "next_sibling (hir_node_at ir p) = None"
    and ex: "grows (node_count ir) ir ir1" and c: "tree_at ir1 c" "indices c = [node_count ir..<node_count ir1]"
    and nx: "next_sibling (hir_node_at ir1 (tree_index c)) = None"
  shows "\<exists>ir2. add_child ir1 p (tree_index c) = Some ir2 \<and> grows p ir ir2
    \<and> next_sibling (hir_node_at ir2 p) = None \<and> tree_at ir2 (HTree p l (ts @ [c]))
    \<and> indices (HTree p l (ts @ [c])) = [p..<node_count ir2]"
proof -
  let ?m = "node_count ir"
  have p: "p < ?m" using t(1) by simp
  have mn: "?m < node_count ir1" using c(2) tree_index_indices [of c] by (metis atLeastLessThan_iff order_le_less_trans set_upt)
  have pt: "tree_at ir1 (HTree p l ts)"
  proof (rule tree_at_frame [OF t(1)])
    fix i assume "i \<in> set (indices (HTree p l ts))"
    then have "i < ?m" unfolding t(2) by simp
    then show "i < node_count ir1 \<and> hir_node_at ir1 i = hir_node_at ir i" using ex mn by (simp add: grows_def)
  qed
  have "distinct (indices (HTree p l ts) @ indices c)" unfolding t(2) c(2) by auto
  then obtain ir2 where a: "add_child ir1 p (tree_index c) = Some ir2" "tree_at ir2 (HTree p l (ts @ [c]))"
      "node_count ir2 = node_count ir1" "root ir2 = root ir1" "optimized_nodes ir2 = optimized_nodes ir1"
    and np: "next_sibling (hir_node_at ir2 p) = next_sibling (hir_node_at ir1 p)"
    and rest: "\<And>j. j < node_count ir1 \<Longrightarrow> j \<notin> set (indices (HTree p l ts)) \<Longrightarrow> hir_node_at ir2 j = hir_node_at ir1 j"
    using add_child_tree [OF pt c(1) _ nx] by blast
  have "hir_node_at ir2 j = hir_node_at ir j" if "j < p" for j
  proof -
    have "j \<notin> set (indices (HTree p l ts))" unfolding t(2) using that by simp
    then show ?thesis using rest [of j] that p mn ex by (simp add: grows_def)
  qed
  then have "grows p ir ir2" using a ex by (simp add: grows_def)
  moreover have "next_sibling (hir_node_at ir2 p) = None" using np p mn ex t(3) by (simp add: grows_def)
  moreover have "indices (HTree p l (ts @ [c])) = [p..<node_count ir2]"
  proof -
    have "indices (HTree p l (ts @ [c])) = indices (HTree p l ts) @ indices c" by simp
    also have "\<dots> = [p..<node_count ir2]" unfolding t(2) c(2)
      using upt_add_eq_append [of p ?m "node_count ir1 - ?m"] p mn a(3) by simp
    finally show ?thesis .
  qed
  ultimately show ?thesis using a(1,2) by blast
qed

text \<open>One round of \<open>lower_list\<close>: the subtree just written becomes the last child.\<close>

lemma attach_lowered:
  assumes t: "tree_at ir (HTree p l ts)" "indices (HTree p l ts) = [p..<node_count ir]" "next_sibling (hir_node_at ir p) = None"
    and lo: "lowered strtod ir a m ir1"
  shows "\<exists>ir2 c. add_child (update_node ir1 m (\<lambda>n. n\<lparr>role := r\<rparr>)) p m = Some ir2 \<and> grows p ir ir2
    \<and> next_sibling (hir_node_at ir2 p) = None \<and> tree_at ir2 (HTree p l (ts @ [c]))
    \<and> indices (HTree p l (ts @ [c])) = [p..<node_count ir2] \<and> erase c = ast_tree strtod r a"
proof -
  let ?ir = "update_node ir1 m (\<lambda>n. n\<lparr>role := r\<rparr>)"
  from lo obtain c0 where m: "m = node_count ir" and ex: "grows m ir ir1" and nx: "next_sibling (hir_node_at ir1 m) = None"
    and c0: "tree_at ir1 c0" "indices c0 = [m..<node_count ir1]" "erase c0 = ast_tree strtod EDGE_ROOT a"
    by (auto simp: lowered_def)
  have mn: "m < node_count ir1" using c0(2) by (cases c0) (metis indices.simps list.discI not_le upt_conv_Nil)
  then have hd: "[m..<node_count ir1] = m # [Suc m..<node_count ir1]" by (rule upt_conv_Cons)
  obtain l0 ts0 where c0': "c0 = HTree m l0 ts0" and i0: "concat (map indices ts0) = [Suc m..<node_count ir1]"
    using c0(2) hd by (cases c0) auto
  define c where "c = HTree m (l0\<lparr>role := r\<rparr>) ts0"
  have c: "tree_at ?ir c" "indices c = [m..<node_count ir1]" "erase c = ast_tree strtod r a" "tree_index c = m"
    using tree_at_set_role [of ir1 m l0 ts0 r] c0 c0' i0 hd erase_set_role [of m l0 ts0 strtod a r]
    by (simp_all add: c_def)
  have "grows m ir ?ir" using ex mn by (auto simp: grows_def)
  moreover have "next_sibling (hir_node_at ?ir (tree_index c)) = None" using nx mn c(4) by simp
  ultimately obtain ir2 where "add_child ?ir p m = Some ir2" "grows p ir ir2" "next_sibling (hir_node_at ir2 p) = None"
      "tree_at ir2 (HTree p l (ts @ [c]))" "indices (HTree p l (ts @ [c])) = [p..<node_count ir2]"
    using attach_tree [OF t, of ?ir c] c m by (auto simp del: tree_at.simps indices.simps)
  then show ?thesis using c(3) by blast
qed

lemma lower_correct:
  "counts_ok a \<Longrightarrow> wp (lower_node strtod ir a) (\<lambda>(i, ir'). lowered strtod ir a i ir')"
  "tree_at ir (HTree p l ts) \<Longrightarrow> indices (HTree p l ts) = [p..<node_count ir] \<Longrightarrow> next_sibling (hir_node_at ir p) = None
   \<Longrightarrow> \<forall>(r, c) \<in> set es. counts_ok c
   \<Longrightarrow> wp (lower_edges strtod ir p es) (\<lambda>ir'. grows p ir ir' \<and> next_sibling (hir_node_at ir' p) = None
     \<and> (\<exists>ts'. tree_at ir' (HTree p l (ts @ ts')) \<and> indices (HTree p l (ts @ ts')) = [p..<node_count ir']
        \<and> map erase ts' = map (\<lambda>(r, c). ast_tree strtod r c) es))"
proof (induction strtod ir a and strtod ir p es arbitrary: and l ts rule: lower_node_lower_edges.induct)
  case (1 strtod ir a)
  define i where "i = node_count ir"
  from counts_okD(1) [OF 1(2)] obtain node where node: "node_payload strtod a = Some node" by blast
  note lk = node_payload_links [OF node]
  obtain ir0 where res: "reserve_node ir = (i, ir0)" and ir0: "ir0 = ir\<lparr>nodes := nodes ir @ [blank_node]\<rparr>"
    by (simp add: reserve_node_def i_def)
  define ir1 where "ir1 = update_node ir0 i (\<lambda>_. node)"
  have ir1: "nodes ir1 = nodes ir @ [node]" "root ir1 = root ir" "optimized_nodes ir1 = optimized_nodes ir"
    by (simp_all add: ir1_def ir0 update_node_def i_def)
  have t0: "tree_at ir1 (HTree i node [])" using lk by (simp add: ir1 i_def last_index_def)
  have i0: "indices (HTree i node []) = [i..<node_count ir1]" by (simp add: ir1 i_def)
  have n0: "next_sibling (hir_node_at ir1 i) = None" using lk by (simp add: ir1 i_def)
  from 1(1) [OF res [symmetric] refl node, folded ir1_def, OF t0 i0 n0 counts_okD(2) [OF 1(2)]] obtain ir2 ts where l: "lower_edges strtod ir1 i (ast_edges a) = Some ir2" and ex: "grows i ir1 ir2"
    and nx: "next_sibling (hir_node_at ir2 i) = None" and t: "tree_at ir2 (HTree i node ts)"
      "indices (HTree i node ts) = [i..<node_count ir2]" "map erase ts = map (\<lambda>(r, c). ast_tree strtod r c) (ast_edges a)"
    unfolding wp_iff append_Nil by blast
  have "erase (HTree i node ts) = ast_tree strtod EDGE_ROOT a"
    by (subst ast_tree.simps) (use t(3) node lk in simp)
  moreover have "grows i ir ir2" using ex by (auto simp: grows_def ir1 i_def nth_append)
  ultimately have "lowered strtod ir a i ir2" using t(1,2) nx unfolding lowered_def i_def by blast
  then show ?case by (subst lower_node.simps) (simp add: res node l ir1_def [symmetric])
next
  case (2 strtod ir parent)
  then show ?case by (auto simp: grows_def intro: exI [of _ "[]"])
next
  case (3 strtod ir parent r a es)
  have ok: "counts_ok a" "\<forall>(r, c) \<in> set es. counts_ok c" using 3(6) by auto
  from 3(1) [OF ok(1)] obtain m ir1 where m: "lower_node strtod ir a = Some (m, ir1)" "lowered strtod ir a m ir1"
    by (auto simp: wp_iff)
  obtain ir2 c where add: "add_child (update_node ir1 m (\<lambda>n. n\<lparr>role := r\<rparr>)) parent m = Some ir2"
    and ex: "grows parent ir ir2" and nx: "next_sibling (hir_node_at ir2 parent) = None"
    and c: "tree_at ir2 (HTree parent l (ts @ [c]))" "indices (HTree parent l (ts @ [c])) = [parent..<node_count ir2]"
      "erase c = ast_tree strtod r a"
    using attach_lowered [OF 3(3,4,5) m(2)] by blast
  from 3(2) [OF m(1) refl add c(1,2) nx ok(2)] obtain ir3 ts' where
    l: "lower_edges strtod ir2 parent es = Some ir3" and r: "grows parent ir2 ir3" "next_sibling (hir_node_at ir3 parent) = None"
    and t: "tree_at ir3 (HTree parent l (ts @ c # ts'))" "indices (HTree parent l (ts @ c # ts')) = [parent..<node_count ir3]"
      "map erase ts' = map (\<lambda>(r, c). ast_tree strtod r c) es"
    unfolding wp_iff append_assoc append.simps by blast
  have "lower_edges strtod ir parent ((r, a) # es) = Some ir3" using m(1) add l by simp
  moreover have "map erase (c # ts') = map (\<lambda>(r, c). ast_tree strtod r c) ((r, a) # es)" using t(3) c(3) by simp
  ultimately show ?case unfolding wp_iff using grows_trans [OF ex r(1) le_refl] r(2) t(1,2) by blast
qed

end
