(* ===== verification/HirValid.thy ===== *)
theory HirValid
  imports HirStore "HOL-Library.Multiset"
begin

text \<open>
  The converse of theory \<open>HirTree\<close>: an array that holds a tree in depth-first order, with
  well-formed nodes, passes \<open>vnt_ir_validate\<close>. Lowering and optimisation both end with such an
  array.
\<close>

section \<open>Well-formed trees\<close>

definition label_ok :: "'f hir_node \<Rightarrow> bool" where
  "label_ok l \<longleftrightarrow> node_fields_ok (l\<lparr>first_child := None, child_count := 0\<rparr>)"

text \<open>The shape of a node depends on its opcode and on the roles of its children.\<close>

definition shape_ok :: "'f hir_node \<Rightarrow> 'f hir_node list \<Rightarrow> bool" where
  "shape_ok l ks = validate_node_shape \<lparr>nodes = ks, root = 0, optimized_nodes = 0\<rparr> (l\<lparr>child_count := length ks\<rparr>) [0..<length ks]"

fun tree_ok :: "'f htree \<Rightarrow> bool" where
  "tree_ok (HTree i l ts) \<longleftrightarrow> label_ok l \<and> shape_ok l (map tree_label ts) \<and> list_all tree_ok ts"

lemma role_count_map: "role_count ir cs r = length (filter ((=) r) (map (\<lambda>c. role (hir_node_at ir c)) cs))"
  by (induction cs) (auto simp: role_count_def)

lemma validate_node_shape_cong:
  assumes "opcode a = opcode b" "child_count a = child_count b"
    and "map (\<lambda>c. role (hir_node_at ir c)) cs = map (\<lambda>c. role (hir_node_at ir' c)) cs'"
  shows "validate_node_shape ir a cs = validate_node_shape ir' b cs'"
proof -
  have "role_count ir cs = role_count ir' cs'" by (rule ext) (simp only: role_count_map assms(3))
  with assms(1,2) show ?thesis unfolding validate_node_shape_def by simp
qed

lemma node_label_role: "tree_at ir t \<Longrightarrow> role (hir_node_at ir (tree_index t)) = role (tree_label t)"
  by (cases t) (auto simp: node_label_def)

lemma node_label_opcode [simp]: "opcode (node_label n) = opcode n" "role (node_label n) = role n"
  "operation (node_label n) = operation n" "names (node_label n) = names n" "type_name (node_label n) = type_name n"
  "node_value (node_label n) = node_value n"
  by (simp_all add: node_label_def)

lemma node_fields_label:
  "node_fields_ok n \<longleftrightarrow> label_ok (node_label n) \<and> (first_child n = None) = (child_count n = 0)"
  by (cases "operation n") (auto simp: label_ok_def node_fields_ok_def)

lemma tree_at_checks:
  assumes "tree_at ir (HTree i l ts)" "tree_ok (HTree i l ts)"
  shows "node_fields_ok (hir_node_at ir i)" "validate_node_shape ir (hir_node_at ir i) (map tree_index ts)"
proof -
  let ?n = "hir_node_at ir i"
  have ln: "linked ir (first_child ?n) (map tree_index ts)" and cc: "child_count ?n = length ts" and l: "node_label ?n = l"
    using assms(1) by simp_all
  from ln have "(first_child ?n = None) = (length ts = 0)" by (cases ts) simp_all
  moreover have "label_ok l" using assms(2) by simp
  ultimately show "node_fields_ok ?n" unfolding node_fields_label cc l by simp
  have "map (\<lambda>c. role (hir_node_at ir c)) (map tree_index ts) = map (\<lambda>c. role (map tree_label ts ! c)) [0..<length ts]"
  proof (rule nth_equalityI)
    fix k assume "k < length (map (\<lambda>c. role (hir_node_at ir c)) (map tree_index ts))"
    then have k: "k < length ts" by simp
    then have "tree_at ir (ts ! k)" using assms(1) by (simp add: list_all_length)
    with k show "map (\<lambda>c. role (hir_node_at ir c)) (map tree_index ts) ! k
        = map (\<lambda>c. role (map tree_label ts ! c)) [0..<length ts] ! k" by (simp add: node_label_role)
  qed simp
  then have "validate_node_shape ir ?n (map tree_index ts) = shape_ok l (map tree_label ts)"
    unfolding shape_ok_def by (intro validate_node_shape_cong) (use assms(1) in auto)
  then show "validate_node_shape ir ?n (map tree_index ts)" using assms(2) by simp
qed

section \<open>All nodes of a tree\<close>

fun subtrees :: "'f htree \<Rightarrow> 'f htree list" where
  "subtrees (HTree i l ts) = HTree i l ts # concat (map subtrees ts)"

definition kid_indices :: "'f htree \<Rightarrow> nat list" where
  "kid_indices t = map tree_index (tree_kids t)"

lemma kid_indices_HTree [simp]: "kid_indices (HTree i l ts) = map tree_index ts"
  by (simp add: kid_indices_def)

lemma subtrees_indices: "map tree_index (subtrees t) = indices t"
  by (induction t) (simp add: map_concat o_def cong: map_cong)

lemma subtrees_at: "tree_at ir t \<Longrightarrow> s \<in> set (subtrees t) \<Longrightarrow> tree_at ir s"
  by (induction t) (auto simp: list_all_iff)

lemma subtrees_ok: "tree_ok t \<Longrightarrow> s \<in> set (subtrees t) \<Longrightarrow> tree_ok s"
  by (induction t) (auto simp: list_all_iff)

text \<open>Every node but the root is the child of exactly one node.\<close>

lemma kids_once: "add_mset (tree_index t) (mset (concat (map kid_indices (subtrees t)))) = mset (indices t)"
proof (induction t)
  case (HTree i l ts)
  have "mset (map tree_index ts) + mset (concat (map kid_indices (concat (map subtrees ts)))) = mset (concat (map indices ts))"
    using HTree.IH
  proof (induction ts)
    case (Cons t ts)
    have "add_mset (tree_index t) (mset (concat (map kid_indices (subtrees t)))) = mset (indices t)" using Cons.prems by simp
    with Cons show ?case by (auto simp: ac_simps)
  qed simp
  then show ?case by simp
qed

section \<open>The loops of the validator\<close>

lemma validate_children_linked:
  assumes "linked ir c is" "length is \<le> k" "distinct is" "i \<notin> set is"
    and "\<And>x. x \<in> set is \<Longrightarrow> x < node_count ir \<and> parents ! x = 0" "length parents = node_count ir"
  shows "\<exists>ps. validate_children k ir i c parents = Some (is, ps) \<and> length ps = node_count ir
    \<and> (\<forall>x < node_count ir. ps ! x = parents ! x + (if x \<in> set is then 1 else 0))"
  using assms
proof (induction "is" arbitrary: c k parents)
  case (Cons a "is")
  from Cons.prems(2) obtain k' where k: "k = Suc k'" "length is \<le> k'" by (cases k) auto
  let ?p = "parents[a := parents ! a + 1]"
  have a: "a < node_count ir" "parents ! a = 0" "a \<noteq> i" "c = Some a" using Cons.prems by auto
  have "\<exists>ps. validate_children k' ir i (next_sibling (hir_node_at ir a)) ?p = Some (is, ps) \<and> length ps = node_count ir
    \<and> (\<forall>x < node_count ir. ps ! x = ?p ! x + (if x \<in> set is then 1 else 0))"
    by (rule Cons.IH) (use Cons.prems k in \<open>auto simp: nth_list_update\<close>)
  then show ?case using a k Cons.prems(3,6) by (auto simp: nth_list_update)
qed simp

lemma validate_nodes_trees:
  assumes "\<And>s. s \<in> set ss \<Longrightarrow> tree_at ir s \<and> tree_ok s \<and> distinct (indices s)"
    and "distinct (concat (map kid_indices ss))"
    and "\<And>x. x \<in> set (concat (map kid_indices ss)) \<Longrightarrow> x < node_count ir \<and> parents ! x = 0" "length parents = node_count ir"
  shows "\<exists>ps. validate_nodes ir (map tree_index ss) parents = Some ps
    \<and> (\<forall>x < node_count ir. ps ! x = parents ! x + (if x \<in> set (concat (map kid_indices ss)) then 1 else 0))"
  using assms
proof (induction ss arbitrary: parents)
  case (Cons s ss)
  obtain i l ts where s: "s = HTree i l ts" by (cases s)
  let ?n = "hir_node_at ir i" and ?is = "map tree_index ts"
  have t: "tree_at ir (HTree i l ts)" "tree_ok (HTree i l ts)" "distinct (indices (HTree i l ts))" using Cons.prems(1) [of s] s by simp_all
  then have ln: "linked ir (first_child ?n) ?is" "last_child ?n = last_index ?is" "child_count ?n = length ts" by auto
  have ki: "kid_indices s = ?is" by (simp add: s)
  have "i \<notin> set ?is" using t(3) tree_index_indices by fastforce
  moreover have d: "distinct ?is" and r: "\<And>x. x \<in> set ?is \<Longrightarrow> x < node_count ir \<and> parents ! x = 0"
    using Cons.prems(2,3) ki by auto
  moreover have "length ?is \<le> node_count ir"
  proof -
    have "card (set ?is) \<le> card {..<node_count ir}" by (rule card_mono) (use r in auto)
    then show ?thesis using distinct_card [OF d] by simp
  qed
  ultimately obtain ps where v: "validate_children (node_count ir) ir i (first_child ?n) parents = Some (?is, ps)"
    and lp: "length ps = node_count ir"
    and ps: "\<And>x. x < node_count ir \<Longrightarrow> ps ! x = parents ! x + (if x \<in> set ?is then 1 else 0)"
    using validate_children_linked [OF ln(1)] Cons.prems(4) by metis
  have lastn: "next_sibling (hir_node_at ir k) = None" if "last_index ?is = Some k" for k
    using that ln(1) by (auto simp: last_index_def linked_last split: if_splits)
  have "\<exists>qs. validate_nodes ir (map tree_index ss) ps = Some qs
    \<and> (\<forall>x < node_count ir. qs ! x = ps ! x + (if x \<in> set (concat (map kid_indices ss)) then 1 else 0))"
    by (rule Cons.IH) (use Cons.prems ps lp ki in \<open>auto simp: disjoint_iff\<close>)
  then obtain qs where q: "validate_nodes ir (map tree_index ss) ps = Some qs"
    "\<And>x. x < node_count ir \<Longrightarrow> qs ! x = ps ! x + (if x \<in> set (concat (map kid_indices ss)) then 1 else 0)" by blast
  have "validate_nodes ir (map tree_index (s # ss)) parents = Some qs"
  proof -
    have l: "(if ?is = [] then None else Some (last ?is)) = last_child ?n" using ln(2) by (simp add: last_index_def)
    moreover have "\<not> (case last_child ?n of None \<Rightarrow> False | Some l \<Rightarrow> next_sibling (hir_node_at ir l) \<noteq> None)"
      using lastn ln(2) by (auto split: option.splits)
    ultimately show ?thesis using v q(1) tree_at_checks [OF t(1,2)] ln(3) by (simp add: s Let_def)
  qed
  moreover have "qs ! x = parents ! x + (if x \<in> set (concat (map kid_indices (s # ss))) then 1 else 0)"
    if "x < node_count ir" for x
    using q(2) [OF that] ps [OF that] Cons.prems(2) ki by auto
  ultimately show ?case by blast
qed simp

lemma push_children_linked:
  assumes "linked ir c is" "length is \<le> k" "\<And>i. i \<in> set is \<Longrightarrow> i < node_count ir \<and> \<not> visited ! i"
    and "length stack + length is \<le> node_count ir"
  shows "push_children k ir visited c stack = Some (rev is @ stack)"
  using assms
proof (induction "is" arbitrary: c k stack)
  case (Cons i "is")
  from Cons.prems(2) obtain k' where k: "k = Suc k'" by (cases k) auto
  have i: "i < node_count ir" "\<not> visited ! i" using Cons.prems(3) [of i] by simp_all
  have "push_children k' ir visited (next_sibling (hir_node_at ir i)) (i # stack) = Some (rev is @ i # stack)"
    by (rule Cons.IH) (use Cons.prems k in auto)
  then show ?case using i Cons.prems(1,4) k by simp
qed simp

lemma distinct_bound: "distinct xs \<Longrightarrow> (\<And>x. x \<in> set xs \<Longrightarrow> x < n) \<Longrightarrow> length xs \<le> (n :: nat)"
proof -
  assume "distinct xs" "\<And>x. x \<in> set xs \<Longrightarrow> x < n"
  then have "card (set xs) \<le> card {..<n}" by (intro card_mono) auto
  with \<open>distinct xs\<close> show ?thesis by (simp add: distinct_card)
qed

lemma distinct_concat_rev: "distinct (concat (map f (rev xs))) = distinct (concat (map f xs))"
proof -
  have "mset (concat (map f (rev xs))) = mset (concat (map f xs))" by (induction xs) simp_all
  then show ?thesis by (rule mset_eq_imp_distinct_iff)
qed

definition forest_indices :: "'f htree list \<Rightarrow> nat list" where
  "forest_indices ts = concat (map indices ts)"

lemma forest_roots: "distinct (forest_indices ts) \<Longrightarrow> distinct (map tree_index ts)"
  "set (map tree_index ts) \<subseteq> set (forest_indices ts)"
  using tree_index_indices by (auto simp: forest_indices_def intro: distinct_map_index)

lemma visit_nodes_forest:
  assumes "length (forest_indices ts) \<le> k" "\<And>t. t \<in> set ts \<Longrightarrow> tree_at ir t" "distinct (forest_indices ts)"
    and "\<And>i. i \<in> set (forest_indices ts) \<Longrightarrow> \<not> visited ! i" "length visited = node_count ir"
  shows "visit_nodes k ir visited (map tree_index ts) reached = Some (reached + length (forest_indices ts))"
  using assms
proof (induction k arbitrary: ts visited reached)
  case 0
  then show ?case by (cases ts) (auto simp: forest_indices_def, metis indices.elims list.distinct(1))
next
  case (Suc k)
  show ?case
  proof (cases ts)
    case (Cons t us)
    obtain i l vs where t: "t = HTree i l vs" by (cases t)
    let ?v = "visited[i := True]" and ?is = "map tree_index vs"
    have at: "tree_at ir (HTree i l vs)" using Suc.prems(2) [of t] Cons t by simp
    have us: "\<And>u. u \<in> set us \<Longrightarrow> tree_at ir u" using Suc.prems(2) Cons by simp
    from at have i: "i < node_count ir" and ln: "linked ir (first_child (hir_node_at ir i)) ?is" by simp_all
    have fi: "forest_indices ts = i # forest_indices vs @ forest_indices us"
      by (simp add: Cons t forest_indices_def)
    have d: "distinct (forest_indices vs @ forest_indices us)" "i \<notin> set (forest_indices vs @ forest_indices us)"
      "distinct (forest_indices us)" using Suc.prems(3) fi by auto
    have nv: "\<not> visited ! i" using Suc.prems(4) [of i] fi by simp
    have nv': "\<not> ?v ! j" if "j \<in> set (forest_indices vs @ forest_indices us)" for j
      using Suc.prems(4) [of j] fi d(2) that by (cases "j = i") auto
    have rng: "j < node_count ir" if "j \<in> set (forest_indices ts)" for j
      using that tree_at_range Suc.prems(2) by (fastforce simp: forest_indices_def)
    have rv: "forest_indices (rev vs @ us) = concat (map indices (rev vs)) @ forest_indices us"
      and rs: "set (concat (map indices (rev vs))) = set (forest_indices vs)"
      and rl: "length (concat (map indices (rev vs))) = length (forest_indices vs)"
      by (simp_all add: forest_indices_def length_concat rev_map [symmetric] sum_list_rev)
    have "distinct (concat (map indices (rev vs)))" using d(1) by (simp add: forest_indices_def distinct_concat_rev)
    then have d': "distinct (forest_indices (rev vs @ us))" using d(1) rv rs by simp
    have "length (map tree_index us @ ?is) \<le> node_count ir"
    proof (rule distinct_bound)
      show "distinct (map tree_index us @ ?is)"
        using forest_roots(1) [OF d'] by (auto simp: rev_map [symmetric])
      show "x < node_count ir" if "x \<in> set (map tree_index us @ ?is)" for x
        using that forest_roots(2) rng fi by fastforce
    qed
    then have push: "push_children (node_count ir) ir ?v (first_child (hir_node_at ir i)) (map tree_index us)
        = Some (rev ?is @ map tree_index us)"
      by (intro push_children_linked [OF ln]) (use rng fi forest_roots(2) [of vs] nv' in auto)
    have "visit_nodes k ir ?v (map tree_index (rev vs @ us)) (reached + 1)
        = Some (reached + 1 + length (forest_indices (rev vs @ us)))"
    proof (rule Suc.IH)
      show "length (forest_indices (rev vs @ us)) \<le> k" using Suc.prems(1) fi rv rl by simp
      show "tree_at ir t" if "t \<in> set (rev vs @ us)" for t using that at us by (auto simp: list_all_iff)
      show "\<not> ?v ! j" if "j \<in> set (forest_indices (rev vs @ us))" for j using that nv' rv rs by (auto simp: forest_indices_def)
    qed (use d' Suc.prems(5) in simp_all)
    then show ?thesis using i nv push rl rv fi by (simp add: Cons t rev_map)
  qed (simp add: forest_indices_def)
qed

section \<open>Completeness of the validator\<close>

text \<open>An array that holds the tree \<open>t\<close> from its root on, in depth-first order.\<close>

definition holds_tree :: "'f hir_program \<Rightarrow> 'f htree \<Rightarrow> bool" where
  "holds_tree ir t \<longleftrightarrow> tree_at ir t \<and> indices t = [0..<node_count ir] \<and> root ir = 0
     \<and> next_sibling (hir_node_at ir 0) = None"

lemma subtrees_distinct: "distinct (indices t) \<Longrightarrow> s \<in> set (subtrees t) \<Longrightarrow> distinct (indices s)"
  by (induction t) (auto simp: distinct_concat_iff)

lemma holds_tree_valid:
  assumes h: "holds_tree ir t" and ok: "tree_ok t"
    and r: "opcode (tree_label t) = IR_PROGRAM" "role (tree_label t) = EDGE_ROOT"
  shows "vnt_ir_validate ir"
proof -
  let ?n = "node_count ir"
  have t: "tree_at ir t" "indices t = [0..<?n]" "root ir = 0" "next_sibling (hir_node_at ir 0) = None"
    using h by (auto simp: holds_tree_def)
  obtain l ts where l: "t = HTree 0 l ts" and n: "0 < ?n"
    using t(2) by (cases t; cases ?n) (auto simp: upt_conv_Cons simp del: upt_Suc)
  have lab: "opcode (hir_node_at ir 0) = IR_PROGRAM" "role (hir_node_at ir 0) = EDGE_ROOT" using t(1) r l by auto
  let ?ks = "concat (map kid_indices (subtrees t))"
  have ms: "add_mset 0 (mset ?ks) = mset [0..<?n]" using kids_once [of t, unfolded t(2)] l by simp
  then have dk: "distinct (0 # ?ks)" and sk: "set (0 # ?ks) = {..<?n}"
    by (metis distinct_upt mset.simps(2) mset_eq_imp_distinct_iff, metis atLeast_upt mset.simps(2) mset_eq_setD)
  have ss: "map tree_index (subtrees t) = [0..<?n]" using subtrees_indices t(2) by metis
  have "\<exists>ps. validate_nodes ir (map tree_index (subtrees t)) (replicate ?n 0) = Some ps
    \<and> (\<forall>x < ?n. ps ! x = replicate ?n 0 ! x + (if x \<in> set ?ks then 1 else 0))"
  proof (rule validate_nodes_trees)
    show "tree_at ir s \<and> tree_ok s \<and> distinct (indices s)" if "s \<in> set (subtrees t)" for s
      using that subtrees_at [OF t(1)] subtrees_ok [OF ok] subtrees_distinct [of t] t(2) by simp
    show "x < ?n \<and> replicate ?n 0 ! x = 0" if "x \<in> set ?ks" for x
    proof -
      have "x \<in> {..<?n}" using that sk by auto
      then show ?thesis by simp
    qed
  qed (use dk in simp_all)
  then obtain ps where v: "validate_nodes ir [0..<?n] (replicate ?n 0) = Some ps"
    and ps: "\<And>x. x < ?n \<Longrightarrow> ps ! x = (if x \<in> set ?ks then 1 else 0)" unfolding ss by auto
  have "ps ! 0 = 0" using ps [OF n] dk by simp
  moreover have "ps ! i = 1" if "i < ?n" "i \<noteq> 0" for i
  proof -
    have "i \<in> set (0 # ?ks)" using that sk by auto
    with that ps show ?thesis by simp
  qed
  moreover have "visit_nodes (?n + 1) ir (replicate ?n False) (map tree_index [t]) 0 = Some (0 + length (forest_indices [t]))"
    by (rule visit_nodes_forest) (use t(1,2) in \<open>auto simp: forest_indices_def\<close>)
  moreover have "length (forest_indices [t]) = ?n" "map tree_index [t] = [0]"
    using t(2) [THEN arg_cong [of _ _ length]] l by (simp_all add: forest_indices_def)
  ultimately show ?thesis using n v t(3,4) lab by (simp add: vnt_ir_validate_def Let_def list_all_iff)
qed

end
