(* ===== verification/HirResolveSpec.thy ===== *)
theory HirResolveSpec
  imports HirResolve HirLowerSpec HirValid
begin

text \<open>
  What the renaming of variables does to the program: \<open>resolve_ast\<close> states it on the syntax tree,
  and theory \<open>HirResolveCorrect\<close> shows that the array after \<open>resolve_hir_symbols\<close> holds the tree of
  the renamed program. Here: what it means that a forest in the array has been renamed
  (\<open>bound\<close>), and how that composes.
\<close>

section \<open>Renaming on the syntax tree\<close>

record scope =
  sc_symbols :: "hir_symbol list"
  sc_next :: nat
  sc_depth :: nat

definition sc_declare :: "scope \<Rightarrow> string \<Rightarrow> string \<times> scope" where
  "sc_declare s x = (symbol_key (sc_next s) x,
     s\<lparr>sc_symbols := sc_symbols s @ [\<lparr>source_name = x, storage_key = symbol_key (sc_next s) x, symbol_depth = sc_depth s\<rparr>],
       sc_next := sc_next s + 1\<rparr>)"

definition sc_drop :: "scope \<Rightarrow> scope" where
  "sc_drop s = s\<lparr>sc_symbols := rev (dropWhile (\<lambda>y. sc_depth s \<le> symbol_depth y) (rev (sc_symbols s)))\<rparr>"

abbreviation sc_enter :: "scope \<Rightarrow> scope" where "sc_enter s \<equiv> s\<lparr>sc_depth := sc_depth s + 1\<rparr>"
abbreviation sc_leave :: "scope \<Rightarrow> scope" where "sc_leave s \<equiv> (sc_drop s)\<lparr>sc_depth := sc_depth s - 1\<rparr>"

definition sc_find :: "scope \<Rightarrow> string \<Rightarrow> string option" where
  "sc_find s x = map_option storage_key (resolver_find (sc_symbols s) x)"

fun bind_ast :: "scope \<Rightarrow> ast \<Rightarrow> (ast \<times> scope) option"
  and bind_asts :: "scope \<Rightarrow> ast list \<Rightarrow> (ast list \<times> scope) option" where
  "bind_ast s (Variable x) = do { k \<leftarrow> sc_find s x; Some (Variable k, s) }"
| "bind_ast s (VariableDeclaration x t v reassign) = do {
     (v, s) \<leftarrow> bind_ast s v;
     if reassign then do { k \<leftarrow> sc_find s x; Some (VariableDeclaration k t v reassign, s) }
     else let (k, s) = sc_declare s x in Some (VariableDeclaration k t v reassign, s) }"
| "bind_ast s (Program ss) = do { (ss, s) \<leftarrow> bind_asts s ss; Some (Program ss, s) }"
| "bind_ast s (UnsafeBlock ss) = do { (ss, s) \<leftarrow> bind_asts s ss; Some (UnsafeBlock ss, s) }"
| "bind_ast s (PrintStatement e) = do { (e, s) \<leftarrow> bind_ast s e; Some (PrintStatement e, s) }"
| "bind_ast s (ReturnStatement None) = Some (ReturnStatement None, s)"
| "bind_ast s (ReturnStatement (Some e)) = do { (e, s) \<leftarrow> bind_ast s e; Some (ReturnStatement (Some e), s) }"
| "bind_ast s (IfStatement c th el) = do {
     (c, s) \<leftarrow> bind_ast s c;
     (th, s) \<leftarrow> bind_asts (sc_enter s) th;
     (el, s) \<leftarrow> bind_asts (sc_drop s) el;
     Some (IfStatement c th el, sc_leave s) }"
| "bind_ast s (WhileStatement c b) = do {
     (c, s) \<leftarrow> bind_ast s c;
     (b, s) \<leftarrow> bind_asts (sc_enter s) b;
     Some (WhileStatement c b, sc_leave s) }"
| "bind_ast s (Assignment t v) = do {
     (t, s) \<leftarrow> bind_ast s t; (v, s) \<leftarrow> bind_ast s v; Some (Assignment t v, s) }"
| "bind_ast s (FunctionCall f as n) = do { (as, s) \<leftarrow> bind_asts s as; Some (FunctionCall f as n, s) }"
| "bind_ast s (ArrayLiteral es n) = do { (es, s) \<leftarrow> bind_asts s es; Some (ArrayLiteral es n, s) }"
| "bind_ast s (IndexExpression a i) = do {
     (a, s) \<leftarrow> bind_ast s a; (i, s) \<leftarrow> bind_ast s i; Some (IndexExpression a i, s) }"
| "bind_ast s (MemberExpression ob m) = do { (ob, s) \<leftarrow> bind_ast s ob; Some (MemberExpression ob m, s) }"
| "bind_ast s (BinaryExpression l r op) = do {
     (l, s) \<leftarrow> bind_ast s l; (r, s) \<leftarrow> bind_ast s r; Some (BinaryExpression l r op, s) }"
| "bind_ast s (UnaryExpression e op) = do { (e, s) \<leftarrow> bind_ast s e; Some (UnaryExpression e op, s) }"
| "bind_ast s a = Some (a, s)"
| "bind_asts s [] = Some ([], s)"
| "bind_asts s (a # as) = do { (a, s) \<leftarrow> bind_ast s a; (as, s) \<leftarrow> bind_asts s as; Some (a # as, s) }"

fun global_scope :: "scope \<Rightarrow> ast list \<Rightarrow> scope" where
  "global_scope s [] = s"
| "global_scope s (VariableDeclaration x t v False # ss) = global_scope (snd (sc_declare s x)) ss"
| "global_scope s (a # ss) = global_scope s ss"

fun sc_parameters :: "scope \<Rightarrow> string list \<Rightarrow> string list \<times> scope" where
  "sc_parameters s [] = ([], s)"
| "sc_parameters s (p # ps) =
     (let (k, s) = sc_declare s p; (ks, s) = sc_parameters s ps in (k # ks, s))"

text \<open>A top-level statement; \<open>g\<close> is the number of globals.\<close>

fun bind_top :: "nat \<Rightarrow> scope \<Rightarrow> ast \<Rightarrow> (ast \<times> scope) option" where
  "bind_top g s (FunctionDeclaration f ps ts n r u b) = do {
     let (ks, s') = sc_parameters (s\<lparr>sc_depth := 1\<rparr>) (take n ps);
     (b, s') \<leftarrow> bind_asts s' b;
     Some (FunctionDeclaration f (ks @ drop n ps) ts n r u b,
       s'\<lparr>sc_symbols := take (length (sc_symbols s)) (sc_symbols s'), sc_depth := 0\<rparr>) }"
| "bind_top g s (VariableDeclaration x t v False) = do {
     y \<leftarrow> find (\<lambda>y. source_name y = x) (take g (sc_symbols s));
     (v, s) \<leftarrow> bind_ast s v;
     Some (VariableDeclaration (storage_key y) t v False, s) }"
| "bind_top g s a = bind_ast s a"

fun bind_program :: "nat \<Rightarrow> scope \<Rightarrow> ast list \<Rightarrow> (ast list \<times> scope) option" where
  "bind_program g s [] = Some ([], s)"
| "bind_program g s (a # as) = do { (a, s) \<leftarrow> bind_top g s a; (as, s) \<leftarrow> bind_program g s as; Some (a # as, s) }"

definition empty_scope :: scope where
  "empty_scope = \<lparr>sc_symbols = [], sc_next = 0, sc_depth = 0\<rparr>"

fun resolve_ast :: "ast \<Rightarrow> ast option" where
  "resolve_ast (Program ss) =
     (let s = global_scope empty_scope ss in map_option (\<lambda>(ss, _). Program ss) (bind_program (length (sc_symbols s)) s ss))"
| "resolve_ast a = None"

section \<open>Renaming in the array\<close>

definition scope_of :: "'f hir_resolver \<Rightarrow> scope" where
  "scope_of rs = \<lparr>sc_symbols = res_symbols rs, sc_next = next_id rs, sc_depth = res_depth rs\<rparr>"

definition unnamed :: "'f hir_node \<Rightarrow> 'f hir_node" where
  "unnamed n = n\<lparr>names := [], node_value := No_value\<rparr>"

definition renames :: "nat set \<Rightarrow> 'f hir_program \<Rightarrow> 'f hir_program \<Rightarrow> bool" where
  "renames N ir ir' \<longleftrightarrow> node_count ir' = node_count ir \<and> root ir' = root ir \<and> optimized_nodes ir' = optimized_nodes ir
     \<and> (\<forall>j < node_count ir. unnamed (hir_node_at ir' j) = unnamed (hir_node_at ir j)
          \<and> (j \<notin> N \<longrightarrow> hir_node_at ir' j = hir_node_at ir j))"

lemma renames_refl [simp]: "renames N ir ir"
  by (simp add: renames_def)

lemma renames_trans: "renames N ir ir' \<Longrightarrow> renames M ir' ir'' \<Longrightarrow> renames (N \<union> M) ir ir''"
  by (simp add: renames_def)

lemma renames_mono: "renames N ir ir' \<Longrightarrow> N \<subseteq> M \<Longrightarrow> renames M ir ir'"
  unfolding renames_def by auto

lemma unnamed_fields: "first_child (unnamed n) = first_child n" "last_child (unnamed n) = last_child n"
  "next_sibling (unnamed n) = next_sibling n" "child_count (unnamed n) = child_count n"
  "opcode (unnamed n) = opcode n" "role (unnamed n) = role n"
  by (simp_all add: unnamed_def)

lemma renames_links:
  assumes "renames N ir ir'" "j < node_count ir"
  shows "first_child (hir_node_at ir' j) = first_child (hir_node_at ir j)" "last_child (hir_node_at ir' j) = last_child (hir_node_at ir j)"
    "next_sibling (hir_node_at ir' j) = next_sibling (hir_node_at ir j)" "child_count (hir_node_at ir' j) = child_count (hir_node_at ir j)"
    "opcode (hir_node_at ir' j) = opcode (hir_node_at ir j)" "role (hir_node_at ir' j) = role (hir_node_at ir j)"
proof -
  have "unnamed (hir_node_at ir' j) = unnamed (hir_node_at ir j)" using assms by (simp add: renames_def)
  then show "first_child (hir_node_at ir' j) = first_child (hir_node_at ir j)" "last_child (hir_node_at ir' j) = last_child (hir_node_at ir j)"
    "next_sibling (hir_node_at ir' j) = next_sibling (hir_node_at ir j)" "child_count (hir_node_at ir' j) = child_count (hir_node_at ir j)"
    "opcode (hir_node_at ir' j) = opcode (hir_node_at ir j)" "role (hir_node_at ir' j) = role (hir_node_at ir j)"
    by (metis unnamed_fields)+
qed

text \<open>The tree with the labels it has now.\<close>

fun relabel :: "'f hir_program \<Rightarrow> 'f htree \<Rightarrow> 'f htree" where
  "relabel ir (HTree i l ts) = HTree i (node_label (hir_node_at ir i)) (map (relabel ir) ts)"

lemma relabel_index [simp]: "tree_index (relabel ir t) = tree_index t" "indices (relabel ir t) = indices t"
proof -
  show "tree_index (relabel ir t) = tree_index t" by (cases t) simp
  show "indices (relabel ir t) = indices t" by (induction t) (simp add: o_def cong: map_cong)
qed

lemma relabel_same: "tree_at ir t \<Longrightarrow> relabel ir t = t"
  by (induction t) (auto simp: list_all_iff intro: map_idI)

lemma relabel_frame:
  "(\<And>j. j \<in> set (indices t) \<Longrightarrow> hir_node_at ir' j = hir_node_at ir j) \<Longrightarrow> relabel ir' t = relabel ir t"
  by (induction t) auto

lemma linked_renames:
  "renames N ir ir' \<Longrightarrow> (\<And>i. i \<in> set is \<Longrightarrow> i < node_count ir) \<Longrightarrow> linked ir c is \<Longrightarrow> linked ir' c is"
  by (induction "is" arbitrary: c) (auto simp: renames_links)

lemma tree_at_renames: "renames N ir ir' \<Longrightarrow> tree_at ir t \<Longrightarrow> tree_at ir' (relabel ir' t)"
proof (induction t)
  case (HTree i l ts)
  have i: "i < node_count ir" using HTree.prems by simp
  have "\<And>j. j \<in> set (map tree_index ts) \<Longrightarrow> j < node_count ir"
    using HTree.prems(2) tree_at_range [OF _ tree_index_indices] by (fastforce simp: list_all_iff)
  then have "linked ir' (first_child (hir_node_at ir' i)) (map tree_index ts)"
    unfolding renames_links(1) [OF HTree.prems(1) i]
    by (rule linked_renames [OF HTree.prems(1)]) (use HTree.prems(2) in simp_all)
  moreover have "node_count ir' = node_count ir" using HTree.prems(1) by (simp add: renames_def)
  ultimately show ?case using HTree i renames_links [OF HTree.prems(1) i]
    by (auto simp: list_all_iff o_def)
qed

section \<open>Forests that have been renamed\<close>

definition tree_for :: "(string \<Rightarrow> 'f) \<Rightarrow> 'f hir_program \<Rightarrow> 'f htree \<Rightarrow> edge_role \<times> ast \<Rightarrow> bool" where
  "tree_for strtod ir t = (\<lambda>(r, a). tree_at ir t \<and> distinct (indices t) \<and> erase t = ast_tree strtod r a \<and> counts_ok a)"

definition bound :: "(string \<Rightarrow> 'f) \<Rightarrow> 'f hir_program \<Rightarrow> 'f htree list \<Rightarrow> edge_role list \<Rightarrow> (ast list \<times> scope) option
    \<Rightarrow> 'f hir_resolver \<Rightarrow> bool" where
  "bound strtod ir ts rl res rs \<longleftrightarrow> renames (set (forest_indices ts)) ir (res_ir rs)
     \<and> (case res of None \<Rightarrow> res_error rs
        | Some (as, s) \<Rightarrow> \<not> res_error rs \<and> scope_of rs = s \<and> length as = length ts \<and> length rl = length ts
            \<and> map (\<lambda>t. erase (relabel (res_ir rs) t)) ts = map2 (ast_tree strtod) rl as)"

lemma forest_indices_simps [simp]: "forest_indices [] = []" "forest_indices (t # ts) = indices t @ forest_indices ts"
  "forest_indices (ts @ us) = forest_indices ts @ forest_indices us"
  by (simp_all add: forest_indices_def)

lemma forest_indices_subtree: "t \<in> set ts \<Longrightarrow> set (indices t) \<subseteq> set (forest_indices ts)"
  by (auto simp: forest_indices_def)

lemma bound_Nil: "\<not> res_error rs \<Longrightarrow> bound strtod (res_ir rs) [] [] (Some ([], scope_of rs)) rs"
  by (simp add: bound_def)

lemma bound_error: "bound strtod ir ts rl None rs \<Longrightarrow> bound strtod ir (ts @ us) rl' None rs"
  by (auto simp: bound_def elim: renames_mono)

lemma bound_state:
  "bound strtod ir ts rl (Some (as, s)) rs \<Longrightarrow> res_ir rs' = res_ir rs \<Longrightarrow> \<not> res_error rs'
   \<Longrightarrow> bound strtod ir ts rl (Some (as, scope_of rs')) rs'"
  by (simp add: bound_def)

lemma bound_append:
  assumes "bound strtod ir ts rl (Some (as, s)) rs" "bound strtod (res_ir rs) us rl' res rs'"
    and dis: "set (forest_indices ts) \<inter> set (forest_indices us) = {}"
    and range: "\<And>j. j \<in> set (forest_indices ts) \<Longrightarrow> j < node_count ir"
  shows "bound strtod ir (ts @ us) (rl @ rl') (map_option (\<lambda>(as', s'). (as @ as', s')) res) rs'"
proof -
  have r: "renames (set (forest_indices ts)) ir (res_ir rs)" "renames (set (forest_indices us)) (res_ir rs) (res_ir rs')"
    using assms(1,2) by (simp_all add: bound_def)
  have "relabel (res_ir rs') t = relabel (res_ir rs) t" if "t \<in> set ts" for t
  proof (rule relabel_frame)
    fix j assume "j \<in> set (indices t)"
    with that have "j \<in> set (forest_indices ts)" using forest_indices_subtree by blast
    with dis range have "j \<notin> set (forest_indices us)" "j < node_count ir" by auto
    with r show "hir_node_at (res_ir rs') j = hir_node_at (res_ir rs) j" by (simp add: renames_def)
  qed
  then have "map (\<lambda>t. erase (relabel (res_ir rs') t)) ts = map (\<lambda>t. erase (relabel (res_ir rs) t)) ts" by simp
  also have "\<dots> = map2 (ast_tree strtod) rl as" using assms(1) by (simp add: bound_def)
  finally show ?thesis using assms(1,2) renames_trans [OF r] by (auto simp: bound_def simp del: map_eq_conv split: option.splits)
qed

text \<open>A node none of whose own names changes: the node is bound when its children are.\<close>

lemma bound_node:
  assumes t: "tree_for strtod ir (HTree i l ts) (r, a)" and b: "bound strtod ir ts (map fst (ast_edges a)) (Some (as, s)) rs"
    and a': "node_payload strtod a' = node_payload strtod a" "ast_edges a' = zip (map fst (ast_edges a)) as"
  shows "bound strtod ir [HTree i l ts] [r] (Some ([a'], s)) rs"
proof -
  have i: "i < node_count ir" "i \<notin> set (forest_indices ts)" "node_label (hir_node_at ir i) = l"
    and l: "l = (the (node_payload strtod a))\<lparr>role := r\<rparr>"
    using t by (auto simp: tree_for_def forest_indices_def ast_tree.simps [of strtod r a])
  then have "hir_node_at (res_ir rs) i = hir_node_at ir i" using b by (simp add: bound_def renames_def)
  then have "erase (relabel (res_ir rs) (HTree i l ts)) = HTree 0 l (map (\<lambda>t. erase (relabel (res_ir rs) t)) ts)"
    using i(3) by simp
  also have "\<dots> = ast_tree strtod r a'" using b a' l by (subst ast_tree.simps) (simp add: bound_def)
  finally show ?thesis using b by (auto simp: bound_def forest_indices_def elim: renames_mono)
qed

lemma bound_node_error:
  "bound strtod ir ts rl None rs \<Longrightarrow> bound strtod ir [HTree i l ts] rl' None rs"
  by (auto simp: bound_def forest_indices_def elim: renames_mono)

section \<open>What the array says of a node\<close>

lemma linked_walk: "linked ir c is \<Longrightarrow> (\<And>i. i \<in> set is \<Longrightarrow> i < node_count ir) \<Longrightarrow> length is \<le> k \<Longrightarrow> walk k ir c = Some is"
proof (induction "is" arbitrary: c k)
  case (Cons i "is")
  then obtain k' where k: "k = Suc k'" by (cases k) auto
  have "i < node_count ir" using Cons.prems(2) by simp
  with Cons k show ?case by simp
qed (cases k; simp)

lemma tree_children:
  assumes "tree_at ir (HTree i l ts)" "distinct (indices (HTree i l ts))"
  shows "children ir i = Some (map tree_index ts)"
proof -
  have r: "j < node_count ir" if "j \<in> set (map tree_index ts)" for j
    using that assms(1) tree_at_range [OF _ tree_index_indices] by (fastforce simp: list_all_iff)
  have "distinct (map tree_index ts)" by (rule distinct_map_index) (use assms(2) in simp)
  then have "length (map tree_index ts) \<le> node_count ir" by (rule distinct_bound) (rule r)
  then have "walk (node_count ir) ir (first_child (hir_node_at ir i)) = Some (map tree_index ts)"
    by (intro linked_walk) (use r assms(1) in auto)
  with assms(1) show ?thesis by (simp add: children_def)
qed

lemma tree_for_frame:
  "tree_for strtod ir t e \<Longrightarrow> renames N ir ir' \<Longrightarrow> N \<inter> set (indices t) = {} \<Longrightarrow> tree_for strtod ir' t e"
  unfolding tree_for_def using tree_at_range [of ir t]
  by (auto split: prod.splits intro!: tree_at_frame [of ir t] simp: renames_def)

lemma list_all2_mono_in:
  "list_all2 P xs ys \<Longrightarrow> (\<And>x y. P x y \<Longrightarrow> x \<in> set xs \<Longrightarrow> Q x y) \<Longrightarrow> list_all2 Q xs ys"
  by (induction rule: list_all2_induct) auto

lemma tree_for_role: "tree_for strtod ir t (r, a) \<Longrightarrow> role (hir_node_at ir (tree_index t)) = r"
  using node_label_role [of ir t] by (cases t) (auto simp: tree_for_def ast_tree.simps [of strtod r a])

lemma tree_for_node:
  assumes "tree_for strtod ir (HTree i l ts) (r, a)"
  shows "children ir i = Some (map tree_index ts)" "list_all2 (tree_for strtod ir) ts (ast_edges a)"
    "opcode (hir_node_at ir i) = opcode_for a" "node_value (hir_node_at ir i) = value_for strtod a"
    "names_for a = Some (names (hir_node_at ir i))" "i < node_count ir"
proof -
  have t: "tree_at ir (HTree i l ts)" "distinct (indices (HTree i l ts))" "counts_ok a"
    and e: "l = (the (node_payload strtod a))\<lparr>role := r\<rparr>" "map erase ts = map (\<lambda>(r, c). ast_tree strtod r c) (ast_edges a)"
    using assms by (auto simp: tree_for_def ast_tree.simps [of strtod r a])
  obtain node where n: "node_payload strtod a = Some node" using counts_okD(1) [OF t(3)] by blast
  show "children ir i = Some (map tree_index ts)" by (rule tree_children [OF t(1,2)])
  have len: "length ts = length (ast_edges a)" using e(2) by (metis length_map)
  have kid: "tree_for strtod ir (ts ! j) (ast_edges a ! j)" if "j < length ts" for j
  proof -
    have "erase (ts ! j) = (\<lambda>(r, c). ast_tree strtod r c) (ast_edges a ! j)" using e(2) that len by (metis nth_map)
    moreover have "tree_at ir (ts ! j)" using t(1) that by (simp add: list_all_length)
    moreover have "distinct (indices (ts ! j))" using t(2) that by (auto simp: distinct_concat_iff)
    moreover have "case ast_edges a ! j of (r, c) \<Rightarrow> counts_ok c" using counts_okD(2) [OF t(3)] that len by (metis nth_mem)
    ultimately show ?thesis by (auto simp: tree_for_def split: prod.splits)
  qed
  with len show "list_all2 (tree_for strtod ir) ts (ast_edges a)" by (simp add: list_all2_conv_all_nth)
  have nl: "node_label (hir_node_at ir i) = node\<lparr>role := r\<rparr>" using t(1) e(1) n by simp
  show "opcode (hir_node_at ir i) = opcode_for a" using nl n node_label_opcode(1) [of "hir_node_at ir i"]
    by (auto simp: node_payload_def bind_eq_Some_conv)
  show "node_value (hir_node_at ir i) = value_for strtod a" using nl n node_label_opcode(6) [of "hir_node_at ir i"]
    by (auto simp: node_payload_def bind_eq_Some_conv)
  show "names_for a = Some (names (hir_node_at ir i))" using nl n node_label_opcode(4) [of "hir_node_at ir i"]
    by (auto simp: node_payload_def bind_eq_Some_conv)
  show "i < node_count ir" using t(1) by simp
qed

lemma kids_with_role:
  assumes "list_all2 (tree_for strtod ir) ts (edges q as)"
  shows "filter (\<lambda>c. role (hir_node_at ir c) = q') (map tree_index ts) = (if q = q' then map tree_index ts else [])"
  using assms unfolding list_all2_map2
  by (induction ts as rule: list_all2_induct) (auto simp: tree_for_role)

lemma walk_renames: "renames N ir ir' \<Longrightarrow> walk k ir' c = walk k ir c"
proof (induction k arbitrary: c)
  case (Suc k)
  then show ?case by (cases c) (auto simp: renames_links, auto simp: renames_def)
qed (case_tac c; simp)

lemma walk_range: "walk k ir c = Some cs \<Longrightarrow> x \<in> set cs \<Longrightarrow> x < node_count ir"
  by (induction k ir c arbitrary: cs rule: walk.induct) (auto split: if_splits)

lemma children_renames: "renames N ir ir' \<Longrightarrow> children ir' i = children ir i"
proof (cases "i < node_count ir")
  case True
  assume r: "renames N ir ir'"
  then have "node_count ir' = node_count ir" by (simp add: renames_def)
  then show ?thesis using True walk_renames [OF r] renames_links(1) [OF r True] by (simp add: children_def)
qed (simp add: children_def renames_def)

lemma roles_renames:
  "renames N ir ir' \<Longrightarrow> children ir i = Some cs \<Longrightarrow> c \<in> set cs \<Longrightarrow> role (hir_node_at ir' c) = role (hir_node_at ir c)"
  by (rule renames_links(6)) (auto simp: children_def split: if_splits intro: walk_range)

lemma child_role_renames: "renames N ir ir' \<Longrightarrow> child_role ir' i q = child_role ir i q"
proof -
  assume r: "renames N ir ir'"
  then have "node_count ir' = node_count ir" by (simp add: renames_def)
  moreover have "find (\<lambda>c. role (hir_node_at ir' c) = q) cs = find (\<lambda>c. role (hir_node_at ir c) = q) cs"
    if "children ir i = Some cs" for cs
    by (rule find_cong [OF refl]) (use roles_renames [OF r that] in simp)
  ultimately show ?thesis using children_renames [OF r] by (cases "children ir i") (auto simp: child_role_def)
qed

lemma zip_const: "length as = length bs \<Longrightarrow> zip (map (\<lambda>_. q) bs) as = edges q as"
  by (induction as bs rule: list_induct2) simp_all

lemma bind_asts_length: "bind_asts s as = Some (as', s') \<Longrightarrow> length as' = length as"
  by (induction as arbitrary: s as') (auto simp: bind_eq_Some_conv)

lemma renames_update:
  "renames {i} ir (update_node ir i (\<lambda>n. n\<lparr>node_value := v\<rparr>))" "renames {i} ir (update_node ir i (\<lambda>n. n\<lparr>names := ns n\<rparr>))"
  by (simp_all add: renames_def unnamed_def)

text \<open>The children are bound and the node itself gets a new text.\<close>

lemma bound_renamed_node:
  assumes t: "tree_for strtod ir (HTree i l ts) (r, a)" and b: "bound strtod ir ts (map fst (ast_edges a)) (Some (as, s)) rs"
    and rs': "res_ir rs' = update_node (res_ir rs) i (\<lambda>n. n\<lparr>node_value := Text_value key\<rparr>)" "\<not> res_error rs'"
    and a': "node_payload strtod a' = map_option (\<lambda>n. n\<lparr>node_value := Text_value key\<rparr>) (node_payload strtod a)"
      "ast_edges a' = zip (map fst (ast_edges a)) as"
  shows "bound strtod ir [HTree i l ts] [r] (Some ([a'], scope_of rs')) rs'"
proof -
  let ?ir = "res_ir rs" and ?ir' = "res_ir rs'"
  have i: "i < node_count ir" "i \<notin> set (forest_indices ts)" "node_label (hir_node_at ir i) = l"
    and l: "l = (the (node_payload strtod a))\<lparr>role := r\<rparr>" and ok: "counts_ok a"
    using t by (auto simp: tree_for_def forest_indices_def ast_tree.simps [of strtod r a])
  have rn: "renames (set (forest_indices ts)) ir ?ir" using b by (simp add: bound_def)
  then have n: "node_count ?ir = node_count ir" "hir_node_at ?ir i = hir_node_at ir i" using i by (simp_all add: renames_def)
  have rn': "renames (set (forest_indices ts) \<union> {i}) ir ?ir'"
    unfolding rs'(1) by (rule renames_trans [OF rn renames_update(1)])
  have lab: "node_label (hir_node_at ?ir' i) = l\<lparr>node_value := Text_value key\<rparr>"
    unfolding rs'(1) using i n by (auto simp: node_label_def)
  have kid: "relabel ?ir' u = relabel ?ir u" if "u \<in> set ts" for u
  proof (rule relabel_frame)
    fix j assume "j \<in> set (indices u)"
    with that t i(2) have "j \<noteq> i" "j < node_count ir"
      using tree_at_range [of ir u j] by (auto simp: tree_for_def forest_indices_def list_all_iff)
    with n show "hir_node_at ?ir' j = hir_node_at ?ir j" unfolding rs'(1) by simp
  qed
  obtain node where nd: "node_payload strtod a = Some node" using counts_okD(1) [OF ok] by blast
  have "erase (relabel ?ir' (HTree i l ts)) = HTree 0 (l\<lparr>node_value := Text_value key\<rparr>) (map (\<lambda>t. erase (relabel ?ir t)) ts)"
    using lab kid by simp
  also have "\<dots> = ast_tree strtod r a'" using b a' l nd by (subst ast_tree.simps) (simp add: bound_def)
  finally show ?thesis using rs'(2) rn' by (simp add: bound_def Un_commute forest_indices_def)
qed

lemma tree_for_range: "tree_for strtod ir (HTree i l ts) e \<Longrightarrow> j \<in> set (forest_indices ts) \<Longrightarrow> j < node_count ir"
  using tree_at_range [of ir "HTree i l ts" j] by (auto simp: tree_for_def forest_indices_def split: prod.splits)

lemma kids_other_role:
  "list_all2 (tree_for strtod ir) ts es \<Longrightarrow> q \<notin> fst ` set es \<Longrightarrow> filter (\<lambda>c. role (hir_node_at ir c) = q) (map tree_index ts) = []"
  by (induction ts es rule: list_all2_induct) (auto simp: tree_for_role)

lemma kids_part:
  assumes t: "tree_for strtod ir (HTree i l (us @ ws @ vs)) (r, a)" and e: "ast_edges a = es @ edges q as @ es'"
    and len: "length us = length es" "length ws = length as" and q: "q \<notin> fst ` set es" "q \<notin> fst ` set es'"
    and rn: "renames N ir ir'"
  shows "children ir' i = Some (map tree_index (us @ ws @ vs))"
    "filter (\<lambda>c. role (hir_node_at ir' c) = q) (map tree_index (us @ ws @ vs)) = map tree_index ws"
    "list_all2 (tree_for strtod ir) us es" "list_all2 (tree_for strtod ir) ws (edges q as)" "list_all2 (tree_for strtod ir) vs es'"
proof -
  have ch: "children ir i = Some (map tree_index (us @ ws @ vs))" by (rule tree_for_node(1) [OF t])
  then show "children ir' i = Some (map tree_index (us @ ws @ vs))" using children_renames [OF rn] by metis
  have a: "list_all2 (tree_for strtod ir) (us @ ws @ vs) (es @ edges q as @ es')" using tree_for_node(2) [OF t] e by simp
  then show k: "list_all2 (tree_for strtod ir) us es" "list_all2 (tree_for strtod ir) ws (edges q as)"
    "list_all2 (tree_for strtod ir) vs es'" using len by (auto simp: list_all2_append)
  have "filter (\<lambda>c. role (hir_node_at ir' c) = q) (map tree_index (us @ ws @ vs))
      = filter (\<lambda>c. role (hir_node_at ir c) = q) (map tree_index (us @ ws @ vs))"
    by (rule filter_cong [OF refl]) (use roles_renames [OF rn ch] in simp)
  then show "filter (\<lambda>c. role (hir_node_at ir' c) = q) (map tree_index (us @ ws @ vs)) = map tree_index ws"
    using kids_other_role [OF k(1) q(1)] kids_other_role [OF k(3) q(2)] kids_with_role [OF k(2), of q] by simp
qed

lemma scope_of_simps [simp]:
  "scope_of (rs\<lparr>res_depth := d\<rparr>) = (scope_of rs)\<lparr>sc_depth := d\<rparr>" "sc_depth (scope_of rs) = res_depth rs"
  "scope_of (drop_scope rs) = sc_drop (scope_of rs)" "res_ir (drop_scope rs) = res_ir rs"
  "res_error (drop_scope rs) = res_error rs" "res_depth (drop_scope rs) = res_depth rs"
  by (simp_all add: scope_of_def drop_scope_def sc_drop_def)

lemma sc_drop_depth [simp]: "sc_depth (sc_drop s) = sc_depth s"
  by (simp add: sc_drop_def)

abbreviation leave_scope :: "'f hir_resolver \<Rightarrow> 'f hir_resolver" where
  "leave_scope rs \<equiv> (drop_scope rs)\<lparr>res_depth := res_depth (drop_scope rs) - 1\<rparr>"

lemma bound_leave:
  "bound strtod ir ts rl (Some (as, s)) rs \<Longrightarrow> bound strtod ir ts rl (Some (as, sc_leave s)) (leave_scope rs)"
  "bound strtod ir ts rl None rs \<Longrightarrow> bound strtod ir ts rl None (leave_scope rs)"
  by (auto simp: bound_def)

end
