(* ===== verification/HirResolveCorrect.thy ===== *)
theory HirResolveCorrect
  imports HirResolveSpec
begin

text \<open>
  The resolver on the array implements the renaming of the syntax tree. The contract of
  the recursive call is the locale \<open>variable_resolver\<close>.
\<close>

section \<open>A loop over a forest\<close>

text \<open>
  \<open>bind_all\<close> with a step that implements \<open>f\<close> on one tree implements the sequence of \<open>f\<close> on the
  list: what is renamed in one tree does not touch the trees that follow.
\<close>

lemma forest_loop:
  assumes step: "\<And>rs t r a. tree_for strtod (res_ir rs) t (r, a) \<Longrightarrow> P a \<Longrightarrow> \<not> res_error rs
      \<Longrightarrow> wp (go rs (Some (tree_index t))) (bound strtod (res_ir rs) [t] [r] (map_option (\<lambda>(a, s). ([a], s)) (f (scope_of rs) a)))"
    and fs: "\<And>s. fs s [] = Some ([], s)" "\<And>s a as. fs s (a # as) = do { (a, s) \<leftarrow> f s a; (as, s) \<leftarrow> fs s as; Some (a # as, s) }"
    and "list_all2 (tree_for strtod (res_ir rs)) ts es" "\<forall>(r, a) \<in> set es. P a" "distinct (forest_indices ts)"
    "\<not> res_error rs"
  shows "wp (bind_all go rs (map tree_index ts))
    (bound strtod (res_ir rs) ts (map fst es) (fs (scope_of rs) (map snd es)))"
  using assms(4-)
proof (induction ts arbitrary: es rs)
  case Nil
  then show ?case by (simp add: bound_Nil fs(1))
next
  case (Cons t ts es0)
  from Cons.prems(1) obtain e es where es0: "es0 = e # es" and tt: "tree_for strtod (res_ir rs) t e"
    "list_all2 (tree_for strtod (res_ir rs)) ts es" by (auto simp: list_all2_Cons1)
  obtain r a where e: "e = (r, a)" by (cases e)
  have sz: "P a" "\<forall>(r, a) \<in> set es. P a" using Cons.prems(2) e es0 by auto
  have d: "distinct (forest_indices ts)" "set (forest_indices [t]) \<inter> set (forest_indices ts) = {}" using Cons.prems(3) by auto
  have t: "tree_for strtod (res_ir rs) t (r, a)" using tt(1) e by simp
  let ?r1 = "f (scope_of rs) a"
  show ?case
  proof (simp only: es0 list.map bind_all.simps Cons.prems(4) if_False wp_bind, rule wp_mono [OF step [OF t sz(1) Cons.prems(4)]])
    fix rs1 assume b1: "bound strtod (res_ir rs) [t] [r] (map_option (\<lambda>(a, s). ([a], s)) ?r1) rs1"
    show "wp (bind_all go rs1 (map tree_index ts)) (bound strtod (res_ir rs) (t # ts) (fst e # map fst es)
        (fs (scope_of rs) (snd e # map snd es)))"
    proof (cases ?r1)
      case None
      then have "res_error rs1" using b1 by (simp add: bound_def)
      then have "bind_all go rs1 (map tree_index ts) = Some rs1" by (cases ts) simp_all
      with None b1 e bound_error [of strtod "res_ir rs" "[t]" "[r]" rs1 ts] show ?thesis by (simp add: fs(2))
    next
      case (Some p)
      obtain a' s1 where p: "?r1 = Some (a', s1)" using Some by (cases p) simp
      have b1: "bound strtod (res_ir rs) [t] [r] (Some ([a'], s1)) rs1" using b1 p by simp
      then have ne: "\<not> res_error rs1" "scope_of rs1 = s1" and rn: "renames (set (indices t)) (res_ir rs) (res_ir rs1)"
        by (simp_all add: bound_def)
      have "list_all2 (tree_for strtod (res_ir rs1)) ts es"
        by (rule list_all2_mono_in [OF tt(2) tree_for_frame [OF _ rn]]) (use d(2) in \<open>auto simp: forest_indices_def\<close>)
      from Cons.IH [OF this sz(2) d(1) ne(1)]
      have "wp (bind_all go rs1 (map tree_index ts)) (bound strtod (res_ir rs1) ts (map fst es) (fs (scope_of rs1) (map snd es)))" .
      then show ?thesis
      proof (rule wp_mono)
        fix rs2 assume b2: "bound strtod (res_ir rs1) ts (map fst es) (fs (scope_of rs1) (map snd es)) rs2"
        have "bound strtod (res_ir rs) ([t] @ ts) ([r] @ map fst es)
            (map_option (\<lambda>(as', s'). ([a'] @ as', s')) (fs (scope_of rs1) (map snd es))) rs2"
          by (rule bound_append [OF b1 b2 d(2)]) (use t tree_at_range in \<open>auto simp: tree_for_def\<close>)
        then show "bound strtod (res_ir rs) (t # ts) (fst e # map fst es) (fs (scope_of rs) (snd e # map snd es)) rs2"
          using p e ne(2) by (simp add: fs(2), cases "fs s1 (map snd es)") auto
      qed
    qed
  qed
qed

section \<open>The contract of the recursive call\<close>

locale variable_resolver =
  fixes go :: "'f bind_step" and k :: nat and strtod :: "string \<Rightarrow> 'f"
  assumes stops: "res_error rs \<Longrightarrow> 0 < k \<Longrightarrow> go rs c = Some rs"
    and absent: "go rs None = Some rs"
    and binds: "tree_for strtod (res_ir rs) t (r, a) \<Longrightarrow> ast_depth a < k \<Longrightarrow> \<not> res_error rs
      \<Longrightarrow> wp (go rs (Some (tree_index t)))
            (bound strtod (res_ir rs) [t] [r] (map_option (\<lambda>(a, s). ([a], s)) (bind_ast (scope_of rs) a)))"
begin

lemma bind_all_forest:
  assumes "list_all2 (tree_for strtod (res_ir rs)) ts es" "\<forall>(r, a) \<in> set es. ast_depth a < k" "distinct (forest_indices ts)"
    "\<not> res_error rs"
  shows "wp (bind_all go rs (map tree_index ts))
    (bound strtod (res_ir rs) ts (map fst es) (bind_asts (scope_of rs) (map snd es)))"
  by (rule forest_loop [where P = "\<lambda>a. ast_depth a < k" and f = bind_ast, OF binds _ _ assms]) simp_all

lemma kids_bound:
  assumes "tree_for strtod (res_ir rs) (HTree i l ts) (r, a)" "ast_depth a \<le> k" "\<not> res_error rs"
  shows "wp (bind_all go rs (map tree_index ts))
    (bound strtod (res_ir rs) ts (map fst (ast_edges a)) (bind_asts (scope_of rs) (map snd (ast_edges a))))"
proof (rule bind_all_forest [OF tree_for_node(2) [OF assms(1)] _ _ assms(3)])
  show "\<forall>(r, a) \<in> set (ast_edges a). ast_depth a < k" using edge_deeper assms(2) by fastforce
  show "distinct (forest_indices ts)" using assms(1) by (simp add: tree_for_def forest_indices_def)
qed

text \<open>A node whose children are bound in order and which is otherwise kept.\<close>

lemma plain_node:
  assumes t: "tree_for strtod (res_ir rs) (HTree i l ts) (r, a)"
    and w: "wp m (bound strtod (res_ir rs) ts (map fst (ast_edges a)) (bind_asts (scope_of rs) (map snd (ast_edges a))))"
    and p: "bind_ast (scope_of rs) a = map_option (\<lambda>(as, s). (f as, s)) (bind_asts (scope_of rs) (map snd (ast_edges a)))"
    and f: "\<And>as. length as = length (ast_edges a)
      \<Longrightarrow> node_payload strtod (f as) = node_payload strtod a \<and> ast_edges (f as) = zip (map fst (ast_edges a)) as"
  shows "wp m (bound strtod (res_ir rs) [HTree i l ts] [r] (map_option (\<lambda>(a, s). ([a], s)) (bind_ast (scope_of rs) a)))"
  using w
proof (rule wp_mono)
  fix rs' assume b: "bound strtod (res_ir rs) ts (map fst (ast_edges a)) (bind_asts (scope_of rs) (map snd (ast_edges a))) rs'"
  show "bound strtod (res_ir rs) [HTree i l ts] [r] (map_option (\<lambda>(a, s). ([a], s)) (bind_ast (scope_of rs) a)) rs'"
  proof (cases "bind_asts (scope_of rs) (map snd (ast_edges a))")
    case None
    with b p show ?thesis by (simp add: bound_node_error)
  next
    case (Some q)
    obtain as s where q: "bind_asts (scope_of rs) (map snd (ast_edges a)) = Some (as, s)" using Some by (cases q) simp
    then have "length as = length (ast_edges a)" using bind_asts_length by fastforce
    with f bound_node [OF t, of as s rs' "f as"] b q p show ?thesis by simp
  qed
qed

lemma bind_role_all:
  assumes t: "tree_for strtod (res_ir rs) (HTree i l ts) (r, a)" and e: "ast_edges a = edges q as"
  shows "resolver_bind_role go rs i q = bind_all go rs (map tree_index ts)"
  using tree_for_node(1) [OF t] kids_with_role [OF tree_for_node(2) [OF t, unfolded e]]
  by (simp add: resolver_bind_role_def)

lemma first_child_role:
  assumes t: "tree_for strtod (res_ir rs) (HTree i l (t # ts)) (r, a)" and e: "ast_edges a = (q, c) # es"
  shows "child_role (res_ir rs) i q = Some (Some (tree_index t))"
proof -
  have "tree_for strtod (res_ir rs) t (q, c)" using tree_for_node(2) [OF t] e by simp
  then show ?thesis using tree_for_node(1,6) [OF t] by (simp add: child_role_def tree_for_role)
qed

lemma bind_child_all:
  assumes t: "tree_for strtod (res_ir rs) (HTree i l ts) (r, a)" and e: "ast_edges a = [(q, c)]" and ne: "\<not> res_error rs"
  shows "bind_child go rs i q = bind_all go rs (map tree_index ts)"
proof -
  from tree_for_node(2) [OF t] e obtain t1 where ts: "ts = [t1]" by (auto simp: list_all2_Cons2)
  show ?thesis using first_child_role [OF t [unfolded ts] e] ne by (simp add: bind_child_def ts)
qed

lemma bind_pair_all:
  assumes t: "tree_for strtod (res_ir rs) (HTree i l ts) (r, a)" and e: "ast_edges a = [(q, c), (q', d)]" and q: "q \<noteq> q'"
    and ne: "\<not> res_error rs" and sz: "ast_depth a \<le> k" and w: "wp (bind_all go rs (map tree_index ts)) Q"
  shows "wp (bind_pair go rs i q q') Q"
proof -
  from tree_for_node(2) [OF t] e obtain t1 t2 where ts: "ts = [t1, t2]"
    and k: "tree_for strtod (res_ir rs) t1 (q, c)" "tree_for strtod (res_ir rs) t2 (q', d)" by (auto simp: list_all2_Cons2)
  have c: "child_role (res_ir rs) i q = Some (Some (tree_index t1))" by (rule first_child_role [OF t [unfolded ts] e])
  have d: "child_role (res_ir rs) i q' = Some (Some (tree_index t2))"
    using tree_for_node(1,6) [OF t] k q ts by (simp add: child_role_def tree_for_role)
  have szc: "ast_depth c < k" using edge_deeper [of q c a] e sz by simp
  have w: "wp (go rs (Some (tree_index t1))) (\<lambda>rs1. wp (bind_all go rs1 [tree_index t2]) Q)"
    using w ne by (simp add: ts)
  have "wp (go rs (Some (tree_index t1))) (\<lambda>rs1. wp (bind_child go rs1 i q') Q)"
  proof (rule wp_mono [OF wp_conj [OF w binds [OF k(1) szc ne]]], elim conjE)
    fix rs1 assume w1: "wp (bind_all go rs1 [tree_index t2]) Q"
      and "bound strtod (res_ir rs) [t1] [q] (map_option (\<lambda>(a, s). ([a], s)) (bind_ast (scope_of rs) c)) rs1"
    then have "renames (set (forest_indices [t1])) (res_ir rs) (res_ir rs1)" by (simp add: bound_def)
    then have "child_role (res_ir rs1) i q' = Some (Some (tree_index t2))" using d child_role_renames by metis
    then show "wp (bind_child go rs1 i q') Q"
      using w1 stops [of rs1] szc by (cases "res_error rs1") (simp_all add: bind_child_def)
  qed
  then show ?thesis using c by (simp add: bind_pair_def bind_child_def [of go rs])
qed

lemma variable_node:
  assumes t: "tree_for strtod (res_ir rs) (HTree i l ts) (r, Variable x)" and ne: "\<not> res_error rs"
  shows "wp (rename_found rs i) (bound strtod (res_ir rs) [HTree i l ts] [r]
     (map_option (\<lambda>(a, s). ([a], s)) (bind_ast (scope_of rs) (Variable x))))"
proof -
  have ts: "ts = []" using tree_for_node(2) [OF t] by simp
  have x: "value_text (node_value (hir_node_at (res_ir rs) i)) = Some x" using tree_for_node(4) [OF t] by simp
  show ?thesis
  proof (cases "resolver_find (res_symbols rs) x")
    case None
    then show ?thesis using x by (simp add: rename_found_def bound_def resolver_error_def sc_find_def scope_of_def)
  next
    case (Some y)
    have "bound strtod (res_ir rs) [HTree i l ts] [r] (Some ([Variable (storage_key y)], scope_of (set_text rs i (storage_key y))))
        (set_text rs i (storage_key y))"
      by (rule bound_renamed_node [OF t, of "[]" "scope_of rs" rs _ "storage_key y"])
        (use ne ts in \<open>simp_all add: bound_Nil set_text_def node_payload_def\<close>)
    moreover have "scope_of (set_text rs i (storage_key y)) = scope_of rs" by (simp add: scope_of_def set_text_def)
    ultimately show ?thesis using x Some by (simp add: rename_found_def sc_find_def, simp add: scope_of_def)
  qed
qed

lemma declaration_node:
  assumes t: "tree_for strtod (res_ir rs) (HTree i l ts) (r, a)" and a: "a = VariableDeclaration x ty v re"
    and sz: "ast_depth a \<le> k" and ne: "\<not> res_error rs"
  shows "wp (bind_declaration go rs i) (bound strtod (res_ir rs) [HTree i l ts] [r]
     (map_option (\<lambda>(a, s). ([a], s)) (bind_ast (scope_of rs) a)))"
proof -
  have e: "ast_edges a = [(EDGE_VALUE, v)]" using a by simp
  have w: "wp (bind_child go rs i EDGE_VALUE) (bound strtod (res_ir rs) ts [EDGE_VALUE] (bind_asts (scope_of rs) [v]))"
    using kids_bound [OF t sz ne] bind_child_all [OF t e ne] e by simp
  show ?thesis unfolding bind_declaration_def wp_bind
  proof (rule wp_mono [OF w])
    fix rs1 assume b: "bound strtod (res_ir rs) ts [EDGE_VALUE] (bind_asts (scope_of rs) [v]) rs1"
    show "wp (if res_error rs1 then Some rs1
         else if opcode (hir_node_at (res_ir rs1) i) = IR_REASSIGN then rename_found rs1 i else rename_declared rs1 i)
      (bound strtod (res_ir rs) [HTree i l ts] [r] (map_option (\<lambda>(a, s). ([a], s)) (bind_ast (scope_of rs) a)))"
    proof (cases "bind_ast (scope_of rs) v")
      case None
      with b a show ?thesis by (simp add: bound_node_error, simp add: bound_def)
    next
      case (Some p)
      obtain v' s where p: "bind_ast (scope_of rs) v = Some (v', s)" using Some by (cases p) simp
      have b: "bound strtod (res_ir rs) ts (map fst (ast_edges a)) (Some ([v'], s)) rs1" using b p e by simp
      then have s: "\<not> res_error rs1" "scope_of rs1 = s" and rn: "renames (set (forest_indices ts)) (res_ir rs) (res_ir rs1)"
        by (simp_all add: bound_def)
      have "i \<notin> set (forest_indices ts)" "i < node_count (res_ir rs)"
        using t by (auto simp: tree_for_def forest_indices_def)
      then have same: "hir_node_at (res_ir rs1) i = hir_node_at (res_ir rs) i" using rn by (simp add: renames_def)
      then have x: "value_text (node_value (hir_node_at (res_ir rs1) i)) = Some x"
        and op: "opcode (hir_node_at (res_ir rs1) i) = IR_REASSIGN \<longleftrightarrow> re" using tree_for_node(3,4) [OF t] a by auto
      have new: "bound strtod (res_ir rs) [HTree i l ts] [r] (Some ([VariableDeclaration key ty v' re], scope_of rs2)) rs2"
        if "res_ir rs2 = update_node (res_ir rs1) i (\<lambda>n. n\<lparr>node_value := Text_value key\<rparr>)" "\<not> res_error rs2" for rs2 key
        by (rule bound_renamed_node [OF t b that]) (simp_all add: a node_payload_def)
      show ?thesis
      proof (cases re)
        case True
        show ?thesis
        proof (cases "resolver_find (res_symbols rs1) x")
          case None
          then have "sc_find s x = None" using s by (auto simp: sc_find_def scope_of_def)
          then show ?thesis using True s x op p a None b
            by (auto simp: rename_found_def bound_def resolver_error_def forest_indices_def elim: renames_mono)
        next
          case (Some y)
          then have "sc_find s x = Some (storage_key y)" using s by (auto simp: sc_find_def scope_of_def)
          moreover have "scope_of (set_text rs1 i (storage_key y)) = s" using s by (simp add: scope_of_def set_text_def)
          ultimately show ?thesis using True s x op p a Some new [of "set_text rs1 i (storage_key y)" "storage_key y"]
            by (simp add: rename_found_def, simp add: set_text_def)
        qed
      next
        case False
        let ?key = "symbol_key (next_id rs1) x"
        obtain y rs2 where d: "resolver_declare rs1 x = (y, rs2)" by fastforce
        then have y: "storage_key y = ?key" "res_ir rs2 = res_ir rs1" "\<not> res_error rs2" "sc_declare s x = (?key, scope_of rs2)"
          using s by (auto simp: resolver_declare_def sc_declare_def scope_of_def Let_def)
        have "scope_of (set_text rs2 i ?key) = scope_of rs2" by (simp add: scope_of_def set_text_def)
        with new [of "set_text rs2 i ?key" ?key] d y False s x op p a show ?thesis
          by (simp add: rename_declared_def, simp add: set_text_def)
      qed
    qed
  qed
qed

text \<open>Binding one group of children after others have been bound.\<close>

lemma bind_group:
  assumes t: "tree_for strtod ir (HTree i l (us @ ws @ vs)) (r, a)" and e: "ast_edges a = es @ edges q as @ es'"
    and len: "length us = length es" "length ws = length as" and q: "q \<notin> fst ` set es" "q \<notin> fst ` set es'"
    and b: "bound strtod ir us rl (Some (bs, s)) rs" and rs': "res_ir rs' = res_ir rs" "\<not> res_error rs'" and sz: "ast_depth a \<le> k"
  shows "wp (resolver_bind_role go rs' i q) (bound strtod ir (us @ ws) (rl @ map (\<lambda>_. q) as)
    (map_option (\<lambda>(as', s'). (bs @ as', s')) (bind_asts (scope_of rs') as)))"
proof -
  have rn: "renames (set (forest_indices us)) ir (res_ir rs')" using b rs'(1) by (simp add: bound_def)
  note kp = kids_part [OF t e len q rn]
  have d: "distinct (forest_indices us @ forest_indices ws)" using t by (auto simp: tree_for_def forest_indices_def)
  have "list_all2 (tree_for strtod (res_ir rs')) ws (edges q as)"
    by (rule list_all2_mono_in [OF kp(4) tree_for_frame [OF _ rn]]) (use d forest_indices_subtree in \<open>auto simp: disjoint_iff\<close>)
  moreover have "\<forall>(r, a) \<in> set (edges q as). ast_depth a < k"
  proof clarify
    fix r' c assume "(r', c) \<in> set (edges q as)"
    then have "(r', c) \<in> set (ast_edges a)" using e by simp
    then show "ast_depth c < k" using edge_deeper sz by fastforce
  qed
  ultimately have w: "wp (bind_all go rs' (map tree_index ws))
      (bound strtod (res_ir rs') ws (map fst (edges q as)) (bind_asts (scope_of rs') (map snd (edges q as))))"
    by (rule bind_all_forest) (use d rs'(2) in simp_all)
  have m: "map fst (edges q as) = map (\<lambda>_. q) as" "map snd (edges q as) = as" by (simp_all add: comp_def)
  have "resolver_bind_role go rs' i q = bind_all go rs' (map tree_index ws)"
    using kp(1,2) by (simp add: resolver_bind_role_def)
  then show ?thesis
  proof (simp only:, intro wp_mono [OF w [unfolded m]])
    fix rs2 assume "bound strtod (res_ir rs') ws (map (\<lambda>_. q) as) (bind_asts (scope_of rs') as) rs2"
    then show "bound strtod ir (us @ ws) (rl @ map (\<lambda>_. q) as) (map_option (\<lambda>(as', s'). (bs @ as', s')) (bind_asts (scope_of rs') as)) rs2"
      unfolding rs'(1) by (rule bound_append [OF b]) (use d tree_for_range [OF t] in auto)
  qed
qed

lemma condition_bound:
  assumes t: "tree_for strtod (res_ir rs) (HTree i l (tc # ts)) (r, a)" and e: "ast_edges a = (q, c) # es"
    and ne: "\<not> res_error rs" and sz: "ast_depth a \<le> k"
  shows "wp (bind_child go rs i q) (bound strtod (res_ir rs) [tc] [q] (map_option (\<lambda>(a, s). ([a], s)) (bind_ast (scope_of rs) c)))"
proof -
  have "tree_for strtod (res_ir rs) tc (q, c)" using tree_for_node(2) [OF t] e by simp
  moreover have "ast_depth c < k" using edge_deeper [of q c a] e sz by simp
  ultimately show ?thesis using binds ne by (simp add: bind_child_def first_child_role [OF t e])
qed

lemma while_node:
  assumes t: "tree_for strtod (res_ir rs) (HTree i l ts) (r, a)" and a: "a = WhileStatement c b"
    and sz: "ast_depth a \<le> k" and ne: "\<not> res_error rs"
  shows "wp (bind_while go rs i) (bound strtod (res_ir rs) [HTree i l ts] [r]
     (map_option (\<lambda>(a, s). ([a], s)) (bind_ast (scope_of rs) a)))"
proof -
  have e: "ast_edges a = (EDGE_CONDITION, c) # edges EDGE_BODY b" using a by simp
  from tree_for_node(2) [OF t] e obtain tc tb where ts: "ts = tc # tb" and len: "length tb = length b"
    by (auto simp: list_all2_Cons2 dest: list_all2_lengthD)
  show ?thesis unfolding bind_while_def wp_bind
  proof (rule wp_mono [OF condition_bound [OF t [unfolded ts] e ne sz]])
    fix rs1 assume b1: "bound strtod (res_ir rs) [tc] [EDGE_CONDITION] (map_option (\<lambda>(a, s). ([a], s)) (bind_ast (scope_of rs) c)) rs1"
    show "wp (if res_error rs1 then Some rs1 else do {
         rs \<leftarrow> resolver_bind_role go (rs1\<lparr>res_depth := res_depth rs1 + 1\<rparr>) i EDGE_BODY;
         let rs = drop_scope rs; Some (rs\<lparr>res_depth := res_depth rs - 1\<rparr>) })
      (bound strtod (res_ir rs) [HTree i l ts] [r] (map_option (\<lambda>(a, s). ([a], s)) (bind_ast (scope_of rs) a)))"
    proof (cases "bind_ast (scope_of rs) c")
      case None
      have er: "res_error rs1" using b1 None by (simp add: bound_def)
      have "bound strtod (res_ir rs) (tc # tb) [] None rs1"
        using bound_error [of strtod "res_ir rs" "[tc]" _ rs1 tb] b1 None by simp
      with er None a ts show ?thesis by (simp add: bound_node_error)
    next
      case (Some p)
      obtain c' s1 where p: "bind_ast (scope_of rs) c = Some (c', s1)" using Some by (cases p) simp
      have b1: "bound strtod (res_ir rs) [tc] [EDGE_CONDITION] (Some ([c'], s1)) rs1" using b1 p by simp
      then have s1: "\<not> res_error rs1" "scope_of rs1 = s1" by (simp_all add: bound_def)
      let ?rs1 = "rs1\<lparr>res_depth := res_depth rs1 + 1\<rparr>"
      have w: "wp (resolver_bind_role go ?rs1 i EDGE_BODY) (bound strtod (res_ir rs) ([tc] @ tb)
          ([EDGE_CONDITION] @ map (\<lambda>_. EDGE_BODY) b) (map_option (\<lambda>(as', s'). ([c'] @ as', s')) (bind_asts (scope_of ?rs1) b)))"
        by (rule bind_group [of "res_ir rs" i l _ _ "[]" r a "[(EDGE_CONDITION, c)]" _ _ "[]", OF _ _ _ len _ _ b1])
          (use t ts e s1 sz in simp_all)
      show ?thesis
      proof (simp only: s1(1) if_False wp_bind, rule wp_mono [OF w])
        fix rs2 assume b2: "bound strtod (res_ir rs) ([tc] @ tb) ([EDGE_CONDITION] @ map (\<lambda>_. EDGE_BODY) b)
           (map_option (\<lambda>(as', s'). ([c'] @ as', s')) (bind_asts (scope_of ?rs1) b)) rs2"
        have sc: "scope_of ?rs1 = sc_enter s1" using s1 by auto
        show "wp (let rs = drop_scope rs2 in Some (rs\<lparr>res_depth := res_depth rs - 1\<rparr>))
          (bound strtod (res_ir rs) [HTree i l ts] [r] (map_option (\<lambda>(a, s). ([a], s)) (bind_ast (scope_of rs) a)))"
        proof (cases "bind_asts (sc_enter s1) b")
          case None
          then have "bound strtod (res_ir rs) ts [] None rs2" using b2 sc ts by (simp add: bound_def)
          from bound_node_error [OF bound_leave(2) [OF this]] None p a show ?thesis by (simp add: Let_def)
        next
          case (Some p2)
          obtain b' s2 where p2: "bind_asts (sc_enter s1) b = Some (b', s2)" using Some by (cases p2) simp
          have "bound strtod (res_ir rs) ts (map fst (ast_edges a)) (Some (c' # b', s2)) rs2"
            using b2 p2 sc ts e by (simp add: comp_def)
          note b3 = bound_leave(1) [OF this]
          have "length b' = length b" using bind_asts_length [OF p2] .
          then have "bound strtod (res_ir rs) [HTree i l ts] [r] (Some ([WhileStatement c' b'], sc_leave s2)) (leave_scope rs2)"
            by (intro bound_node [OF t b3]) (auto simp: a node_payload_def comp_def zip_const)
          with p p2 a show ?thesis by (simp add: Let_def)
        qed
      qed
    qed
  qed
qed

lemma if_node:
  assumes t: "tree_for strtod (res_ir rs) (HTree i l ts) (r, a)" and a: "a = IfStatement c th el"
    and sz: "ast_depth a \<le> k" and ne: "\<not> res_error rs"
  shows "wp (bind_if go rs i) (bound strtod (res_ir rs) [HTree i l ts] [r]
     (map_option (\<lambda>(a, s). ([a], s)) (bind_ast (scope_of rs) a)))"
proof -
  let ?Q = "bound strtod (res_ir rs) [HTree i l ts] [r] (map_option (\<lambda>(a, s). ([a], s)) (bind_ast (scope_of rs) a))"
  have e: "ast_edges a = (EDGE_CONDITION, c) # edges EDGE_THEN th @ edges EDGE_ELSE el" using a by simp
  from tree_for_node(2) [OF t] e obtain tc tt te where ts: "ts = tc # tt @ te" and len: "length tt = length th" "length te = length el"
    by (auto simp: list_all2_Cons2 list_all2_append2 dest: list_all2_lengthD)
  show ?thesis unfolding bind_if_def wp_bind
  proof (rule wp_mono [OF condition_bound [OF t [unfolded ts] e ne sz]])
    fix rs1 assume b1: "bound strtod (res_ir rs) [tc] [EDGE_CONDITION] (map_option (\<lambda>(a, s). ([a], s)) (bind_ast (scope_of rs) c)) rs1"
    let ?rs1 = "rs1\<lparr>res_depth := res_depth rs1 + 1\<rparr>"
    show "wp (if res_error rs1 then Some rs1 else do {
         rs \<leftarrow> resolver_bind_role go ?rs1 i EDGE_THEN;
         if res_error rs then Some rs else do {
           rs \<leftarrow> resolver_bind_role go (drop_scope rs) i EDGE_ELSE;
           let rs = drop_scope rs; Some (rs\<lparr>res_depth := res_depth rs - 1\<rparr>) } }) ?Q"
    proof (cases "bind_ast (scope_of rs) c")
      case None
      have er: "res_error rs1" using b1 None by (simp add: bound_def)
      have "bound strtod (res_ir rs) (tc # tt @ te) [] None rs1"
        using bound_error [of strtod "res_ir rs" "[tc]" _ rs1 "tt @ te"] b1 None by simp
      with er None a ts show ?thesis by (simp add: bound_node_error)
    next
      case (Some p)
      obtain c' s1 where p: "bind_ast (scope_of rs) c = Some (c', s1)" using Some by (cases p) simp
      have b1: "bound strtod (res_ir rs) [tc] [EDGE_CONDITION] (Some ([c'], s1)) rs1" using b1 p by simp
      then have s1: "\<not> res_error rs1" "scope_of ?rs1 = sc_enter s1" by (auto simp: bound_def)
      have w1: "wp (resolver_bind_role go ?rs1 i EDGE_THEN) (bound strtod (res_ir rs) ([tc] @ tt)
          ([EDGE_CONDITION] @ map (\<lambda>_. EDGE_THEN) th) (map_option (\<lambda>(as', s'). ([c'] @ as', s')) (bind_asts (scope_of ?rs1) th)))"
        by (rule bind_group [of "res_ir rs" i l _ _ te r a "[(EDGE_CONDITION, c)]" _ _ "edges EDGE_ELSE el", OF _ _ _ len(1) _ _ b1])
          (use t ts e s1 sz in auto)
      show ?thesis
      proof (simp only: s1(1) if_False wp_bind, rule wp_mono [OF w1])
        fix rs2 assume b2: "bound strtod (res_ir rs) ([tc] @ tt) ([EDGE_CONDITION] @ map (\<lambda>_. EDGE_THEN) th)
           (map_option (\<lambda>(as', s'). ([c'] @ as', s')) (bind_asts (scope_of ?rs1) th)) rs2"
        show "wp (if res_error rs2 then Some rs2 else do {
             rs \<leftarrow> resolver_bind_role go (drop_scope rs2) i EDGE_ELSE;
             let rs = drop_scope rs; Some (rs\<lparr>res_depth := res_depth rs - 1\<rparr>) }) ?Q"
        proof (cases "bind_asts (sc_enter s1) th")
          case None
          then have b2: "bound strtod (res_ir rs) ([tc] @ tt) [] None rs2" using b2 s1(2) by (simp add: bound_def)
          then have "res_error rs2" by (simp add: bound_def)
          with bound_error [OF b2, of te] ts None p a show ?thesis by (simp add: bound_node_error)
        next
          case (Some p2)
          obtain th' s2 where p2: "bind_asts (sc_enter s1) th = Some (th', s2)" using Some by (cases p2) simp
          have b2: "bound strtod (res_ir rs) ([tc] @ tt) (EDGE_CONDITION # map (\<lambda>_. EDGE_THEN) th) (Some (c' # th', s2)) rs2"
            using b2 p2 s1(2) by simp
          then have s2: "\<not> res_error rs2" "scope_of (drop_scope rs2) = sc_drop s2" by (auto simp: bound_def)
          have w2: "wp (resolver_bind_role go (drop_scope rs2) i EDGE_ELSE) (bound strtod (res_ir rs) (([tc] @ tt) @ te)
              ((EDGE_CONDITION # map (\<lambda>_. EDGE_THEN) th) @ map (\<lambda>_. EDGE_ELSE) el)
              (map_option (\<lambda>(as', s'). ((c' # th') @ as', s')) (bind_asts (scope_of (drop_scope rs2)) el)))"
            by (rule bind_group [of "res_ir rs" i l _ _ "[]" r a "(EDGE_CONDITION, c) # edges EDGE_THEN th" _ _ "[]",
                  OF _ _ _ len(2) _ _ b2]) (use t ts e s2 sz len in auto)
          show ?thesis
          proof (simp only: s2(1) if_False wp_bind, rule wp_mono [OF w2])
            fix rs3 assume b3: "bound strtod (res_ir rs) (([tc] @ tt) @ te)
                ((EDGE_CONDITION # map (\<lambda>_. EDGE_THEN) th) @ map (\<lambda>_. EDGE_ELSE) el)
                (map_option (\<lambda>(as', s'). ((c' # th') @ as', s')) (bind_asts (scope_of (drop_scope rs2)) el)) rs3"
            show "wp (let rs = drop_scope rs3 in Some (rs\<lparr>res_depth := res_depth rs - 1\<rparr>)) ?Q"
            proof (cases "bind_asts (sc_drop s2) el")
              case None
              then have "bound strtod (res_ir rs) ts [] None rs3" using b3 s2 ts by (simp add: bound_def)
              from bound_node_error [OF bound_leave(2) [OF this]] None p p2 a show ?thesis by (simp add: Let_def)
            next
              case (Some p3)
              obtain el' s3 where p3: "bind_asts (sc_drop s2) el = Some (el', s3)" using Some by (cases p3) simp
              have "bound strtod (res_ir rs) ts (map fst (ast_edges a)) (Some (c' # th' @ el', s3)) rs3"
                using b3 p3 s2(2) ts e by (simp add: comp_def)
              note b4 = bound_leave(1) [OF this]
              have "length th' = length th" "length el' = length el" using bind_asts_length p2 p3 by blast+
              then have "bound strtod (res_ir rs) [HTree i l ts] [r] (Some ([IfStatement c' th' el'], sc_leave s3)) (leave_scope rs3)"
                by (intro bound_node [OF t b4]) (auto simp: a node_payload_def comp_def zip_const zip_append)
              with p p2 p3 a show ?thesis by (simp add: Let_def)
            qed
          qed
        qed
      qed
    qed
  qed
qed

text \<open>Every node: what one more level of recursion does.\<close>

lemma call_node:
  assumes t: "tree_for strtod (res_ir rs) (HTree i l ts) (r, a)" and sz: "ast_depth a \<le> k" and ne: "\<not> res_error rs"
    and a: "a = FunctionCall f as n \<or> a = ArrayLiteral as n"
  shows "wp (do { cs \<leftarrow> children (res_ir rs) i; bind_all go rs cs }) (bound strtod (res_ir rs) [HTree i l ts] [r]
     (map_option (\<lambda>(a, s). ([a], s)) (bind_ast (scope_of rs) a)))"
proof -
  have w: "wp (do { cs \<leftarrow> children (res_ir rs) i; bind_all go rs cs })
      (bound strtod (res_ir rs) ts (map fst (ast_edges a)) (bind_asts (scope_of rs) (map snd (ast_edges a))))"
    using kids_bound [OF t sz ne] tree_for_node(1) [OF t] by simp
  let ?f = "\<lambda>as. case a of FunctionCall f _ n \<Rightarrow> FunctionCall f as n | _ \<Rightarrow> ArrayLiteral as n"
  show ?thesis
    by (rule plain_node [OF t w, of ?f])
      (use a in \<open>auto simp: comp_def node_payload_def zip_const split: option.splits bind_splits\<close>)
qed

lemma same_node:
  assumes "tree_for strtod (res_ir rs) t (r, a)" "\<not> res_error rs" "bind_ast (scope_of rs) a = Some (a, scope_of rs)"
  shows "bound strtod (res_ir rs) [t] [r] (map_option (\<lambda>(a, s). ([a], s)) (bind_ast (scope_of rs) a)) rs"
  using assms by (simp add: bound_def tree_for_def relabel_same)

lemma block_node:
  assumes t: "tree_for strtod (res_ir rs) (HTree i l ts) (r, a)" and sz: "ast_depth a \<le> k" and ne: "\<not> res_error rs"
    and a: "a = Program ss \<or> a = UnsafeBlock ss"
  shows "wp (resolver_bind_role go rs i EDGE_STATEMENT) (bound strtod (res_ir rs) [HTree i l ts] [r]
     (map_option (\<lambda>(a, s). ([a], s)) (bind_ast (scope_of rs) a)))"
proof -
  have e: "ast_edges a = edges EDGE_STATEMENT ss" using a by auto
  have w: "wp (resolver_bind_role go rs i EDGE_STATEMENT)
      (bound strtod (res_ir rs) ts (map fst (ast_edges a)) (bind_asts (scope_of rs) (map snd (ast_edges a))))"
    using kids_bound [OF t sz ne] bind_role_all [OF t e] by simp
  let ?f = "\<lambda>ss. case a of Program _ \<Rightarrow> Program ss | _ \<Rightarrow> UnsafeBlock ss"
  show ?thesis
    by (rule plain_node [OF t w, of ?f])
      (use a in \<open>auto simp: comp_def node_payload_def zip_const split: option.splits bind_splits\<close>)
qed

text \<open>Nodes with one child, or with two.\<close>

lemma one_child_node:
  assumes t: "tree_for strtod (res_ir rs) (HTree i l ts) (r, a)" and sz: "ast_depth a \<le> k" and ne: "\<not> res_error rs"
    and e: "ast_edges a = [(q, c)]" and p: "\<And>s. bind_ast s a = do { (c, s) \<leftarrow> bind_ast s c; Some (f c, s) }"
    and f: "\<And>c. node_payload strtod (f c) = node_payload strtod a \<and> ast_edges (f c) = [(q, c)]"
  shows "wp (bind_child go rs i q) (bound strtod (res_ir rs) [HTree i l ts] [r]
     (map_option (\<lambda>(a, s). ([a], s)) (bind_ast (scope_of rs) a)))"
proof -
  have w: "wp (bind_child go rs i q)
      (bound strtod (res_ir rs) ts (map fst (ast_edges a)) (bind_asts (scope_of rs) (map snd (ast_edges a))))"
    using kids_bound [OF t sz ne] bind_child_all [OF t e ne] by simp
  show ?thesis
  proof (rule plain_node [OF t w, of "\<lambda>as. f (hd as)"])
    show "bind_ast (scope_of rs) a = map_option (\<lambda>(as, s). (f (hd as), s)) (bind_asts (scope_of rs) (map snd (ast_edges a)))"
      using p e by (cases "bind_ast (scope_of rs) c") auto
    fix as :: "ast list" assume "length as = length (ast_edges a)"
    then show "node_payload strtod (f (hd as)) = node_payload strtod a \<and> ast_edges (f (hd as)) = zip (map fst (ast_edges a)) as"
      using f e by (cases as) auto
  qed
qed

lemma two_children_node:
  assumes t: "tree_for strtod (res_ir rs) (HTree i l ts) (r, a)" and sz: "ast_depth a \<le> k" and ne: "\<not> res_error rs"
    and e: "ast_edges a = [(q, c), (q', d)]" "q \<noteq> q'"
    and p: "\<And>s. bind_ast s a = do { (c, s) \<leftarrow> bind_ast s c; (d, s) \<leftarrow> bind_ast s d; Some (f c d, s) }"
    and f: "\<And>c d. node_payload strtod (f c d) = node_payload strtod a \<and> ast_edges (f c d) = [(q, c), (q', d)]"
  shows "wp (bind_pair go rs i q q') (bound strtod (res_ir rs) [HTree i l ts] [r]
     (map_option (\<lambda>(a, s). ([a], s)) (bind_ast (scope_of rs) a)))"
proof -
  have w: "wp (bind_pair go rs i q q')
      (bound strtod (res_ir rs) ts (map fst (ast_edges a)) (bind_asts (scope_of rs) (map snd (ast_edges a))))"
    by (rule bind_pair_all [OF t e ne sz kids_bound [OF t sz ne]])
  show ?thesis
  proof (rule plain_node [OF t w, of "\<lambda>as. f (hd as) (hd (tl as))"])
    show "bind_ast (scope_of rs) a =
        map_option (\<lambda>(as, s). (f (hd as) (hd (tl as)), s)) (bind_asts (scope_of rs) (map snd (ast_edges a)))"
      using p e by (auto split: bind_splits)
    fix as :: "ast list" assume "length as = length (ast_edges a)"
    then obtain c' d' where "as = [c', d']" using e by (cases as; cases "tl as") auto
    then show "node_payload strtod (f (hd as) (hd (tl as))) = node_payload strtod a
        \<and> ast_edges (f (hd as) (hd (tl as))) = zip (map fst (ast_edges a)) as" using f e by simp
  qed
qed

lemma empty_return:
  assumes t: "tree_for strtod (res_ir rs) (HTree i l ts) (r, ReturnStatement None)" and ne: "\<not> res_error rs"
  shows "wp (bind_child go rs i EDGE_VALUE) (bound strtod (res_ir rs) [HTree i l ts] [r]
     (map_option (\<lambda>(a, s). ([a], s)) (bind_ast (scope_of rs) (ReturnStatement None))))"
proof -
  have "ts = []" using tree_for_node(2) [OF t] by simp
  then have "child_role (res_ir rs) i EDGE_VALUE = Some None"
    using tree_for_node(1,6) [OF t] by (simp add: child_role_def)
  with same_node [OF t ne] show ?thesis by (simp add: bind_child_def absent)
qed

lemma resolver_step:
  assumes t: "tree_for strtod (res_ir rs) t (r, a)" and sz: "ast_depth a \<le> k" and ne: "\<not> res_error rs"
    and go: "go = resolver_bind_expr n"
  shows "wp (resolver_bind_expr (Suc n) rs (Some (tree_index t)))
    (bound strtod (res_ir rs) [t] [r] (map_option (\<lambda>(a, s). ([a], s)) (bind_ast (scope_of rs) a)))"
proof -
  obtain i l ts where t': "t = HTree i l ts" by (cases t)
  note T = t [unfolded t']
  have op: "opcode (hir_node_at (res_ir rs) i) = opcode_for a" and i: "\<not> node_count (res_ir rs) \<le> i"
    using tree_for_node(3,6) [OF T] by simp_all
  note step = resolver_bind_expr.simps(3) go [symmetric] op ne i
  have "wp (resolver_bind_expr (Suc n) rs (Some (tree_index (HTree i l ts))))
      (bound strtod (res_ir rs) [HTree i l ts] [r] (map_option (\<lambda>(a, s). ([a], s)) (bind_ast (scope_of rs) a)))"
  proof (cases a)
    case (Program ss)
    then show ?thesis
      using block_node [OF T sz ne] by (simp add: step Let_def)
  next
    case (UnsafeBlock ss)
    then show ?thesis using block_node [OF T sz ne] by (simp add: step Let_def)
  next
    case (PrintStatement e)
    then show ?thesis using one_child_node [OF T sz ne, of EDGE_VALUE e PrintStatement]
      by (simp add: step Let_def node_payload_def)
  next
    case (ReturnStatement e)
    then show ?thesis
      using empty_return [OF _ ne, of i l ts r] T one_child_node [OF T sz ne, of EDGE_VALUE "the e" "ReturnStatement \<circ> Some"]
      by (cases e) (simp_all add: step Let_def node_payload_def)
  next
    case (MemberExpression ob m)
    then show ?thesis using one_child_node [OF T sz ne, of EDGE_OBJECT ob "\<lambda>ob. MemberExpression ob m"]
      by (simp add: step Let_def node_payload_def)
  next
    case (UnaryExpression e op)
    then show ?thesis using one_child_node [OF T sz ne, of EDGE_OPERAND e "\<lambda>e. UnaryExpression e op"]
      by (simp add: step Let_def node_payload_def)
  next
    case (Assignment x v)
    then show ?thesis using two_children_node [OF T sz ne, of EDGE_TARGET x EDGE_VALUE v Assignment]
      by (simp add: step Let_def node_payload_def)
  next
    case (IndexExpression x v)
    then show ?thesis using two_children_node [OF T sz ne, of EDGE_OBJECT x EDGE_INDEX v IndexExpression]
      by (simp add: step Let_def node_payload_def)
  next
    case (BinaryExpression x v op)
    then show ?thesis using two_children_node [OF T sz ne, of EDGE_LEFT x EDGE_RIGHT v "\<lambda>x v. BinaryExpression x v op"]
      by (simp add: step Let_def node_payload_def)
  next
    case (FunctionCall f as m)
    then show ?thesis using call_node [OF T sz ne] by (simp add: step Let_def)
  next
    case (ArrayLiteral as m)
    then show ?thesis using call_node [OF T sz ne] by (simp add: step Let_def)
  next
    case (IfStatement c th el)
    then show ?thesis using if_node [OF T _ sz ne] by (simp add: step Let_def)
  next
    case (WhileStatement c b)
    then show ?thesis using while_node [OF T _ sz ne] by (simp add: step Let_def)
  next
    case (VariableDeclaration x ty v re)
    then show ?thesis using declaration_node [OF T _ sz ne] by (simp add: step Let_def)
  next
    case (Variable x)
    then show ?thesis using variable_node [of rs i l ts r x] T ne by (simp add: step Let_def)
  qed (use same_node [OF T ne] in \<open>simp_all add: step Let_def\<close>)
  then show ?thesis by (simp only: t')
qed

end

interpretation resolver: variable_resolver "resolver_bind_expr k" k strtod for k strtod
proof (induction k)
  case 0
  then show ?case by unfold_locales simp_all
next
  case (Suc k)
  show ?case
  proof
    fix rs :: "'a hir_resolver" and c
    show "res_error rs \<Longrightarrow> 0 < Suc k \<Longrightarrow> resolver_bind_expr (Suc k) rs c = Some rs" by (cases c) simp_all
    show "resolver_bind_expr (Suc k) rs None = Some rs" by simp
  next
    fix rs :: "'a hir_resolver" and t r a
    assume "tree_for strtod (res_ir rs) t (r, a)" "ast_depth a < Suc k" "\<not> res_error rs"
    then show "wp (resolver_bind_expr (Suc k) rs (Some (tree_index t)))
        (bound strtod (res_ir rs) [t] [r] (map_option (\<lambda>(a, s). ([a], s)) (bind_ast (scope_of rs) a)))"
      using variable_resolver.resolver_step [OF Suc _ _ _ refl] by (simp only: less_Suc_eq_le)
  qed
qed

section \<open>Top-level statements\<close>

lemma node_label_update [simp]: "node_label (n\<lparr>node_value := v\<rparr>) = (node_label n)\<lparr>node_value := v\<rparr>"
  "node_label (n\<lparr>names := ns\<rparr>) = (node_label n)\<lparr>names := ns\<rparr>"
  by (simp_all add: node_label_def)

text \<open>A node whose label and children have both been renamed.\<close>

lemma bound_changed_node:
  assumes "renames (insert i (set (forest_indices ts))) ir (res_ir rs)" "\<not> res_error rs"
    and "node_label (hir_node_at (res_ir rs) i) = (the (node_payload strtod a'))\<lparr>role := r\<rparr>"
    and "map (\<lambda>t. erase (relabel (res_ir rs) t)) ts = map2 (ast_tree strtod) rl as" "ast_edges a' = zip rl as"
  shows "bound strtod ir [HTree i l ts] [r] (Some ([a'], scope_of rs)) rs"
  using assms by (simp add: bound_def forest_indices_def comp_def ast_tree.simps [of strtod r a'])

lemma declare_globals_correct:
  assumes "list_all2 (tree_for strtod (res_ir rs)) ts (edges q ss)"
  shows "wp (declare_globals rs (map tree_index ts)) (\<lambda>rs'. scope_of rs' = global_scope (scope_of rs) ss
    \<and> res_ir rs' = res_ir rs \<and> res_error rs' = res_error rs)"
  using assms
proof (induction ts arbitrary: ss rs)
  case (Cons t ts ss0)
  then obtain a ss where ss0: "ss0 = a # ss" and t: "tree_for strtod (res_ir rs) t (q, a)"
    "list_all2 (tree_for strtod (res_ir rs)) ts (edges q ss)" by (auto simp: list_all2_Cons1)
  obtain i l us where t': "t = HTree i l us" by (cases t)
  have op: "opcode (hir_node_at (res_ir rs) (tree_index t)) = opcode_for a"
    and tx: "node_value (hir_node_at (res_ir rs) (tree_index t)) = value_for strtod a"
    using tree_for_node(3,4) [OF t(1) [unfolded t']] t' by simp_all
  show ?case
  proof (cases "opcode_for a = IR_VARIABLE_DECL")
    case True
    then obtain x ty v where a: "a = VariableDeclaration x ty v False" by (cases a) (auto split: if_splits)
    let ?rs = "snd (resolver_declare rs x)"
    have rs: "res_ir ?rs = res_ir rs" "res_error ?rs = res_error rs" "scope_of ?rs = snd (sc_declare (scope_of rs) x)"
      by (simp_all add: resolver_declare_def sc_declare_def scope_of_def Let_def)
    with Cons.IH [of ?rs ss] t(2) show ?thesis using op tx True a ss0 by simp
  next
    case False
    then have "global_scope (scope_of rs) (a # ss) = global_scope (scope_of rs) ss"
      by (cases a) (auto split: if_splits simp: global_scope.simps)
    with Cons.IH [OF t(2)] False op ss0 show ?thesis by simp
  qed
qed simp

lemma declare_parameters_correct:
  assumes "i < node_count (res_ir rs)" "\<not> res_error rs" "names (hir_node_at (res_ir rs) i) = ks @ ps"
  shows "\<exists>rs'. declare_parameters rs i [length ks..<length (ks @ ps)] = rs' \<and> \<not> res_error rs'
    \<and> scope_of rs' = snd (sc_parameters (scope_of rs) ps)
    \<and> res_ir rs' = update_node (res_ir rs) i (\<lambda>n. n\<lparr>names := ks @ fst (sc_parameters (scope_of rs) ps)\<rparr>)"
  using assms
proof (induction ps arbitrary: rs ks)
  case Nil
  have "(nodes (res_ir rs))[i := (hir_node_at (res_ir rs) i)\<lparr>names := ks\<rparr>] = nodes (res_ir rs)"
    using Nil by (metis append_Nil2 hir_node.surjective hir_node.update_convs(4) list_update_id)
  then show ?case using Nil by (simp add: update_node_def)
next
  case (Cons p ps)
  let ?key = "symbol_key (next_id rs) p"
  obtain y rs1 where d: "resolver_declare rs p = (y, rs1)" by fastforce
  then have y: "storage_key y = ?key" "res_ir rs1 = res_ir rs" "\<not> res_error rs1"
    "sc_declare (scope_of rs) p = (?key, scope_of rs1)"
    using Cons.prems(2) by (auto simp: resolver_declare_def sc_declare_def scope_of_def Let_def)
  let ?rs2 = "rs1\<lparr>res_ir := update_node (res_ir rs) i (\<lambda>n. n\<lparr>names := (names n)[length ks := ?key]\<rparr>)\<rparr>"
  have sc: "scope_of ?rs2 = scope_of rs1" by (simp add: scope_of_def)
  have "\<exists>rs'. declare_parameters ?rs2 i [length (ks @ [?key])..<length ((ks @ [?key]) @ ps)] = rs' \<and> \<not> res_error rs'
    \<and> scope_of rs' = snd (sc_parameters (scope_of ?rs2) ps)
    \<and> res_ir rs' = update_node (res_ir ?rs2) i (\<lambda>n. n\<lparr>names := (ks @ [?key]) @ fst (sc_parameters (scope_of ?rs2) ps)\<rparr>)"
    by (rule Cons.IH) (use Cons.prems y in simp_all)
  moreover have "[length ks..<length (ks @ p # ps)] = length ks # [length (ks @ [?key])..<length ((ks @ [?key]) @ ps)]"
    by (simp add: upt_conv_Cons del: upt_Suc)
  moreover have "update_node (update_node ir i g) i (\<lambda>n. n\<lparr>names := ns\<rparr>) = update_node ir i (\<lambda>n. n\<lparr>names := ns\<rparr>)"
    if "i < node_count ir" "\<And>n. (g n)\<lparr>names := ns\<rparr> = n\<lparr>names := ns\<rparr>" for ir :: "'a hir_program" and g ns
    using that by (simp add: update_node_def)
  ultimately show ?case using Cons.prems d y sc by (auto simp: Let_def case_prod_unfold)
qed

lemma sc_parameters_length: "length (fst (sc_parameters s ps)) = length ps"
  by (induction ps arbitrary: s) (auto simp: case_prod_unfold Let_def)

lemma function_statement:
  assumes t: "tree_for strtod (res_ir rs) (HTree i l ts) (r, a)" and a: "a = FunctionDeclaration f ps tys n ret u b"
    and sz: "ast_depth a \<le> k" and ne: "\<not> res_error rs"
  shows "wp (bind_function k rs i) (bound strtod (res_ir rs) [HTree i l ts] [r]
     (map_option (\<lambda>(a, s). ([a], s)) (bind_top g (scope_of rs) a)))"
proof -
  let ?ir = "res_ir rs"
  have e: "ast_edges a = edges EDGE_BODY b" using a by simp
  have i: "i < node_count ?ir" "i \<notin> set (forest_indices ts)" using t by (auto simp: tree_for_def forest_indices_def)
  have nm: "names (hir_node_at ?ir i) = take n ps" "n \<le> length ps"
    using tree_for_node(5) [OF t] a by (auto simp: copy_names_def split: if_splits)
  let ?rs0 = "rs\<lparr>res_depth := 1\<rparr>" and ?s0 = "(scope_of rs)\<lparr>sc_depth := 1\<rparr>"
  obtain ks s1 where sp: "sc_parameters ?s0 (take n ps) = (ks, s1)" by fastforce
  obtain rs1 where dp: "declare_parameters ?rs0 i [0..<length (take n ps)] = rs1" and rs1: "\<not> res_error rs1" "scope_of rs1 = s1"
    "res_ir rs1 = update_node ?ir i (\<lambda>n. n\<lparr>names := ks\<rparr>)"
    using declare_parameters_correct [of i ?rs0 "[]" "take n ps"] i nm ne sp by auto
  have rn1: "renames {i} ?ir (res_ir rs1)" unfolding rs1(3) by (rule renames_update(2))
  have d: "distinct (forest_indices ts)" using t by (simp add: tree_for_def forest_indices_def)
  have kid: "list_all2 (tree_for strtod (res_ir rs1)) ts (edges EDGE_BODY b)"
    by (rule list_all2_mono_in [OF tree_for_node(2) [OF t, unfolded e] tree_for_frame [OF _ rn1]])
      (use i(2) forest_indices_subtree in auto)
  have role: "resolver_bind_role (resolver_bind_expr k) rs1 i EDGE_BODY = bind_all (resolver_bind_expr k) rs1 (map tree_index ts)"
    using children_renames [OF rn1, of i] tree_for_node(1) [OF t] kids_with_role [OF kid]
    by (simp add: resolver_bind_role_def)
  have m: "map fst (edges EDGE_BODY b) = map (\<lambda>_. EDGE_BODY) b" "map snd (edges EDGE_BODY b) = b" by (simp_all add: comp_def)
  have "\<forall>(r, c) \<in> set (edges EDGE_BODY b). ast_depth c < k" using edge_deeper [of _ _ a] sz e by fastforce
  from resolver.bind_all_forest [OF kid this d rs1(1)] have
    w: "wp (bind_all (resolver_bind_expr k) rs1 (map tree_index ts))
      (bound strtod (res_ir rs1) ts (map (\<lambda>_. EDGE_BODY) b) (bind_asts s1 b))" by (simp only: m rs1(2))
  have lk: "length ks = n" using sc_parameters_length [of ?s0 "take n ps"] sp nm(2) by simp
  show ?thesis unfolding bind_function_def Let_def nm(1) dp role wp_bind
  proof (rule wp_mono [OF w])
    fix rs2 assume b2: "bound strtod (res_ir rs1) ts (map (\<lambda>_. EDGE_BODY) b) (bind_asts s1 b) rs2"
    let ?rs3 = "rs2\<lparr>res_symbols := take (length (res_symbols rs)) (res_symbols rs2), res_depth := 0\<rparr>"
    have "renames (set (forest_indices ts)) (res_ir rs1) (res_ir rs2)" using b2 by (simp add: bound_def)
    from renames_trans [OF rn1 this] have rn: "renames (insert i (set (forest_indices ts))) ?ir (res_ir ?rs3)" by simp
    have "hir_node_at (res_ir rs2) i = hir_node_at (res_ir rs1) i"
      using b2 i rn1 by (simp add: bound_def renames_def)
    then have lab: "hir_node_at (res_ir rs2) i = (hir_node_at ?ir i)\<lparr>names := ks\<rparr>" using i rs1(3) by simp
    show "wp (Some ?rs3) (bound strtod ?ir [HTree i l ts] [r] (map_option (\<lambda>(a, s). ([a], s)) (bind_top g (scope_of rs) a)))"
    proof (cases "bind_asts s1 b")
      case None
      then have "bound strtod ?ir [HTree i l ts] [r] None ?rs3" using b2 rn by (simp add: bound_def forest_indices_def)
      with None a sp show ?thesis by simp
    next
      case (Some p)
      obtain b' s2 where p: "bind_asts s1 b = Some (b', s2)" using Some by (cases p) simp
      let ?a' = "FunctionDeclaration f (ks @ drop n ps) tys n ret u b'"
      have s2: "\<not> res_error rs2" "scope_of rs2 = s2" and tr: "map (\<lambda>t. erase (relabel (res_ir rs2) t)) ts = map2 (ast_tree strtod) (map (\<lambda>_. EDGE_BODY) b) b'"
        using b2 p by (simp_all add: bound_def)
      have "node_label (hir_node_at ?ir i) = (the (node_payload strtod a))\<lparr>role := r\<rparr>"
        using t by (auto simp: tree_for_def ast_tree.simps [of strtod r a])
      then have "node_label (hir_node_at (res_ir ?rs3) i) = (the (node_payload strtod ?a'))\<lparr>role := r\<rparr>"
        using lab a nm(2) lk by (simp add: node_payload_def copy_names_def)
      moreover have "ast_edges ?a' = zip (map (\<lambda>_. EDGE_BODY) b) b'" using bind_asts_length [OF p] by (simp add: zip_const)
      ultimately have "bound strtod ?ir [HTree i l ts] [r] (Some ([?a'], scope_of ?rs3)) ?rs3"
        by (intro bound_changed_node [OF rn]) (use s2 tr in simp_all)
      moreover have "scope_of ?rs3 = s2\<lparr>sc_symbols := take (length (sc_symbols (scope_of rs))) (sc_symbols s2), sc_depth := 0\<rparr>"
        using s2(2) by (auto simp: scope_of_def)
      ultimately show ?thesis using a sp p by simp
    qed
  qed
qed

lemma global_statement:
  assumes t: "tree_for strtod (res_ir rs) (HTree i l ts) (r, a)" and a: "a = VariableDeclaration x ty v False"
    and sz: "ast_depth a \<le> k" and ne: "\<not> res_error rs"
  shows "wp (bind_global k g rs i) (bound strtod (res_ir rs) [HTree i l ts] [r]
     (map_option (\<lambda>(a, s). ([a], s)) (bind_top g (scope_of rs) a)))"
proof -
  let ?ir = "res_ir rs"
  have e: "ast_edges a = [(EDGE_VALUE, v)]" using a by simp
  from tree_for_node(2) [OF t] e obtain u where ts: "ts = [u]" and u: "tree_for strtod ?ir u (EDGE_VALUE, v)"
    by (auto simp: list_all2_Cons2)
  have dv: "ast_depth v < k" using edge_deeper [of EDGE_VALUE v a] e sz by simp
  have i: "i < node_count ?ir" "i \<notin> set (indices u)" using t ts by (auto simp: tree_for_def)
  have x: "value_text (node_value (hir_node_at ?ir i)) = Some x" using tree_for_node(4) [OF t] a by simp
  have ch: "child_role ?ir i EDGE_VALUE = Some (Some (tree_index u))"
    by (rule resolver.first_child_role [OF t [unfolded ts] e])
  show ?thesis
  proof (cases "find (\<lambda>s. source_name s = x) (take g (res_symbols rs))")
    case None
    then have "bind_global k g rs i = Some (resolver_error rs)"
      using x ch resolver.stops [of "resolver_error rs" k] dv by (simp add: bind_global_def bind_child_def resolver_error_def)
    with None a show ?thesis by (simp add: bound_def resolver_error_def scope_of_def)
  next
    case (Some y)
    let ?rs1 = "set_text rs i (storage_key y)"
    have rn1: "renames {i} ?ir (res_ir ?rs1)" by (simp add: set_text_def renames_update(1))
    have u1: "tree_for strtod (res_ir ?rs1) u (EDGE_VALUE, v)" by (rule tree_for_frame [OF u rn1]) (use i in simp)
    have s1: "scope_of ?rs1 = scope_of rs" "\<not> res_error ?rs1" using ne by (simp_all add: scope_of_def set_text_def)
    have bg: "bind_global k g rs i = resolver_bind_expr k ?rs1 (Some (tree_index u))"
      using x Some ch child_role_renames [OF rn1] by (simp add: bind_global_def bind_child_def)
    show ?thesis unfolding bg
    proof (rule wp_mono [OF resolver.binds [OF u1 dv s1(2)]])
      fix rs2 assume b2: "bound strtod (res_ir ?rs1) [u] [EDGE_VALUE] (map_option (\<lambda>(a, s). ([a], s)) (bind_ast (scope_of ?rs1) v)) rs2"
      then have rn2: "renames (set (indices u)) (res_ir ?rs1) (res_ir rs2)" by (simp add: bound_def)
      have rn: "renames (insert i (set (forest_indices ts))) ?ir (res_ir rs2)" using renames_trans [OF rn1 rn2] ts by simp
      show "bound strtod ?ir [HTree i l ts] [r] (map_option (\<lambda>(a, s). ([a], s)) (bind_top g (scope_of rs) a)) rs2"
      proof (cases "bind_ast (scope_of rs) v")
        case None
        with b2 rn Some a s1(1) show ?thesis by (simp add: bound_def forest_indices_def scope_of_def)
      next
        case (Some p)
        obtain v' s2 where p: "bind_ast (scope_of rs) v = Some (v', s2)" using Some by (cases p) simp
        let ?a' = "VariableDeclaration (storage_key y) ty v' False"
        have s2: "\<not> res_error rs2" "scope_of rs2 = s2"
          and tr: "map (\<lambda>t. erase (relabel (res_ir rs2) t)) ts = map2 (ast_tree strtod) [EDGE_VALUE] [v']"
          using b2 p s1(1) ts by (simp_all add: bound_def)
        have "hir_node_at (res_ir rs2) i = hir_node_at (res_ir ?rs1) i" using rn2 i rn1 by (simp add: renames_def)
        then have lab: "hir_node_at (res_ir rs2) i = (hir_node_at ?ir i)\<lparr>node_value := Text_value (storage_key y)\<rparr>"
          using i by (simp add: set_text_def)
        have "node_label (hir_node_at ?ir i) = (the (node_payload strtod a))\<lparr>role := r\<rparr>"
          using t by (auto simp: tree_for_def ast_tree.simps [of strtod r a])
        then have "node_label (hir_node_at (res_ir rs2) i) = (the (node_payload strtod ?a'))\<lparr>role := r\<rparr>"
          using lab a by (simp add: node_payload_def)
        from bound_changed_node [OF rn s2(1) this tr] have
          "bound strtod ?ir [HTree i l ts] [r] (Some ([?a'], scope_of rs2)) rs2" by simp
        then show ?thesis using a p s2(2) \<open>find _ _ = Some y\<close> by (simp add: scope_of_def)
      qed
    qed
  qed
qed

end
