(* ===== verification/HirLowerCorrect.thy ===== *)
theory HirLowerCorrect
  imports HirResolveCorrect
begin

text \<open>
  \<open>vnt_ir_lower\<close> as a whole: it never faults, fails only on a name that is not declared, and the
  array it returns holds the renamed program and passes \<open>vnt_ir_validate\<close>.
\<close>

section \<open>The lowered tree is well formed\<close>

lemma tree_ok_erase: "tree_ok (erase t) = tree_ok t"
proof (induction t)
  case (HTree i l ts)
  have "tree_label (erase t) = tree_label t" for t :: "'a htree" by (cases t) simp
  then have "map tree_label (map erase ts) = map tree_label ts" by simp
  moreover have "list_all tree_ok (map erase ts) = list_all tree_ok ts" using HTree by (simp add: list_all_iff)
  ultimately show ?case by (simp only: erase.simps tree_ok.simps)
qed

lemma edges_roles: "map fst (edges q as) = replicate (length as) q"
  by (simp add: comp_def map_replicate_const)

lemma payload_label_ok: "node_payload strtod a = Some n \<Longrightarrow> label_ok (n\<lparr>role := r\<rparr>)"
  by (cases a) (auto simp: node_payload_def label_ok_def node_fields_ok_def text_opcode_def blank_node_def bind_eq_Some_conv
      split: if_splits)

lemma shape_counts:
  "role_count \<lparr>nodes = ks, root = 0, optimized_nodes = 0\<rparr> [0..<length ks] q = length (filter ((=) q) (map role ks))"
proof -
  have "map (\<lambda>c. role (ks ! c)) [0..<length ks] = map role ks" by (rule nth_equalityI) simp_all
  then show ?thesis by (simp add: role_count_map)
qed

lemma payload_shape_ok:
  assumes "node_payload strtod a = Some n" "map role ks = map fst (ast_edges a)"
  shows "shape_ok (n\<lparr>role := r\<rparr>) ks"
proof -
  have op: "opcode n = opcode_for a" using assms(1) by (auto simp: node_payload_def bind_eq_Some_conv)
  have len: "length ks = length (ast_edges a)" using assms(2) by (metis length_map)
  have rc: "role_count \<lparr>nodes = ks, root = 0, optimized_nodes = 0\<rparr> [0..<length ks]
      = (\<lambda>q. length (filter ((=) q) (map fst (ast_edges a))))" by (rule ext) (simp only: shape_counts assms(2))
  show ?thesis unfolding shape_ok_def validate_node_shape_def Let_def rc
    by (cases a) (auto simp: len op edges_roles split: option.splits)
qed

lemma ast_tree_ok: "counts_ok a \<Longrightarrow> tree_ok (ast_tree strtod r a)"
proof (induction a arbitrary: r rule: ast_depth.induct)
  case (1 a)
  from counts_okD(1) [OF 1(2)] obtain n where n: "node_payload strtod a = Some n" by blast
  have "role (tree_label (ast_tree strtod q c)) = q" for q c by (subst ast_tree.simps) simp
  then have "map role (map tree_label (map (\<lambda>(r, c). ast_tree strtod r c) (ast_edges a))) = map fst (ast_edges a)"
    by (auto simp: case_prod_unfold)
  from payload_shape_ok [OF n this] payload_label_ok [OF n] 1 counts_okD(2) [OF 1(2)] n show ?case
    by (subst ast_tree.simps) (auto simp: list_all_iff simp del: map_map)
qed

lemma ast_depth_indices: "erase t = ast_tree strtod r a \<Longrightarrow> ast_depth a < length (indices t)"
proof (induction a arbitrary: t r rule: ast_depth.induct)
  case (1 a)
  obtain i l ts where t: "t = HTree i l ts" by (cases t)
  have e: "map erase ts = map (\<lambda>(r, c). ast_tree strtod r c) (ast_edges a)"
    using 1(2) t by (simp add: ast_tree.simps [of strtod r a])
  have le: "length (indices u) \<le> length (concat (map indices ts))" if "u \<in> set ts" for u
    using that by (induction ts) auto
  have "Suc (ast_depth c) \<le> length (concat (map indices ts))" if "(q, c) \<in> set (ast_edges a)" for q c
  proof -
    from that obtain j where j: "j < length (ast_edges a)" "ast_edges a ! j = (q, c)" by (meson in_set_conv_nth)
    moreover have len: "length ts = length (ast_edges a)" using e by (metis length_map)
    ultimately have "erase (ts ! j) = ast_tree strtod q c" using e by (metis case_prod_conv nth_map)
    from 1(1) [OF that refl this] le [of "ts ! j"] j(1) len show ?thesis by simp
  qed
  then have "maximum (map (\<lambda>(r, c). Suc (ast_depth c)) (ast_edges a)) \<le> length (concat (map indices ts))"
    by (intro maximum_le) auto
  then show ?case using t by (subst ast_depth.simps) simp
qed

section \<open>Resolving the lowered program\<close>

lemma top_level_cases:
  obtains f ps tys n ret u b where "a = FunctionDeclaration f ps tys n ret u b"
    | x ty v where "a = VariableDeclaration x ty v False"
    | "opcode_for a \<noteq> IR_FUNCTION" "opcode_for a \<noteq> IR_VARIABLE_DECL" "\<And>s. bind_top g s a = bind_ast s a"
proof (cases a)
  case (VariableDeclaration x ty v re)
  then show ?thesis using that by (cases re) auto
qed (use that in auto)

lemma top_statement_correct:
  assumes t: "tree_for strtod (res_ir rs) t (r, a)" and d: "ast_depth a < k" and ne: "\<not> res_error rs"
  shows "wp (top_statement k g rs (Some (tree_index t)))
    (bound strtod (res_ir rs) [t] [r] (map_option (\<lambda>(a, s). ([a], s)) (bind_top g (scope_of rs) a)))"
proof -
  obtain i l ts where t': "t = HTree i l ts" by (cases t)
  note T = t [unfolded t']
  have op: "opcode (hir_node_at (res_ir rs) i) = opcode_for a" using tree_for_node(3) [OF T] .
  show ?thesis
  proof (cases a rule: top_level_cases [where g = g])
    case 1
    with function_statement [OF T 1 _ ne, of k g] d op t' show ?thesis by (simp add: top_statement_def Let_def)
  next
    case 2
    with global_statement [OF T 2 _ ne, of k g] d op t' show ?thesis by (simp add: top_statement_def Let_def)
  next
    case 3
    with resolver.binds [OF t d ne] op t' show ?thesis by (simp add: top_statement_def Let_def)
  qed
qed

lemma resolve_correct:
  assumes h: "holds_tree ir t" and e: "erase t = ast_tree strtod EDGE_ROOT (Program ss)" and ok: "counts_ok (Program ss)"
  shows "wp (resolve_hir_symbols ir) (\<lambda>(ok, ir'). case resolve_ast (Program ss) of
      None \<Rightarrow> \<not> ok
    | Some p \<Rightarrow> ok \<and> holds_tree ir' (relabel ir' t) \<and> erase (relabel ir' t) = ast_tree strtod EDGE_ROOT p)"
proof -
  have t: "tree_at ir t" "indices t = [0..<node_count ir]" "root ir = 0" "next_sibling (hir_node_at ir 0) = None"
    using h by (auto simp: holds_tree_def)
  have n: "0 < node_count ir" using t(1) by (cases t) auto
  then obtain l ts where l: "t = HTree 0 l ts" using t(2) by (cases t) (auto simp: upt_conv_Cons)
  have T: "tree_for strtod ir (HTree 0 l ts) (EDGE_ROOT, Program ss)" using t(1,2) e ok l by (auto simp: tree_for_def)
  note nd = tree_for_node [OF T]
  define rs0 where "rs0 = \<lparr>res_ir = ir, res_symbols = [], next_id = 0, res_depth = 0, res_error = False\<rparr>"
  define s0 where "s0 = global_scope empty_scope ss"
  have rs0: "res_ir rs0 = ir" "scope_of rs0 = empty_scope" "\<not> res_error rs0" by (simp_all add: rs0_def scope_of_def empty_scope_def)
  have kids: "list_all2 (tree_for strtod ir) ts (edges EDGE_STATEMENT ss)" using nd(2) by simp
  from declare_globals_correct [of strtod rs0 ts EDGE_STATEMENT ss] kids rs0 obtain rs1
    where g: "declare_globals rs0 (map tree_index ts) = Some rs1" "scope_of rs1 = s0" "res_ir rs1 = ir" "\<not> res_error rs1"
    by (auto simp: wp_iff s0_def)
  let ?g = "length (res_symbols rs1)"
  have gl: "?g = length (sc_symbols s0)" using g(2) by (auto simp: scope_of_def)
  have dep: "\<forall>(r, a) \<in> set (edges EDGE_STATEMENT ss). ast_depth a < node_count ir"
  proof clarify
    fix r a assume "(r, a) \<in> set (edges EDGE_STATEMENT ss)"
    then have "ast_depth a < ast_depth (Program ss)" by (intro edge_deeper [of r]) simp
    also have "\<dots> < node_count ir" using ast_depth_indices [OF e] t(2) by simp
    finally show "ast_depth a < node_count ir" .
  qed
  have d: "distinct (forest_indices ts)" "0 \<notin> set (forest_indices ts)" using T by (auto simp: tree_for_def forest_indices_def)
  have "wp (bind_all (top_statement (node_count ir) ?g) rs1 (map tree_index ts))
      (bound strtod (res_ir rs1) ts (map fst (edges EDGE_STATEMENT ss)) (bind_program ?g (scope_of rs1) (map snd (edges EDGE_STATEMENT ss))))"
    by (rule forest_loop [where P = "\<lambda>a. ast_depth a < node_count ir" and f = "bind_top ?g", OF top_statement_correct])
      (use kids dep d(1) g in simp_all)
  then obtain rs2 where b: "bind_all (top_statement (node_count ir) ?g) rs1 (map tree_index ts) = Some rs2"
    "bound strtod ir ts (map fst (ast_edges (Program ss))) (bind_program ?g s0 ss) rs2"
    unfolding wp_iff g(2,3) by (auto simp: comp_def)
  have rn: "renames (set (forest_indices ts)) ir (res_ir rs2)" using b(2) by (simp add: bound_def)
  have res: "resolve_hir_symbols ir = Some (\<not> res_error rs2, res_ir rs2)"
    using nd(1) t(3) g(1) b(1) by (simp add: resolve_hir_symbols_def rs0_def [symmetric])
  show ?thesis
  proof (cases "bind_program ?g s0 ss")
    case None
    then show ?thesis using res b(2) gl by (simp add: bound_def s0_def [symmetric] Let_def)
  next
    case (Some p)
    obtain ss' s1 where p: "bind_program ?g s0 ss = Some (ss', s1)" using Some by (cases p) simp
    have len: "length ss' = length ss" using b(2) p list_all2_lengthD [OF kids] by (simp add: bound_def)
    have "bound strtod ir [HTree 0 l ts] [EDGE_ROOT] (Some ([Program ss'], s1)) rs2"
      by (rule bound_node [OF T b(2) [unfolded p]]) (use len in \<open>simp_all add: node_payload_def comp_def zip_const\<close>)
    then have "\<not> res_error rs2" "erase (relabel (res_ir rs2) t) = ast_tree strtod EDGE_ROOT (Program ss')"
      using l by (simp_all add: bound_def)
    moreover have "holds_tree (res_ir rs2) (relabel (res_ir rs2) t)"
      using tree_at_renames [OF rn t(1)] t rn renames_links(3) [OF rn n] by (simp add: holds_tree_def) (simp add: renames_def)
    ultimately show ?thesis using res p gl by (simp add: s0_def [symmetric] Let_def)
  qed
qed

section \<open>Renaming keeps the counts\<close>

lemma counts_ok_IfStatement:
  "counts_ok (IfStatement c t e) \<longleftrightarrow> counts_ok c \<and> (\<forall>a \<in> set t. counts_ok a) \<and> (\<forall>a \<in> set e. counts_ok a)"
  by (subst counts_ok.simps) auto

lemmas counts_ok_ast = counts_ok_IfStatement
  counts_ok.simps [of "Program ss" for ss, simplified]
  counts_ok.simps [of "UnsafeBlock ss" for ss, simplified]
  counts_ok.simps [of "AsmStatement a v" for a v, simplified]
  counts_ok.simps [of "PrintStatement e" for e, simplified]
  counts_ok.simps [of "WhileStatement c b" for c b, simplified]
  counts_ok.simps [of "FunctionDeclaration f ps ts n r u b" for f ps ts n r u b, simplified]
  counts_ok.simps [of "StructDeclaration s fs n" for s fs n, simplified]
  counts_ok.simps [of "FunctionCall f as n" for f as n, simplified]
  counts_ok.simps [of "ReturnStatement e" for e, simplified]
  counts_ok.simps [of "BreakStatement", simplified]
  counts_ok.simps [of "ContinueStatement", simplified]
  counts_ok.simps [of "StringLiteral s" for s, simplified]
  counts_ok.simps [of "IntegerLiteral v" for v, simplified]
  counts_ok.simps [of "FloatLiteral t" for t, simplified]
  counts_ok.simps [of "BooleanLiteral b" for b, simplified]
  counts_ok.simps [of "NullLiteral", simplified]
  counts_ok.simps [of "ArrayLiteral es n" for es n, simplified]
  counts_ok.simps [of "VariableDeclaration x t v r" for x t v r, simplified]
  counts_ok.simps [of "Variable x" for x, simplified]
  counts_ok.simps [of "IndexExpression a i" for a i, simplified]
  counts_ok.simps [of "MemberExpression ob m" for ob m, simplified]
  counts_ok.simps [of "Assignment t v" for t v, simplified]
  counts_ok.simps [of "BinaryExpression l r op" for l r op, simplified]
  counts_ok.simps [of "UnaryExpression e op" for e op, simplified]

lemma bind_counts_ok:
  "bind_ast s a = Some (a', s') \<Longrightarrow> counts_ok a \<Longrightarrow> counts_ok a'"
  "bind_asts s as = Some (as', s') \<Longrightarrow> \<forall>a \<in> set as. counts_ok a \<Longrightarrow> \<forall>a \<in> set as'. counts_ok a"
proof (induction s a and s as arbitrary: a' s' and as' s' rule: bind_ast_bind_asts.induct)
  case (2 s x t v reassign)
  then show ?case by (cases reassign) (auto simp: bind_eq_Some_conv counts_ok_ast Let_def sc_declare_def)
next
  case (8 s c th el)
  from 8(4) obtain c' s1 th' s2 el' s3 where b: "bind_ast s c = Some (c', s1)" "bind_asts (sc_enter s1) th = Some (th', s2)"
    "bind_asts (sc_drop s2) el = Some (el', s3)" "a' = IfStatement c' th' el'"
    by (auto simp: bind_eq_Some_conv)
  from 8(1) [OF b(1)] 8(2) [OF b(1) refl b(2)] 8(3) [OF b(1) refl b(2) refl b(3)] 8(5)
  show ?case unfolding b(4) counts_ok_ast by blast
next
  case (9 s c b)
  from 9(3) obtain c' s1 b' s2 where b: "bind_ast s c = Some (c', s1)" "bind_asts (sc_enter s1) b = Some (b', s2)"
    "a' = WhileStatement c' b'" by (auto simp: bind_eq_Some_conv)
  from 9(1) [OF b(1)] 9(2) [OF b(1) refl b(2)] 9(4) show ?case unfolding b(3) counts_ok_ast by blast
next
  case (10 s t v)
  from 10(3) obtain t' s1 v' s2 where b: "bind_ast s t = Some (t', s1)" "bind_ast s1 v = Some (v', s2)" "a' = Assignment t' v'"
    by (auto simp: bind_eq_Some_conv)
  from 10(1) [OF b(1)] 10(2) [OF b(1) refl b(2)] 10(4) show ?case unfolding b(3) counts_ok_ast by blast
next
  case (13 s t v)
  from 13(3) obtain t' s1 v' s2 where b: "bind_ast s t = Some (t', s1)" "bind_ast s1 v = Some (v', s2)" "a' = IndexExpression t' v'"
    by (auto simp: bind_eq_Some_conv)
  from 13(1) [OF b(1)] 13(2) [OF b(1) refl b(2)] 13(4) show ?case unfolding b(3) counts_ok_ast by blast
next
  case (15 s t v op)
  from 15(3) obtain t' s1 v' s2 where b: "bind_ast s t = Some (t', s1)" "bind_ast s1 v = Some (v', s2)" "a' = BinaryExpression t' v' op"
    by (auto simp: bind_eq_Some_conv)
  from 15(1) [OF b(1)] 15(2) [OF b(1) refl b(2)] 15(4) show ?case unfolding b(3) counts_ok_ast by blast
next
  case (19 s a as)
  from 19(3) obtain a' s1 bs s2 where b: "bind_ast s a = Some (a', s1)" "bind_asts s1 as = Some (bs, s2)" "as' = a' # bs"
    by (auto simp: bind_eq_Some_conv)
  from 19(1) [OF b(1)] 19(2) [OF b(1) refl b(2)] 19(4) show ?case unfolding b(3) by simp
qed (auto simp: bind_eq_Some_conv counts_ok_ast)

lemma bind_top_counts_ok:
  assumes "bind_top g s a = Some (a', s')" "counts_ok a"
  shows "counts_ok a'"
proof (cases a rule: top_level_cases [where g = g])
  case (1 f ps ts n r u b)
  have len: "length (fst (sc_parameters (s\<lparr>sc_depth := 1\<rparr>) (take n ps))) = length (take n ps)" by (rule sc_parameters_length)
  from 1 assms obtain b' s2 where "bind_asts (snd (sc_parameters (s\<lparr>sc_depth := 1\<rparr>) (take n ps))) b = Some (b', s2)"
    and a': "a' = FunctionDeclaration f (fst (sc_parameters (s\<lparr>sc_depth := 1\<rparr>) (take n ps)) @ drop n ps) ts n r u b'"
    by (auto simp: bind_eq_Some_conv Let_def case_prod_unfold)
  from bind_counts_ok(2) [OF this(1)] 1 assms(2) have "\<forall>c \<in> set b'. counts_ok c" by (simp add: counts_ok_ast)
  moreover have "n \<le> length ps" using 1 assms(2) by (auto simp: counts_ok_ast copy_names_def split: if_splits)
  ultimately show ?thesis using a' len by (simp add: counts_ok_ast copy_names_def)
next
  case (2 x ty v)
  with assms show ?thesis by (auto simp: bind_eq_Some_conv counts_ok_ast dest: bind_counts_ok)
next
  case 3
  with assms show ?thesis by (simp add: bind_counts_ok)
qed

lemma bind_program_counts_ok:
  "bind_program g s as = Some (as', s') \<Longrightarrow> \<forall>a \<in> set as. counts_ok a \<Longrightarrow> \<forall>a \<in> set as'. counts_ok a"
  by (induction as arbitrary: s as') (auto simp: bind_eq_Some_conv dest: bind_top_counts_ok)

lemma resolve_counts_ok: "resolve_ast p = Some p' \<Longrightarrow> counts_ok p \<Longrightarrow> counts_ok p'"
  by (cases p) (auto simp: Let_def counts_ok_ast dest!: bind_program_counts_ok)

section \<open>Lowering as a whole\<close>

lemma lowered_valid:
  assumes "holds_tree ir t" "erase t = ast_tree strtod EDGE_ROOT (Program ss)" "counts_ok (Program ss)"
  shows "vnt_ir_validate ir"
proof (rule holds_tree_valid [OF assms(1)])
  show "tree_ok t" using ast_tree_ok [OF assms(3), of strtod EDGE_ROOT] assms(2) tree_ok_erase by metis
  have "tree_label t = tree_label (erase t)" by (cases t) simp
  moreover obtain n where "node_payload strtod (Program ss) = Some n" using counts_okD(1) [OF assms(3)] by blast
  ultimately show "opcode (tree_label t) = IR_PROGRAM" "role (tree_label t) = EDGE_ROOT"
    by (simp_all add: assms(2) ast_tree.simps [of strtod EDGE_ROOT "Program ss"] node_payload_def)
qed

lemma resolve_ast_Program: "resolve_ast a = Some p \<Longrightarrow> \<exists>ss ss'. a = Program ss \<and> p = Program ss'"
  by (cases a) (auto simp: Let_def)

lemma lower_program:
  assumes ok: "counts_ok (Program ss)"
  shows "\<exists>res. vnt_ir_lower strtod (Program ss) = Some res
    \<and> (case resolve_ast (Program ss) of
         None \<Rightarrow> res = None
       | Some p \<Rightarrow> \<exists>ir t. res = Some ir \<and> vnt_ir_validate ir \<and> holds_tree ir t \<and> erase t = ast_tree strtod EDGE_ROOT p)"
proof -
  let ?ir0 = "\<lparr>nodes = [], root = 0, optimized_nodes = 0\<rparr>"
  from lower_correct(1) [OF ok, of strtod ?ir0] obtain ir t where
    l: "lower_node strtod ?ir0 (Program ss) = Some (0, ir)" and r: "root ir = 0" and nx: "next_sibling (hir_node_at ir 0) = None"
    and t: "tree_at ir t" "indices t = [0..<node_count ir]" "erase t = ast_tree strtod EDGE_ROOT (Program ss)"
    by (auto simp: wp_iff lowered_def grows_def)
  have h: "holds_tree ir t" using t r nx by (simp add: holds_tree_def)
  obtain ok' ir' where res: "resolve_hir_symbols ir = Some (ok', ir')"
    and q: "case resolve_ast (Program ss) of None \<Rightarrow> \<not> ok'
      | Some p \<Rightarrow> ok' \<and> holds_tree ir' (relabel ir' t) \<and> erase (relabel ir' t) = ast_tree strtod EDGE_ROOT p"
    using wp_ex2 [OF resolve_correct [OF h t(3) ok]] by blast
  have ir: "ir\<lparr>root := 0\<rparr> = ir" using r by simp
  show ?thesis
  proof (cases "resolve_ast (Program ss)")
    case None
    then show ?thesis using l res q ir by (simp add: vnt_ir_lower_def build_hir_def)
  next
    case (Some p)
    then have q: "ok'" "holds_tree ir' (relabel ir' t)" "erase (relabel ir' t) = ast_tree strtod EDGE_ROOT p" using q by simp_all
    obtain ss' where p: "p = Program ss'" using resolve_ast_Program [OF Some] by blast
    have "vnt_ir_validate ir'" by (rule lowered_valid [OF q(2) q(3) [unfolded p] resolve_counts_ok [OF Some ok, unfolded p]])
    then show ?thesis using Some l res q ir by (auto simp: vnt_ir_lower_def build_hir_def)
  qed
qed

end
