(* ===== verification/HirLowerProps.thy ===== *)
theory HirLowerProps
  imports HirLowerCorrect CfgDataflow ParserSpec
begin

text \<open>
  The properties of lowering: what \<open>vnt_ir_lower\<close> returns, and that storage keys identify
  declarations.
\<close>

section \<open>The result of lowering\<close>

text \<open>\<open>fun f(a) { b = a; print(b) }\<close> with a global \<open>g = 1\<close>, and the same with the last name misspelt.\<close>

definition key_program :: "string \<Rightarrow> ast" where
  "key_program name = Program
     [VariableDeclaration ''g'' None (IntegerLiteral 1) False,
      FunctionDeclaration ''f'' [''a''] [None] 1 None False
        [VariableDeclaration ''b'' None (BinaryExpression (Variable ''a'') (Variable ''g'') BINARY_ADD) False,
         PrintStatement (Variable name)]]"

text \<open>
  C22. \<open>vnt_ir_lower\<close> on a program whose stored counts agree with its lists: it returns, it
  fails exactly when a name has no declaration in scope, and otherwise the array it returns passes
  \<open>vnt_ir_validate\<close> and holds, in depth-first order, exactly the tree of the program in which each
  variable is replaced by the storage key of its declaration.
\<close>

theorem vnt_ir_lower_refines:
  assumes "counts_ok (Program ss)"
  shows "\<exists>res. vnt_ir_lower strtod (Program ss) = Some res
    \<and> (case resolve_ast (Program ss) of
         None \<Rightarrow> res = None
       | Some p \<Rightarrow> \<exists>ir t. res = Some ir \<and> vnt_ir_validate ir \<and> holds_tree ir t \<and> erase t = ast_tree strtod EDGE_ROOT p)"
  by (rule lower_program [OF assms])

theorem vnt_ir_lower_refines_witness:
  "vnt_ir_lower id (key_program ''c'') = Some None
   \<and> (\<exists>ir. vnt_ir_lower id (key_program ''b'') = Some (Some ir) \<and> vnt_ir_validate ir)"
proof -
  have ok: "counts_ok (key_program name)" for name
    by (auto simp: key_program_def counts_ok.simps copy_names_def)
  have "resolve_ast (key_program ''c'') = None" "resolve_ast (key_program ''b'') \<noteq> None" by code_simp+
  with vnt_ir_lower_refines [OF ok [of "''c''", unfolded key_program_def], of id]
    vnt_ir_lower_refines [OF ok [of "''b''", unfolded key_program_def], of id]
  show ?thesis unfolding key_program_def by auto
qed

section \<open>Storage keys\<close>

lemma digit_not_underscore: "char_of (48 + m) = CHR ''_'' \<Longrightarrow> \<not> m < (10 :: nat)"
proof
  assume "char_of (48 + m) = CHR ''_''" and m: "m < 10"
  then have "of_char (char_of (48 + m) :: char) = (of_char (CHR ''_'') :: nat)" by simp
  with m show False by simp
qed

lemma decimal_no_underscore: "CHR ''_'' \<notin> set (decimal n)"
proof (induction n rule: decimal.induct)
  case (1 n)
  have "char_of (48 + n) \<noteq> CHR ''_''" if "n < 10" using digit_not_underscore that by blast
  moreover have "char_of (48 + n mod 10) \<noteq> CHR ''_''" using digit_not_underscore [of "n mod 10"] by auto
  ultimately show ?case using 1 by (subst decimal.simps) auto
qed

lemma strchr_append: "c \<notin> set s \<Longrightarrow> strchr (s @ c # t) c = Some (c # t)"
  by (induction s) auto

lemma split_at_separator: "c \<notin> set s \<Longrightarrow> c \<notin> set s' \<Longrightarrow> s @ c # t = s' @ c # t' \<Longrightarrow> s = s' \<and> t = t'"
proof (induction s arbitrary: s')
  case Nil
  then show ?case by (cases s') auto
next
  case (Cons a s)
  then show ?case by (cases s') auto
qed

lemma symbol_key_inject: "symbol_key k x = symbol_key k' x' \<longleftrightarrow> k = k' \<and> x = x'"
proof
  assume "symbol_key k x = symbol_key k' x'"
  then have "decimal k @ CHR ''_'' # x = decimal k' @ CHR ''_'' # x'" by (simp add: symbol_key_def)
  from split_at_separator [OF decimal_no_underscore decimal_no_underscore this] decimal_inject
  show "k = k' \<and> x = x'" by blast
qed simp

text \<open>
  C24. A storage key determines the number of the declaration and the name in the source, and the
  name that \<open>source_name_for_diagnostic\<close> in \<open>cfg.c\<close> reads out of a key is the name the variable had in the source.
\<close>

theorem storage_key_roundtrip:
  "(symbol_key k x = symbol_key k' x' \<longleftrightarrow> k = k' \<and> x = x') \<and> source_name_for_diagnostic (Some (symbol_key k x)) = x"
proof -
  let ?m = "''__vnt_symbol_''"
  have "strstr (?m @ s) ?m = Some (?m @ s)" for s by simp
  moreover have "strchr (drop (length ?m) (?m @ decimal k @ CHR ''_'' # x)) (CHR ''_'') = Some (CHR ''_'' # x)"
    using strchr_append [OF decimal_no_underscore] by simp
  ultimately show ?thesis using symbol_key_inject by (simp add: source_name_for_diagnostic_def symbol_key_def)
qed

section \<open>Different declarations have different keys\<close>

text \<open>
  The keys declared below a node of the lowered tree, in the order in which they are given out.
  \<open>resolve_hir_symbols\<close> visits a function only when it stands at top level, so the functions nested
  in other statements are left out; everything else is looked into, blocks of every kind included.
\<close>

fun declared_keys :: "'f htree \<Rightarrow> string list" where
  "declared_keys (HTree i l ts) =
     (if opcode l = IR_FUNCTION then []
      else concat (map declared_keys ts)
        @ (if opcode l = IR_VARIABLE_DECL then case_option [] (\<lambda>k. [k]) (value_text (node_value l)) else []))"

text \<open>At top level a function declares its parameters and what its body declares.\<close>

definition top_declared :: "'f htree \<Rightarrow> string list" where
  "top_declared t = (if opcode (tree_label t) = IR_FUNCTION
     then names (tree_label t) @ concat (map declared_keys (tree_kids t)) else declared_keys t)"

definition program_keys :: "'f htree \<Rightarrow> string list" where
  "program_keys t = concat (map top_declared (tree_kids t))"

text \<open>The same on the syntax tree.\<close>

fun introduced :: "ast \<Rightarrow> string list" where
  "introduced (VariableDeclaration x t v reassign) = introduced v @ (if reassign then [] else [x])"
| "introduced (Program ss) = concat (map introduced ss)"
| "introduced (UnsafeBlock ss) = concat (map introduced ss)"
| "introduced (PrintStatement e) = introduced e"
| "introduced (ReturnStatement e) = (case e of None \<Rightarrow> [] | Some e \<Rightarrow> introduced e)"
| "introduced (IfStatement c t e) = introduced c @ concat (map introduced t) @ concat (map introduced e)"
| "introduced (WhileStatement c b) = introduced c @ concat (map introduced b)"
| "introduced (Assignment t v) = introduced t @ introduced v"
| "introduced (FunctionCall f as n) = concat (map introduced as)"
| "introduced (ArrayLiteral es n) = concat (map introduced es)"
| "introduced (IndexExpression a i) = introduced a @ introduced i"
| "introduced (MemberExpression ob m) = introduced ob"
| "introduced (BinaryExpression l r op) = introduced l @ introduced r"
| "introduced (UnaryExpression e op) = introduced e"
| "introduced _ = []"

fun top_introduced :: "ast \<Rightarrow> string list" where
  "top_introduced (FunctionDeclaration f ps ts n r u b) = take n ps @ concat (map introduced b)"
| "top_introduced a = introduced a"

lemma introduced_edges:
  "introduced a = (if opcode_for a = IR_FUNCTION then []
     else concat (map (\<lambda>(r, c). introduced c) (ast_edges a))
       @ (if opcode_for a = IR_VARIABLE_DECL then case_option [] (\<lambda>k. [k]) (value_text (value_for strtod a)) else []))"
  by (cases a) (auto simp: o_def split: option.splits)

lemma payload_fields:
  "node_payload strtod a = Some n \<Longrightarrow> opcode n = opcode_for a \<and> node_value n = value_for strtod a \<and> names_for a = Some (names n)"
  by (auto simp: node_payload_def bind_eq_Some_conv)

lemma ast_declared: "counts_ok a \<Longrightarrow> declared_keys (ast_tree strtod r a) = introduced a"
proof (induction a arbitrary: r rule: ast_depth.induct)
  case (1 a)
  from counts_okD(1) [OF 1(2)] obtain n where n: "node_payload strtod a = Some n" by blast
  have "map declared_keys (map (\<lambda>(r, c). ast_tree strtod r c) (ast_edges a)) = map (\<lambda>(r, c). introduced c) (ast_edges a)"
    using 1(1) counts_okD(2) [OF 1(2)] by auto
  then show ?case using payload_fields [OF n] n introduced_edges [of a strtod]
    by (subst ast_tree.simps) (simp del: map_map)
qed

lemma ast_top_declared: "counts_ok a \<Longrightarrow> top_declared (ast_tree strtod r a) = top_introduced a"
proof -
  assume ok: "counts_ok a"
  from counts_okD(1) [OF ok] obtain n where n: "node_payload strtod a = Some n" by blast
  have kids: "map declared_keys (map (\<lambda>(r, c). ast_tree strtod r c) (ast_edges a)) = map (\<lambda>(r, c). introduced c) (ast_edges a)"
    using ast_declared [of _ strtod] counts_okD(2) [OF ok] by auto
  have label: "opcode (tree_label (ast_tree strtod r a)) = opcode_for a" "names (tree_label (ast_tree strtod r a)) = names n"
    "tree_kids (ast_tree strtod r a) = map (\<lambda>(r, c). ast_tree strtod r c) (ast_edges a)"
    using n payload_fields [OF n] by (subst ast_tree.simps, simp)+
  show ?thesis
  proof (cases "opcode_for a = IR_FUNCTION")
    case True
    then obtain f ps ts k ret u b where a: "a = FunctionDeclaration f ps ts k ret u b" by (cases a) (auto split: if_splits)
    show ?thesis unfolding top_declared_def label kids using payload_fields [OF n]
      by (simp add: a copy_names_def o_def split: if_splits)
  next
    case False
    then have "top_introduced a = introduced a" by (cases a) auto
    then show ?thesis using False ast_declared [OF ok] by (simp add: top_declared_def label)
  qed
qed

lemma erase_fields: "tree_label (erase t) = tree_label t" "tree_kids (erase t) = map erase (tree_kids t)"
  by (cases t, simp)+

lemma declared_keys_erase: "declared_keys (erase t) = declared_keys t"
  by (induction t) (simp add: o_def cong: map_cong)

lemma program_keys_erase: "program_keys (erase t) = program_keys t"
  by (simp add: program_keys_def top_declared_def erase_fields declared_keys_erase o_def cong: map_cong if_cong)

lemma ast_program_keys: "counts_ok (Program ss) \<Longrightarrow> program_keys (ast_tree strtod r (Program ss)) = concat (map top_introduced ss)"
  using counts_okD(2) [of "Program ss"] ast_top_declared [of _ strtod]
  by (subst ast_tree.simps) (auto simp: program_keys_def o_def intro!: arg_cong [where f = concat])

definition keys_between :: "nat \<Rightarrow> nat \<Rightarrow> string list \<Rightarrow> bool" where
  "keys_between lo hi ks \<longleftrightarrow> lo \<le> hi \<and> distinct ks \<and> (\<forall>k \<in> set ks. \<exists>j x. k = symbol_key j x \<and> lo \<le> j \<and> j < hi)"

lemma keys_between_Nil [simp]: "keys_between lo hi [] \<longleftrightarrow> lo \<le> hi"
  by (simp add: keys_between_def)

lemma keys_between_one: "keys_between n (Suc n) [symbol_key n x]"
  by (auto simp: keys_between_def)

lemma keys_between_disjoint:
  "keys_between lo mid ks \<Longrightarrow> keys_between mid hi ks' \<Longrightarrow> set ks \<inter> set ks' = {}"
  by (fastforce simp: keys_between_def symbol_key_inject)

lemma keys_between_append:
  assumes "keys_between lo mid ks" "keys_between mid hi ks'"
  shows "keys_between lo hi (ks @ ks')"
  using assms keys_between_disjoint [OF assms] unfolding keys_between_def
  by (auto simp: ball_Un) (meson le_trans less_le_trans)+

lemma keys_between_shrink: "keys_between lo mid ks \<Longrightarrow> mid \<le> hi \<Longrightarrow> keys_between lo hi ks"
  using keys_between_append [of lo mid ks hi "[]"] by simp

lemma keys_between_later: "lo \<le> mid \<Longrightarrow> keys_between mid hi ks \<Longrightarrow> keys_between lo hi ks"
  using keys_between_append [of lo mid "[]" hi ks] by simp

lemma sc_next_simps [simp]: "sc_next (sc_drop s) = sc_next s" "sc_next (snd (sc_declare s x)) = Suc (sc_next s)"
  by (simp_all add: sc_drop_def sc_declare_def)

lemma keys_between_le: "keys_between lo hi ks \<Longrightarrow> lo \<le> hi"
  by (simp add: keys_between_def)

lemma keys_between_declared: "lo \<le> n \<Longrightarrow> keys_between lo (Suc n) [symbol_key n x]"
  by (rule keys_between_later [OF _ keys_between_one])

lemma keys_between_one_more: "keys_between lo n ks \<Longrightarrow> keys_between lo (Suc n) (ks @ [symbol_key n x])"
  by (rule keys_between_append [OF _ keys_between_one])

lemma bind_keys:
  "bind_ast s a = Some (a', s') \<Longrightarrow> keys_between (sc_next s) (sc_next s') (introduced a')"
  "bind_asts s as = Some (as', s') \<Longrightarrow> keys_between (sc_next s) (sc_next s') (concat (map introduced as'))"
proof (induction s a and s as arbitrary: a' s' and as' s' rule: bind_ast_bind_asts.induct)
  case (2 s x t v reassign)
  then show ?case
    by (fastforce simp: sc_declare_def keys_between_one_more split: bind_splits if_splits)
next
  case (8 s c th el)
  from "8.prems" obtain c' s1 th' s2 el' s3 where
    b: "bind_ast s c = Some (c', s1)" "bind_asts (sc_enter s1) th = Some (th', s2)" "bind_asts (sc_drop s2) el = Some (el', s3)"
    and r: "a' = IfStatement c' th' el'" "s' = sc_leave s3"
    by (auto split: bind_splits)
  have k: "keys_between (sc_next s) (sc_next s1) (introduced c')"
    "keys_between (sc_next s1) (sc_next s2) (concat (map introduced th'))"
    "keys_between (sc_next s2) (sc_next s3) (concat (map introduced el'))"
    using "8.IH"(1) [OF b(1)] "8.IH"(2) [OF b(1) refl b(2)] "8.IH"(3) [OF b(1) refl b(2) refl b(3)] by simp_all
  show ?case using keys_between_append [OF k(1) keys_between_append [OF k(2,3)]] r by simp
next
  case (9 s c b)
  then show ?case by (fastforce intro: keys_between_append split: bind_splits)
next
  case (10 s t v)
  then show ?case by (fastforce intro: keys_between_append split: bind_splits)
next
  case (13 s a i)
  then show ?case by (fastforce intro: keys_between_append split: bind_splits)
next
  case (15 s l r op)
  then show ?case by (fastforce intro: keys_between_append split: bind_splits)
next
  case (19 s a as)
  then show ?case by (fastforce intro: keys_between_append split: bind_splits)
qed (fastforce split: bind_splits)+

text \<open>Binding keeps the depth and the global symbols, which are first in the list and have depth 0.\<close>

definition has_globals :: "hir_symbol list \<Rightarrow> scope \<Rightarrow> bool" where
  "has_globals gs s \<longleftrightarrow> (\<exists>ys. sc_symbols s = gs @ ys)"

definition keeps_globals :: "hir_symbol list \<Rightarrow> scope \<Rightarrow> scope \<Rightarrow> bool" where
  "keeps_globals gs s s' \<longleftrightarrow> sc_depth s' = sc_depth s \<and> (has_globals gs s \<longrightarrow> has_globals gs s')"

lemma keeps_globals_refl [simp]: "keeps_globals gs s s"
  by (simp add: keeps_globals_def)

lemma keeps_globals_trans [trans]: "keeps_globals gs s s' \<Longrightarrow> keeps_globals gs s' s'' \<Longrightarrow> keeps_globals gs s s''"
  by (simp add: keeps_globals_def)

lemma keeps_globals_declare: "keeps_globals gs s (snd (sc_declare s x))"
  by (auto simp: keeps_globals_def has_globals_def sc_declare_def)

lemma dropWhile_rev_prefix:
  assumes "\<forall>y \<in> set gs. \<not> P y"
  shows "\<exists>zs. dropWhile P (rev ys @ rev gs) = zs @ rev gs"
proof -
  have "dropWhile P (rev gs) = rev gs" using assms by (auto simp: dropWhile_eq_self_iff hd_rev)
  then show ?thesis by (cases "\<exists>y \<in> set (rev ys). \<not> P y") (auto simp: dropWhile_append)
qed

lemma keeps_globals_drop:
  assumes "\<forall>y \<in> set gs. symbol_depth y < sc_depth s"
  shows "keeps_globals gs s (sc_drop s)"
proof -
  have "\<exists>zs. dropWhile (\<lambda>y. sc_depth s \<le> symbol_depth y) (rev ys @ rev gs) = zs @ rev gs" for ys
    using assms by (intro dropWhile_rev_prefix) (auto simp: not_le)
  then have "\<exists>zs. rev (dropWhile (\<lambda>y. sc_depth s \<le> symbol_depth y) (rev (gs @ ys))) = gs @ zs" for ys
    by (metis rev_append rev_rev_ident)
  then show ?thesis unfolding keeps_globals_def has_globals_def sc_drop_def by auto
qed

definition shallow :: "hir_symbol list \<Rightarrow> scope \<Rightarrow> bool" where
  "shallow gs s \<longleftrightarrow> (\<forall>y \<in> set gs. symbol_depth y \<le> sc_depth s)"

lemma keeps_globals_scope:
  assumes "keeps_globals gs (sc_enter s) s'" "shallow gs s"
  shows "keeps_globals gs s (sc_leave s')"
proof -
  have "sc_depth s' = sc_depth s + 1" using assms(1) by (simp add: keeps_globals_def)
  then have "keeps_globals gs s' (sc_drop s')" using assms(2) by (intro keeps_globals_drop) (auto simp: shallow_def less_Suc_eq_le)
  then show ?thesis using assms(1) by (auto simp: keeps_globals_def has_globals_def)
qed

lemma shallow_kept: "keeps_globals gs s s' \<Longrightarrow> shallow gs s \<Longrightarrow> shallow gs s'"
  by (simp add: shallow_def keeps_globals_def)

lemma keeps_globals_depth: "keeps_globals gs s s' \<Longrightarrow> sc_depth s' = sc_depth s"
  by (simp add: keeps_globals_def)

lemma bind_keeps_globals:
  "bind_ast s a = Some (a', s') \<Longrightarrow> shallow gs s \<Longrightarrow> keeps_globals gs s s'"
  "bind_asts s as = Some (as', s') \<Longrightarrow> shallow gs s \<Longrightarrow> keeps_globals gs s s'"
proof (induction s a and s as arbitrary: a' s' and as' s' rule: bind_ast_bind_asts.induct)
  case (2 s x t v reassign)
  from "2.prems"(1) obtain v' s1 where v: "bind_ast s v = Some (v', s1)" "s' = s1 \<or> s' = snd (sc_declare s1 x)"
    by (auto split: bind_splits if_splits prod.splits)
  have "keeps_globals gs s s1" by (rule "2.IH" [OF v(1) "2.prems"(2)])
  with v(2) show ?case using keeps_globals_declare keeps_globals_trans by blast
next
  case (8 s c th el)
  from "8.prems"(1) obtain c' s1 th' s2 el' s3 where
    b: "bind_ast s c = Some (c', s1)" "bind_asts (sc_enter s1) th = Some (th', s2)" "bind_asts (sc_drop s2) el = Some (el', s3)"
    and r: "s' = sc_leave s3"
    by (auto split: bind_splits)
  have k1: "keeps_globals gs s s1" by (rule "8.IH"(1) [OF b(1) "8.prems"(2)])
  have sh: "shallow gs s1" "shallow gs (sc_enter s1)" using shallow_kept [OF k1 "8.prems"(2)] by (auto simp: shallow_def)
  have k2: "keeps_globals gs (sc_enter s1) s2" by (rule "8.IH"(2) [OF b(1) refl b(2) sh(2)])
  have d: "sc_depth s1 = sc_depth s" "sc_depth s2 = sc_depth s + 1" using keeps_globals_depth [OF k1] keeps_globals_depth [OF k2] by simp_all
  have "shallow gs (sc_drop s2)" using shallow_kept [OF k2 sh(2)] by (simp add: shallow_def sc_drop_depth)
  then have k: "keeps_globals gs s s1" "keeps_globals gs (sc_enter s1) s2" "keeps_globals gs (sc_drop s2) s3"
    using k1 k2 "8.IH"(3) [OF b(1) refl b(2) refl b(3)] by auto
  have "keeps_globals gs s2 (sc_drop s2)" using keeps_globals_drop "8.prems"(2) d by (auto simp: shallow_def less_Suc_eq_le)
  with k(2,3) have "keeps_globals gs (sc_enter s1) s3" using keeps_globals_trans by blast
  then have "keeps_globals gs s1 s'" unfolding r using sh(1) by (rule keeps_globals_scope)
  then show ?case by (rule keeps_globals_trans [OF k(1)])
next
  case (9 s c b)
  from "9.prems"(1) obtain c' s1 b' s2 where
    b: "bind_ast s c = Some (c', s1)" "bind_asts (sc_enter s1) b = Some (b', s2)" and r: "s' = sc_leave s2"
    by (auto split: bind_splits)
  have k1: "keeps_globals gs s s1" by (rule "9.IH"(1) [OF b(1) "9.prems"(2)])
  have sh: "shallow gs s1" "shallow gs (sc_enter s1)" using shallow_kept [OF k1 "9.prems"(2)] by (auto simp: shallow_def)
  note k = k1 "9.IH"(2) [OF b(1) refl b(2) sh(2)]
  show ?case unfolding r by (rule keeps_globals_trans [OF k(1) keeps_globals_scope [OF k(2) sh(1)]])
qed ((auto split: bind_splits)[1]; (blast intro: keeps_globals_trans shallow_kept)?)+

lemma parameters_keys:
  "sc_parameters s ps = (ks, s') \<Longrightarrow> keys_between (sc_next s) (sc_next s') ks \<and> length ks = length ps \<and> keeps_globals gs s s'"
proof (induction ps arbitrary: s ks)
  case (Cons p ps)
  obtain ks' where ks: "sc_parameters (snd (sc_declare s p)) ps = (ks', s')" "ks = symbol_key (sc_next s) p # ks'"
    using Cons.prems by (auto simp: sc_declare_def split: prod.splits)
  note IH = Cons.IH [OF ks(1)]
  have "keys_between (sc_next s) (sc_next s') ([symbol_key (sc_next s) p] @ ks')"
    by (rule keys_between_append [OF keys_between_one]) (use IH in simp)
  moreover have "keeps_globals gs s s'" using keeps_globals_declare keeps_globals_trans IH by blast
  ultimately show ?case using ks(2) IH by simp
qed simp

fun global_names :: "ast list \<Rightarrow> string list" where
  "global_names [] = []"
| "global_names (VariableDeclaration x t v False # ss) = x # global_names ss"
| "global_names (a # ss) = global_names ss"

text \<open>The first \<open>g\<close> symbols are the globals, numbered from 0, and stay where they are.\<close>

definition numbered :: "hir_symbol list \<Rightarrow> bool" where
  "numbered gs \<longleftrightarrow> (\<forall>y \<in> set gs. symbol_depth y = 0 \<and> (\<exists>j < length gs. storage_key y = symbol_key j (source_name y)))"

definition top_ready :: "hir_symbol list \<Rightarrow> scope \<Rightarrow> bool" where
  "top_ready gs s \<longleftrightarrow> has_globals gs s \<and> sc_depth s = 0 \<and> length gs \<le> sc_next s"

lemma top_ready_step:
  "top_ready gs s \<Longrightarrow> keeps_globals gs s s' \<Longrightarrow> sc_next s \<le> sc_next s' \<Longrightarrow> top_ready gs s'"
  by (auto simp: top_ready_def keeps_globals_def)

lemma bind_top_function:
  assumes b: "bind_top (length gs) s (FunctionDeclaration f ps ts n r u b) = Some (a', s')"
    and gs: "numbered gs" "top_ready gs s"
  shows "keys_between (sc_next s) (sc_next s') (top_introduced a') \<and> top_ready gs s'"
proof -
  from b obtain ks s1 b' s2 where
    p: "sc_parameters (s\<lparr>sc_depth := 1\<rparr>) (take n ps) = (ks, s1)" and b2: "bind_asts s1 b = Some (b', s2)"
    and r: "a' = FunctionDeclaration f (ks @ drop n ps) ts n r u b'"
      "s' = s2\<lparr>sc_symbols := take (length (sc_symbols s)) (sc_symbols s2), sc_depth := 0\<rparr>"
    by (auto split: bind_splits prod.splits)
  note P = parameters_keys [OF p, of gs]
  have k: "keys_between (sc_next s) (sc_next s2) (ks @ concat (map introduced b'))"
    using keys_between_append [of "sc_next s"] P bind_keys(2) [OF b2] by auto
  have "has_globals gs s2" using P gs bind_keeps_globals(2) [OF b2, of gs]
    by (auto simp: keeps_globals_def top_ready_def has_globals_def numbered_def shallow_def)
  then have "top_ready gs s'" using gs(2) keys_between_le [OF k] r(2)
    by (auto simp: top_ready_def has_globals_def)
  moreover have "take n (ks @ drop n ps) = ks" using P by auto
  ultimately show ?thesis using k r by simp
qed

lemma bind_top_global:
  assumes b: "bind_top (length gs) s (VariableDeclaration x t v False) = Some (a', s')"
    and gs: "numbered gs" "top_ready gs s"
  shows "(\<exists>j ks. j < length gs \<and> top_introduced a' = ks @ [symbol_key j x] \<and> keys_between (sc_next s) (sc_next s') ks) \<and> top_ready gs s'"
proof -
  from gs(2) have "take (length gs) (sc_symbols s) = gs" by (auto simp: top_ready_def has_globals_def)
  with b obtain y v' where y: "find (\<lambda>y. source_name y = x) gs = Some y" "bind_ast s v = Some (v', s')"
    "a' = VariableDeclaration (storage_key y) t v' False"
    by (auto split: bind_splits)
  then have "y \<in> set gs" "source_name y = x" by (auto simp: find_Some_iff)
  moreover have "top_ready gs s'"
    using top_ready_step gs(2) bind_keeps_globals(1) [OF y(2)] gs(1) keys_between_le [OF bind_keys(1) [OF y(2)]]
    by (auto simp: numbered_def shallow_def)
  ultimately show ?thesis using gs(1) y(3) bind_keys(1) [OF y(2)] by (fastforce simp: numbered_def)
qed

lemma bind_top_other:
  assumes "bind_ast s a = Some (a', s')" "numbered gs" "top_ready gs s"
  shows "keys_between (sc_next s) (sc_next s') (introduced a') \<and> top_ready gs s'"
  using bind_keys(1) [OF assms(1)] bind_keeps_globals(1) [OF assms(1), of gs] assms(2) top_ready_step [OF assms(3)]
  by (auto simp: numbered_def shallow_def dest: keys_between_le)

definition top_keys :: "nat \<Rightarrow> scope \<Rightarrow> string list \<Rightarrow> scope \<Rightarrow> string list \<Rightarrow> bool" where
  "top_keys g s xs s' ks \<longleftrightarrow> sc_next s \<le> sc_next s' \<and> distinct ks
     \<and> (\<forall>k \<in> set ks. \<exists>j x. k = symbol_key j x \<and> (sc_next s \<le> j \<and> j < sc_next s' \<or> j < g \<and> x \<in> set xs))"

lemma top_keys_between:
  assumes "keys_between (sc_next s) (sc_next s1) ks" "top_keys g s1 xs s' ks'" "g \<le> sc_next s"
  shows "top_keys g s xs s' (ks @ ks')"
proof -
  have "set ks \<inter> set ks' = {}" using assms by (fastforce simp: keys_between_def top_keys_def symbol_key_inject)
  then show ?thesis using assms unfolding top_keys_def keys_between_def
    by (auto simp: ball_Un) (meson le_trans less_le_trans)+
qed

lemma top_keys_global:
  assumes "keys_between (sc_next s) (sc_next s1) ks" "top_keys g s1 xs s' ks'" "j < g" "x \<notin> set xs" "g \<le> sc_next s"
  shows "top_keys g s (x # xs) s' (ks @ symbol_key j x # ks')"
proof -
  have "symbol_key j x \<notin> set ks'" using assms keys_between_le [OF assms(1)]
    by (fastforce simp: top_keys_def symbol_key_inject)
  then have "top_keys g s1 (x # xs) s' (symbol_key j x # ks')" using assms(2,3) unfolding top_keys_def by auto blast+
  then show ?thesis by (rule top_keys_between [OF assms(1) _ assms(5)])
qed

lemma bind_program_keys:
  "bind_program (length gs) s ss = Some (ss', s') \<Longrightarrow> numbered gs \<Longrightarrow> top_ready gs s \<Longrightarrow> distinct (global_names ss)
   \<Longrightarrow> top_keys (length gs) s (global_names ss) s' (concat (map top_introduced ss'))"
proof (induction ss arbitrary: s ss')
  case Nil
  then show ?case by (simp add: top_keys_def)
next
  case (Cons a ss)
  from Cons.prems(1) obtain a' s1 as' where
    b: "bind_top (length gs) s a = Some (a', s1)" "bind_program (length gs) s1 ss = Some (as', s')" "ss' = a' # as'"
    by (auto split: bind_splits)
  note gs = Cons.prems(2,3)
  have g: "length gs \<le> sc_next s" using gs(2) by (simp add: top_ready_def)
  show ?case
  proof (cases "\<exists>x t v. a = VariableDeclaration x t v False")
    case True
    then obtain x t v where a: "a = VariableDeclaration x t v False" by blast
    from bind_top_global [OF b(1) [unfolded a] gs] Cons.IH [OF b(2) gs(1)] Cons.prems(4) top_keys_global [OF _ _ _ _ g]
    show ?thesis by (fastforce simp: a b(3))
  next
    case False
    have names: "global_names (a # ss) = global_names ss" using False by (cases a) auto
    have k: "keys_between (sc_next s) (sc_next s1) (top_introduced a') \<and> top_ready gs s1"
    proof (cases "\<exists>f ps ts n r u b. a = FunctionDeclaration f ps ts n r u b")
      case True
      then show ?thesis using bind_top_function gs b(1) by blast
    next
      case nofun: False
      have a: "bind_ast s a = Some (a', s1)" using b(1) nofun False by (cases a) (auto split: if_splits)
      then have "\<nexists>f ps ts n r u b. a' = FunctionDeclaration f ps ts n r u b" using nofun
        by (cases "(s, a)" rule: bind_ast.cases) (auto split: bind_splits option.splits if_splits prod.splits)
      then have "top_introduced a' = introduced a'" by (cases a') auto
      then show ?thesis using bind_top_other [OF a gs] by simp
    qed
    show ?thesis using top_keys_between [OF conjunct1 [OF k] _ g] Cons.IH [OF b(2) gs(1) conjunct2 [OF k]] Cons.prems(4)
      by (simp add: b(3) names)
  qed
qed

lemma global_scope_next: "sc_next (global_scope s ss) = sc_next s + length (global_names ss)
    \<and> length (sc_symbols (global_scope s ss)) = length (sc_symbols s) + length (global_names ss) \<and> sc_depth (global_scope s ss) = sc_depth s"
  by (induction s ss rule: global_scope.induct) (auto simp: sc_declare_def)

lemma global_scope_symbols:
  "(\<forall>y \<in> set (sc_symbols s). symbol_depth y = sc_depth s \<and> (\<exists>j < sc_next s. storage_key y = symbol_key j (source_name y))) \<Longrightarrow>
   \<forall>y \<in> set (sc_symbols (global_scope s ss)). symbol_depth y = sc_depth s
     \<and> (\<exists>j < sc_next s + length (global_names ss). storage_key y = symbol_key j (source_name y))"
proof (induction s ss rule: global_scope.induct)
  case (2 s x t v ss)
  have "\<forall>y \<in> set (sc_symbols (snd (sc_declare s x))). symbol_depth y = sc_depth s \<and> (\<exists>j < Suc (sc_next s). storage_key y = symbol_key j (source_name y))"
    using "2.prems" by (auto simp: sc_declare_def symbol_key_inject intro: less_SucI)
  with "2.IH" show ?case by (simp add: sc_declare_def)
qed auto

lemma resolved_distinct:
  assumes "resolve_ast (Program ss) = Some p" "distinct (global_names ss)"
  shows "\<exists>ss'. p = Program ss' \<and> distinct (concat (map top_introduced ss'))"
proof -
  define gs where "gs = sc_symbols (global_scope empty_scope ss)"
  obtain ss' s' where "bind_program (length gs) (global_scope empty_scope ss) ss = Some (ss', s')" "p = Program ss'"
    using assms(1) by (auto simp: gs_def Let_def)
  moreover have "numbered gs" "top_ready gs (global_scope empty_scope ss)"
    using global_scope_next [of empty_scope ss] global_scope_symbols [of empty_scope ss]
    by (auto simp: gs_def numbered_def top_ready_def has_globals_def empty_scope_def)
  ultimately show ?thesis using bind_program_keys assms(2) by (fastforce simp: top_keys_def)
qed

lemma lowered_keys_distinct:
  assumes "resolve_ast (Program ss) = Some p" "counts_ok (Program ss)" "distinct (global_names ss)" "erase t = ast_tree strtod r p"
  shows "distinct (program_keys t)"
proof -
  obtain ss' where p: "p = Program ss'" "distinct (concat (map top_introduced ss'))" using resolved_distinct [OF assms(1,3)] by blast
  have "program_keys t = program_keys (ast_tree strtod r p)" using program_keys_erase [of t] assms(4) by simp
  also have "\<dots> = concat (map top_introduced ss')" using ast_program_keys resolve_counts_ok [OF assms(1,2)] p(1) by simp
  finally show ?thesis using p(2) by simp
qed

text \<open>
  C23. In a lowered program no two declarations share a storage key, whatever scopes they are in and
  however often a name is reused: globals, parameters of different top-level functions, and locals of
  different blocks, \<open>if\<close>, \<open>while\<close> and unsafe blocks included, are all distinct. Hypotheses: the stored
  counts agree with the lists, and no global is declared twice. Functions nested in other statements are
  left out: \<open>resolve_hir_symbols\<close> does not visit them.
\<close>

theorem declarations_distinct:
  assumes "vnt_ir_lower strtod (Program ss) = Some (Some ir)" "counts_ok (Program ss)" "distinct (global_names ss)"
  shows "\<exists>t. holds_tree ir t \<and> distinct (program_keys t)"
proof -
  from lower_program [OF assms(2), of strtod] assms(1) obtain p t where
    p: "resolve_ast (Program ss) = Some p" "holds_tree ir t" "erase t = ast_tree strtod EDGE_ROOT p"
    by (auto split: option.splits)
  with lowered_keys_distinct [OF p(1) assms(2,3) p(3)] show ?thesis by blast
qed

text \<open>The global \<open>g\<close> with a function \<open>f(a)\<close> and an unsafe block that both declare a local \<open>b\<close>.\<close>

definition reuse_program :: ast where
  "reuse_program = Program
     [VariableDeclaration ''g'' None (IntegerLiteral 1) False,
      FunctionDeclaration ''f'' [''a''] [None] 1 None False [VariableDeclaration ''b'' None (Variable ''a'') False],
      UnsafeBlock [VariableDeclaration ''b'' None (Variable ''g'') False]]"

theorem declarations_distinct_witness:
  "\<exists>ir t. vnt_ir_lower id reuse_program = Some (Some ir) \<and> holds_tree ir t \<and> distinct (program_keys t)"
proof -
  have ok: "counts_ok reuse_program" by (auto simp: reuse_program_def counts_ok.simps copy_names_def)
  have "resolve_ast reuse_program \<noteq> None" by code_simp
  then obtain ir where "vnt_ir_lower id reuse_program = Some (Some ir)"
    using lower_program [OF ok [unfolded reuse_program_def], of id] by (auto simp: reuse_program_def simp del: resolve_ast.simps)
  with declarations_distinct [OF _ ok [unfolded reuse_program_def], of id] show ?thesis by (auto simp: reuse_program_def)
qed

end
