(* ===== verification/TypeCheck.thy ===== *)
theory TypeCheck
  imports Ast
begin

text \<open>
  The type checker, \<open>src/compiler/typecheck.c\<close>. The state \<open>type_checker\<close> has the messages printed so far.
  An expression is checked without changing the tree; the renaming of calls that \<open>expr_type\<close> does
  on the side is the function \<open>resolve_calls\<close>, and theory \<open>TypeCheckProps\<close> shows that checking a renamed
  expression again, as the code does for typed arguments, gives the same result.
  \<open>check_statements\<close> returns the statements with their calls renamed and their assignments marked.
  The text of a message is cut to the size of the buffer it is printed into.
\<close>

section \<open>Data\<close>

datatype type_kind =
    TY_UNDECLARED | TY_UNKNOWN | TY_INT | TY_I64 | TY_FLOAT | TY_BOOL | TY_STRING
  | TY_ARRAY | TY_OBJECT | TY_REFERENCE | TY_POINTER | TY_VOID

record tc_symbol =
  tc_name :: string
  tc_type :: type_kind
  explicit_type :: bool
  dynamic :: bool
  tc_depth :: nat

text \<open>The parts of a declaration that the checker reads through \<open>FunctionDef.node\<close>.\<close>

record function_def =
  def_name :: string
  def_arity :: nat
  def_parameters :: "string list"
  def_types :: "string option list"
  def_return :: "string option"
  def_unsafe :: bool

record struct_def =
  struct_name :: string
  struct_fields :: nat

record type_checker =
  tc_symbols :: "tc_symbol list"
  tc_functions :: "function_def list"
  tc_structs :: "struct_def list"
  tc_error :: bool
  tc_messages :: "string list"
  expected_return :: type_kind
  in_function :: bool
  scope_depth :: nat
  unsafe_depth :: nat
  loop_depth :: nat
  function_namespace :: "string option"

section \<open>Messages\<close>

definition type_error :: "type_checker \<Rightarrow> string \<Rightarrow> type_checker" where
  "type_error tc message =
     (if tc_error tc then tc
      else tc\<lparr>tc_error := True, tc_messages := tc_messages tc @ [''Type error: '' @ message @ [LF]]\<rparr>)"

abbreviation error_if :: "bool \<Rightarrow> string \<Rightarrow> type_checker \<Rightarrow> type_checker" where
  "error_if b message tc \<equiv> if b then type_error tc message else tc"

text \<open>\<open>snprintf\<close> into a buffer of \<open>n\<close> bytes.\<close>

definition buffer :: "nat \<Rightarrow> string \<Rightarrow> string" where
  "buffer n s = take (n - 1) s"

definition quoted :: "string \<Rightarrow> string" where
  "quoted s = CHR 0x27 # s @ [CHR 0x27]"

definition plural :: "nat \<Rightarrow> string" where
  "plural n = (if n = 1 then '''' else ''s'')"

section \<open>Types\<close>

definition numeric :: "type_kind \<Rightarrow> bool" where
  "numeric t \<longleftrightarrow> t = TY_INT \<or> t = TY_I64 \<or> t = TY_FLOAT"

fun type_name_of :: "type_kind \<Rightarrow> string" where
  "type_name_of TY_UNDECLARED = ''undeclared''"
| "type_name_of TY_UNKNOWN = ''unknown''"
| "type_name_of TY_INT = ''int''"
| "type_name_of TY_I64 = ''i64''"
| "type_name_of TY_FLOAT = ''float''"
| "type_name_of TY_BOOL = ''bool''"
| "type_name_of TY_STRING = ''string''"
| "type_name_of TY_ARRAY = ''array''"
| "type_name_of TY_OBJECT = ''object''"
| "type_name_of TY_REFERENCE = ''reference''"
| "type_name_of TY_POINTER = ''ptr''"
| "type_name_of TY_VOID = ''void''"

definition type_from_name :: "string \<Rightarrow> type_kind" where
  "type_from_name name =
     (if name = ''int'' then TY_INT
      else if name = ''i64'' then TY_I64
      else if name = ''float'' then TY_FLOAT
      else if name = ''bool'' then TY_BOOL
      else if name = ''string'' then TY_STRING
      else if name = ''array'' then TY_ARRAY
      else if name = ''object'' then TY_OBJECT
      else if name = ''reference'' then TY_REFERENCE
      else if name = ''ptr'' then TY_POINTER
      else if name = ''void'' then TY_VOID
      else TY_UNDECLARED)"

definition type_compatible :: "type_kind \<Rightarrow> type_kind \<Rightarrow> bool" where
  "type_compatible expected actual \<longleftrightarrow>
     expected = TY_UNKNOWN \<or> actual = TY_UNKNOWN \<or> expected = actual \<or> numeric expected \<and> numeric actual"

section \<open>Symbols\<close>

text \<open>The index of the latest symbol with the name.\<close>

fun find_symbol_index :: "tc_symbol list \<Rightarrow> string \<Rightarrow> nat option" where
  "find_symbol_index [] name = None"
| "find_symbol_index (s # ss) name =
     (case find_symbol_index ss name of
        Some i \<Rightarrow> Some (Suc i)
      | None \<Rightarrow> if tc_name s = name then Some 0 else None)"

definition find_symbol :: "type_checker \<Rightarrow> string \<Rightarrow> type_kind" where
  "find_symbol tc name =
     (case find_symbol_index (tc_symbols tc) name of None \<Rightarrow> TY_UNDECLARED | Some i \<Rightarrow> tc_type (tc_symbols tc ! i))"

definition add_symbol :: "type_checker \<Rightarrow> string \<Rightarrow> type_kind \<Rightarrow> bool \<Rightarrow> type_checker" where
  "add_symbol tc name t is_explicit =
     tc\<lparr>tc_symbols := tc_symbols tc @
       [\<lparr>tc_name = name, tc_type = t, explicit_type = is_explicit, dynamic = False, tc_depth = scope_depth tc\<rparr>]\<rparr>"

definition set_symbol :: "type_checker \<Rightarrow> string \<Rightarrow> type_kind \<Rightarrow> bool \<Rightarrow> type_checker" where
  "set_symbol tc name t is_explicit =
     (case find_symbol_index (tc_symbols tc) name of
        None \<Rightarrow> add_symbol tc name t is_explicit
      | Some i \<Rightarrow>
          let s = tc_symbols tc ! i; old = tc_type s in
          if old \<noteq> TY_UNKNOWN \<and> t \<noteq> TY_UNKNOWN \<and> old \<noteq> t \<and> \<not> (numeric old \<and> numeric t) then
            if explicit_type s \<or> is_explicit then type_error tc ''variable type changed incompatibly.''
            else tc\<lparr>tc_symbols := (tc_symbols tc)[i := s\<lparr>tc_type := TY_UNKNOWN, dynamic := True\<rparr>]\<rparr>
          else
            let s = (if old = TY_UNKNOWN \<and> \<not> dynamic s then s\<lparr>tc_type := t\<rparr> else s);
                s = (if is_explicit then s\<lparr>explicit_type := True\<rparr> else s) in
            tc\<lparr>tc_symbols := (tc_symbols tc)[i := s]\<rparr>)"

definition discard_symbols_to :: "nat \<Rightarrow> type_checker \<Rightarrow> type_checker" where
  "discard_symbols_to n tc = tc\<lparr>tc_symbols := take n (tc_symbols tc)\<rparr>"

type_synonym symbol_state = "type_kind \<times> bool"

definition snapshot_symbols :: "type_checker \<Rightarrow> nat \<Rightarrow> symbol_state list" where
  "snapshot_symbols tc n = map (\<lambda>s. (tc_type s, dynamic s)) (take n (tc_symbols tc))"

definition restore_symbols :: "symbol_state list \<Rightarrow> type_checker \<Rightarrow> type_checker" where
  "restore_symbols states tc = tc\<lparr>tc_symbols :=
     map2 (\<lambda>s (t, d). s\<lparr>tc_type := t, dynamic := d\<rparr>) (tc_symbols tc) states @ drop (length states) (tc_symbols tc)\<rparr>"

definition merge_symbol :: "tc_symbol \<Rightarrow> symbol_state \<Rightarrow> symbol_state \<Rightarrow> tc_symbol" where
  "merge_symbol s before_state then_state =
     (let (a, a_dynamic) = then_state; b = tc_type s in
      if a_dynamic \<or> dynamic s \<or> (a \<noteq> b \<and> a \<noteq> TY_UNKNOWN \<and> b \<noteq> TY_UNKNOWN) then
        if explicit_type s then s\<lparr>tc_type := fst before_state, dynamic := snd before_state\<rparr>
        else s\<lparr>tc_type := TY_UNKNOWN, dynamic := True\<rparr>
      else if a = TY_UNKNOWN \<or> b = TY_UNKNOWN then s\<lparr>tc_type := TY_UNKNOWN, dynamic := a_dynamic \<or> dynamic s\<rparr>
      else s\<lparr>tc_type := a\<rparr>)"

definition merge_branch_symbols :: "symbol_state list \<Rightarrow> symbol_state list \<Rightarrow> type_checker \<Rightarrow> type_checker" where
  "merge_branch_symbols before_states then_states tc = tc\<lparr>tc_symbols :=
     map2 (\<lambda>s (b, t). merge_symbol s b t) (tc_symbols tc) (zip before_states then_states)
     @ drop (length then_states) (tc_symbols tc)\<rparr>"

section \<open>Functions and structs\<close>

definition find_function :: "type_checker \<Rightarrow> string \<Rightarrow> function_def option" where
  "find_function tc name = find (\<lambda>f. def_name f = name) (tc_functions tc)"

definition find_struct :: "type_checker \<Rightarrow> string \<Rightarrow> struct_def option" where
  "find_struct tc name = find (\<lambda>s. struct_name s = name) (tc_structs tc)"

text \<open>
  The builtins with their smallest and largest number of arguments, in the order of the code;
  \<open>builtin_arity\<close> is \<open>None\<close> where the code has -1.
\<close>

definition builtins :: "(string list \<times> nat \<times> nat) list" where
  "builtins = [
    ([''symbol_address''], 1, 1),
    ([''cpu_read_cr2''], 0, 0),
    ([''cpu_read_msr''], 1, 1),
    ([''cpu_write_msr''], 2, 2),
    ([''cpu_invlpg''], 1, 1),
    ([''cpu_atomic_exchange_u64''], 2, 2),
    ([''mem_alloc'', ''mem_free'', ''mem_is_null''], 1, 1),
    ([''mem_read_u8'', ''mem_read_u32'', ''mem_read_u64''], 2, 2),
    ([''mem_realloc'', ''mem_ptr_add''], 2, 2),
    ([''mem_write_u8'', ''mem_write_u32'', ''mem_write_u64'', ''mem_copy'', ''mem_set''], 3, 3),
    ([''range''], 1, 3),
    ([''sqrt'', ''sin'', ''cos'', ''tan'', ''abs'', ''floor'', ''ceil'', ''len'', ''input''], 1, 1),
    ([''min'', ''max'', ''mod''], 2, 2),
    ([''object''], 0, 0),
    ([''ffi_int''], 2, 8),
    ([''cwd'', ''time_ms''], 0, 0),
    ([''fs_exists'', ''fs_read'', ''fs_delete'', ''fs_is_file'', ''fs_is_dir'', ''fs_list'', ''dir_create'',
      ''env_get'', ''env_has'', ''sleep_ms'', ''process_poll'', ''process_pid'', ''process_terminate'',
      ''process_stdout'', ''process_stderr'', ''process_exit_code'', ''process_exit'', ''process_launch'',
      ''io_write'', ''io_write_error''], 1, 1),
    ([''process_wait'', ''process_start''], 2, 2),
    ([''net_stream_start''], 4, 4),
    ([''net_stream_read''], 2, 2),
    ([''net_stream_done'', ''net_stream_status'', ''net_stream_cancel'', ''net_stream_release''], 1, 1),
    ([''net_async_start''], 4, 4),
    ([''net_async_poll'', ''net_async_cancel'', ''net_async_result'', ''net_async_status'', ''net_async_release''], 1, 1),
    ([''net_async_wait''], 2, 2),
    ([''net_request'', ''net_request_bytes''], 4, 4),
    ([''net_status'', ''net_download''], 3, 3),
    ([''net_url_encode'', ''utf8_len''], 1, 1),
    ([''time_local_parts'', ''time_utc_parts''], 1, 1),
    ([''crypto_sha256''], 1, 1),
    ([''crypto_constant_time_equal''], 2, 2),
    ([''bigint_add'', ''bigint_sub'', ''bigint_mul'', ''bigint_compare''], 2, 2),
    ([''utf8_slice''], 3, 3),
    ([''fs_write_atomic''], 2, 2),
    ([''fs_write'', ''fs_append'', ''fs_rename'', ''env_set''], 2, 2),
    ([''gui_css''], 1, 1),
    ([''gui_button'', ''gui_text_at'', ''gui_title'', ''gui_input_set'', ''gui_textarea_set'', ''json_value_at''], 3, 3),
    ([''gui_panel'', ''gui_input'', ''gui_checkbox'', ''gui_progress''], 4, 4),
    ([''gui_button_sized'', ''gui_textarea'', ''gui_panel_color'', ''gui_text_style''], 5, 5),
    ([''gui_separator''], 3, 3),
    ([''gui_size''], 2, 2),
    ([''gui_open'', ''gui_text'', ''gui_fill'', ''gui_rect''], 1, 1),
    ([''gui_poll'', ''gui_key'', ''gui_close'', ''gui_present''], 0, 0)]"

definition builtin_arity :: "string \<Rightarrow> nat \<Rightarrow> bool option" where
  "builtin_arity name argc =
     map_option (\<lambda>(_, lo, hi). lo \<le> argc \<and> argc \<le> hi) (find (\<lambda>(ns, _). name \<in> set ns) builtins)"

text \<open>The name of a call after resolution; the function called is the one with that name.\<close>

definition resolve_function_call :: "type_checker \<Rightarrow> string \<Rightarrow> nat \<Rightarrow> string" where
  "resolve_function_call tc name argc =
     (case function_namespace tc of
        None \<Rightarrow> name
      | Some namespace \<Rightarrow>
          if builtin_arity name argc \<noteq> None \<or> find_struct tc name \<noteq> None \<or> strstr name ''__'' \<noteq> None then name
          else let qualified = namespace @ ''__'' @ name in
            if find_function tc qualified \<noteq> None then qualified else name)"

section \<open>Expressions\<close>

definition raw_memory_builtins :: "string list" where
  "raw_memory_builtins = [''mem_alloc'', ''mem_free'', ''mem_is_null'', ''mem_realloc'', ''mem_ptr_add'',
     ''mem_read_u8'', ''mem_read_u32'', ''mem_read_u64'', ''mem_write_u8'', ''mem_write_u32'', ''mem_write_u64'',
     ''mem_copy'', ''mem_set'', ''cpu_read_cr2'', ''cpu_invlpg'', ''cpu_atomic_exchange_u64'', ''symbol_address'']"

definition check_unsafe_call :: "type_checker \<Rightarrow> string \<Rightarrow> type_checker" where
  "check_unsafe_call tc name =
     (let called_unsafe = (case find_function tc name of None \<Rightarrow> False | Some f \<Rightarrow> def_unsafe f);
          tc = error_if (called_unsafe \<and> unsafe_depth tc = 0) ''unsafe function calls must be inside an unsafe block.'' tc in
      error_if (name \<in> set raw_memory_builtins \<and> unsafe_depth tc = 0)
        ''raw memory builtins may only be called inside an unsafe block.'' tc)"

text \<open>
  The part of \<open>check_call\<close> on the number of arguments; the result is the function whose parameter types the
  arguments have to match.
\<close>

definition check_arity :: "type_checker \<Rightarrow> string \<Rightarrow> nat \<Rightarrow> function_def option \<times> type_checker" where
  "check_arity tc name argc =
     (case builtin_arity name argc of
        Some accepts \<Rightarrow>
          (None, error_if (\<not> accepts)
             (buffer 256 (''builtin '' @ quoted name @ '' does not accept '' @ decimal argc @ '' argument'' @ plural argc @ ''.'')) tc)
      | None \<Rightarrow>
          if find_struct tc name \<noteq> None then
            (None, error_if (argc \<noteq> 0)
               (buffer 256 (''struct constructor '' @ quoted name @ '' currently takes no arguments.'')) tc)
          else case find_function tc name of
            None \<Rightarrow> (None, type_error tc (buffer 256 (''call to undeclared function '' @ quoted name @ ''.'')))
          | Some f \<Rightarrow>
              if def_arity f \<noteq> argc then
                (None, type_error tc (buffer 256 (''function '' @ quoted name @ '' expects '' @ decimal (def_arity f) @ '' argument''
                   @ plural (def_arity f) @ '' but received '' @ decimal argc @ ''.'')))
              else (Some f, tc))"

definition typed_parameter :: "function_def \<Rightarrow> nat \<Rightarrow> string option" where
  "typed_parameter f i = (if i < length (def_types f) then def_types f ! i else None)"

definition argument_mismatch :: "function_def \<Rightarrow> nat \<Rightarrow> string \<Rightarrow> type_kind \<Rightarrow> type_kind \<Rightarrow> string" where
  "argument_mismatch f i name expected actual =
     buffer 320 (''argument '' @ decimal (i + 1) @ '' ('' @ quoted (def_parameters f ! i) @ '') to function '' @ quoted name
       @ '' expects '' @ type_name_of expected @ '' but received '' @ type_name_of actual @ ''.'')"

text \<open>The result types of builtins, in the order of the code.\<close>

definition builtin_results :: "(string list \<times> type_kind) list" where
  "builtin_results = [
    ([''len'', ''utf8_len'', ''mod'', ''ffi_int''], TY_INT),
    ([''sqrt'', ''sin'', ''cos'', ''tan'', ''abs'', ''floor'', ''ceil''], TY_FLOAT),
    ([''mem_alloc'', ''mem_realloc'', ''mem_ptr_add''], TY_POINTER),
    ([''mem_read_u8'', ''mem_read_u32''], TY_INT),
    ([''mem_read_u64'', ''cpu_read_cr2''], TY_I64),
    ([''cpu_invlpg''], TY_BOOL),
    ([''cpu_atomic_exchange_u64''], TY_I64),
    ([''cpu_write_msr''], TY_INT),
    ([''symbol_address''], TY_I64),
    ([''mem_free'', ''mem_is_null'', ''mem_write_u8'', ''mem_write_u32'', ''mem_write_u64'', ''mem_copy'', ''mem_set''], TY_BOOL),
    ([''crypto_sha256''], TY_STRING),
    ([''crypto_constant_time_equal''], TY_BOOL),
    ([''bigint_add'', ''bigint_sub'', ''bigint_mul'', ''utf8_slice''], TY_STRING),
    ([''bigint_compare''], TY_INT),
    ([''fs_write_atomic''], TY_BOOL),
    ([''time_local_parts'', ''time_utc_parts''], TY_ARRAY),
    ([''process_start''], TY_OBJECT),
    ([''process_launch''], TY_BOOL),
    ([''process_stdout'', ''process_stderr''], TY_STRING),
    ([''input'', ''fs_read'', ''cwd''], TY_STRING),
    ([''fs_exists'', ''fs_write'', ''fs_append'', ''fs_delete'', ''fs_rename'', ''fs_is_file'', ''fs_is_dir'',
      ''io_write'', ''io_write_error'', ''dir_create'', ''env_has'', ''env_set''], TY_BOOL),
    ([''fs_list''], TY_ARRAY),
    ([''time_ms''], TY_FLOAT),
    ([''process_pid'', ''process_exit_code''], TY_INT),
    ([''process_poll'', ''process_wait'', ''process_terminate''], TY_BOOL),
    ([''object''], TY_OBJECT),
    ([''gui_open'', ''gui_poll'', ''gui_css'', ''gui_button'', ''gui_button_sized'', ''gui_text_at'', ''gui_title'',
      ''gui_panel'', ''gui_panel_color'', ''gui_text_style'', ''gui_input_set'', ''gui_checkbox'', ''gui_progress'',
      ''gui_separator'', ''gui_present''], TY_BOOL),
    ([''gui_key''], TY_INT),
    ([''gui_input'', ''gui_textarea''], TY_STRING),
    ([''gui_textarea_set''], TY_BOOL),
    ([''json_value_at''], TY_STRING),
    ([''gui_size'', ''gui_text'', ''gui_fill'', ''gui_rect'', ''gui_close''], TY_BOOL)]"

definition call_result :: "type_checker \<Rightarrow> string \<Rightarrow> type_kind" where
  "call_result tc name =
     (case find (\<lambda>(ns, _). name \<in> set ns) builtin_results of
        Some (_, t) \<Rightarrow> t
      | None \<Rightarrow>
          if find_struct tc name \<noteq> None then TY_OBJECT
          else case find_function tc name of
            None \<Rightarrow> TY_UNKNOWN
          | Some f \<Rightarrow>
              (case def_return f of
                 None \<Rightarrow> TY_UNKNOWN
               | Some r \<Rightarrow> if type_from_name r = TY_UNDECLARED then TY_UNKNOWN else type_from_name r))"

fun index_source :: "ast \<Rightarrow> string" where
  "index_source (Variable x) = x"
| "index_source (IntegerLiteral v) = ''integer literal''"
| "index_source _ = ''nontrivial expression''"

definition index_type :: "type_checker \<Rightarrow> type_kind \<Rightarrow> type_kind \<Rightarrow> ast \<Rightarrow> type_kind \<times> type_checker" where
  "index_type tc container index e =
     (let tc = error_if (index \<noteq> TY_INT \<and> index \<noteq> TY_UNKNOWN)
            (buffer 256 (''array/string index must be an integer (received '' @ type_name_of index @ '' from '' @ index_source e @ '').'')) tc;
          tc = error_if (container \<noteq> TY_ARRAY \<and> container \<noteq> TY_STRING \<and> container \<noteq> TY_UNKNOWN \<and> container \<noteq> TY_OBJECT)
            ''indexing requires an array, string, or object.'' tc in
      (if container = TY_STRING then TY_STRING else TY_UNKNOWN, tc))"

definition unary_type :: "type_checker \<Rightarrow> unary_operator \<Rightarrow> type_kind \<Rightarrow> type_kind \<times> type_checker" where
  "unary_type tc op t =
     (if t = TY_VOID then (TY_UNKNOWN, type_error tc ''void function call cannot be used in a unary expression.'')
      else case op of
        UNARY_NOT \<Rightarrow> (TY_BOOL, error_if (t \<noteq> TY_BOOL \<and> t \<noteq> TY_UNKNOWN) (quoted ''!'' @ '' requires a boolean.'') tc)
      | UNARY_NEGATE \<Rightarrow> (t, error_if (\<not> numeric t \<and> t \<noteq> TY_UNKNOWN) (''unary '' @ quoted ''-'' @ '' requires a number.'') tc)
      | UNARY_REFERENCE \<Rightarrow> (TY_REFERENCE, tc)
      | UNARY_DEREFERENCE \<Rightarrow> (TY_UNKNOWN, error_if (t \<noteq> TY_REFERENCE \<and> t \<noteq> TY_UNKNOWN) ''dereference requires a reference.'' tc))"

text \<open>\<open>byte_comparison\<close> is \<open>string_byte_comparison\<close> of the code.\<close>

definition binary_type :: "type_checker \<Rightarrow> binary_operator \<Rightarrow> type_kind \<Rightarrow> type_kind \<Rightarrow> bool \<Rightarrow> type_kind \<times> type_checker" where
  "binary_type tc op left right byte_comparison =
     (if left = TY_VOID \<or> right = TY_VOID then
        (TY_UNKNOWN, type_error tc ''void function call cannot be used in a binary expression.'')
      else if op = BINARY_AND \<or> op = BINARY_OR then
        (TY_BOOL, error_if (left \<noteq> TY_BOOL \<and> left \<noteq> TY_UNKNOWN \<or> right \<noteq> TY_BOOL \<and> right \<noteq> TY_UNKNOWN)
           ''logical operators require booleans.'' tc)
      else if op = BINARY_EQUAL \<or> op = BINARY_NOT_EQUAL then
        (TY_BOOL, error_if (left \<noteq> TY_UNKNOWN \<and> right \<noteq> TY_UNKNOWN \<and> left \<noteq> right \<and> \<not> (numeric left \<and> numeric right) \<and> \<not> byte_comparison)
           ''equality operands must have compatible types.'' tc)
      else if op = BINARY_GREATER \<or> op = BINARY_LESS \<or> op = BINARY_GREATER_EQUAL \<or> op = BINARY_LESS_EQUAL then
        (TY_BOOL, error_if (\<not> numeric left \<and> left \<noteq> TY_UNKNOWN \<or> \<not> numeric right \<and> right \<noteq> TY_UNKNOWN)
           ''ordered comparisons require numeric operands.'' tc)
      else if op = BINARY_ADD \<and> (left = TY_STRING \<or> right = TY_STRING) then
        let other = (if left = TY_STRING then right else left) in
        if other = TY_STRING \<or> other = TY_INT \<or> other = TY_FLOAT \<or> other = TY_BOOL \<or> other = TY_UNKNOWN then (TY_STRING, tc)
        else (TY_UNKNOWN, type_error tc ''string concatenation requires string, number, or boolean values.'')
      else if \<not> numeric left \<or> \<not> numeric right then
        (TY_UNKNOWN, error_if (left \<noteq> TY_UNKNOWN \<and> right \<noteq> TY_UNKNOWN) ''arithmetic requires compatible numeric values.'' tc)
      else (if left = TY_FLOAT \<or> right = TY_FLOAT then TY_FLOAT
            else if left = TY_I64 \<or> right = TY_I64 then TY_I64 else TY_INT, tc))"

fun index_array :: "ast \<Rightarrow> ast option" where
  "index_array (IndexExpression a i) = Some a"
| "index_array _ = None"

lemma index_array_size [simp]: "index_array e = Some a \<Longrightarrow> size a < size e"
  by (cases e) auto

text \<open>
  \<open>no_void_values\<close> is the loop over the elements of an array or the arguments of a call,
  \<open>check_arguments\<close> the loop over the typed parameters in \<open>check_call\<close>.
\<close>

function (sequential) expr_type :: "type_checker \<Rightarrow> ast \<Rightarrow> type_kind \<times> type_checker"
  and no_void_values :: "string \<Rightarrow> type_checker \<Rightarrow> ast list \<Rightarrow> type_checker"
  and check_arguments :: "function_def \<Rightarrow> string \<Rightarrow> nat \<Rightarrow> type_checker \<Rightarrow> ast list \<Rightarrow> type_checker"
  and is_string_index_expr :: "type_checker \<Rightarrow> ast \<Rightarrow> bool \<times> type_checker" where
  "expr_type tc (IntegerLiteral v) = (if v < - (2 ^ 31) \<or> v > 2 ^ 31 - 1 then TY_I64 else TY_INT, tc)"
| "expr_type tc (FloatLiteral v) = (TY_FLOAT, tc)"
| "expr_type tc (BooleanLiteral v) = (TY_BOOL, tc)"
| "expr_type tc NullLiteral = (TY_POINTER, tc)"
| "expr_type tc (StringLiteral v) = (TY_STRING, tc)"
| "expr_type tc (ArrayLiteral es n) = (TY_ARRAY, no_void_values ''void function call cannot be stored in an array.'' tc es)"
| "expr_type tc (Variable x) =
     (let t = find_symbol tc x in
      if t = TY_UNDECLARED then (TY_UNKNOWN, type_error tc (buffer 256 (''use of undeclared variable '' @ quoted x @ ''.'')))
      else (t, tc))"
| "expr_type tc (IndexExpression a i) =
     (let (container, tc) = expr_type tc a; (index, tc) = expr_type tc i in index_type tc container index i)"
| "expr_type tc (MemberExpression ob m) =
     (let (t, tc) = expr_type tc ob in
      (TY_UNKNOWN, error_if (t = TY_VOID) ''void function call cannot be used for member access.'' tc))"
| "expr_type tc (FunctionCall f as n) =
     (let name = resolve_function_call tc f n;
          tc = check_unsafe_call tc name;
          tc = no_void_values ''void function call cannot be used as an argument.'' tc as;
          (fn, tc) = check_arity tc name n;
          tc = (case fn of None \<Rightarrow> tc | Some fn \<Rightarrow> check_arguments fn name 0 tc as);
          tc = error_if (find_struct tc name \<noteq> None \<and> n \<noteq> 0) ''struct constructors currently take no arguments.'' tc in
      (call_result tc name, tc))"
| "expr_type tc (UnaryExpression e op) = (let (t, tc) = expr_type tc e in unary_type tc op t)"
| "expr_type tc (BinaryExpression l r op) =
     (let (left, tc) = expr_type tc l; (right, tc) = expr_type tc r;
          (byte_comparison, tc) =
            (if op \<noteq> BINARY_EQUAL \<and> op \<noteq> BINARY_NOT_EQUAL then (False, tc)
             else if left = TY_STRING \<and> right = TY_INT then is_string_index_expr tc l
             else if left = TY_INT \<and> right = TY_STRING then is_string_index_expr tc r
             else (False, tc)) in
      binary_type tc op left right byte_comparison)"
| "expr_type tc _ = (TY_UNKNOWN, tc)"
| "no_void_values message tc [] = tc"
| "no_void_values message tc (e # es) =
     (let (t, tc) = expr_type tc e in no_void_values message (error_if (t = TY_VOID) message tc) es)"
| "check_arguments fn name i tc [] = tc"
| "check_arguments fn name i tc (a # as) =
     (let tc = (case typed_parameter fn i of
          None \<Rightarrow> tc
        | Some p \<Rightarrow>
            let expected = type_from_name p; (actual, tc) = expr_type tc a in
            if expected = TY_UNDECLARED \<or> expected = TY_VOID then type_error tc ''function parameter uses an invalid type.''
            else if type_compatible expected actual then tc
            else
              let (byte_argument, tc) =
                (if expected = TY_INT \<and> actual = TY_STRING then is_string_index_expr tc a else (False, tc)) in
              error_if (\<not> byte_argument) (argument_mismatch fn i name expected actual) tc) in
      check_arguments fn name (i + 1) tc as)"
| "is_string_index_expr tc e =
     (case index_array e of
        None \<Rightarrow> (False, tc)
      | Some a \<Rightarrow> let (t, tc) = expr_type tc a in (t = TY_STRING, tc))"
  by pat_completeness auto
termination
  by (relation "measure (\<lambda>x. case x of
        Inl (Inl (tc, e)) \<Rightarrow> size e
      | Inl (Inr (m, tc, es)) \<Rightarrow> size_list size es
      | Inr (Inl (fn, name, i, tc, es)) \<Rightarrow> size_list size es
      | Inr (Inr (tc, e)) \<Rightarrow> size e)") auto

text \<open>The tree after \<open>expr_type\<close> has resolved the names of its calls.\<close>

fun resolve_calls :: "type_checker \<Rightarrow> ast \<Rightarrow> ast" where
  "resolve_calls tc (ArrayLiteral es n) = ArrayLiteral (map (resolve_calls tc) es) n"
| "resolve_calls tc (IndexExpression a i) = IndexExpression (resolve_calls tc a) (resolve_calls tc i)"
| "resolve_calls tc (MemberExpression ob m) = MemberExpression (resolve_calls tc ob) m"
| "resolve_calls tc (FunctionCall f as n) = FunctionCall (resolve_function_call tc f n) (map (resolve_calls tc) as) n"
| "resolve_calls tc (UnaryExpression e op) = UnaryExpression (resolve_calls tc e) op"
| "resolve_calls tc (BinaryExpression l r op) = BinaryExpression (resolve_calls tc l) (resolve_calls tc r) op"
| "resolve_calls tc e = e"

section \<open>Declarations\<close>

definition collect_function :: "type_checker \<Rightarrow> function_def \<Rightarrow> type_checker" where
  "collect_function tc f =
     (if find_function tc (def_name f) \<noteq> None then type_error tc ''duplicate function definition.''
      else tc\<lparr>tc_functions := tc_functions tc @ [f]\<rparr>)"

definition collect_struct :: "type_checker \<Rightarrow> string \<Rightarrow> string list \<Rightarrow> type_checker" where
  "collect_struct tc name field_names =
     (let tc = error_if (\<not> distinct field_names) ''duplicate struct field name.'' tc in
      if tc_error tc then tc
      else if find_struct tc name \<noteq> None then type_error tc ''duplicate struct definition.''
      else tc\<lparr>tc_structs := tc_structs tc @ [\<lparr>struct_name = name, struct_fields = length field_names\<rparr>]\<rparr>)"

fun collect_declarations :: "type_checker \<Rightarrow> ast list \<Rightarrow> type_checker" where
  "collect_declarations tc [] = tc"
| "collect_declarations tc (FunctionDeclaration f ps ts n r u b # ss) =
     collect_declarations (collect_function tc
       \<lparr>def_name = f, def_arity = n, def_parameters = ps, def_types = ts, def_return = r, def_unsafe = u\<rparr>) ss"
| "collect_declarations tc (StructDeclaration s fs n # ss) = collect_declarations (collect_struct tc s (take n fs)) ss"
| "collect_declarations tc (_ # ss) = collect_declarations tc ss"

fun statement_returns :: "ast \<Rightarrow> bool" where
  "statement_returns (ReturnStatement e) = True"
| "statement_returns (UnsafeBlock ss) = list_ex statement_returns ss"
| "statement_returns (IfStatement c t e) = (e \<noteq> [] \<and> list_ex statement_returns t \<and> list_ex statement_returns e)"
| "statement_returns _ = False"

definition statement_list_returns :: "ast list \<Rightarrow> bool" where
  "statement_list_returns ss = list_ex statement_returns ss"

section \<open>Statements\<close>

text \<open>The declaration or assignment of a variable, with the flag \<open>is_reassignment\<close> it gets.\<close>

definition check_declared :: "type_checker \<Rightarrow> string \<Rightarrow> string \<Rightarrow> type_kind \<Rightarrow> bool \<Rightarrow> bool \<Rightarrow> type_checker" where
  "check_declared tc x t value_type exists shadows =
     (let declared = type_from_name t in
      if declared = TY_UNDECLARED \<or> declared = TY_VOID then type_error tc (buffer 256 (''unknown type '' @ quoted t @ ''.''))
      else if exists \<and> \<not> shadows then type_error tc (quoted ''let'' @ '' cannot redeclare a variable in the same scope.'')
      else if \<not> type_compatible declared value_type then
        type_error tc (buffer 256 (''initializer for '' @ quoted x @ '' expects '' @ type_name_of declared @ '' but received ''
          @ type_name_of value_type @ ''.''))
      else if shadows then add_symbol tc x declared True
      else set_symbol tc x declared True)"

definition assignment_mismatch :: "type_kind \<Rightarrow> type_kind \<Rightarrow> string" where
  "assignment_mismatch target_type value_type =
     buffer 192 (''assignment target has type '' @ type_name_of target_type @ '' but assigned value has type ''
       @ type_name_of value_type @ ''.'')"

definition check_variable :: "type_checker \<Rightarrow> string \<Rightarrow> string option \<Rightarrow> ast \<Rightarrow> bool \<times> type_checker" where
  "check_variable tc x t v =
     (let existing = find_symbol_index (tc_symbols tc) x;
          shadows = (t \<noteq> None \<and> (case existing of None \<Rightarrow> False | Some i \<Rightarrow> tc_depth (tc_symbols tc ! i) < scope_depth tc));
          (value_type, tc) = expr_type tc v in
      (existing \<noteq> None \<and> \<not> shadows,
       if value_type = TY_VOID then type_error tc ''void function call cannot initialize a variable.''
       else case t of
         Some t \<Rightarrow> check_declared tc x t value_type (existing \<noteq> None) shadows
       | None \<Rightarrow>
           (case existing of
              Some i \<Rightarrow>
                let s = tc_symbols tc ! i in
                if explicit_type s \<and> \<not> type_compatible (tc_type s) value_type then
                  type_error tc (assignment_mismatch (tc_type s) value_type)
                else set_symbol tc x value_type False
            | None \<Rightarrow> set_symbol tc x value_type False)))"

definition check_assignment :: "type_checker \<Rightarrow> ast \<Rightarrow> ast \<Rightarrow> type_checker" where
  "check_assignment tc t v =
     (let (target_type, tc) = expr_type tc t; (value_type, tc) = expr_type tc v in
      if value_type = TY_VOID then type_error tc ''void function call cannot be assigned as a value.''
      else
        let (string_index, tc) = is_string_index_expr tc t in
        error_if (target_type \<noteq> TY_UNKNOWN \<and> target_type \<noteq> TY_UNDECLARED \<and> \<not> type_compatible target_type value_type
            \<and> \<not> (string_index \<and> value_type = TY_INT))
          (assignment_mismatch target_type value_type) tc)"

definition check_condition :: "string \<Rightarrow> type_checker \<Rightarrow> ast \<Rightarrow> type_checker" where
  "check_condition message tc c =
     (let (t, tc) = expr_type tc c in
      if t = TY_VOID then type_error tc ''void function call cannot be used as a control-flow condition.''
      else error_if (t \<noteq> TY_BOOL \<and> t \<noteq> TY_UNKNOWN) message tc)"

definition check_return :: "type_checker \<Rightarrow> ast option \<Rightarrow> type_checker" where
  "check_return tc e =
     (if \<not> in_function tc then type_error tc ''return used outside a function.''
      else
        let (actual, tc) = (case e of None \<Rightarrow> (TY_UNKNOWN, tc) | Some e \<Rightarrow> expr_type tc e) in
        if expected_return tc = TY_VOID then error_if (e \<noteq> None) ''void function cannot return a value.'' tc
        else if e = None then type_error tc ''non-void function must return a value.''
        else if actual = TY_VOID then type_error tc ''void function call cannot be returned as a value.''
        else error_if (expected_return tc \<noteq> TY_UNKNOWN \<and> \<not> type_compatible (expected_return tc) actual)
          (buffer 192 (''function return type mismatch: expected '' @ type_name_of (expected_return tc) @ '' but returned ''
             @ type_name_of actual @ ''.'')) tc)"

text \<open>The loop over the parameters of a declaration; \<open>seen\<close> are the parameters before.\<close>

fun add_parameters :: "string list \<Rightarrow> type_checker \<Rightarrow> (string \<times> string option) list \<Rightarrow> type_checker" where
  "add_parameters seen tc [] = tc"
| "add_parameters seen tc ((p, t) # ps) =
     (let tc = error_if (p \<in> set seen) ''duplicate function parameter name.'' tc in
      if tc_error tc then tc
      else let pt = (case t of None \<Rightarrow> TY_UNKNOWN | Some t \<Rightarrow> type_from_name t) in
        if t \<noteq> None \<and> (pt = TY_UNDECLARED \<or> pt = TY_VOID) then type_error tc ''function declares an invalid parameter type.''
        else add_parameters (p # seen) (add_symbol tc p pt (pt \<noteq> TY_UNKNOWN)) ps)"

text \<open>The namespace of a module function is what precedes the first \<open>__\<close> of its name.\<close>

definition name_prefix :: "string \<Rightarrow> string option" where
  "name_prefix name = map_option (\<lambda>rest. take (length name - length rest) name) (strstr name ''__'')"

definition enter_function :: "type_checker \<Rightarrow> string \<Rightarrow> (string \<times> string option) list \<Rightarrow> string option \<Rightarrow> type_checker" where
  "enter_function tc f ps r =
     (let tc = tc\<lparr>function_namespace := (case name_prefix f of None \<Rightarrow> function_namespace tc | Some ns \<Rightarrow> Some ns),
            scope_depth := scope_depth tc + 1, loop_depth := 0, in_function := True,
            expected_return := (case r of None \<Rightarrow> TY_UNKNOWN | Some r \<Rightarrow> type_from_name r)\<rparr>;
          tc = error_if (r \<noteq> None \<and> expected_return tc = TY_UNDECLARED) ''function declares an unknown return type.'' tc in
      add_parameters [] tc ps)"

definition leave_function :: "type_checker \<Rightarrow> string \<Rightarrow> ast list \<Rightarrow> type_checker \<Rightarrow> type_checker" where
  "leave_function old f body tc =
     (let tc = error_if (expected_return tc \<noteq> TY_UNKNOWN \<and> expected_return tc \<noteq> TY_VOID \<and> \<not> statement_list_returns body)
            (buffer 320 (''typed function '' @ quoted f @ '' returning '' @ type_name_of (expected_return tc)
               @ '' does not return a value on every path.'')) tc in
      (discard_symbols_to (length (tc_symbols old)) tc)\<lparr>expected_return := expected_return old, in_function := in_function old,
        loop_depth := loop_depth old, function_namespace := function_namespace old, scope_depth := scope_depth old\<rparr>)"

fun check_statement :: "type_checker \<Rightarrow> ast \<Rightarrow> ast \<times> type_checker"
  and check_statements :: "type_checker \<Rightarrow> ast list \<Rightarrow> ast list \<times> type_checker" where
  "check_statement tc (VariableDeclaration x t v reassign) =
     (let (reassign, tc') = check_variable tc x t v in (VariableDeclaration x t (resolve_calls tc v) reassign, tc'))"
| "check_statement tc (Assignment t v) = (Assignment (resolve_calls tc t) (resolve_calls tc v), check_assignment tc t v)"
| "check_statement tc (PrintStatement e) =
     (let (t, tc') = expr_type tc e in
      (PrintStatement (resolve_calls tc e), error_if (t = TY_VOID) ''void function call cannot be printed as a value.'' tc'))"
| "check_statement tc (IfStatement c th el) =
     (let c' = resolve_calls tc c;
          tc = check_condition ''if condition must be boolean.'' tc c;
          n = length (tc_symbols tc);
          before_states = snapshot_symbols tc n;
          (th, tc) = check_statements (tc\<lparr>scope_depth := scope_depth tc + 1\<rparr>) th;
          then_states = snapshot_symbols tc n;
          tc = discard_symbols_to n tc;
          tc = restore_symbols before_states (tc\<lparr>scope_depth := scope_depth tc - 1\<rparr>) in
      if tc_error tc then (IfStatement c' th el, tc)
      else
        let (el, tc) = check_statements (tc\<lparr>scope_depth := scope_depth tc + 1\<rparr>) el;
            tc = discard_symbols_to n tc in
        (IfStatement c' th el, merge_branch_symbols before_states then_states (tc\<lparr>scope_depth := scope_depth tc - 1\<rparr>)))"
| "check_statement tc (WhileStatement c b) =
     (let c' = resolve_calls tc c;
          tc = check_condition ''while condition must be boolean.'' tc c;
          n = length (tc_symbols tc);
          (b, tc) = check_statements (tc\<lparr>scope_depth := scope_depth tc + 1, loop_depth := loop_depth tc + 1\<rparr>) b;
          tc = discard_symbols_to n (tc\<lparr>loop_depth := loop_depth tc - 1\<rparr>) in
      (WhileStatement c' b, tc\<lparr>scope_depth := scope_depth tc - 1\<rparr>))"
| "check_statement tc (ReturnStatement e) = (ReturnStatement (if in_function tc then map_option (resolve_calls tc) e else e), check_return tc e)"
| "check_statement tc (FunctionCall f as n) = (resolve_calls tc (FunctionCall f as n), snd (expr_type tc (FunctionCall f as n)))"
| "check_statement tc (AsmStatement a v) =
     (AsmStatement a v, error_if (unsafe_depth tc = 0) ''inline assembly may only be used inside an unsafe block.'' tc)"
| "check_statement tc (UnsafeBlock ss) =
     (let n = length (tc_symbols tc);
          (ss, tc) = check_statements (tc\<lparr>scope_depth := scope_depth tc + 1, unsafe_depth := unsafe_depth tc + 1\<rparr>) ss;
          tc = discard_symbols_to n (tc\<lparr>unsafe_depth := unsafe_depth tc - 1\<rparr>) in
      (UnsafeBlock ss, tc\<lparr>scope_depth := scope_depth tc - 1\<rparr>))"
| "check_statement tc (FunctionDeclaration f ps ts n r u b) =
     (let (b', tc') = check_statements (enter_function tc f (take n (zip ps ts)) r) b in
      (FunctionDeclaration f ps ts n r u b', leave_function tc f b tc'))"
| "check_statement tc BreakStatement = (BreakStatement, error_if (loop_depth tc = 0) ''break used outside a loop.'' tc)"
| "check_statement tc ContinueStatement = (ContinueStatement, error_if (loop_depth tc = 0) ''continue used outside a loop.'' tc)"
| "check_statement tc s = (s, tc)"
| "check_statements tc [] = ([], tc)"
| "check_statements tc (s # ss) =
     (if tc_error tc then (s # ss, tc)
      else let (s, tc) = check_statement tc s; (ss, tc) = check_statements tc ss in (s # ss, tc))"

definition new_checker :: type_checker where
  "new_checker = \<lparr>tc_symbols = [], tc_functions = [], tc_structs = [], tc_error = False, tc_messages = [],
     expected_return = TY_UNDECLARED, in_function = False, scope_depth = 0, unsafe_depth = 0, loop_depth = 0,
     function_namespace = None\<rparr>"

text \<open>\<open>vnt_typecheck\<close>: the result, the tree as it has been changed, and the messages.\<close>

fun vnt_typecheck :: "ast \<Rightarrow> bool \<times> ast \<times> string list" where
  "vnt_typecheck (Program ss) =
     (let tc = collect_declarations new_checker ss in
      if tc_error tc then (False, Program ss, tc_messages tc)
      else let (ss, tc) = check_statements tc ss in (\<not> tc_error tc, Program ss, tc_messages tc))"
| "vnt_typecheck a = (False, a, [])"

end
