(* ===== verification/TypeCheckSpec.thy ===== *)
theory TypeCheckSpec
  imports TypeCheck
begin

text \<open>
  The typing rules of expressions, as a type \<open>ty\<close> and a judgement \<open>well_typed\<close> by recursion on the tree, and
  the proof that \<open>expr_type\<close> decides them: it returns the type, and reports an error exactly when the expression is
  not well typed.
\<close>

section \<open>Typing rules\<close>

fun unary_result :: "unary_operator \<Rightarrow> type_kind \<Rightarrow> type_kind" where
  "unary_result UNARY_NOT t = TY_BOOL"
| "unary_result UNARY_NEGATE t = t"
| "unary_result UNARY_REFERENCE t = TY_REFERENCE"
| "unary_result UNARY_DEREFERENCE t = TY_UNKNOWN"

fun unary_ok :: "unary_operator \<Rightarrow> type_kind \<Rightarrow> bool" where
  "unary_ok UNARY_NOT t \<longleftrightarrow> t = TY_BOOL \<or> t = TY_UNKNOWN"
| "unary_ok UNARY_NEGATE t \<longleftrightarrow> numeric t \<or> t = TY_UNKNOWN"
| "unary_ok UNARY_REFERENCE t \<longleftrightarrow> t \<noteq> TY_VOID"
| "unary_ok UNARY_DEREFERENCE t \<longleftrightarrow> t = TY_REFERENCE \<or> t = TY_UNKNOWN"

definition arithmetic_result :: "type_kind \<Rightarrow> type_kind \<Rightarrow> type_kind" where
  "arithmetic_result l r =
     (if numeric l \<and> numeric r then
        if TY_FLOAT \<in> {l, r} then TY_FLOAT else if TY_I64 \<in> {l, r} then TY_I64 else TY_INT
      else TY_UNKNOWN)"

definition arithmetic_ok :: "type_kind \<Rightarrow> type_kind \<Rightarrow> bool" where
  "arithmetic_ok l r \<longleftrightarrow> numeric l \<and> numeric r \<or> TY_UNKNOWN \<in> {l, r}"

definition concatenable :: "type_kind \<Rightarrow> bool" where
  "concatenable t \<longleftrightarrow> t \<in> {TY_STRING, TY_INT, TY_FLOAT, TY_BOOL, TY_UNKNOWN}"

definition comparisons :: "binary_operator set" where
  "comparisons = {BINARY_GREATER, BINARY_LESS, BINARY_GREATER_EQUAL, BINARY_LESS_EQUAL}"

text \<open>For \<open>+\<close> with a string on one side, the other side has to be concatenable.\<close>

definition binary_result :: "binary_operator \<Rightarrow> type_kind \<Rightarrow> type_kind \<Rightarrow> type_kind" where
  "binary_result op l r =
     (if TY_VOID \<in> {l, r} then TY_UNKNOWN
      else if op \<in> {BINARY_AND, BINARY_OR, BINARY_EQUAL, BINARY_NOT_EQUAL} \<union> comparisons then TY_BOOL
      else if op = BINARY_ADD \<and> TY_STRING \<in> {l, r} then if concatenable l \<and> concatenable r then TY_STRING else TY_UNKNOWN
      else arithmetic_result l r)"

definition binary_ok :: "binary_operator \<Rightarrow> type_kind \<Rightarrow> type_kind \<Rightarrow> bool \<Rightarrow> bool" where
  "binary_ok op l r byte_comparison \<longleftrightarrow>
     TY_VOID \<notin> {l, r} \<and>
     (if op \<in> {BINARY_AND, BINARY_OR} then {l, r} \<subseteq> {TY_BOOL, TY_UNKNOWN}
      else if op \<in> {BINARY_EQUAL, BINARY_NOT_EQUAL} then type_compatible l r \<or> byte_comparison
      else if op \<in> comparisons then (numeric l \<or> l = TY_UNKNOWN) \<and> (numeric r \<or> r = TY_UNKNOWN)
      else if op = BINARY_ADD \<and> TY_STRING \<in> {l, r} then concatenable l \<and> concatenable r
      else arithmetic_ok l r)"

text \<open>May a function of this name be called here, with this many arguments?\<close>

definition call_allowed :: "type_checker \<Rightarrow> string \<Rightarrow> bool" where
  "call_allowed tc name \<longleftrightarrow> 0 < unsafe_depth tc
     \<or> name \<notin> set raw_memory_builtins \<and> (\<forall>f. find_function tc name = Some f \<longrightarrow> \<not> def_unsafe f)"

definition arity_ok :: "type_checker \<Rightarrow> string \<Rightarrow> nat \<Rightarrow> bool" where
  "arity_ok tc name n \<longleftrightarrow>
     (case builtin_arity name n of
        Some accepts \<Rightarrow> accepts
      | None \<Rightarrow> if find_struct tc name \<noteq> None then n = 0 else \<exists>f. find_function tc name = Some f \<and> def_arity f = n)"

fun parameters_ok :: "function_def \<Rightarrow> nat \<Rightarrow> (type_kind \<times> bool) list \<Rightarrow> bool" where
  "parameters_ok f i [] \<longleftrightarrow> True"
| "parameters_ok f i ((actual, is_byte) # ts) \<longleftrightarrow>
     (case typed_parameter f i of
        None \<Rightarrow> True
      | Some p \<Rightarrow> type_from_name p \<noteq> TY_UNDECLARED \<and> type_from_name p \<noteq> TY_VOID
          \<and> (type_compatible (type_from_name p) actual \<or> type_from_name p = TY_INT \<and> actual = TY_STRING \<and> is_byte))
     \<and> parameters_ok f (i + 1) ts"

text \<open>The user function a call is checked against; builtins and structs come first.\<close>

definition checked_function :: "type_checker \<Rightarrow> string \<Rightarrow> nat \<Rightarrow> function_def option" where
  "checked_function tc name n =
     (if builtin_arity name n \<noteq> None \<or> find_struct tc name \<noteq> None then None else find_function tc name)"

definition call_ok :: "type_checker \<Rightarrow> string \<Rightarrow> nat \<Rightarrow> (type_kind \<times> bool) list \<Rightarrow> bool" where
  "call_ok tc name n ts \<longleftrightarrow> call_allowed tc name \<and> arity_ok tc name n \<and> (find_struct tc name \<noteq> None \<longrightarrow> n = 0)
     \<and> (\<forall>f. checked_function tc name n = Some f \<longrightarrow> parameters_ok f 0 ts)"

fun ty :: "type_checker \<Rightarrow> ast \<Rightarrow> type_kind" where
  "ty tc (IntegerLiteral v) = (if - (2 ^ 31) \<le> v \<and> v < 2 ^ 31 then TY_INT else TY_I64)"
| "ty tc (FloatLiteral v) = TY_FLOAT"
| "ty tc (BooleanLiteral v) = TY_BOOL"
| "ty tc NullLiteral = TY_POINTER"
| "ty tc (StringLiteral v) = TY_STRING"
| "ty tc (ArrayLiteral es n) = TY_ARRAY"
| "ty tc (Variable x) = (if find_symbol tc x = TY_UNDECLARED then TY_UNKNOWN else find_symbol tc x)"
| "ty tc (IndexExpression a i) = (if ty tc a = TY_STRING then TY_STRING else TY_UNKNOWN)"
| "ty tc (FunctionCall f as n) = call_result tc (resolve_function_call tc f n)"
| "ty tc (UnaryExpression e op) = (if ty tc e = TY_VOID then TY_UNKNOWN else unary_result op (ty tc e))"
| "ty tc (BinaryExpression l r op) = binary_result op (ty tc l) (ty tc r)"
| "ty tc _ = TY_UNKNOWN"

definition is_byte :: "type_checker \<Rightarrow> ast \<Rightarrow> bool" where
  "is_byte tc e \<longleftrightarrow> (\<exists>a. index_array e = Some a \<and> ty tc a = TY_STRING)"

definition byte_pair :: "type_checker \<Rightarrow> ast \<Rightarrow> ast \<Rightarrow> bool" where
  "byte_pair tc l r \<longleftrightarrow> ty tc l = TY_STRING \<and> ty tc r = TY_INT \<and> is_byte tc l
     \<or> ty tc l = TY_INT \<and> ty tc r = TY_STRING \<and> is_byte tc r"

fun well_typed :: "type_checker \<Rightarrow> ast \<Rightarrow> bool" where
  "well_typed tc (ArrayLiteral es n) \<longleftrightarrow> (\<forall>e \<in> set es. well_typed tc e \<and> ty tc e \<noteq> TY_VOID)"
| "well_typed tc (Variable x) \<longleftrightarrow> find_symbol tc x \<noteq> TY_UNDECLARED"
| "well_typed tc (IndexExpression a i) \<longleftrightarrow> well_typed tc a \<and> well_typed tc i
     \<and> ty tc i \<in> {TY_INT, TY_UNKNOWN} \<and> ty tc a \<in> {TY_ARRAY, TY_STRING, TY_OBJECT, TY_UNKNOWN}"
| "well_typed tc (MemberExpression ob m) \<longleftrightarrow> well_typed tc ob \<and> ty tc ob \<noteq> TY_VOID"
| "well_typed tc (FunctionCall f as n) \<longleftrightarrow> (\<forall>a \<in> set as. well_typed tc a \<and> ty tc a \<noteq> TY_VOID)
     \<and> call_ok tc (resolve_function_call tc f n) n (map (\<lambda>a. (ty tc a, is_byte tc a)) as)"
| "well_typed tc (UnaryExpression e op) \<longleftrightarrow> well_typed tc e \<and> unary_ok op (ty tc e)"
| "well_typed tc (BinaryExpression l r op) \<longleftrightarrow> well_typed tc l \<and> well_typed tc r
     \<and> binary_ok op (ty tc l) (ty tc r) (byte_pair tc l r)"
| "well_typed tc _ \<longleftrightarrow> True"

section \<open>Verdicts\<close>

definition may_report :: "type_checker \<Rightarrow> type_checker \<Rightarrow> bool" where
  "may_report tc tc' \<longleftrightarrow> tc' = tc \<or> \<not> tc_error tc \<and> (\<exists>m. tc' = tc\<lparr>tc_error := True, tc_messages := tc_messages tc @ [m]\<rparr>)"

text \<open>A check that passes when \<open>ok\<close>; after an earlier error it changes nothing.\<close>

definition verdict :: "type_checker \<Rightarrow> bool \<Rightarrow> type_checker \<Rightarrow> bool" where
  "verdict tc ok tc' \<longleftrightarrow> may_report tc tc' \<and> (\<not> tc_error tc \<longrightarrow> (tc_error tc' \<longleftrightarrow> \<not> ok))"

lemma may_report_refl [simp, intro]: "may_report tc tc"
  by (simp add: may_report_def)

lemma may_report_trans: "may_report tc tc' \<Longrightarrow> may_report tc' tc'' \<Longrightarrow> may_report tc tc''"
  by (auto simp: may_report_def)

lemma may_report_sticky: "may_report tc tc' \<Longrightarrow> tc_error tc \<Longrightarrow> tc' = tc"
  by (auto simp: may_report_def)

lemma may_report_no_error: "may_report tc tc' \<Longrightarrow> \<not> tc_error tc' \<Longrightarrow> tc' = tc"
  by (auto simp: may_report_def)

lemma verdict_reports: "verdict tc ok tc' \<Longrightarrow> may_report tc tc'"
  by (simp add: verdict_def)

lemma verdict_pass [simp]: "verdict tc True tc"
  by (simp add: verdict_def)

lemma verdict_error [simp]: "verdict tc False (type_error tc m)"
  by (auto simp: verdict_def may_report_def type_error_def)

lemma type_error_sticks [simp]: "tc_error (type_error tc m)"
  by (simp add: type_error_def)

lemma report_error: "may_report tc tc' \<Longrightarrow> may_report tc (type_error tc' m)"
  by (rule may_report_trans [OF _ verdict_reports [OF verdict_error]])

lemma verdict_cong: "verdict tc ok tc' \<Longrightarrow> ok = ok' \<Longrightarrow> verdict tc ok' tc'"
  by simp

lemma verdict_error_if: "verdict tc (\<not> b) (error_if b m tc)"
  by simp

lemma verdict_seq: "verdict tc a tc' \<Longrightarrow> verdict tc' b tc'' \<Longrightarrow> verdict tc (a \<and> b) tc''"
  unfolding verdict_def using may_report_trans may_report_sticky by blast

lemma verdict_no_error: "verdict tc ok tc' \<Longrightarrow> \<not> tc_error tc' \<Longrightarrow> tc' = tc \<and> ok"
  by (auto simp: verdict_def may_report_def)

text \<open>What the rules read of the state is not touched by reports.\<close>

lemma report_tables [simp]:
  "find_symbol (tc\<lparr>tc_error := b, tc_messages := ms\<rparr>) = find_symbol tc"
  "find_function (tc\<lparr>tc_error := b, tc_messages := ms\<rparr>) = find_function tc"
  "find_struct (tc\<lparr>tc_error := b, tc_messages := ms\<rparr>) = find_struct tc"
  by (auto simp: find_symbol_def find_function_def find_struct_def fun_eq_iff split: option.splits)

lemma report_calls [simp]:
  "resolve_function_call (tc\<lparr>tc_error := b, tc_messages := ms\<rparr>) = resolve_function_call tc"
  "call_result (tc\<lparr>tc_error := b, tc_messages := ms\<rparr>) = call_result tc"
  "call_ok (tc\<lparr>tc_error := b, tc_messages := ms\<rparr>) = call_ok tc"
  by (auto simp: fun_eq_iff resolve_function_call_def call_result_def call_ok_def call_allowed_def arity_ok_def checked_function_def
      Let_def split: option.splits)

lemma report_ty [simp]: "ty (tc\<lparr>tc_error := b, tc_messages := ms\<rparr>) e = ty tc e"
  by (induction tc e rule: ty.induct) simp_all

lemma report_byte [simp]: "is_byte (tc\<lparr>tc_error := b, tc_messages := ms\<rparr>) e = is_byte tc e"
  by (simp add: is_byte_def)

lemma report_well_typed [simp]: "well_typed (tc\<lparr>tc_error := b, tc_messages := ms\<rparr>) e = well_typed tc e"
  by (induction tc e rule: well_typed.induct) (simp_all add: byte_pair_def)

lemma may_report_same:
  assumes "may_report tc tc'"
  shows "ty tc' = ty tc" "well_typed tc' = well_typed tc" "is_byte tc' = is_byte tc" "find_struct tc' = find_struct tc"
    "find_function tc' = find_function tc" "resolve_function_call tc' = resolve_function_call tc" "call_result tc' = call_result tc"
    "arity_ok tc' = arity_ok tc"
  using assms by (auto simp: may_report_def fun_eq_iff arity_ok_def split: option.splits)

section \<open>\<open>expr_type\<close> decides the rules\<close>

lemma check_unsafe_call_verdict: "verdict tc (call_allowed tc name) (check_unsafe_call tc name)"
proof -
  let ?u = "case find_function tc name of None \<Rightarrow> False | Some f \<Rightarrow> def_unsafe f"
  let ?tc = "error_if (?u \<and> unsafe_depth tc = 0) ''unsafe function calls must be inside an unsafe block.'' tc"
  have d: "unsafe_depth ?tc = unsafe_depth tc" by (simp add: type_error_def)
  have "verdict tc (\<not> (?u \<and> unsafe_depth tc = 0) \<and> \<not> (name \<in> set raw_memory_builtins \<and> unsafe_depth ?tc = 0)) (check_unsafe_call tc name)"
    unfolding check_unsafe_call_def Let_def by (intro verdict_seq [OF verdict_error_if verdict_error_if])
  then show ?thesis unfolding d by (rule verdict_cong) (auto simp: call_allowed_def split: option.splits)
qed

lemma check_arity_verdict:
  "verdict tc (arity_ok tc name n) (snd (check_arity tc name n))"
  "\<not> tc_error (snd (check_arity tc name n)) \<Longrightarrow> fst (check_arity tc name n) = checked_function tc name n"
  by (auto simp: check_arity_def arity_ok_def checked_function_def split: option.splits if_splits)

lemma index_type_verdict:
  "fst (index_type tc c i e) = (if c = TY_STRING then TY_STRING else TY_UNKNOWN)"
  "verdict tc (i \<in> {TY_INT, TY_UNKNOWN} \<and> c \<in> {TY_ARRAY, TY_STRING, TY_OBJECT, TY_UNKNOWN}) (snd (index_type tc c i e))"
proof -
  show "fst (index_type tc c i e) = (if c = TY_STRING then TY_STRING else TY_UNKNOWN)" by (simp add: index_type_def Let_def)
  have "verdict tc (\<not> (i \<noteq> TY_INT \<and> i \<noteq> TY_UNKNOWN) \<and> \<not> (c \<noteq> TY_ARRAY \<and> c \<noteq> TY_STRING \<and> c \<noteq> TY_UNKNOWN \<and> c \<noteq> TY_OBJECT))
    (snd (index_type tc c i e))"
    unfolding index_type_def Let_def snd_conv by (intro verdict_seq [OF verdict_error_if verdict_error_if])
  then show "verdict tc (i \<in> {TY_INT, TY_UNKNOWN} \<and> c \<in> {TY_ARRAY, TY_STRING, TY_OBJECT, TY_UNKNOWN}) (snd (index_type tc c i e))"
    by (rule verdict_cong) auto
qed

lemma unary_type_verdict:
  "fst (unary_type tc op t) = (if t = TY_VOID then TY_UNKNOWN else unary_result op t)"
  "verdict tc (unary_ok op t) (snd (unary_type tc op t))"
  by (cases op; auto simp: unary_type_def numeric_def)+

lemma binary_type_verdict:
  "fst (binary_type tc op l r b) = binary_result op l r"
  "verdict tc (binary_ok op l r b) (snd (binary_type tc op l r b))"
  unfolding binary_type_def binary_result_def binary_ok_def comparisons_def type_compatible_def Let_def
  by (auto simp: numeric_def concatenable_def arithmetic_result_def arithmetic_ok_def)

text \<open>
  The induction is on the size of the expression, since \<open>is_string_index_expr\<close> looks one level further
  down. The loops are treated under the assumption that the expressions they look at are decided.
\<close>

definition decided :: "ast \<Rightarrow> bool" where
  "decided e \<longleftrightarrow> (\<forall>tc. fst (expr_type tc e) = ty tc e \<and> verdict tc (well_typed tc e) (snd (expr_type tc e)))"

definition parts :: "ast \<Rightarrow> ast set" where
  "parts e = insert e (set_option (index_array e))"

lemma parts_size: "c \<in> parts e \<Longrightarrow> size c \<le> size e"
  by (auto simp: parts_def less_imp_le)

lemma decidedE:
  assumes "decided e"
  obtains tc' where "expr_type tc e = (ty tc e, tc')" "verdict tc (well_typed tc e) tc'"
  using assms unfolding decided_def by (metis prod.collapse)

lemma no_void_values_verdict:
  "\<forall>e \<in> set es. decided e \<Longrightarrow> verdict tc (\<forall>e \<in> set es. well_typed tc e \<and> ty tc e \<noteq> TY_VOID) (no_void_values m tc es)"
proof (induction es arbitrary: tc)
  case (Cons e es)
  then have "decided e" by simp
  then obtain tc1 where e: "expr_type tc e = (ty tc e, tc1)" "verdict tc (well_typed tc e) tc1" by (rule decidedE)
  define tc2 where "tc2 = error_if (ty tc e = TY_VOID) m tc1"
  have 2: "verdict tc (well_typed tc e \<and> ty tc e \<noteq> TY_VOID) tc2"
    unfolding tc2_def by (rule verdict_seq [OF e(2) verdict_error_if])
  have "verdict tc2 (\<forall>e \<in> set es. well_typed tc2 e \<and> ty tc2 e \<noteq> TY_VOID) (no_void_values m tc2 es)"
    using Cons by simp
  from verdict_seq [OF 2 this] show ?case
    by (simp add: e(1) tc2_def may_report_same [OF verdict_reports [OF 2, unfolded tc2_def]] conj_assoc)
qed simp

lemma is_string_index_verdict:
  assumes "\<forall>c \<in> parts e. decided c"
  shows "fst (is_string_index_expr tc e) = is_byte tc e" "may_report tc (snd (is_string_index_expr tc e))"
    "well_typed tc e \<Longrightarrow> snd (is_string_index_expr tc e) = tc"
proof -
  have "fst (is_string_index_expr tc e) = is_byte tc e \<and> may_report tc (snd (is_string_index_expr tc e))
    \<and> (well_typed tc e \<longrightarrow> snd (is_string_index_expr tc e) = tc)"
  proof (cases "index_array e")
    case (Some a)
    then have "decided a" and w: "well_typed tc e \<Longrightarrow> well_typed tc a"
      using assms by (auto simp: parts_def elim: index_array.elims)
    then obtain tc' where a: "expr_type tc a = (ty tc a, tc')" "verdict tc (well_typed tc a) tc'" by (blast elim: decidedE)
    from a(2) have "well_typed tc e \<longrightarrow> tc' = tc" using w by (auto simp: verdict_def may_report_def)
    with a(1) verdict_reports [OF a(2)] Some show ?thesis by (simp add: is_byte_def)
  qed (simp add: is_byte_def)
  then show "fst (is_string_index_expr tc e) = is_byte tc e" "may_report tc (snd (is_string_index_expr tc e))"
    "well_typed tc e \<Longrightarrow> snd (is_string_index_expr tc e) = tc" by blast+
qed

declare is_string_index_expr.simps [simp del]

lemma check_arguments_step:
  assumes dec: "\<forall>c \<in> parts a. decided c"
  obtains tc' where "check_arguments fn name i tc (a # as) = check_arguments fn name (i + 1) tc' as" "may_report tc tc'"
    "well_typed tc a \<longrightarrow> verdict tc (parameters_ok fn i [(ty tc a, is_byte tc a)]) tc'"
proof (cases "typed_parameter fn i")
  case None
  show ?thesis by (rule that [of tc]) (simp_all add: None)
next
  case (Some p)
  define q where "q = type_from_name p"
  obtain tc1 where e: "expr_type tc a = (ty tc a, tc1)" "verdict tc (well_typed tc a) tc1"
    using decidedE [of a tc] dec unfolding parts_def by blast
  obtain b tc2 where b: "is_string_index_expr tc1 a = (b, tc2)" by fastforce
  note r1 = verdict_reports [OF e(2)]
  have b2: "b = is_byte tc a" "may_report tc1 tc2" "well_typed tc a \<Longrightarrow> tc2 = tc1"
    using is_string_index_verdict [OF dec, of tc1] may_report_same [OF r1] by (simp_all add: b)
  define tc' where "tc' = (if q = TY_UNDECLARED \<or> q = TY_VOID then type_error tc1 ''function parameter uses an invalid type.''
    else if type_compatible q (ty tc a) then tc1
    else let (byte_argument, tc) = (if q = TY_INT \<and> ty tc a = TY_STRING then (b, tc2) else (False, tc1)) in
      error_if (\<not> byte_argument) (argument_mismatch fn i name q (ty tc1 a)) tc)"
  have "check_arguments fn name i tc (a # as) = check_arguments fn name (i + 1) tc' as"
    by (simp add: Some e(1) b q_def [symmetric] tc'_def Let_def may_report_same [OF r1] split: prod.splits)
  moreover have "may_report tc tc'"
    using r1 may_report_trans [OF r1 b2(2)] by (auto simp: tc'_def intro: report_error)
  moreover have "verdict tc (parameters_ok fn i [(ty tc a, is_byte tc a)]) tc'" if "well_typed tc a"
  proof -
    have "tc1 = tc" using e(2) that by (auto simp: verdict_def may_report_def)
    with b2 that have "tc2 = tc" by simp
    with \<open>tc1 = tc\<close> b2(1) show ?thesis by (auto simp: tc'_def Some q_def [symmetric])
  qed
  ultimately show ?thesis using that by blast
qed

lemma parameters_ok_Cons: "parameters_ok f i (t # ts) \<longleftrightarrow> parameters_ok f i [t] \<and> parameters_ok f (i + 1) ts"
  by (cases t) simp

lemma check_arguments_verdict:
  "\<forall>e \<in> set es. \<forall>c \<in> parts e. decided c \<Longrightarrow> may_report tc (check_arguments fn name i tc es) \<and>
   ((\<forall>e \<in> set es. well_typed tc e) \<longrightarrow>
    verdict tc (parameters_ok fn i (map (\<lambda>a. (ty tc a, is_byte tc a)) es)) (check_arguments fn name i tc es))"
proof (induction es arbitrary: tc i)
  case (Cons e es)
  have "\<forall>c \<in> parts e. decided c" using Cons.prems by simp
  then obtain tc' where s: "check_arguments fn name i tc (e # es) = check_arguments fn name (i + 1) tc' es" "may_report tc tc'"
    "well_typed tc e \<longrightarrow> verdict tc (parameters_ok fn i [(ty tc e, is_byte tc e)]) tc'"
    by (rule check_arguments_step)
  note IH = Cons.IH [of tc' "i + 1"]
  have "may_report tc (check_arguments fn name (i + 1) tc' es)" using IH Cons.prems may_report_trans [OF s(2)] by simp
  moreover have "verdict tc (parameters_ok fn i (map (\<lambda>a. (ty tc a, is_byte tc a)) (e # es))) (check_arguments fn name (i + 1) tc' es)"
    if "\<forall>e \<in> set (e # es). well_typed tc e"
  proof -
    have "verdict tc' (parameters_ok fn (i + 1) (map (\<lambda>a. (ty tc a, is_byte tc a)) es)) (check_arguments fn name (i + 1) tc' es)"
      using IH that Cons.prems by (simp add: may_report_same [OF s(2)])
    from verdict_seq [OF s(3) [rule_format] this] that show ?thesis unfolding list.map by (subst parameters_ok_Cons) simp
  qed
  ultimately show ?case unfolding s(1) by blast
qed simp

lemma check_call_verdict:
  assumes dec: "\<forall>e \<in> set as. \<forall>c \<in> parts e. decided c"
  shows "verdict tc (well_typed tc (FunctionCall f as n)) (snd (expr_type tc (FunctionCall f as n)))"
    and "fst (expr_type tc (FunctionCall f as n)) = ty tc (FunctionCall f as n)"
proof -
  let ?name = "resolve_function_call tc f n"
  let ?m = "''void function call cannot be used as an argument.''"
  define tc1 where "tc1 = check_unsafe_call tc ?name"
  define tc2 where "tc2 = no_void_values ?m tc1 as"
  obtain fn tc3 where ar: "check_arity tc2 ?name n = (fn, tc3)" by fastforce
  define tc4 where "tc4 = (case fn of None \<Rightarrow> tc3 | Some fn \<Rightarrow> check_arguments fn ?name 0 tc3 as)"
  define tc5 where "tc5 = error_if (find_struct tc4 ?name \<noteq> None \<and> n \<noteq> 0) ''struct constructors currently take no arguments.'' tc4"
  have e: "expr_type tc (FunctionCall f as n) = (call_result tc5 ?name, tc5)"
    by (simp add: Let_def tc5_def tc4_def ar [unfolded tc2_def tc1_def])
  have v1: "verdict tc (call_allowed tc ?name) tc1" unfolding tc1_def by (rule check_unsafe_call_verdict)
  note s1 = may_report_same [OF verdict_reports [OF v1]]
  have v2: "verdict tc1 (\<forall>e \<in> set as. well_typed tc e \<and> ty tc e \<noteq> TY_VOID) tc2"
    using no_void_values_verdict [of as tc1 ?m] dec by (auto simp: tc2_def s1 parts_def)
  have v12: "verdict tc (call_allowed tc ?name \<and> (\<forall>e \<in> set as. well_typed tc e \<and> ty tc e \<noteq> TY_VOID)) tc2"
    by (rule verdict_seq [OF v1 v2])
  note s2 = may_report_same [OF verdict_reports [OF v12]]
  have v3: "verdict tc2 (arity_ok tc ?name n) tc3"
    using check_arity_verdict(1) [of tc2 ?name n] by (simp add: ar s2)
  have v13: "verdict tc ((call_allowed tc ?name \<and> (\<forall>e \<in> set as. well_typed tc e \<and> ty tc e \<noteq> TY_VOID)) \<and> arity_ok tc ?name n) tc3"
    by (rule verdict_seq [OF v12 v3])
  let ?ts = "map (\<lambda>a. (ty tc a, is_byte tc a)) as"
  have v4: "verdict tc3 (\<forall>g. checked_function tc ?name n = Some g \<longrightarrow> parameters_ok g 0 ?ts) tc4"
  proof (cases "tc_error tc3")
    case True
    then show ?thesis using check_arguments_verdict [OF dec, of tc3]
      by (auto simp: verdict_def tc4_def split: option.splits)
  next
    case False
    from verdict_no_error [OF v13 False] have tc3: "tc3 = tc" and wt: "\<forall>e \<in> set as. well_typed tc e" by auto
    have "tc2 = tc" using tc3 verdict_no_error [OF v3 False] by simp
    then have fn: "fn = checked_function tc ?name n" using check_arity_verdict(2) [of tc2 ?name n, unfolded ar] False by simp
    show ?thesis using check_arguments_verdict [OF dec, of tc] wt by (auto simp: tc4_def fn tc3 split: option.splits)
  qed
  note v14 = verdict_seq [OF v13 v4]
  note s4 = may_report_same [OF verdict_reports [OF v14]]
  have v15: "verdict tc ((((call_allowed tc ?name \<and> (\<forall>e \<in> set as. well_typed tc e \<and> ty tc e \<noteq> TY_VOID)) \<and> arity_ok tc ?name n)
      \<and> (\<forall>g. checked_function tc ?name n = Some g \<longrightarrow> parameters_ok g 0 ?ts)) \<and> \<not> (find_struct tc ?name \<noteq> None \<and> n \<noteq> 0)) tc5"
    unfolding tc5_def s4 by (rule verdict_seq [OF v14 verdict_error_if])
  then show "verdict tc (well_typed tc (FunctionCall f as n)) (snd (expr_type tc (FunctionCall f as n)))"
    unfolding e snd_conv by (rule verdict_cong) (auto simp: call_ok_def)
  show "fst (expr_type tc (FunctionCall f as n)) = ty tc (FunctionCall f as n)"
    unfolding e by (simp add: may_report_same [OF verdict_reports [OF v15]])
qed

lemma binary_verdict:
  assumes "\<forall>c \<in> parts l \<union> parts r. decided c"
  shows "verdict tc (well_typed tc (BinaryExpression l r op)) (snd (expr_type tc (BinaryExpression l r op)))"
    and "fst (expr_type tc (BinaryExpression l r op)) = ty tc (BinaryExpression l r op)"
proof -
  have l: "\<forall>c \<in> parts l. decided c" and r: "\<forall>c \<in> parts r. decided c" using assms by auto
  obtain tc1 where e1: "expr_type tc l = (ty tc l, tc1)" "verdict tc (well_typed tc l) tc1"
    using decidedE [of l tc] l unfolding parts_def by blast
  note s1 = may_report_same [OF verdict_reports [OF e1(2)]]
  obtain tc2 where e2: "expr_type tc1 r = (ty tc1 r, tc2)" "verdict tc1 (well_typed tc1 r) tc2"
    using decidedE [of r tc1] r unfolding parts_def by blast
  have v2: "verdict tc (well_typed tc l \<and> well_typed tc r) tc2"
    using verdict_seq [OF e1(2) e2(2)] by (simp add: s1)
  note s2 = may_report_same [OF verdict_reports [OF v2]]
  obtain b tc3 where b: "(if op \<noteq> BINARY_EQUAL \<and> op \<noteq> BINARY_NOT_EQUAL then (False, tc2)
             else if ty tc l = TY_STRING \<and> ty tc r = TY_INT then is_string_index_expr tc2 l
             else if ty tc l = TY_INT \<and> ty tc r = TY_STRING then is_string_index_expr tc2 r
             else (False, tc2)) = (b, tc3)" by fastforce
  have e: "expr_type tc (BinaryExpression l r op) = binary_type tc3 op (ty tc l) (ty tc r) b"
    using b by (simp add: e1(1) e2(1) s1 Let_def split: prod.splits)
  note L = is_string_index_verdict [OF l, of tc2]
  note R = is_string_index_verdict [OF r, of tc2]
  have r23: "may_report tc2 tc3" using b L(2) R(2) by (auto split: if_splits)
  have same: "tc3 = tc2" if "well_typed tc l \<and> well_typed tc r" using b L(3) R(3) that by (auto simp: s2 split: if_splits)
  have v3: "verdict tc (well_typed tc l \<and> well_typed tc r) tc3"
    using v2 same may_report_trans [OF verdict_reports [OF v2] r23] may_report_sticky [OF r23] unfolding verdict_def by metis
  have bb: "op = BINARY_EQUAL \<or> op = BINARY_NOT_EQUAL \<Longrightarrow> b = byte_pair tc l r"
    using b L(1) R(1) by (auto simp: byte_pair_def s2 split: if_splits)
  have ok: "binary_ok op (ty tc l) (ty tc r) b = binary_ok op (ty tc l) (ty tc r) (byte_pair tc l r)"
    using bb by (auto simp: binary_ok_def)
  show "verdict tc (well_typed tc (BinaryExpression l r op)) (snd (expr_type tc (BinaryExpression l r op)))"
    unfolding e by (rule verdict_cong [OF verdict_seq [OF v3 binary_type_verdict(2)]]) (simp add: ok conj_assoc)
  show "fst (expr_type tc (BinaryExpression l r op)) = ty tc (BinaryExpression l r op)"
    unfolding e by (simp add: binary_type_verdict)
qed

lemma expr_type_verdict: "expr_type tc e = (ty tc e, snd (expr_type tc e)) \<and> verdict tc (well_typed tc e) (snd (expr_type tc e))"
proof -
  have "decided e"
  proof (induction e rule: measure_induct_rule [of size])
    case (less e)
    have one: "\<forall>c' \<in> parts c. decided c'" if "size c < size e" for c
      using parts_size less.IH that le_less_trans by blast
    have many: "\<forall>c \<in> set es. \<forall>c' \<in> parts c. decided c'" if "size_list size es < size e" for es
    proof
      fix c assume "c \<in> set es"
      then have "size c < size e" using that size_list_estimation' [of c es "size c" size] by simp
      then show "\<forall>c' \<in> parts c. decided c'" by (rule one)
    qed
    show ?case unfolding decided_def
    proof
      fix tc
      show "fst (expr_type tc e) = ty tc e \<and> verdict tc (well_typed tc e) (snd (expr_type tc e))"
      proof (cases e)
        case (FunctionCall f as n)
        then show ?thesis using check_call_verdict [OF many, of as tc f n] by simp
      next
        case (BinaryExpression l r op)
        then have "\<forall>c \<in> parts l \<union> parts r. decided c" using one [of l] one [of r] by auto
        from binary_verdict [OF this] BinaryExpression show ?thesis by blast
      next
        case (IndexExpression a i)
        obtain tc1 where e1: "expr_type tc a = (ty tc a, tc1)" "verdict tc (well_typed tc a) tc1"
          using decidedE [of a tc] less.IH [of a] IndexExpression by auto
        note s1 = may_report_same [OF verdict_reports [OF e1(2)]]
        obtain tc2 where e2: "expr_type tc1 i = (ty tc1 i, tc2)" "verdict tc1 (well_typed tc1 i) tc2"
          using decidedE [of i tc1] less.IH [of i] IndexExpression by auto
        note v = verdict_seq [OF verdict_seq [OF e1(2) e2(2)] index_type_verdict(2) [of tc2 "ty tc i" "ty tc a" i]]
        show ?thesis using v index_type_verdict(1) by (simp add: IndexExpression e1(1) e2(1) s1)
      next
        case (ArrayLiteral es n)
        then show ?thesis using no_void_values_verdict [of es tc] many [of es] by (auto simp: parts_def)
      next
        case (UnaryExpression c op)
        obtain tc1 where e1: "expr_type tc c = (ty tc c, tc1)" "verdict tc (well_typed tc c) tc1"
          using decidedE [of c tc] less.IH [of c] UnaryExpression by auto
        show ?thesis using verdict_seq [OF e1(2) unary_type_verdict(2)] unary_type_verdict(1) by (simp add: UnaryExpression e1(1))
      next
        case (MemberExpression c m)
        obtain tc1 where e1: "expr_type tc c = (ty tc c, tc1)" "verdict tc (well_typed tc c) tc1"
          using decidedE [of c tc] less.IH [of c] MemberExpression by auto
        show ?thesis using verdict_seq [OF e1(2) verdict_error_if] by (simp add: MemberExpression e1(1))
      qed (auto simp: Let_def)
    qed
  qed
  then show ?thesis by (simp add: decided_def prod_eq_iff)
qed

end
