(* ===== verification/TypeCheckFrame.thy ===== *)
theory TypeCheckFrame
  imports TypeCheckSpec
begin

text \<open>
  What checking a statement leaves of the state: \<open>step_ok\<close>. Everything but the symbols and the messages is as before;
  at most one message is printed; the symbols that were there keep their names, depths and declared types.
\<close>

section \<open>Relations between states\<close>

definition tc_frame :: "type_checker \<Rightarrow> type_checker \<Rightarrow> bool" where
  "tc_frame tc tc' \<longleftrightarrow> tc' = tc\<lparr>tc_symbols := tc_symbols tc', tc_error := tc_error tc', tc_messages := tc_messages tc'\<rparr>"

definition reports_once :: "type_checker \<Rightarrow> type_checker \<Rightarrow> bool" where
  "reports_once tc tc' \<longleftrightarrow>
     (if tc_error tc then tc_error tc' \<and> tc_messages tc' = tc_messages tc
      else if tc_error tc' then \<exists>m. tc_messages tc' = tc_messages tc @ [m]
      else tc_messages tc' = tc_messages tc)"

definition sym_wf :: "tc_symbol \<Rightarrow> bool" where
  "sym_wf s \<longleftrightarrow> tc_type s \<noteq> TY_UNDECLARED \<and> tc_type s \<noteq> TY_VOID \<and> (explicit_type s \<longrightarrow> tc_type s \<noteq> TY_UNKNOWN \<and> \<not> dynamic s)"

definition sym_kept :: "tc_symbol \<Rightarrow> tc_symbol \<Rightarrow> bool" where
  "sym_kept s s' \<longleftrightarrow> tc_name s' = tc_name s \<and> tc_depth s' = tc_depth s \<and> explicit_type s' = explicit_type s
     \<and> (explicit_type s \<longrightarrow> tc_type s' = tc_type s)"

definition outlives :: "tc_symbol list \<Rightarrow> tc_symbol list \<Rightarrow> bool" where
  "outlives ss ss' \<longleftrightarrow> (\<exists>zs ys. ss' = zs @ ys \<and> list_all2 sym_kept ss zs)"

definition step_ok :: "type_checker \<Rightarrow> type_checker \<Rightarrow> bool" where
  "step_ok tc tc' \<longleftrightarrow> tc_frame tc tc' \<and> reports_once tc tc' \<and> outlives (tc_symbols tc) (tc_symbols tc') \<and> list_all sym_wf (tc_symbols tc')"

lemma tc_frame_iff:
  "tc_frame tc tc' \<longleftrightarrow> tc_functions tc' = tc_functions tc \<and> tc_structs tc' = tc_structs tc \<and> expected_return tc' = expected_return tc
    \<and> in_function tc' = in_function tc \<and> scope_depth tc' = scope_depth tc \<and> unsafe_depth tc' = unsafe_depth tc
    \<and> loop_depth tc' = loop_depth tc \<and> function_namespace tc' = function_namespace tc"
  by (cases tc; cases tc') (auto simp: tc_frame_def)

lemma tc_frame_simps:
  assumes "tc_frame tc tc'"
  shows "tc_functions tc' = tc_functions tc" "tc_structs tc' = tc_structs tc" "expected_return tc' = expected_return tc"
    "in_function tc' = in_function tc" "scope_depth tc' = scope_depth tc" "unsafe_depth tc' = unsafe_depth tc"
    "loop_depth tc' = loop_depth tc" "function_namespace tc' = function_namespace tc"
  using assms by (simp_all add: tc_frame_iff)

lemma sym_kept_refl [simp]: "sym_kept s s"
  by (simp add: sym_kept_def)

lemma sym_kept_trans: "sym_kept s s' \<Longrightarrow> sym_kept s' s'' \<Longrightarrow> sym_kept s s''"
  by (simp add: sym_kept_def)

lemma outlives_refl [simp]: "outlives ss ss"
proof -
  have "list_all2 sym_kept ss ss" by (simp add: list.rel_refl)
  then show ?thesis by (auto simp: outlives_def)
qed

lemma outlives_append [simp]: "outlives ss (ss @ ys)"
proof -
  have "list_all2 sym_kept ss ss" by (simp add: list.rel_refl)
  then show ?thesis by (auto simp: outlives_def)
qed

lemma outlives_trans:
  assumes "outlives ss ss'" "outlives ss' ss''"
  shows "outlives ss ss''"
proof -
  from assms obtain zs ys zs' ys' where 1: "ss' = zs @ ys" "list_all2 sym_kept ss zs" and 2: "ss'' = zs' @ ys'" "list_all2 sym_kept ss' zs'"
    by (auto simp: outlives_def)
  from 1(1) 2(2) obtain us vs where u: "zs' = us @ vs" "list_all2 sym_kept zs us" by (auto simp: list_all2_append1)
  have "list_all2 sym_kept ss us" by (rule list_all2_trans [OF sym_kept_trans 1(2) u(2)])
  then show ?thesis using 2(1) u(1) by (auto simp: outlives_def)
qed

lemma outlives_update: "sym_kept (ss ! i) s \<Longrightarrow> outlives ss (ss[i := s])"
  unfolding outlives_def
  by (rule exI [of _ "ss[i := s]"], rule exI [of _ "[]"])
    (simp add: list_all2_conv_all_nth, metis nth_list_update_eq nth_list_update_neq sym_kept_refl)

lemma outlives_take: "outlives ss ss' \<Longrightarrow> list_all2 sym_kept ss (take (length ss) ss')"
  using list_all2_lengthD unfolding outlives_def by fastforce

lemma outlives_length: "outlives ss ss' \<Longrightarrow> length ss \<le> length ss'"
  by (auto simp: outlives_def dest: list_all2_lengthD)

lemma outlives_all2: "list_all2 sym_kept ss ss' \<Longrightarrow> outlives ss ss'"
  by (force simp: outlives_def)

lemma may_report_step:
  assumes "may_report tc tc'" "list_all sym_wf (tc_symbols tc)"
  shows "step_ok tc tc'"
  using assms by (auto simp: step_ok_def may_report_def tc_frame_iff reports_once_def)

lemma reports_once_trans: "reports_once tc tc' \<Longrightarrow> reports_once tc' tc'' \<Longrightarrow> reports_once tc tc''"
  by (auto simp: reports_once_def split: if_splits)

lemma step_ok_trans: "step_ok tc tc' \<Longrightarrow> step_ok tc' tc'' \<Longrightarrow> step_ok tc tc''"
  using outlives_trans reports_once_trans by (fastforce simp: step_ok_def tc_frame_iff)

lemma step_ok_refl: "list_all sym_wf (tc_symbols tc) \<Longrightarrow> step_ok tc tc"
  by (rule may_report_step) simp

lemma step_ok_wf: "step_ok tc tc' \<Longrightarrow> list_all sym_wf (tc_symbols tc')"
  by (simp add: step_ok_def)

section \<open>Types of expressions\<close>

lemma builtin_results_types: "\<forall>(ns, t) \<in> set builtin_results. t \<noteq> TY_UNDECLARED \<and> t \<noteq> TY_VOID"
  by (simp add: builtin_results_def)

lemma call_result_declared: "call_result tc name \<noteq> TY_UNDECLARED"
  using builtin_results_types
  by (auto simp: call_result_def find_Some_iff split: option.splits dest!: nth_mem)

lemma ty_declared: "ty tc e \<noteq> TY_UNDECLARED"
proof (induction tc e rule: ty.induct)
  case (10 tc e op)
  then show ?case by (cases op) auto
next
  case (11 tc l r op)
  then show ?case by (simp add: binary_result_def arithmetic_result_def)
qed (auto simp: call_result_declared)

lemma type_from_name_known: "type_from_name s \<noteq> TY_UNKNOWN"
  by (simp add: type_from_name_def)

lemma expr_type_unfold: "\<exists>tc'. expr_type tc e = (ty tc e, tc') \<and> verdict tc (well_typed tc e) tc'"
  using expr_type_verdict by blast

lemma expr_type_step: "list_all sym_wf (tc_symbols tc) \<Longrightarrow> step_ok tc (snd (expr_type tc e))"
  using may_report_step verdict_reports expr_type_verdict by blast

section \<open>Statements\<close>

lemma type_error_step: "step_ok tc tc' \<Longrightarrow> step_ok tc (type_error tc' m)"
  by (rule step_ok_trans [OF _ may_report_step]) (auto dest: step_ok_wf intro: report_error)

lemma error_if_step: "step_ok tc tc' \<Longrightarrow> step_ok tc (error_if b m tc')"
  by (simp add: type_error_step)

lemma add_symbol_step:
  assumes "step_ok tc tc'" "t \<noteq> TY_UNDECLARED" "t \<noteq> TY_VOID" "is_explicit \<longrightarrow> t \<noteq> TY_UNKNOWN"
  shows "step_ok tc (add_symbol tc' x t is_explicit)"
proof -
  have "step_ok tc' (add_symbol tc' x t is_explicit)"
    using step_ok_wf [OF assms(1)] assms(2-4) by (auto simp: step_ok_def add_symbol_def tc_frame_iff reports_once_def sym_wf_def)
  then show ?thesis by (rule step_ok_trans [OF assms(1)])
qed

lemma find_symbol_index_Some: "find_symbol_index ss x = Some i \<Longrightarrow> i < length ss \<and> tc_name (ss ! i) = x"
  by (induction ss arbitrary: i) (auto split: option.splits if_splits)

lemma find_symbol_index_None: "find_symbol_index ss x = None \<longleftrightarrow> x \<notin> tc_name ` set ss"
  by (induction ss) (auto split: option.splits)

lemma update_symbol_step:
  assumes "list_all sym_wf (tc_symbols tc)" "sym_kept (tc_symbols tc ! i) s" "sym_wf s"
  shows "step_ok tc (tc\<lparr>tc_symbols := (tc_symbols tc)[i := s]\<rparr>)"
proof -
  have "list_all sym_wf ((tc_symbols tc)[i := s])"
    using assms(1,3) set_update_subset_insert by (fastforce simp: list_all_iff)
  then show ?thesis using outlives_update [OF assms(2)] by (simp add: step_ok_def tc_frame_iff reports_once_def)
qed

lemma set_symbol_step:
  assumes wf: "list_all sym_wf (tc_symbols tc)" and t: "t \<noteq> TY_UNDECLARED" "t \<noteq> TY_VOID"
    and ex: "is_explicit \<longrightarrow> t \<noteq> TY_UNKNOWN \<and> find_symbol_index (tc_symbols tc) x = None"
  shows "step_ok tc (set_symbol tc x t is_explicit)"
proof (cases "find_symbol_index (tc_symbols tc) x")
  case None
  then show ?thesis using add_symbol_step [OF step_ok_refl [OF wf] t] ex by (simp add: set_symbol_def)
next
  case (Some i)
  let ?s = "tc_symbols tc ! i"
  have i: "sym_wf ?s" using find_symbol_index_Some [OF Some] wf by (simp add: list_all_length)
  have "step_ok tc (type_error tc m)" for m by (rule type_error_step [OF step_ok_refl [OF wf]])
  moreover have "step_ok tc (tc\<lparr>tc_symbols := (tc_symbols tc)[i := ?s\<lparr>tc_type := TY_UNKNOWN, dynamic := True\<rparr>]\<rparr>)"
    if "\<not> explicit_type ?s" by (rule update_symbol_step [OF wf]) (use that i in \<open>auto simp: sym_kept_def sym_wf_def\<close>)
  moreover have "step_ok tc (tc\<lparr>tc_symbols := (tc_symbols tc)[i := ?s\<lparr>tc_type := t\<rparr>]\<rparr>)" if "tc_type ?s = TY_UNKNOWN"
    by (rule update_symbol_step [OF wf]) (use that i t in \<open>auto simp: sym_kept_def sym_wf_def\<close>)
  ultimately show ?thesis using Some ex step_ok_refl [OF wf] by (auto simp: set_symbol_def Let_def)
qed

lemma check_variable_step:
  assumes wf: "list_all sym_wf (tc_symbols tc)"
  shows "step_ok tc (snd (check_variable tc x t v))"
proof -
  obtain tc1 where e: "expr_type tc v = (ty tc v, tc1)" "verdict tc (well_typed tc v) tc1" using expr_type_unfold by blast
  have s: "step_ok tc tc1" by (rule may_report_step [OF verdict_reports [OF e(2)] wf])
  have sy: "tc_symbols tc1 = tc_symbols tc" using verdict_reports [OF e(2)] by (auto simp: may_report_def)
  note wf1 = step_ok_wf [OF s]
  have set: "step_ok tc (set_symbol tc1 x (ty tc v) False)" if "ty tc v \<noteq> TY_VOID"
    by (rule step_ok_trans [OF s set_symbol_step [OF wf1]]) (use that ty_declared in auto)
  have "step_ok tc (check_declared tc1 x u (ty tc v) (find_symbol_index (tc_symbols tc) x \<noteq> None) b)"
    if "find_symbol_index (tc_symbols tc) x = None \<Longrightarrow> \<not> b" for u b
    using that set_symbol_step [OF wf1, of "type_from_name u" True x] type_from_name_known [of u]
    by (auto simp: check_declared_def Let_def sy intro!: type_error_step s add_symbol_step step_ok_trans [OF s] step_ok_refl [OF wf1])
  then show ?thesis using set
    by (auto simp: check_variable_def e(1) sy Let_def intro: type_error_step s split: option.splits)
qed

lemma check_assignment_verdict:
  "verdict tc (well_typed tc t \<and> well_typed tc v \<and> ty tc v \<noteq> TY_VOID
     \<and> (ty tc t = TY_UNKNOWN \<or> type_compatible (ty tc t) (ty tc v) \<or> is_byte tc t \<and> ty tc v = TY_INT)) (check_assignment tc t v)"
proof -
  obtain tc1 where e1: "expr_type tc t = (ty tc t, tc1)" "verdict tc (well_typed tc t) tc1" using expr_type_unfold by blast
  note s1 = may_report_same [OF verdict_reports [OF e1(2)]]
  obtain tc2 where e2: "expr_type tc1 v = (ty tc v, tc2)" "verdict tc1 (well_typed tc v) tc2" using expr_type_unfold [of tc1 v] s1 by auto
  note v2 = verdict_seq [OF e1(2) e2(2)]
  note s2 = may_report_same [OF verdict_reports [OF v2]]
  have dec: "\<forall>c \<in> parts t. decided c" using expr_type_verdict by (metis decided_def fst_conv)
  obtain b tc3 where b: "is_string_index_expr tc2 t = (b, tc3)" by fastforce
  have b3: "b = is_byte tc t" "may_report tc2 tc3" "well_typed tc t \<Longrightarrow> tc3 = tc2"
    using is_string_index_verdict [OF dec, of tc2] by (simp_all add: b s2)
  have v3: "verdict tc (well_typed tc t \<and> well_typed tc v) tc3"
    using v2 b3(3) may_report_trans [OF verdict_reports [OF v2] b3(2)] may_report_sticky [OF b3(2)] unfolding verdict_def by metis
  show ?thesis
  proof (cases "ty tc v = TY_VOID")
    case True
    then show ?thesis using verdict_seq [OF v2 verdict_error] by (simp add: check_assignment_def e1(1) e2(1))
  next
    case False
    let ?bad = "ty tc t \<noteq> TY_UNKNOWN \<and> ty tc t \<noteq> TY_UNDECLARED \<and> \<not> type_compatible (ty tc t) (ty tc v) \<and> \<not> (b \<and> ty tc v = TY_INT)"
    have e: "check_assignment tc t v = error_if ?bad (assignment_mismatch (ty tc t) (ty tc v)) tc3"
      using False by (simp add: check_assignment_def e1(1) e2(1) b)
    show ?thesis unfolding e
      by (rule verdict_cong [OF verdict_seq [OF v3 verdict_error_if]]) (use False ty_declared b3(1) in auto)
  qed
qed

lemma check_condition_verdict: "verdict tc (well_typed tc c \<and> ty tc c \<in> {TY_BOOL, TY_UNKNOWN}) (check_condition m tc c)"
proof -
  obtain tc1 where e: "expr_type tc c = (ty tc c, tc1)" "verdict tc (well_typed tc c) tc1" using expr_type_unfold by blast
  have "check_condition m tc c = error_if (ty tc c \<notin> {TY_BOOL, TY_UNKNOWN})
    (if ty tc c = TY_VOID then ''void function call cannot be used as a control-flow condition.'' else m) tc1"
    by (simp add: check_condition_def e(1))
  then show ?thesis using verdict_seq [OF e(2) verdict_error_if, of "ty tc c \<notin> {TY_BOOL, TY_UNKNOWN}"] by simp
qed

definition return_ok :: "type_checker \<Rightarrow> ast option \<Rightarrow> bool" where
  "return_ok tc e \<longleftrightarrow> in_function tc \<and>
     (case e of
        None \<Rightarrow> expected_return tc = TY_VOID
      | Some e \<Rightarrow> well_typed tc e \<and> ty tc e \<noteq> TY_VOID \<and> expected_return tc \<noteq> TY_VOID
          \<and> type_compatible (expected_return tc) (ty tc e))"

lemma check_return_verdict: "verdict tc (return_ok tc e) (check_return tc e)"
proof (cases e)
  case None
  then show ?thesis by (auto simp: check_return_def return_ok_def)
next
  case (Some e')
  obtain tc1 where e: "expr_type tc e' = (ty tc e', tc1)" "verdict tc (well_typed tc e') tc1" using expr_type_unfold by blast
  have r: "expected_return tc1 = expected_return tc" using verdict_reports [OF e(2)] by (auto simp: may_report_def)
  show ?thesis
  proof (cases "in_function tc")
    case True
    let ?bad = "expected_return tc = TY_VOID \<or> ty tc e' = TY_VOID \<or> \<not> type_compatible (expected_return tc) (ty tc e')"
    have "\<exists>m. check_return tc e = error_if ?bad m tc1"
      using True by (auto simp: check_return_def Some e(1) r type_compatible_def)
    then obtain m where m: "check_return tc e = error_if ?bad m tc1" ..
    show ?thesis unfolding m
      by (rule verdict_cong [OF verdict_seq [OF e(2) verdict_error_if]]) (use True Some in \<open>auto simp: return_ok_def\<close>)
  qed (simp add: check_return_def return_ok_def)
qed

lemma add_parameters_step:
  "step_ok tc tc' \<Longrightarrow> step_ok tc (add_parameters seen tc' ps)"
proof (induction ps arbitrary: seen tc')
  case (Cons q ps)
  obtain p t where q: "q = (p, t)" by fastforce
  have 1: "step_ok tc (error_if (p \<in> set seen) ''duplicate function parameter name.'' tc')" by (rule error_if_step [OF Cons.prems])
  show ?case
  proof (cases "tc_error tc' \<or> p \<in> set seen")
    case True
    then show ?thesis using Cons.prems 1 by (auto simp: q Let_def)
  next
    case False
    then show ?thesis using Cons.prems
      by (auto simp: q Let_def type_from_name_known intro!: Cons.IH type_error_step add_symbol_step split: option.splits)
  qed
qed simp

text \<open>A block: what it declared is discarded behind it.\<close>

lemma block_step:
  assumes "step_ok tcin tc2"
    and "tc_symbols tcin = tc_symbols tc1" "tc_error tcin = tc_error tc1" "tc_messages tcin = tc_messages tc1"
    and "tc_frame tc1 tc3" "tc_symbols tc3 = take (length (tc_symbols tc1)) (tc_symbols tc2)"
      "tc_error tc3 = tc_error tc2" "tc_messages tc3 = tc_messages tc2"
  shows "step_ok tc1 tc3" "list_all2 sym_kept (tc_symbols tc1) (tc_symbols tc3)"
proof -
  show kept: "list_all2 sym_kept (tc_symbols tc1) (tc_symbols tc3)"
    using assms(1,2,6) outlives_take by (auto simp: step_ok_def)
  have "list_all sym_wf (tc_symbols tc3)" using assms(1,6) by (auto simp: step_ok_def list_all_iff dest: in_set_takeD)
  then show "step_ok tc1 tc3" using assms outlives_all2 [OF kept] by (auto simp: step_ok_def reports_once_def split: if_splits)
qed

lemma discard_simps [simp]:
  "tc_symbols (discard_symbols_to n tc) = take n (tc_symbols tc)" "tc_error (discard_symbols_to n tc) = tc_error tc"
  "tc_messages (discard_symbols_to n tc) = tc_messages tc" "scope_depth (discard_symbols_to n tc) = scope_depth tc"
  "expected_return (discard_symbols_to n tc) = expected_return tc" "in_function (discard_symbols_to n tc) = in_function tc"
  "unsafe_depth (discard_symbols_to n tc) = unsafe_depth tc" "loop_depth (discard_symbols_to n tc) = loop_depth tc"
  "function_namespace (discard_symbols_to n tc) = function_namespace tc" "tc_functions (discard_symbols_to n tc) = tc_functions tc"
  "tc_structs (discard_symbols_to n tc) = tc_structs tc"
  by (simp_all add: discard_symbols_to_def)

lemma restore_kept:
  "list_all2 sym_kept ss ss' \<Longrightarrow> map2 (\<lambda>s (t, d). s\<lparr>tc_type := t, dynamic := d\<rparr>) ss' (map (\<lambda>s. (tc_type s, dynamic s)) ss) = ss"
  by (induction rule: list_all2_induct) (auto simp: sym_kept_def)

lemma restore_symbols_back:
  assumes "list_all2 sym_kept (tc_symbols tc1) (tc_symbols tc2)"
  shows "restore_symbols (snapshot_symbols tc1 (length (tc_symbols tc1))) tc2 = tc2\<lparr>tc_symbols := tc_symbols tc1\<rparr>"
  using assms list_all2_lengthD [OF assms] by (simp add: restore_symbols_def snapshot_symbols_def restore_kept)

lemma merge_symbol_kept:
  assumes "sym_kept s s2" "sym_kept s s4" "sym_wf s" "sym_wf s2" "sym_wf s4"
  shows "sym_kept s (merge_symbol s4 (tc_type s, dynamic s) (tc_type s2, dynamic s2)) \<and> sym_wf (merge_symbol s4 (tc_type s, dynamic s) (tc_type s2, dynamic s2))"
  using assms by (auto simp: merge_symbol_def sym_kept_def sym_wf_def Let_def)

lemma merge_kept:
  assumes "list_all2 sym_kept ss ss2" "list_all2 sym_kept ss ss4" "list_all sym_wf ss" "list_all sym_wf ss2" "list_all sym_wf ss4"
  shows "let r = map2 (\<lambda>s (b, t). merge_symbol s b t) ss4
      (zip (map (\<lambda>s. (tc_type s, dynamic s)) ss) (map (\<lambda>s. (tc_type s, dynamic s)) ss2))
    in list_all2 sym_kept ss r \<and> list_all sym_wf r"
  using assms
proof (induction ss ss2 arbitrary: ss4 rule: list_all2_induct)
  case (Cons s ss s2 ss2)
  then obtain s4 ss4' where 4: "ss4 = s4 # ss4'" "sym_kept s s4" "list_all2 sym_kept ss ss4'" by (auto simp: list_all2_Cons1)
  then show ?case using Cons merge_symbol_kept [of s s2 s4] by (simp add: Let_def)
qed simp

lemma check_print_verdict: "verdict tc (well_typed tc e \<and> ty tc e \<noteq> TY_VOID) (snd (check_statement tc (PrintStatement e)))"
proof -
  obtain tc1 where e: "expr_type tc e = (ty tc e, tc1)" "verdict tc (well_typed tc e) tc1" using expr_type_unfold by blast
  show ?thesis using verdict_seq [OF e(2) verdict_error_if, of "ty tc e = TY_VOID"] by (simp add: e(1))
qed

text \<open>An accepted declaration or assignment: the variable is visible behind it, and it is new unless marked as a reassignment.\<close>

lemma set_symbol_names:
  "\<not> tc_error (set_symbol tc x t ex) \<Longrightarrow> map tc_name (tc_symbols (set_symbol tc x t ex)) =
     map tc_name (tc_symbols tc) @ (if find_symbol_index (tc_symbols tc) x = None then [x] else [])"
proof (cases "find_symbol_index (tc_symbols tc) x")
  case (Some i)
  have "map tc_name ((tc_symbols tc)[i := s]) = map tc_name (tc_symbols tc)" if "tc_name s = tc_name (tc_symbols tc ! i)" for s
    using that by (simp add: map_update list_update_same_conv [symmetric] del: list_update_same_conv)
      (metis find_symbol_index_Some [OF Some] list_update_id map_update)
  then show ?thesis using Some by (auto simp: set_symbol_def Let_def type_error_def)
qed (simp add: set_symbol_def add_symbol_def)

lemma check_variable_accepted:
  assumes ok: "\<not> tc_error (snd (check_variable tc x t v))"
  defines "fresh \<equiv> \<not> fst (check_variable tc x t v)"
  shows "well_typed tc v" "ty tc v \<noteq> TY_VOID"
    "map tc_name (tc_symbols (snd (check_variable tc x t v))) = map tc_name (tc_symbols tc) @ (if fresh then [x] else [])"
    "fresh \<or> x \<in> tc_name ` set (tc_symbols tc)" "scope_depth tc = 0 \<Longrightarrow> fresh \<Longrightarrow> x \<notin> tc_name ` set (tc_symbols tc)"
proof -
  obtain tc1 where e: "expr_type tc v = (ty tc v, tc1)" "verdict tc (well_typed tc v) tc1" using expr_type_unfold by blast
  have "tc_error tc1 \<Longrightarrow> tc_error (snd (check_variable tc x t v))"
    by (auto simp: check_variable_def check_declared_def e(1) Let_def set_symbol_def add_symbol_def split: option.splits)
  with ok have "\<not> tc_error tc1" by blast
  with verdict_no_error [OF e(2)] have tc1: "tc1 = tc" and w: "well_typed tc v" by auto
  show "well_typed tc v" by (rule w)
  show "ty tc v \<noteq> TY_VOID" using ok by (auto simp: check_variable_def e(1) Let_def)
  show "map tc_name (tc_symbols (snd (check_variable tc x t v))) = map tc_name (tc_symbols tc) @ (if fresh then [x] else [])"
    using ok set_symbol_names [of tc x] unfolding fresh_def
    by (auto simp: check_variable_def check_declared_def e(1) tc1 Let_def add_symbol_def split: option.splits if_splits)
  show "fresh \<or> x \<in> tc_name ` set (tc_symbols tc)"
    using find_symbol_index_None [of "tc_symbols tc" x] unfolding fresh_def by (auto simp: check_variable_def e(1) Let_def)
  show "x \<notin> tc_name ` set (tc_symbols tc)" if "scope_depth tc = 0" "fresh"
    using that find_symbol_index_None [of "tc_symbols tc" x] unfolding fresh_def
    by (auto simp: check_variable_def e(1) Let_def split: option.splits)
qed

section \<open>All statements\<close>

lemma resolve_calls_cong:
  assumes "\<And>f n. resolve_function_call tc' f n = resolve_function_call tc f n"
  shows "resolve_calls tc' e = resolve_calls tc e"
  by (induction e) (simp_all add: assms)

lemma may_report_resolve: "may_report tc tc' \<Longrightarrow> resolve_calls tc' e = resolve_calls tc e"
  by (rule resolve_calls_cong) (simp add: may_report_same(6) [of tc tc'])

text \<open>
  \<open>steps ss\<close>: checking the list keeps to the frame. The three statements with blocks are treated
  under this assumption on their blocks; the second part of each lemma says what an accepted statement looks like.
\<close>

definition steps :: "ast list \<Rightarrow> bool" where
  "steps ss \<longleftrightarrow> (\<forall>tc. list_all sym_wf (tc_symbols tc) \<longrightarrow> step_ok tc (snd (check_statements tc ss)))"

lemma stepsD:
  "steps ss \<Longrightarrow> check_statements tc ss = (ss', tc') \<Longrightarrow> list_all sym_wf (tc_symbols tc) \<Longrightarrow> step_ok tc tc'"
  unfolding steps_def by (metis snd_conv)

lemma step_ok_error: "step_ok tc tc' \<Longrightarrow> tc_error tc \<Longrightarrow> tc_error tc'"
  by (simp add: step_ok_def reports_once_def)

abbreviation deeper :: "type_checker \<Rightarrow> type_checker" where
  "deeper tc \<equiv> tc\<lparr>scope_depth := scope_depth tc + 1\<rparr>"

lemma same_state: "tc_frame tc tc' \<Longrightarrow> reports_once tc tc' \<Longrightarrow> tc_symbols tc' = tc_symbols tc \<Longrightarrow> \<not> tc_error tc' \<Longrightarrow> tc' = tc"
  by (cases tc; cases tc') (auto simp: tc_frame_iff reports_once_def split: if_splits)

lemma check_if_step:
  fixes tc c th el
  defines "final \<equiv> snd (check_statement tc (IfStatement c th el))"
  assumes wf: "list_all sym_wf (tc_symbols tc)" and th: "steps th" and el: "steps el"
  shows "step_ok tc final"
    and "\<not> tc_error final \<Longrightarrow> \<exists>th' el' tc2 tc4. well_typed tc c \<and> ty tc c \<in> {TY_BOOL, TY_UNKNOWN}
      \<and> check_statements (deeper tc) th = (th', tc2) \<and> \<not> tc_error tc2
      \<and> check_statements (deeper tc) el = (el', tc4) \<and> \<not> tc_error tc4
      \<and> fst (check_statement tc (IfStatement c th el)) = IfStatement (resolve_calls tc c) th' el'
      \<and> list_all2 sym_kept (tc_symbols tc) (tc_symbols final)"
proof -
  define tc1 where "tc1 = check_condition ''if condition must be boolean.'' tc c"
  have v1: "verdict tc (well_typed tc c \<and> ty tc c \<in> {TY_BOOL, TY_UNKNOWN}) tc1" unfolding tc1_def by (rule check_condition_verdict)
  have s1: "step_ok tc tc1" by (rule may_report_step [OF verdict_reports [OF v1] wf])
  define n where "n = length (tc_symbols tc1)"
  obtain th' tc2 where t: "check_statements (deeper tc1) th = (th', tc2)" by fastforce
  have s2: "step_ok (deeper tc1) tc2" by (rule stepsD [OF th t]) (use step_ok_wf [OF s1] in simp)
  define tc3 where "tc3 = (discard_symbols_to n tc2)\<lparr>scope_depth := scope_depth tc2 - 1\<rparr>"
  have f3: "tc_frame tc1 tc3" using s2 by (simp add: tc3_def step_ok_def tc_frame_iff)
  have b3: "step_ok tc1 tc3" "list_all2 sym_kept (tc_symbols tc1) (tc_symbols tc3)"
    using block_step [OF s2 _ _ _ f3] by (simp_all add: tc3_def n_def)
  define tcr where "tcr = restore_symbols (snapshot_symbols tc1 n) tc3"
  have tcr: "tcr = tc3\<lparr>tc_symbols := tc_symbols tc1\<rparr>" unfolding tcr_def n_def by (rule restore_symbols_back [OF b3(2)])
  have er: "tc_error tcr = tc_error tc2" by (simp add: tcr tc3_def)
  have sr: "step_ok tc1 tcr" using b3(1) step_ok_wf [OF s1] by (auto simp: tcr step_ok_def tc_frame_iff reports_once_def)
  have tcr1: "tcr = tc1" if "\<not> tc_error tcr"
    by (rule same_state) (use sr that in \<open>simp_all add: step_ok_def, simp add: tcr\<close>)
  obtain el' tc4 where e: "check_statements (deeper tc1) el = (el', tc4)" by fastforce
  have s4: "step_ok (deeper tc1) tc4" by (rule stepsD [OF el e]) (use step_ok_wf [OF s1] in simp)
  define tc5 where "tc5 = (discard_symbols_to n tc4)\<lparr>scope_depth := scope_depth tc4 - 1\<rparr>"
  have f5: "tc_frame tc1 tc5" using s4 by (simp add: tc5_def step_ok_def tc_frame_iff)
  have b5: "step_ok tc1 tc5" "list_all2 sym_kept (tc_symbols tc1) (tc_symbols tc5)"
    using block_step [OF s4 _ _ _ f5] by (simp_all add: tc5_def n_def)
  define tc6 where "tc6 = merge_branch_symbols (snapshot_symbols tc1 n) (snapshot_symbols tc2 n) tc5"
  have snap: "snapshot_symbols tc1 n = map (\<lambda>s. (tc_type s, dynamic s)) (tc_symbols tc1)"
    "snapshot_symbols tc2 n = map (\<lambda>s. (tc_type s, dynamic s)) (tc_symbols tc3)"
    by (simp_all add: snapshot_symbols_def n_def tc3_def)
  have sy6: "list_all2 sym_kept (tc_symbols tc1) (tc_symbols tc6) \<and> list_all sym_wf (tc_symbols tc6)"
    using merge_kept [OF b3(2) b5(2) step_ok_wf [OF s1] step_ok_wf [OF b3(1)] step_ok_wf [OF b5(1)]] list_all2_lengthD [OF b5(2)]
      list_all2_lengthD [OF b3(2)]
    by (simp add: tc6_def merge_branch_symbols_def snap Let_def)
  have s6: "step_ok tc1 tc6" using b5(1) sy6 outlives_all2
    by (auto simp: tc6_def merge_branch_symbols_def step_ok_def tc_frame_iff reports_once_def)
  have e6: "tc_error tc6 = tc_error tc4" by (simp add: tc6_def merge_branch_symbols_def tc5_def)
  have eq0: "check_statement tc (IfStatement c th el) =
      (if tc_error tcr then (IfStatement (resolve_calls tc c) th' el, tcr)
       else case check_statements (deeper tcr) el of (el, tc') \<Rightarrow> (IfStatement (resolve_calls tc c) th' el,
         merge_branch_symbols (snapshot_symbols tc1 n) (snapshot_symbols tc2 n) ((discard_symbols_to n tc')\<lparr>scope_depth := scope_depth tc' - 1\<rparr>)))"
    by (simp only: check_statement.simps Let_def tc1_def [symmetric] n_def [symmetric] t prod.case discard_simps tc3_def [symmetric]
      tcr_def [symmetric])
  have eq: "check_statement tc (IfStatement c th el) =
      (if tc_error tcr then (IfStatement (resolve_calls tc c) th' el, tcr) else (IfStatement (resolve_calls tc c) th' el', tc6))"
  proof (cases "tc_error tcr")
    case False
    then show ?thesis unfolding eq0 tcr1 [OF False] e tc6_def tc5_def by simp
  qed (simp only: eq0 if_True)
  show "step_ok tc final" unfolding final_def eq
    using step_ok_trans [OF s1 sr] step_ok_trans [OF s1 s6] by simp
  assume ok: "\<not> tc_error final"
  have "\<not> tc_error tcr" using ok unfolding final_def eq by (auto split: if_splits)
  with er tcr1 step_ok_error [OF sr] have "\<not> tc_error tc1" "\<not> tc_error tc2" by auto
  with verdict_no_error [OF v1] have "tc1 = tc" "well_typed tc c" "ty tc c \<in> {TY_BOOL, TY_UNKNOWN}" by auto
  then show "\<exists>th' el' tc2 tc4. well_typed tc c \<and> ty tc c \<in> {TY_BOOL, TY_UNKNOWN}
      \<and> check_statements (deeper tc) th = (th', tc2) \<and> \<not> tc_error tc2
      \<and> check_statements (deeper tc) el = (el', tc4) \<and> \<not> tc_error tc4
      \<and> fst (check_statement tc (IfStatement c th el)) = IfStatement (resolve_calls tc c) th' el'
      \<and> list_all2 sym_kept (tc_symbols tc) (tc_symbols final)"
    using t e sy6 e6 ok \<open>\<not> tc_error tc2\<close> \<open>\<not> tc_error tcr\<close> unfolding final_def eq by auto
qed

lemma check_while_step:
  fixes tc c b
  defines "final \<equiv> snd (check_statement tc (WhileStatement c b))"
  assumes wf: "list_all sym_wf (tc_symbols tc)" and b: "steps b"
  shows "step_ok tc final"
    and "\<not> tc_error final \<Longrightarrow> \<exists>b' tc2. well_typed tc c \<and> ty tc c \<in> {TY_BOOL, TY_UNKNOWN}
      \<and> check_statements ((deeper tc)\<lparr>loop_depth := loop_depth tc + 1\<rparr>) b = (b', tc2) \<and> \<not> tc_error tc2
      \<and> fst (check_statement tc (WhileStatement c b)) = WhileStatement (resolve_calls tc c) b'
      \<and> list_all2 sym_kept (tc_symbols tc) (tc_symbols final)"
proof -
  define tc1 where "tc1 = check_condition ''while condition must be boolean.'' tc c"
  have v1: "verdict tc (well_typed tc c \<and> ty tc c \<in> {TY_BOOL, TY_UNKNOWN}) tc1" unfolding tc1_def by (rule check_condition_verdict)
  have s1: "step_ok tc tc1" by (rule may_report_step [OF verdict_reports [OF v1] wf])
  let ?in = "(deeper tc1)\<lparr>loop_depth := loop_depth tc1 + 1\<rparr>"
  obtain b' tc2 where t: "check_statements ?in b = (b', tc2)" by fastforce
  have s2: "step_ok ?in tc2" by (rule stepsD [OF b t]) (use step_ok_wf [OF s1] in simp)
  define tc3 where "tc3 = (discard_symbols_to (length (tc_symbols tc1)) (tc2\<lparr>loop_depth := loop_depth tc2 - 1\<rparr>))\<lparr>scope_depth := scope_depth tc2 - 1\<rparr>"
  have f3: "tc_frame tc1 tc3" using s2 by (simp add: tc3_def step_ok_def tc_frame_iff)
  have b3: "step_ok tc1 tc3" "list_all2 sym_kept (tc_symbols tc1) (tc_symbols tc3)"
    using block_step [OF s2 _ _ _ f3] by (simp_all add: tc3_def)
  have eq: "check_statement tc (WhileStatement c b) = (WhileStatement (resolve_calls tc c) b', tc3)"
    unfolding check_statement.simps Let_def tc1_def [symmetric] by (simp add: t [simplified] tc3_def)
  show "step_ok tc final" unfolding final_def eq snd_conv by (rule step_ok_trans [OF s1 b3(1)])
  assume ok: "\<not> tc_error final"
  then have "\<not> tc_error tc2" unfolding final_def eq by (simp add: tc3_def)
  with step_ok_error [OF s2] have "\<not> tc_error tc1" by auto
  with verdict_no_error [OF v1] have "tc1 = tc" "well_typed tc c" "ty tc c \<in> {TY_BOOL, TY_UNKNOWN}" by auto
  then show "\<exists>b' tc2. well_typed tc c \<and> ty tc c \<in> {TY_BOOL, TY_UNKNOWN}
      \<and> check_statements ((deeper tc)\<lparr>loop_depth := loop_depth tc + 1\<rparr>) b = (b', tc2) \<and> \<not> tc_error tc2
      \<and> fst (check_statement tc (WhileStatement c b)) = WhileStatement (resolve_calls tc c) b'
      \<and> list_all2 sym_kept (tc_symbols tc) (tc_symbols final)"
    using t b3(2) \<open>\<not> tc_error tc2\<close> unfolding final_def eq by auto
qed

lemma check_unsafe_step:
  fixes tc ss
  defines "final \<equiv> snd (check_statement tc (UnsafeBlock ss))"
  assumes wf: "list_all sym_wf (tc_symbols tc)" and b: "steps ss"
  shows "step_ok tc final"
    and "\<not> tc_error final \<Longrightarrow> \<exists>ss' tc2. check_statements ((deeper tc)\<lparr>unsafe_depth := unsafe_depth tc + 1\<rparr>) ss = (ss', tc2)
      \<and> \<not> tc_error tc2 \<and> fst (check_statement tc (UnsafeBlock ss)) = UnsafeBlock ss'
      \<and> list_all2 sym_kept (tc_symbols tc) (tc_symbols final)"
proof -
  let ?in = "(deeper tc)\<lparr>unsafe_depth := unsafe_depth tc + 1\<rparr>"
  obtain ss' tc2 where t: "check_statements ?in ss = (ss', tc2)" by fastforce
  have s2: "step_ok ?in tc2" by (rule stepsD [OF b t]) (use wf in simp)
  define tc3 where "tc3 = (discard_symbols_to (length (tc_symbols tc)) (tc2\<lparr>unsafe_depth := unsafe_depth tc2 - 1\<rparr>))\<lparr>scope_depth := scope_depth tc2 - 1\<rparr>"
  have f3: "tc_frame tc tc3" using s2 by (simp add: tc3_def step_ok_def tc_frame_iff)
  have b3: "step_ok tc tc3" "list_all2 sym_kept (tc_symbols tc) (tc_symbols tc3)"
    using block_step [OF s2 _ _ _ f3] by (simp_all add: tc3_def)
  have eq: "check_statement tc (UnsafeBlock ss) = (UnsafeBlock ss', tc3)"
    unfolding check_statement.simps Let_def by (simp add: t [simplified] tc3_def)
  show "step_ok tc final" unfolding final_def eq snd_conv by (rule b3(1))
  assume ok: "\<not> tc_error final"
  then have "\<not> tc_error tc2" unfolding final_def eq by (simp add: tc3_def)
  then show "\<exists>ss' tc2. check_statements ((deeper tc)\<lparr>unsafe_depth := unsafe_depth tc + 1\<rparr>) ss = (ss', tc2)
      \<and> \<not> tc_error tc2 \<and> fst (check_statement tc (UnsafeBlock ss)) = UnsafeBlock ss'
      \<and> list_all2 sym_kept (tc_symbols tc) (tc_symbols final)"
    using t b3(2) unfolding final_def eq by auto
qed

definition function_state :: "type_checker \<Rightarrow> string \<Rightarrow> string option \<Rightarrow> type_checker" where
  "function_state tc f r = tc\<lparr>function_namespace := (case name_prefix f of None \<Rightarrow> function_namespace tc | Some ns \<Rightarrow> Some ns),
     scope_depth := scope_depth tc + 1, loop_depth := 0, in_function := True,
     expected_return := (case r of None \<Rightarrow> TY_UNKNOWN | Some r \<Rightarrow> type_from_name r)\<rparr>"

lemma enter_function_step:
  assumes "list_all sym_wf (tc_symbols tc)"
  shows "step_ok (function_state tc f r) (enter_function tc f ps r)"
proof -
  have "step_ok (function_state tc f r) (function_state tc f r)" by (rule step_ok_refl) (simp add: function_state_def assms)
  then show ?thesis unfolding enter_function_def function_state_def [symmetric] Let_def
    by (intro add_parameters_step error_if_step)
qed

lemma check_function_step:
  fixes tc f ps ts n r u b
  defines "final \<equiv> snd (check_statement tc (FunctionDeclaration f ps ts n r u b))"
  assumes wf: "list_all sym_wf (tc_symbols tc)" and b: "steps b"
  shows "step_ok tc final"
    and "\<not> tc_error final \<Longrightarrow> \<exists>b' tc2. check_statements (enter_function tc f (take n (zip ps ts)) r) b = (b', tc2) \<and> \<not> tc_error tc2
      \<and> (expected_return tc2 \<in> {TY_UNKNOWN, TY_VOID} \<or> statement_list_returns b)
      \<and> fst (check_statement tc (FunctionDeclaration f ps ts n r u b)) = FunctionDeclaration f ps ts n r u b'
      \<and> list_all2 sym_kept (tc_symbols tc) (tc_symbols final)"
proof -
  let ?in = "enter_function tc f (take n (zip ps ts)) r"
  obtain b' tc2 where t: "check_statements ?in b = (b', tc2)" by fastforce
  have s0: "step_ok (function_state tc f r) ?in" by (rule enter_function_step [OF wf])
  have s2: "step_ok ?in tc2" by (rule stepsD [OF b t step_ok_wf [OF s0]])
  define bad where "bad \<longleftrightarrow> expected_return tc2 \<noteq> TY_UNKNOWN \<and> expected_return tc2 \<noteq> TY_VOID \<and> \<not> statement_list_returns b"
  define m where "m = buffer 320 (''typed function '' @ quoted f @ '' returning '' @ type_name_of (expected_return tc2)
               @ '' does not return a value on every path.'')"
  define tc2' where "tc2' = error_if bad m tc2"
  have s2': "step_ok (function_state tc f r) tc2'" unfolding tc2'_def by (rule error_if_step [OF step_ok_trans [OF s0 s2]])
  define tc3 where "tc3 = leave_function tc f b tc2"
  have tc3: "tc3 = (discard_symbols_to (length (tc_symbols tc)) tc2')\<lparr>expected_return := expected_return tc, in_function := in_function tc,
        loop_depth := loop_depth tc, function_namespace := function_namespace tc, scope_depth := scope_depth tc\<rparr>"
    by (simp add: tc3_def leave_function_def Let_def tc2'_def bad_def m_def)
  have f3: "tc_frame tc tc3" using s2' by (simp add: tc3 step_ok_def tc_frame_iff function_state_def)
  have b3: "step_ok tc tc3" "list_all2 sym_kept (tc_symbols tc) (tc_symbols tc3)"
    using block_step [OF s2' _ _ _ f3] by (simp_all add: tc3 function_state_def)
  have eq: "check_statement tc (FunctionDeclaration f ps ts n r u b) = (FunctionDeclaration f ps ts n r u b', tc3)"
    by (simp add: t tc3_def)
  show "step_ok tc final" unfolding final_def eq snd_conv by (rule b3(1))
  assume ok: "\<not> tc_error final"
  then have "\<not> tc_error tc2'" unfolding final_def eq by (simp add: tc3)
  then have "\<not> tc_error tc2" "\<not> bad" by (auto simp: tc2'_def split: if_splits)
  then show "\<exists>b' tc2. check_statements ?in b = (b', tc2) \<and> \<not> tc_error tc2
      \<and> (expected_return tc2 \<in> {TY_UNKNOWN, TY_VOID} \<or> statement_list_returns b)
      \<and> fst (check_statement tc (FunctionDeclaration f ps ts n r u b)) = FunctionDeclaration f ps ts n r u b'
      \<and> list_all2 sym_kept (tc_symbols tc) (tc_symbols final)"
    using t b3(2) unfolding final_def eq by (auto simp: bad_def)
qed

definition stepping :: "ast \<Rightarrow> bool" where
  "stepping s \<longleftrightarrow> (\<forall>tc. list_all sym_wf (tc_symbols tc) \<longrightarrow> step_ok tc (snd (check_statement tc s)))"

lemma steps_list: "\<forall>s \<in> set ss. stepping s \<Longrightarrow> steps ss"
proof (induction ss)
  case Nil
  then show ?case by (simp add: steps_def step_ok_refl)
next
  case (Cons s ss)
  show ?case unfolding steps_def
  proof (intro allI impI)
    fix tc :: type_checker
    assume wf: "list_all sym_wf (tc_symbols tc)"
    obtain s' tc1 where s: "check_statement tc s = (s', tc1)" by fastforce
    obtain ss' tc2 where ss: "check_statements tc1 ss = (ss', tc2)" by fastforce
    have 1: "step_ok tc tc1" using Cons.prems wf s unfolding stepping_def by (metis list.set_intros(1) snd_conv)
    have "step_ok tc1 tc2" using stepsD [OF Cons.IH ss step_ok_wf [OF 1]] Cons.prems by simp
    then show "step_ok tc (snd (check_statements tc (s # ss)))"
      using step_ok_refl [OF wf] step_ok_trans [OF 1] by (simp add: s ss)
  qed
qed

lemma check_statement_stepping: "stepping s"
proof (induction s)
  case (IfStatement c th el)
  then have "steps th" "steps el" by (simp_all add: steps_list)
  then show ?case by (simp add: stepping_def check_if_step(1) del: check_statement.simps)
next
  case (WhileStatement c b)
  then have "steps b" by (simp_all add: steps_list)
  then show ?case by (simp add: stepping_def check_while_step(1) del: check_statement.simps)
next
  case (UnsafeBlock ss)
  then have "steps ss" by (simp_all add: steps_list)
  then show ?case by (simp add: stepping_def check_unsafe_step(1) del: check_statement.simps)
next
  case (FunctionDeclaration f ps ts n r u b)
  then have "steps b" by (simp_all add: steps_list)
  then show ?case by (simp add: stepping_def check_function_step(1) del: check_statement.simps)
next
  case (VariableDeclaration x t v reassign)
  then show ?case unfolding stepping_def by (auto simp: Let_def split: prod.splits dest: check_variable_step [of _ x t v])
next
  case (Assignment t v)
  then show ?case unfolding stepping_def using may_report_step [OF verdict_reports [OF check_assignment_verdict]] by simp
next
  case (ReturnStatement e)
  then show ?case unfolding stepping_def using may_report_step [OF verdict_reports [OF check_return_verdict]] by simp
next
  case (PrintStatement e)
  then show ?case unfolding stepping_def using may_report_step [OF verdict_reports [OF check_print_verdict]] by simp
next
  case (FunctionCall f as n)
  then show ?case unfolding stepping_def using expr_type_step [of _ "FunctionCall f as n"] by simp
qed (auto simp: stepping_def intro: type_error_step step_ok_refl)

lemma check_statements_steps: "steps ss"
  by (simp add: steps_list check_statement_stepping)

lemmas check_statements_step = stepsD [OF check_statements_steps]

lemma check_statement_step:
  "check_statement tc s = (s', tc') \<Longrightarrow> list_all sym_wf (tc_symbols tc) \<Longrightarrow> step_ok tc tc'"
  using check_statement_stepping [of s] unfolding stepping_def by (metis snd_conv)

section \<open>Accepted statements\<close>

lemmas check_if_accepted = check_if_step(2) [OF _ check_statements_steps check_statements_steps]
lemmas check_while_accepted = check_while_step(2) [OF _ check_statements_steps]
lemmas check_unsafe_accepted = check_unsafe_step(2) [OF _ check_statements_steps]
lemmas check_function_accepted = check_function_step(2) [OF _ check_statements_steps]

lemma check_statements_accepted:
  assumes "check_statements tc (s # ss) = (zs, tc')" "\<not> tc_error tc'" "list_all sym_wf (tc_symbols tc)"
  obtains s' ss' tc1 where "check_statement tc s = (s', tc1)" "\<not> tc_error tc" "\<not> tc_error tc1" "list_all sym_wf (tc_symbols tc1)"
    "check_statements tc1 ss = (ss', tc')" "zs = s' # ss'"
proof -
  have e: "\<not> tc_error tc" using assms(1,2) by (auto split: if_splits)
  obtain s' tc1 where s: "check_statement tc s = (s', tc1)" by fastforce
  obtain ss' tc2 where ss: "check_statements tc1 ss = (ss', tc2)" by fastforce
  have tc2: "tc2 = tc'" "zs = s' # ss'" using assms(1) e by (simp_all add: s ss)
  note 1 = check_statement_step [OF s assms(3)]
  have "\<not> tc_error tc1" using step_ok_error [OF check_statements_step [OF ss step_ok_wf [OF 1]]] tc2 assms(2) by auto
  then show ?thesis using that [OF s e _ step_ok_wf [OF 1]] ss tc2 by simp
qed

end
