(* ===== verification/TypeCheckPlaced.thy ===== *)
theory TypeCheckPlaced
  imports TypeCheckFrame
begin

text \<open>
  What an accepted program looks like: where jumps, returns, inline assembly and unsafe calls may stand (\<open>placed\<close>),
  and how the execution of a statement list can end (\<open>list_ends\<close>).
\<close>

section \<open>Placement\<close>

fun calls_ok :: "(string \<Rightarrow> bool) \<Rightarrow> ast \<Rightarrow> bool" where
  "calls_ok P (ArrayLiteral es n) \<longleftrightarrow> list_all (calls_ok P) es"
| "calls_ok P (IndexExpression a i) \<longleftrightarrow> calls_ok P a \<and> calls_ok P i"
| "calls_ok P (MemberExpression ob m) \<longleftrightarrow> calls_ok P ob"
| "calls_ok P (FunctionCall f as n) \<longleftrightarrow> P f \<and> list_all (calls_ok P) as"
| "calls_ok P (UnaryExpression e op) \<longleftrightarrow> calls_ok P e"
| "calls_ok P (BinaryExpression l r op) \<longleftrightarrow> calls_ok P l \<and> calls_ok P r"
| "calls_ok P _ \<longleftrightarrow> True"

text \<open>\<open>U\<close> are the unsafe functions; the flags say whether the statement is in a function, a loop of it, an unsafe block.\<close>

definition callable :: "string set \<Rightarrow> bool \<Rightarrow> string \<Rightarrow> bool" where
  "callable U in_unsafe f \<longleftrightarrow> in_unsafe \<or> f \<notin> U \<and> f \<notin> set raw_memory_builtins"

definition typed_result :: "string option \<Rightarrow> bool" where
  "typed_result r \<longleftrightarrow> (case r of None \<Rightarrow> False | Some t \<Rightarrow> type_from_name t \<noteq> TY_VOID)"

fun placed :: "string set \<Rightarrow> bool \<Rightarrow> bool \<Rightarrow> bool \<Rightarrow> ast \<Rightarrow> bool" where
  "placed U fn loop uns BreakStatement \<longleftrightarrow> loop"
| "placed U fn loop uns ContinueStatement \<longleftrightarrow> loop"
| "placed U fn loop uns (ReturnStatement e) \<longleftrightarrow> fn \<and> (\<forall>x. e = Some x \<longrightarrow> calls_ok (callable U uns) x)"
| "placed U fn loop uns (AsmStatement a v) \<longleftrightarrow> uns"
| "placed U fn loop uns (VariableDeclaration x t v reassign) \<longleftrightarrow> calls_ok (callable U uns) v"
| "placed U fn loop uns (Assignment t v) \<longleftrightarrow> calls_ok (callable U uns) t \<and> calls_ok (callable U uns) v"
| "placed U fn loop uns (PrintStatement e) \<longleftrightarrow> calls_ok (callable U uns) e"
| "placed U fn loop uns (FunctionCall f as n) \<longleftrightarrow> calls_ok (callable U uns) (FunctionCall f as n)"
| "placed U fn loop uns (IfStatement c th el) \<longleftrightarrow> calls_ok (callable U uns) c
     \<and> list_all (placed U fn loop uns) th \<and> list_all (placed U fn loop uns) el"
| "placed U fn loop uns (WhileStatement c b) \<longleftrightarrow> calls_ok (callable U uns) c \<and> list_all (placed U fn True uns) b"
| "placed U fn loop uns (UnsafeBlock ss) \<longleftrightarrow> list_all (placed U fn loop True) ss"
| "placed U fn loop uns (FunctionDeclaration f ps ts n r u b) \<longleftrightarrow> list_all (placed U True False uns) b
     \<and> (typed_result r \<longrightarrow> statement_list_returns b)"
| "placed U fn loop uns _ \<longleftrightarrow> True"

definition unsafe_names :: "type_checker \<Rightarrow> string set" where
  "unsafe_names tc = {f. \<exists>d. find_function tc f = Some d \<and> def_unsafe d}"

lemma well_typed_calls: "well_typed tc e \<Longrightarrow> calls_ok (callable (unsafe_names tc) (0 < unsafe_depth tc)) (resolve_calls tc e)"
proof (induction e)
  case (FunctionCall f as n)
  then show ?case by (auto simp: list_all_iff call_ok_def call_allowed_def callable_def unsafe_names_def)
qed (auto simp: list_all_iff)

definition well_placed :: "type_checker \<Rightarrow> ast \<Rightarrow> bool" where
  "well_placed tc s \<longleftrightarrow> placed (unsafe_names tc) (in_function tc) (0 < loop_depth tc) (0 < unsafe_depth tc) s"

text \<open>\<open>accepts s\<close>: if the checker accepts \<open>s\<close>, the statement it leaves is well placed and returns where \<open>s\<close> does.\<close>

definition accepts :: "ast \<Rightarrow> bool" where
  "accepts s \<longleftrightarrow> (\<forall>tc s' tc'. check_statement tc s = (s', tc') \<longrightarrow> \<not> tc_error tc' \<longrightarrow> list_all sym_wf (tc_symbols tc)
     \<longrightarrow> well_placed tc s' \<and> statement_returns s' = statement_returns s)"

lemma unsafe_names_frame: "tc_functions tc' = tc_functions tc \<Longrightarrow> unsafe_names tc' = unsafe_names tc"
  by (simp add: unsafe_names_def find_function_def)

lemma unsafe_names_update [simp]:
  "unsafe_names (tc\<lparr>scope_depth := d\<rparr>) = unsafe_names tc" "unsafe_names (tc\<lparr>loop_depth := d\<rparr>) = unsafe_names tc"
  "unsafe_names (tc\<lparr>unsafe_depth := d\<rparr>) = unsafe_names tc"
  by (simp_all add: unsafe_names_def find_function_def)

lemma well_placed_frame: "tc_frame tc tc' \<Longrightarrow> well_placed tc' = well_placed tc"
  using tc_frame_simps [of tc tc'] unsafe_names_frame [of tc' tc] by (simp add: fun_eq_iff well_placed_def)

lemma accepts_list:
  assumes "\<forall>s \<in> set ss. accepts s" "check_statements tc ss = (ss', tc')" "\<not> tc_error tc'" "list_all sym_wf (tc_symbols tc)"
  shows "list_all (well_placed tc) ss' \<and> map statement_returns ss' = map statement_returns ss"
  using assms
proof (induction ss arbitrary: tc ss')
  case (Cons s ss)
  from Cons.prems(2-4) obtain s' zs tc1 where s: "check_statement tc s = (s', tc1)" "\<not> tc_error tc1" "list_all sym_wf (tc_symbols tc1)"
    "check_statements tc1 ss = (zs, tc')" "ss' = s' # zs" by (rule check_statements_accepted)
  have "tc_frame tc tc1" using check_statement_step [OF s(1) Cons.prems(4)] by (simp add: step_ok_def)
  moreover have "well_placed tc s' \<and> statement_returns s' = statement_returns s"
    using Cons.prems(1,4) s(1,2) unfolding accepts_def by (metis list.set_intros(1))
  ultimately show ?case using Cons.IH [OF _ s(4) Cons.prems(3) s(3)] Cons.prems(1) s(5) by (simp add: well_placed_frame)
qed simp

lemma map_list_ex: "map P xs = map P ys \<Longrightarrow> list_ex P xs = list_ex P ys"
  by (metis list.set_map list_ex_iff imageE imageI)

lemma expected_return_entered:
  assumes wf: "list_all sym_wf (tc_symbols tc)" and c: "check_statements (enter_function tc f ps r) b = (b', tc2)"
  shows "expected_return tc2 = (case r of None \<Rightarrow> TY_UNKNOWN | Some r \<Rightarrow> type_from_name r)" "in_function (enter_function tc f ps r)"
    "loop_depth (enter_function tc f ps r) = 0" "unsafe_depth (enter_function tc f ps r) = unsafe_depth tc"
    "tc_functions (enter_function tc f ps r) = tc_functions tc" "tc_structs (enter_function tc f ps r) = tc_structs tc"
    "list_all sym_wf (tc_symbols (enter_function tc f ps r))"
proof -
  note e = enter_function_step [OF wf, of f r ps]
  note c' = check_statements_step [OF c step_ok_wf [OF e]]
  show "expected_return tc2 = (case r of None \<Rightarrow> TY_UNKNOWN | Some r \<Rightarrow> type_from_name r)" "in_function (enter_function tc f ps r)"
    "loop_depth (enter_function tc f ps r) = 0" "unsafe_depth (enter_function tc f ps r) = unsafe_depth tc"
    "tc_functions (enter_function tc f ps r) = tc_functions tc" "tc_structs (enter_function tc f ps r) = tc_structs tc"
    "list_all sym_wf (tc_symbols (enter_function tc f ps r))"
    using e c' by (simp_all add: step_ok_def tc_frame_iff function_state_def)
qed

lemma check_statement_accepts: "accepts s"
proof (induction s)
  case (IfStatement c th el)
  show ?case unfolding accepts_def
  proof (intro allI impI)
    fix tc :: type_checker and s' tc'
    assume a: "check_statement tc (IfStatement c th el) = (s', tc')" "\<not> tc_error tc'" and wf: "list_all sym_wf (tc_symbols tc)"
    from check_if_accepted [OF wf, of c th el] a(2) obtain th' el' tc2 tc4 where
      c: "well_typed tc c" and t: "check_statements (deeper tc) th = (th', tc2)" "\<not> tc_error tc2"
      and e: "check_statements (deeper tc) el = (el', tc4)" "\<not> tc_error tc4" and s': "s' = IfStatement (resolve_calls tc c) th' el'"
      unfolding a(1) by auto
    have wf': "list_all sym_wf (tc_symbols (deeper tc))" using wf by simp
    have wp: "well_placed (deeper tc) = well_placed tc" by (simp add: fun_eq_iff well_placed_def)
    have 1: "list_all (well_placed tc) th' \<and> map statement_returns th' = map statement_returns th"
      using accepts_list [OF _ t wf'] IfStatement.IH(2) unfolding wp by simp
    have 2: "list_all (well_placed tc) el' \<and> map statement_returns el' = map statement_returns el"
      using accepts_list [OF _ e wf'] IfStatement.IH(3) unfolding wp by simp
    have "el' = [] \<longleftrightarrow> el = []" using arg_cong [OF conjunct2 [OF 2], of length] by auto
    then show "well_placed tc s' \<and> statement_returns s' = statement_returns (IfStatement c th el)"
      using 1 2 well_typed_calls [OF c] map_list_ex [OF conjunct2 [OF 1]] map_list_ex [OF conjunct2 [OF 2]]
      by (simp add: s' well_placed_def [abs_def])
  qed
next
  case (WhileStatement c b)
  show ?case unfolding accepts_def
  proof (intro allI impI)
    fix tc :: type_checker and s' tc'
    assume a: "check_statement tc (WhileStatement c b) = (s', tc')" "\<not> tc_error tc'" and wf: "list_all sym_wf (tc_symbols tc)"
    let ?in = "(deeper tc)\<lparr>loop_depth := loop_depth tc + 1\<rparr>"
    from check_while_accepted [OF wf, of c b] a(2) obtain b' tc2 where
      c: "well_typed tc c" and t: "check_statements ?in b = (b', tc2)" "\<not> tc_error tc2" and s': "s' = WhileStatement (resolve_calls tc c) b'"
      unfolding a(1) by auto
    have wp: "well_placed ?in = placed (unsafe_names tc) (in_function tc) True (0 < unsafe_depth tc)"
      by (simp add: fun_eq_iff well_placed_def)
    have "list_all (well_placed ?in) b'" using accepts_list [OF _ t] WhileStatement.IH(2) wf by simp
    then show "well_placed tc s' \<and> statement_returns s' = statement_returns (WhileStatement c b)"
      using well_typed_calls [OF c] unfolding wp by (simp add: s' well_placed_def)
  qed
next
  case (UnsafeBlock ss)
  show ?case unfolding accepts_def
  proof (intro allI impI)
    fix tc :: type_checker and s' tc'
    assume a: "check_statement tc (UnsafeBlock ss) = (s', tc')" "\<not> tc_error tc'" and wf: "list_all sym_wf (tc_symbols tc)"
    let ?in = "(deeper tc)\<lparr>unsafe_depth := unsafe_depth tc + 1\<rparr>"
    from check_unsafe_accepted [OF wf, of ss] a(2) obtain ss' tc2 where
      t: "check_statements ?in ss = (ss', tc2)" "\<not> tc_error tc2" and s': "s' = UnsafeBlock ss'"
      unfolding a(1) by auto
    have wp: "well_placed ?in = placed (unsafe_names tc) (in_function tc) (0 < loop_depth tc) True"
      by (simp add: fun_eq_iff well_placed_def)
    have "list_all (well_placed ?in) ss' \<and> map statement_returns ss' = map statement_returns ss"
      using accepts_list [OF _ t] UnsafeBlock.IH wf by simp
    then show "well_placed tc s' \<and> statement_returns s' = statement_returns (UnsafeBlock ss)"
      using map_list_ex [of statement_returns ss' ss] unfolding wp by (simp add: s' well_placed_def)
  qed
next
  case (FunctionDeclaration f ps ts n r u b)
  show ?case unfolding accepts_def
  proof (intro allI impI)
    fix tc :: type_checker and s' tc'
    assume a: "check_statement tc (FunctionDeclaration f ps ts n r u b) = (s', tc')" "\<not> tc_error tc'" and wf: "list_all sym_wf (tc_symbols tc)"
    let ?in = "enter_function tc f (take n (zip ps ts)) r"
    from check_function_accepted [OF wf, of f ps ts n r u b] a(2) obtain b' tc2 where
      t: "check_statements ?in b = (b', tc2)" "\<not> tc_error tc2" and ret: "expected_return tc2 \<in> {TY_UNKNOWN, TY_VOID} \<or> statement_list_returns b"
      and s': "s' = FunctionDeclaration f ps ts n r u b'"
      unfolding a(1) by auto
    note i = expected_return_entered [OF wf t(1)]
    have wp: "well_placed ?in = placed (unsafe_names tc) True False (0 < unsafe_depth tc)"
      by (simp add: fun_eq_iff well_placed_def i unsafe_names_frame [OF i(5)])
    have "list_all (well_placed ?in) b' \<and> map statement_returns b' = map statement_returns b"
      using accepts_list [OF _ t i(7)] FunctionDeclaration.IH by simp
    then show "well_placed tc s' \<and> statement_returns s' = statement_returns (FunctionDeclaration f ps ts n r u b)"
      using ret map_list_ex [of statement_returns b' b] type_from_name_known unfolding wp i(1)
      by (auto simp: s' well_placed_def typed_result_def statement_list_returns_def split: option.splits)
  qed
next
  case (VariableDeclaration x t v reassign)
  show ?case unfolding accepts_def well_placed_def
    by (clarsimp simp: Let_def split: prod.splits) (metis snd_conv check_variable_accepted(1) well_typed_calls)
next
  case (Assignment t v)
  show ?case unfolding accepts_def well_placed_def
    using well_typed_calls verdict_no_error [OF check_assignment_verdict [of _ t v]] by auto
next
  case (PrintStatement e)
  show ?case unfolding accepts_def well_placed_def
    using well_typed_calls verdict_no_error [OF check_print_verdict [of _ e]] by (auto simp: Let_def split: prod.splits)
next
  case (ReturnStatement e)
  show ?case unfolding accepts_def well_placed_def
    using well_typed_calls verdict_no_error [OF check_return_verdict [of _ e]] by (auto simp: return_ok_def)
next
  case (FunctionCall f as n)
  have "well_typed tc (FunctionCall f as n)" if "\<not> tc_error (snd (expr_type tc (FunctionCall f as n)))" for tc
    using verdict_no_error that expr_type_verdict by blast
  then show ?case unfolding accepts_def well_placed_def
    using well_typed_calls [of _ "FunctionCall f as n"] by (auto simp del: expr_type.simps well_typed.simps)
qed (auto simp: accepts_def well_placed_def split: if_splits)

section \<open>How statements end\<close>

text \<open>Execution with the data left out: a condition may go either way, a loop may run any number of times.\<close>

datatype ending = Falls | Breaks | Continues | Returns

inductive ends :: "ast \<Rightarrow> ending \<Rightarrow> bool"
  and list_ends :: "ast list \<Rightarrow> ending \<Rightarrow> bool" where
  "list_ends [] Falls"
| "ends s Falls \<Longrightarrow> list_ends ss oc \<Longrightarrow> list_ends (s # ss) oc"
| "ends s oc \<Longrightarrow> oc \<noteq> Falls \<Longrightarrow> list_ends (s # ss) oc"
| "ends (ReturnStatement e) Returns"
| "ends BreakStatement Breaks"
| "ends ContinueStatement Continues"
| "list_ends ss oc \<Longrightarrow> ends (UnsafeBlock ss) oc"
| "list_ends th oc \<Longrightarrow> ends (IfStatement c th el) oc"
| "list_ends el oc \<Longrightarrow> ends (IfStatement c th el) oc"
| "ends (WhileStatement c b) Falls"
| "list_ends b Returns \<Longrightarrow> ends (WhileStatement c b) Returns"
| "ends (PrintStatement e) Falls"
| "ends (VariableDeclaration x t v reassign) Falls"
| "ends (Assignment t v) Falls"
| "ends (FunctionCall f as n) Falls"
| "ends (FunctionDeclaration f ps ts n r u b) Falls"
| "ends (StructDeclaration s fs n) Falls"
| "ends (AsmStatement a v) Falls"

lemma returning_ends:
  "ends s oc \<Longrightarrow> statement_returns s \<Longrightarrow> oc \<noteq> Falls"
  "list_ends ss oc \<Longrightarrow> list_ex statement_returns ss \<Longrightarrow> oc \<noteq> Falls"
  by (induction rule: ends_list_ends.inducts) auto

lemma placed_ends:
  "ends s oc \<Longrightarrow> placed U fn False uns s \<Longrightarrow> oc \<noteq> Breaks \<and> oc \<noteq> Continues"
  "list_ends ss oc \<Longrightarrow> list_all (placed U fn False uns) ss \<Longrightarrow> oc \<noteq> Breaks \<and> oc \<noteq> Continues"
  by (induction arbitrary: uns and uns rule: ends_list_ends.inducts) auto

text \<open>All statements of a program, nested ones included.\<close>

fun statements_in :: "ast \<Rightarrow> ast list" where
  "statements_in (IfStatement c th el) = IfStatement c th el # concat (map statements_in th) @ concat (map statements_in el)"
| "statements_in (WhileStatement c b) = WhileStatement c b # concat (map statements_in b)"
| "statements_in (UnsafeBlock ss) = UnsafeBlock ss # concat (map statements_in ss)"
| "statements_in (FunctionDeclaration f ps ts n r u b) = FunctionDeclaration f ps ts n r u b # concat (map statements_in b)"
| "statements_in s = [s]"

lemma placed_nested:
  "placed U fn loop uns s \<Longrightarrow> s' \<in> set (statements_in s) \<Longrightarrow> \<exists>fn loop uns. placed U fn loop uns s'"
proof (induction s arbitrary: fn loop uns)
  case (IfStatement c th el)
  then show ?case by (fastforce simp: list_all_iff)
next
  case (WhileStatement c b)
  then show ?case by (fastforce simp: list_all_iff)
next
  case (UnsafeBlock ss)
  then show ?case by (fastforce simp: list_all_iff)
next
  case (FunctionDeclaration f ps ts n r u b)
  then show ?case by (auto simp: list_all_iff) blast+
qed auto

end
