(* ===== verification/TypeCheckProps.thy ===== *)
theory TypeCheckProps
  imports TypeCheckPlaced
begin

text \<open>The properties of the type checker.\<close>

section \<open>Expressions\<close>

text \<open>
  C35. \<open>expr_type\<close> decides the typing rules: it returns the type \<open>ty\<close> of the expression; it never changes anything but
  the error flag and the messages, where it adds at most one message; and it changes nothing exactly when the expression is
  well typed or an error has been reported before.
\<close>

theorem expr_type_decides:
  "fst (expr_type tc e) = ty tc e \<and> may_report tc (snd (expr_type tc e))
   \<and> (snd (expr_type tc e) = tc \<longleftrightarrow> tc_error tc \<or> well_typed tc e)"
proof -
  have t: "fst (expr_type tc e) = ty tc e" and v: "verdict tc (well_typed tc e) (snd (expr_type tc e))"
    using expr_type_verdict [of tc e] by (simp add: prod_eq_iff, blast)
  have "snd (expr_type tc e) = tc" if "tc_error tc" using may_report_sticky [OF verdict_reports [OF v] that] .
  moreover have "snd (expr_type tc e) = tc \<longleftrightarrow> well_typed tc e" if "\<not> tc_error tc"
    using v that by (auto simp: verdict_def may_report_def)
  ultimately show ?thesis using t verdict_reports [OF v] by blast
qed

lemma strstr_separator: "strstr (s @ ''__'' @ u) ''__'' \<noteq> None"
  by (induction s) auto

lemma resolve_function_call_idem: "resolve_function_call tc (resolve_function_call tc f n) n = resolve_function_call tc f n"
  using strstr_separator [of _ f] by (auto simp: resolve_function_call_def Let_def split: option.splits)

lemma index_array_resolve: "index_array (resolve_calls tc e) = map_option (resolve_calls tc) (index_array e)"
  by (cases e) auto

lemma resolve_ty: "ty tc (resolve_calls tc e) = ty tc e"
  by (induction e) (auto simp: resolve_function_call_idem)

lemma resolve_byte: "is_byte tc (resolve_calls tc e) = is_byte tc e"
  by (auto simp: is_byte_def index_array_resolve resolve_ty)

lemma resolve_well_typed: "well_typed tc (resolve_calls tc e) = well_typed tc e"
  by (induction e) (auto simp: resolve_function_call_idem resolve_ty resolve_byte byte_pair_def o_def)

lemma resolve_idem: "resolve_calls tc (resolve_calls tc e) = resolve_calls tc e"
  by (induction e) (auto simp: resolve_function_call_idem)

text \<open>
  C40. Renaming the calls of an expression to the functions of the current module is idempotent, and the renamed
  expression has the same type and the same verdict: later phases see the program that was checked, and the checks that
  the code repeats on the renamed tree (typed arguments, bytes of a string) agree with the first.
\<close>

theorem resolve_calls_stable:
  "resolve_calls tc (resolve_calls tc e) = resolve_calls tc e
   \<and> fst (expr_type tc (resolve_calls tc e)) = fst (expr_type tc e)
   \<and> (snd (expr_type tc (resolve_calls tc e)) = tc \<longleftrightarrow> snd (expr_type tc e) = tc)"
proof -
  have v: "verdict tc (well_typed tc x) (snd (expr_type tc x))" "fst (expr_type tc x) = ty tc x" for x
    using expr_type_verdict [of tc x] by (blast, simp add: prod_eq_iff)
  have "snd (expr_type tc x) = tc \<longleftrightarrow> tc_error tc \<or> well_typed tc x" for x
    using v(1) [of x] by (auto simp: verdict_def may_report_def)
  then show ?thesis by (simp add: v(2) resolve_idem resolve_ty resolve_well_typed)
qed

section \<open>Statements\<close>

text \<open>\<open>x: int\<close> is declared and \<open>y\<close> is not; then \<open>if true { x = 2; y = "a"; z = 1 }\<close>.\<close>

definition two_symbols :: type_checker where
  "two_symbols = add_symbol (add_symbol new_checker ''x'' TY_INT True) ''y'' TY_INT False"

definition reassigning :: "ast list" where
  "reassigning = [IfStatement (BooleanLiteral True)
     [VariableDeclaration ''x'' None (IntegerLiteral 2) False, VariableDeclaration ''y'' None (StringLiteral ''a'') False,
      VariableDeclaration ''z'' None (IntegerLiteral 1) False] []]"

text \<open>
  C38. Checking a list of statements leaves the context (scope, loop and unsafe depth, expected result, namespace, tables) as it was,
  and the variables that were visible keep their position, name and depth; a variable with a declared type has this type
  ever after, whatever is assigned to it and however branches are merged.
\<close>

theorem check_statements_frame:
  assumes "check_statements tc ss = (ss', tc')" "list_all sym_wf (tc_symbols tc)"
  shows "tc_frame tc tc' \<and> length (tc_symbols tc) \<le> length (tc_symbols tc') \<and> list_all sym_wf (tc_symbols tc')
    \<and> list_all2 sym_kept (tc_symbols tc) (take (length (tc_symbols tc)) (tc_symbols tc'))"
  using check_statements_step [OF assms] outlives_take outlives_length by (simp add: step_ok_def)

theorem check_statements_frame_witness:
  "map (\<lambda>s. (tc_name s, tc_type s, explicit_type s)) (tc_symbols (snd (check_statements two_symbols reassigning)))
     = [(''x'', TY_INT, True), (''y'', TY_UNKNOWN, False)]
   \<and> list_all sym_wf (tc_symbols two_symbols) \<and> tc_frame two_symbols (snd (check_statements two_symbols reassigning))"
proof -
  have wf: "list_all sym_wf (tc_symbols two_symbols)" by code_simp
  have "tc_frame two_symbols (snd (check_statements two_symbols reassigning))"
    using check_statements_frame [OF _ wf, of reassigning] by (metis prod.collapse)
  then show ?thesis using wf by (simp, code_simp)
qed

section \<open>Programs\<close>

lemma collect_keeps:
  "reports_once tc (collect_declarations tc ss) \<and> tc_symbols (collect_declarations tc ss) = tc_symbols tc
   \<and> in_function (collect_declarations tc ss) = in_function tc \<and> loop_depth (collect_declarations tc ss) = loop_depth tc
   \<and> unsafe_depth (collect_declarations tc ss) = unsafe_depth tc \<and> scope_depth (collect_declarations tc ss) = scope_depth tc"
proof (induction tc ss rule: collect_declarations.induct)
  case (2 tc f ps ts n r u b ss)
  then show ?case using reports_once_trans [OF _ conjunct1 [OF "2.IH"], of tc]
    by (auto simp: collect_function_def type_error_def reports_once_def split: if_splits)
next
  case (3 tc s fs n ss)
  then show ?case using reports_once_trans [OF _ conjunct1 [OF "3.IH"], of tc]
    by (auto simp: collect_struct_def type_error_def reports_once_def Let_def split: if_splits)
qed (auto simp: reports_once_def)

text \<open>
  C39. \<open>vnt_typecheck\<close> prints at most one message, and returns success exactly when it printed none.
\<close>

theorem vnt_typecheck_reports:
  "case vnt_typecheck (Program ss) of (ok, program, messages) \<Rightarrow> length messages \<le> 1 \<and> (ok \<longleftrightarrow> messages = [])"
proof -
  define tc where "tc = collect_declarations new_checker ss"
  have c: "reports_once new_checker tc" "tc_symbols tc = []" using collect_keeps [of new_checker ss] by (simp_all add: tc_def new_checker_def)
  obtain ss' tc' where s: "check_statements tc ss = (ss', tc')" by fastforce
  have "step_ok tc tc'" by (rule check_statements_step [OF s]) (simp add: c)
  then have "reports_once new_checker tc'" using c(1) reports_once_trans by (auto simp: step_ok_def)
  moreover have "\<not> tc_error new_checker" "tc_messages new_checker = []" by (simp_all add: new_checker_def)
  ultimately show ?thesis using c(1) s by (auto simp: tc_def [symmetric] reports_once_def Let_def split: if_splits)
qed

definition unsafe_functions :: "ast list \<Rightarrow> string set" where
  "unsafe_functions ss = {f. \<exists>ps ts n r b. FunctionDeclaration f ps ts n r True b \<in> set ss}"

lemma collect_error: "tc_error tc \<Longrightarrow> tc_error (collect_declarations tc ss)"
  using collect_keeps [of tc ss] by (simp add: reports_once_def)

lemma find_append: "find P (xs @ ys) = (case find P xs of None \<Rightarrow> find P ys | Some x \<Rightarrow> Some x)"
  by (induction xs) auto

lemma collect_unsafe:
  "\<not> tc_error (collect_declarations tc ss) \<Longrightarrow> distinct (map def_name (tc_functions tc)) \<Longrightarrow>
   unsafe_names tc \<union> unsafe_functions ss \<subseteq> unsafe_names (collect_declarations tc ss)"
proof (induction tc ss rule: collect_declarations.induct)
  case (1 tc)
  then show ?case by (simp add: unsafe_functions_def)
next
  case (2 tc f ps ts n r u b ss)
  let ?d = "\<lparr>def_name = f, def_arity = n, def_parameters = ps, def_types = ts, def_return = r, def_unsafe = u\<rparr>"
  let ?tc = "collect_function tc ?d"
  have "\<not> tc_error ?tc" using "2.prems"(1) collect_error [of ?tc ss] by auto
  then have new: "find_function tc f = None" by (simp add: collect_function_def split: if_splits)
  then have tc: "?tc = tc\<lparr>tc_functions := tc_functions tc @ [?d]\<rparr>" by (simp add: collect_function_def)
  have names: "f \<notin> set (map def_name (tc_functions tc))" using new by (auto simp: find_function_def find_None_iff)
  have "unsafe_names tc \<subseteq> unsafe_names ?tc" unfolding unsafe_names_def tc find_function_def by (auto simp: find_append split: option.splits)
  moreover have "f \<in> unsafe_names ?tc" if u using new that unfolding unsafe_names_def tc find_function_def by (simp add: find_append)
  moreover have "unsafe_functions (FunctionDeclaration f ps ts n r u b # ss) \<subseteq> unsafe_functions ss \<union> (if u then {f} else {})"
    by (auto simp: unsafe_functions_def) blast
  moreover have "unsafe_names ?tc \<union> unsafe_functions ss \<subseteq> unsafe_names (collect_declarations ?tc ss)"
    by (rule "2.IH") (use "2.prems" names in \<open>simp_all add: tc\<close>)
  ultimately show ?case by (auto split: if_splits)
next
  case (3 tc s fs n ss)
  have fs: "tc_functions (collect_struct tc s (take n fs)) = tc_functions tc" by (simp add: collect_struct_def Let_def type_error_def)
  have "unsafe_functions (StructDeclaration s fs n # ss) = unsafe_functions ss" by (auto simp: unsafe_functions_def)
  then show ?case using "3.IH" "3.prems" fs unsafe_names_frame [OF fs] by simp
qed (auto simp: unsafe_functions_def)

lemma calls_ok_mono: "calls_ok P e \<Longrightarrow> (\<And>f. P f \<Longrightarrow> Q f) \<Longrightarrow> calls_ok Q e"
  by (induction e) (auto simp: list_all_iff)

lemma callable_fewer: "callable U uns f \<Longrightarrow> V \<subseteq> U \<Longrightarrow> callable V uns f"
  by (auto simp: callable_def)

lemma placed_fewer: "placed U fn loop uns s \<Longrightarrow> V \<subseteq> U \<Longrightarrow> placed V fn loop uns s"
proof (induction U fn loop uns s rule: placed.induct)
qed (auto simp: list_all_iff callable_fewer intro: calls_ok_mono)

lemma typecheck_placed:
  assumes "vnt_typecheck (Program ss) = (True, Program ss', ms)"
  shows "list_all (placed (unsafe_functions ss) False False False) ss'"
proof -
  define tc where "tc = collect_declarations new_checker ss"
  obtain tc' where ok: "\<not> tc_error tc" "check_statements tc ss = (ss', tc')" "\<not> tc_error tc'"
    using assms by (auto simp: tc_def [symmetric] Let_def split: if_splits prod.splits)
  have c: "tc_symbols tc = []" "\<not> in_function tc" "loop_depth tc = 0" "unsafe_depth tc = 0"
    using collect_keeps [of new_checker ss] by (simp_all add: tc_def new_checker_def)
  have "list_all (well_placed tc) ss'"
    using accepts_list [OF _ ok(2,3)] check_statement_accepts c by simp
  moreover have "unsafe_functions ss \<subseteq> unsafe_names tc"
    using collect_unsafe [of new_checker ss] ok(1) by (simp add: tc_def new_checker_def)
  ultimately show ?thesis using placed_fewer by (auto simp: list_all_iff well_placed_def c)
qed

text \<open>\<open>unsafe fun f() { return 1 }\<close>, \<open>fun g(a: int) -> int { while true { break }; unsafe { return f() } }\<close>.\<close>

definition placed_program :: "ast list" where
  "placed_program =
     [FunctionDeclaration ''f'' [] [] 0 None True [ReturnStatement (Some (IntegerLiteral 1))],
      FunctionDeclaration ''g'' [''a''] [Some ''int''] 1 (Some ''int'') False
        [WhileStatement (BooleanLiteral True) [BreakStatement],
         UnsafeBlock [ReturnStatement (Some (FunctionCall ''f'' [] 0))]]]"

lemma placed_program_accepted: "vnt_typecheck (Program placed_program) = (True, Program placed_program, [])"
  by code_simp

text \<open>
  C36. In a program that \<open>vnt_typecheck\<close> accepts, every break and continue is inside a loop of its own function, every return inside a
  function, and inline assembly, raw memory builtins and calls of unsafe functions are inside unsafe blocks.
\<close>

theorem vnt_typecheck_placed:
  assumes "vnt_typecheck (Program ss) = (True, Program ss', ms)"
  shows "list_all (placed (unsafe_functions ss) False False False) ss'"
  by (rule typecheck_placed [OF assms])

theorem vnt_typecheck_placed_witness:
  "list_all (placed (unsafe_functions placed_program) False False False) placed_program"
  by (rule vnt_typecheck_placed [OF placed_program_accepted])

text \<open>
  C37. In a program that \<open>vnt_typecheck\<close> accepts, a function with a declared result type other than void returns on every path:
  however its body ends, it ends with a return. This holds for functions at every nesting level.
\<close>

theorem typed_functions_return:
  assumes "vnt_typecheck (Program ss) = (True, Program ss', ms)"
    and "FunctionDeclaration f ps ts n (Some r) u b \<in> set (concat (map statements_in ss'))" "type_from_name r \<noteq> TY_VOID"
    and "list_ends b oc"
  shows "oc = Returns"
proof -
  from assms(2) obtain s where s: "s \<in> set ss'" "FunctionDeclaration f ps ts n (Some r) u b \<in> set (statements_in s)" by auto
  with typecheck_placed [OF assms(1)] obtain fn loop uns where
    "placed (unsafe_functions ss) fn loop uns (FunctionDeclaration f ps ts n (Some r) u b)"
    using placed_nested by (fastforce simp: list_all_iff)
  then have "list_all (placed (unsafe_functions ss) True False uns) b" "list_ex statement_returns b"
    using assms(3) by (auto simp: typed_result_def statement_list_returns_def)
  with assms(4) have "oc \<noteq> Falls" "oc \<noteq> Breaks" "oc \<noteq> Continues" using returning_ends(2) placed_ends(2) by blast+
  then show ?thesis by (cases oc) auto
qed

theorem typed_functions_return_witness:
  "list_ends [WhileStatement (BooleanLiteral True) [BreakStatement], UnsafeBlock [ReturnStatement (Some (FunctionCall ''f'' [] 0))]] Returns
   \<and> \<not> list_ends [WhileStatement (BooleanLiteral True) [BreakStatement], UnsafeBlock [ReturnStatement (Some (FunctionCall ''f'' [] 0))]] Falls"
proof -
  let ?b = "[WhileStatement (BooleanLiteral True) [BreakStatement], UnsafeBlock [ReturnStatement (Some (FunctionCall ''f'' [] 0))]]"
  have "FunctionDeclaration ''g'' [''a''] [Some ''int''] 1 (Some ''int'') False ?b \<in> set (concat (map statements_in placed_program))"
    by (simp add: placed_program_def)
  then have "list_ends ?b oc \<Longrightarrow> oc = Returns" for oc
    using typed_functions_return [OF placed_program_accepted, of "''g''" "[''a'']" "[Some ''int'']" 1 "''int''" False ?b oc]
    by (simp add: type_from_name_def)
  moreover have "list_ends ?b Returns" by (force intro: ends_list_ends.intros)
  ultimately show ?thesis by blast
qed

end
