(* ===== verification/TypeCheckLower.thy ===== *)
theory TypeCheckLower
  imports TypeCheckProps HirLowerProps
begin

text \<open>
  The type checker before lowering: the names that the checker sees at a point of the program are declared at the same point
  of the renaming in \<open>ir_lower.c\<close>, so a program that was accepted is lowered.
\<close>

section \<open>Names in scope\<close>

abbreviation tc_names :: "type_checker \<Rightarrow> string set" where
  "tc_names tc \<equiv> tc_name ` set (tc_symbols tc)"

definition sc_names :: "scope \<Rightarrow> string set" where
  "sc_names s = source_name ` set (sc_symbols s)"

definition sees :: "type_checker \<Rightarrow> scope \<Rightarrow> bool" where
  "sees tc s \<longleftrightarrow> tc_names tc \<subseteq> sc_names s \<and> shallow (sc_symbols s) s"

lemma sc_find_None: "sc_find s x = None \<longleftrightarrow> x \<notin> sc_names s"
  by (auto simp: sc_find_def resolver_find_def sc_names_def find_None_iff)

lemma find_symbol_names: "find_symbol tc x \<noteq> TY_UNDECLARED \<Longrightarrow> x \<in> tc_names tc"
  using find_symbol_index_None [of "tc_symbols tc" x] by (auto simp: find_symbol_def split: option.splits)

lemma bind_asts_map:
  "\<forall>a \<in> set as. \<exists>a'. bind_ast s (g a) = Some (a', s) \<Longrightarrow> \<exists>as'. bind_asts s (map g as) = Some (as', s)"
  by (induction as) fastforce+

lemma bind_well_typed:
  "expr_ok e \<Longrightarrow> well_typed tc e \<Longrightarrow> tc_names tc \<subseteq> sc_names s \<Longrightarrow> \<exists>e'. bind_ast s (resolve_calls tc e) = Some (e', s)"
proof (induction e)
  case (FunctionCall f as n)
  then have "\<forall>a \<in> set as. \<exists>a'. bind_ast s (resolve_calls tc a) = Some (a', s)" by (simp add: list_all_iff)
  from bind_asts_map [OF this] show ?case by auto
next
  case (ArrayLiteral es n)
  then have "\<forall>a \<in> set es. \<exists>a'. bind_ast s (resolve_calls tc a) = Some (a', s)" by (simp add: list_all_iff)
  from bind_asts_map [OF this] show ?case by auto
next
  case (Variable x)
  then show ?case using find_symbol_names [of tc x] sc_find_None [of s x] by auto
next
  case (IndexExpression a i)
  then show ?case by fastforce
next
  case (BinaryExpression l r op)
  then show ?case by fastforce
qed auto

text \<open>Binding adds symbols of the current depth; what a block declares is dropped behind it.\<close>

definition widens :: "scope \<Rightarrow> scope \<Rightarrow> bool" where
  "widens s s' \<longleftrightarrow> sc_depth s' = sc_depth s
     \<and> (\<exists>ys. sc_symbols s' = sc_symbols s @ ys \<and> (\<forall>y \<in> set ys. symbol_depth y = sc_depth s))"

abbreviation flat :: "scope \<Rightarrow> bool" where "flat s \<equiv> shallow (sc_symbols s) s"

lemma widens_refl [simp]: "widens s s"
  by (simp add: widens_def)

lemma widens_trans: "widens s s' \<Longrightarrow> widens s' s'' \<Longrightarrow> widens s s''"
  by (auto simp: widens_def)

lemma widens_flat: "widens s s' \<Longrightarrow> flat s \<Longrightarrow> flat s'"
  by (auto simp: widens_def shallow_def)

lemma widens_names: "widens s s' \<Longrightarrow> sc_names s \<subseteq> sc_names s'"
  by (auto simp: widens_def sc_names_def)

lemma widens_declare: "widens s (snd (sc_declare s x))" "sc_names (snd (sc_declare s x)) = insert x (sc_names s)"
  by (auto simp: widens_def sc_declare_def sc_names_def)

lemma flat_enter: "flat s \<Longrightarrow> flat (sc_enter s)"
  by (auto simp: shallow_def)

lemma drop_block:
  assumes "widens (sc_enter s) s2" "flat s"
  shows "sc_symbols (sc_drop s2) = sc_symbols s" "sc_depth (sc_drop s2) = sc_depth s + 1"
proof -
  from assms(1) obtain ys where ys: "sc_symbols s2 = sc_symbols s @ ys" "\<forall>y \<in> set ys. symbol_depth y = sc_depth s + 1"
    and d: "sc_depth s2 = sc_depth s + 1" by (auto simp: widens_def)
  have "dropWhile (\<lambda>y. sc_depth s + 1 \<le> symbol_depth y) (rev (sc_symbols s)) = rev (sc_symbols s)"
    using assms(2) by (simp add: dropWhile_eq_self_iff hd_rev shallow_def) (meson last_in_set not_less_eq_eq)
  then show "sc_symbols (sc_drop s2) = sc_symbols s" using ys d by (simp add: sc_drop_def dropWhile_append)
  show "sc_depth (sc_drop s2) = sc_depth s + 1" using d by (simp add: sc_drop_depth)
qed

lemma block_widens: "widens (sc_enter s) s2 \<Longrightarrow> flat s \<Longrightarrow> widens s (sc_leave s2)"
  using drop_block [of s s2] by (simp add: widens_def)

lemma bind_widens:
  "bind_ast s a = Some (a', s') \<Longrightarrow> flat s \<Longrightarrow> widens s s'"
  "bind_asts s as = Some (as', s') \<Longrightarrow> flat s \<Longrightarrow> widens s s'"
proof (induction s a and s as arbitrary: a' s' and as' s' rule: bind_ast_bind_asts.induct)
  case (2 s x t v reassign)
  from "2.prems"(1) obtain v' s1 where v: "bind_ast s v = Some (v', s1)" "s' = s1 \<or> s' = snd (sc_declare s1 x)"
    by (auto split: bind_splits if_splits prod.splits)
  have "widens s s1" by (rule "2.IH" [OF v(1) "2.prems"(2)])
  with v(2) show ?case using widens_declare widens_trans by blast
next
  case (8 s c th el)
  from "8.prems"(1) obtain c' s1 th' s2 el' s3 where
    b: "bind_ast s c = Some (c', s1)" "bind_asts (sc_enter s1) th = Some (th', s2)" "bind_asts (sc_drop s2) el = Some (el', s3)"
    and r: "s' = sc_leave s3"
    by (auto split: bind_splits)
  have w1: "widens s s1" by (rule "8.IH"(1) [OF b(1) "8.prems"(2)])
  note f1 = widens_flat [OF w1 "8.prems"(2)]
  have w2: "widens (sc_enter s1) s2" by (rule "8.IH"(2) [OF b(1) refl b(2) flat_enter [OF f1]])
  have d: "flat (sc_drop s2)" using drop_block [OF w2 f1] f1 by (auto simp: shallow_def)
  have "widens (sc_drop s2) s3" by (rule "8.IH"(3) [OF b(1) refl b(2) refl b(3) d])
  then have "widens (sc_enter s1) s3" using drop_block [OF w2 f1] by (simp add: widens_def)
  then show ?case unfolding r by (rule widens_trans [OF w1 block_widens [OF _ f1]])
next
  case (9 s c b)
  from "9.prems"(1) obtain c' s1 b' s2 where
    b: "bind_ast s c = Some (c', s1)" "bind_asts (sc_enter s1) b = Some (b', s2)" and r: "s' = sc_leave s2"
    by (auto split: bind_splits)
  have w1: "widens s s1" by (rule "9.IH"(1) [OF b(1) "9.prems"(2)])
  note f1 = widens_flat [OF w1 "9.prems"(2)]
  show ?case unfolding r by (rule widens_trans [OF w1 block_widens [OF "9.IH"(2) [OF b(1) refl b(2) flat_enter [OF f1]] f1]])
qed ((auto split: bind_splits)[1]; (blast intro: widens_trans widens_flat)?)+

section \<open>Accepted statements are renamed\<close>

lemma bind_small: "small_expr e \<Longrightarrow> well_typed tc e \<Longrightarrow> sees tc s \<Longrightarrow> \<exists>e'. bind_ast s (resolve_calls tc e) = Some (e', s)"
  using bind_well_typed [of e tc s] by (simp add: sees_def small_expr_def)

lemma kept_names: "list_all2 sym_kept xs ys \<Longrightarrow> tc_name ` set ys = tc_name ` set xs"
  by (induction rule: list_all2_induct) (auto simp: sym_kept_def)

definition carries :: "ast \<Rightarrow> bool" where
  "carries a \<longleftrightarrow> (\<forall>tc a' tc' s. stmt_ok a \<longrightarrow> check_statement tc a = (a', tc') \<longrightarrow> \<not> tc_error tc' \<longrightarrow> list_all sym_wf (tc_symbols tc)
     \<longrightarrow> sees tc s \<longrightarrow> (\<exists>b s'. bind_ast s a' = Some (b, s') \<and> tc_names tc' \<subseteq> sc_names s'))"

lemma carries_list:
  assumes "\<forall>a \<in> set as. carries a" "list_all stmt_ok as" "check_statements tc as = (as', tc')" "\<not> tc_error tc'"
    "list_all sym_wf (tc_symbols tc)" "sees tc s"
  shows "\<exists>bs s'. bind_asts s as' = Some (bs, s') \<and> tc_names tc' \<subseteq> sc_names s' \<and> widens s s'"
  using assms
proof (induction as arbitrary: tc as' s)
  case Nil
  then show ?case by (simp add: sees_def)
next
  case (Cons a as)
  from Cons.prems(3-5) obtain a' zs tc1 where a: "check_statement tc a = (a', tc1)" "\<not> tc_error tc1" "list_all sym_wf (tc_symbols tc1)"
    "check_statements tc1 as = (zs, tc')" "as' = a' # zs" by (rule check_statements_accepted)
  have "carries a" using Cons.prems(1) by simp
  then obtain b s1 where b: "bind_ast s a' = Some (b, s1)" "tc_names tc1 \<subseteq> sc_names s1"
    unfolding carries_def using a(1,2) Cons.prems(2,5,6) by (metis list.pred_inject(2))
  have w: "widens s s1" using bind_widens(1) [OF b(1)] Cons.prems(6) by (simp add: sees_def)
  have "sees tc1 s1" using b(2) widens_flat [OF w] Cons.prems(6) by (simp add: sees_def)
  from Cons.IH [OF _ _ a(4) Cons.prems(4) a(3) this] Cons.prems(1,2) obtain bs s2 where
    "bind_asts s1 zs = Some (bs, s2)" "tc_names tc' \<subseteq> sc_names s2" "widens s1 s2" by auto
  then show ?case using b(1) a(5) widens_trans [OF w] by auto
qed

lemma check_statement_carries: "carries a"
proof (induction a)
  case (IfStatement c th el)
  show ?case unfolding carries_def
  proof (intro allI impI)
    fix tc :: type_checker and a' tc' s
    assume ok: "stmt_ok (IfStatement c th el)" and a: "check_statement tc (IfStatement c th el) = (a', tc')" "\<not> tc_error tc'"
      and wf: "list_all sym_wf (tc_symbols tc)" and v: "sees tc s"
    from check_if_accepted [OF wf, of c th el] a(2) obtain th' el' tc2 tc4 where
      c: "well_typed tc c" and t: "check_statements (deeper tc) th = (th', tc2)" "\<not> tc_error tc2"
      and e: "check_statements (deeper tc) el = (el', tc4)" "\<not> tc_error tc4" and a': "a' = IfStatement (resolve_calls tc c) th' el'"
      and k: "list_all2 sym_kept (tc_symbols tc) (tc_symbols tc')"
      unfolding a(1) by auto
    have wf': "list_all sym_wf (tc_symbols (deeper tc))" using wf by simp
    have f: "flat s" using v by (simp add: sees_def)
    obtain c' where c': "bind_ast s (resolve_calls tc c) = Some (c', s)"
      using bind_small [OF _ c v] ok by auto
    have v1: "sees (deeper tc) (sc_enter s)" using v by (auto simp: sees_def sc_names_def shallow_def)
    obtain th'' s2 where t': "bind_asts (sc_enter s) th' = Some (th'', s2)" "widens (sc_enter s) s2"
      using carries_list [OF _ _ t wf' v1] IfStatement.IH(2) ok by auto
    note d = drop_block [OF t'(2) f]
    have d2: "sc_depth s2 = sc_depth s + 1" using t'(2) by (simp add: widens_def)
    have v2: "sees (deeper tc) (sc_drop s2)" using v by (auto simp: sees_def sc_names_def shallow_def d d2)
    obtain el'' s3 where e': "bind_asts (sc_drop s2) el' = Some (el'', s3)" "widens (sc_drop s2) s3"
      using carries_list [OF _ _ e wf' v2] IfStatement.IH(3) ok by auto
    have "widens (sc_enter s) s3" using e'(2) d by (simp add: widens_def)
    then have "sc_names s \<subseteq> sc_names (sc_leave s3)" by (rule widens_names [OF block_widens [OF _ f]])
    then have "tc_names tc' \<subseteq> sc_names (sc_leave s3)" using v kept_names [OF k] unfolding sees_def by blast
    moreover have "bind_ast s a' = Some (IfStatement c' th'' el'', sc_leave s3)"
      by (simp only: a' bind_ast.simps c' t'(1) e'(1) Option.bind.simps prod.case)
    ultimately show "\<exists>b s'. bind_ast s a' = Some (b, s') \<and> tc_names tc' \<subseteq> sc_names s'" by blast
  qed
next
  case (WhileStatement c b)
  show ?case unfolding carries_def
  proof (intro allI impI)
    fix tc :: type_checker and a' tc' s
    assume ok: "stmt_ok (WhileStatement c b)" and a: "check_statement tc (WhileStatement c b) = (a', tc')" "\<not> tc_error tc'"
      and wf: "list_all sym_wf (tc_symbols tc)" and v: "sees tc s"
    let ?in = "(deeper tc)\<lparr>loop_depth := loop_depth tc + 1\<rparr>"
    from check_while_accepted [OF wf, of c b] a(2) obtain b' tc2 where
      c: "well_typed tc c" and t: "check_statements ?in b = (b', tc2)" "\<not> tc_error tc2" and a': "a' = WhileStatement (resolve_calls tc c) b'"
      and k: "list_all2 sym_kept (tc_symbols tc) (tc_symbols tc')"
      unfolding a(1) by auto
    have f: "flat s" using v by (simp add: sees_def)
    obtain c' where c': "bind_ast s (resolve_calls tc c) = Some (c', s)"
      using bind_small [OF _ c v] ok by auto
    have v1: "sees ?in (sc_enter s)" using v by (auto simp: sees_def sc_names_def shallow_def)
    obtain b'' s2 where t': "bind_asts (sc_enter s) b' = Some (b'', s2)" "widens (sc_enter s) s2"
      using carries_list [OF _ _ t _ v1] WhileStatement.IH(2) ok wf by auto
    have "sc_names s \<subseteq> sc_names (sc_leave s2)" by (rule widens_names [OF block_widens [OF t'(2) f]])
    then have "tc_names tc' \<subseteq> sc_names (sc_leave s2)" using v kept_names [OF k] unfolding sees_def by blast
    moreover have "bind_ast s a' = Some (WhileStatement c' b'', sc_leave s2)"
      by (simp only: a' bind_ast.simps c' t'(1) Option.bind.simps prod.case)
    ultimately show "\<exists>b s'. bind_ast s a' = Some (b, s') \<and> tc_names tc' \<subseteq> sc_names s'" by blast
  qed
next
  case (UnsafeBlock ss)
  show ?case unfolding carries_def
  proof (intro allI impI)
    fix tc :: type_checker and a' tc' s
    assume ok: "stmt_ok (UnsafeBlock ss)" and a: "check_statement tc (UnsafeBlock ss) = (a', tc')" "\<not> tc_error tc'"
      and wf: "list_all sym_wf (tc_symbols tc)" and v: "sees tc s"
    let ?in = "(deeper tc)\<lparr>unsafe_depth := unsafe_depth tc + 1\<rparr>"
    from check_unsafe_accepted [OF wf, of ss] a(2) obtain ss' tc2 where
      t: "check_statements ?in ss = (ss', tc2)" "\<not> tc_error tc2" and a': "a' = UnsafeBlock ss'"
      and k: "list_all2 sym_kept (tc_symbols tc) (tc_symbols tc')"
      unfolding a(1) by auto
    have v1: "sees ?in s" using v by (simp add: sees_def)
    obtain ss'' s2 where t': "bind_asts s ss' = Some (ss'', s2)" "widens s s2"
      using carries_list [OF _ _ t _ v1] UnsafeBlock.IH ok wf by auto
    then show "\<exists>b s'. bind_ast s a' = Some (b, s') \<and> tc_names tc' \<subseteq> sc_names s'"
      using v kept_names [OF k] widens_names [OF t'(2)] by (simp add: a' sees_def) blast
  qed
next
  case (FunctionDeclaration f ps ts n r u b)
  show ?case unfolding carries_def
  proof (intro allI impI)
    fix tc :: type_checker and a' tc' s
    assume a: "check_statement tc (FunctionDeclaration f ps ts n r u b) = (a', tc')" "\<not> tc_error tc'"
      and wf: "list_all sym_wf (tc_symbols tc)" and v: "sees tc s"
    from check_function_accepted [OF wf, of f ps ts n r u b] a(2) obtain b' where
      a': "a' = FunctionDeclaration f ps ts n r u b'" and k: "list_all2 sym_kept (tc_symbols tc) (tc_symbols tc')"
      unfolding a(1) by auto
    then show "\<exists>b s'. bind_ast s a' = Some (b, s') \<and> tc_names tc' \<subseteq> sc_names s'"
      using v kept_names [OF k] by (simp add: sees_def)
  qed
next
  case (VariableDeclaration x t v reassign)
  show ?case unfolding carries_def
  proof (intro allI impI)
    fix tc :: type_checker and a' tc' s
    assume ok: "stmt_ok (VariableDeclaration x t v reassign)" and a: "check_statement tc (VariableDeclaration x t v reassign) = (a', tc')"
      "\<not> tc_error tc'" and vis: "sees tc s"
    obtain re where re: "check_variable tc x t v = (re, tc')" "a' = VariableDeclaration x t (resolve_calls tc v) re"
      using a(1) by (auto split: prod.splits)
    note acc = check_variable_accepted [of tc x t v, unfolded re(1) fst_conv snd_conv, OF a(2)]
    obtain v' where v': "bind_ast s (resolve_calls tc v) = Some (v', s)"
      using bind_small [OF _ acc(1) vis] ok by auto
    have names: "tc_names tc' = tc_names tc \<union> (if re then {} else {x})" using arg_cong [OF acc(3), of set] by auto
    show "\<exists>b s'. bind_ast s a' = Some (b, s') \<and> tc_names tc' \<subseteq> sc_names s'"
    proof (cases re)
      case True
      then obtain key where "sc_find s x = Some key" using acc(4) vis sc_find_None [of s x] by (auto simp: sees_def)
      then show ?thesis using True v' vis names by (auto simp: re(2) sees_def)
    next
      case False
      then show ?thesis using v' vis names widens_declare(2) [of s x] by (auto simp: re(2) sees_def split: prod.splits)
    qed
  qed
next
  case (Assignment t v)
  have "\<exists>b s'. bind_ast s (Assignment (resolve_calls tc t) (resolve_calls tc v)) = Some (b, s') \<and> tc_names tc' \<subseteq> sc_names s'"
    if "stmt_ok (Assignment t v)" "check_assignment tc t v = tc'" "\<not> tc_error tc'" "sees tc s" for tc tc' s
    using verdict_no_error [OF check_assignment_verdict [of tc t v]] bind_well_typed [of t tc s] bind_well_typed [of v tc s] that
    by (fastforce simp: sees_def)
  then show ?case unfolding carries_def by auto
next
  case (PrintStatement e)
  have "\<exists>b s'. bind_ast s (PrintStatement (resolve_calls tc e)) = Some (b, s') \<and> tc_names tc' \<subseteq> sc_names s'"
    if "stmt_ok (PrintStatement e)" "snd (check_statement tc (PrintStatement e)) = tc'" "\<not> tc_error tc'" "sees tc s" for tc tc' s
    using verdict_no_error [OF check_print_verdict [of tc e]] bind_small [of e tc s] that
    by (fastforce simp: sees_def simp del: check_statement.simps)
  moreover have "fst (check_statement tc (PrintStatement e)) = PrintStatement (resolve_calls tc e)" for tc by (simp split: prod.splits)
  ultimately show ?case unfolding carries_def by (metis fst_conv snd_conv)
next
  case (ReturnStatement e)
  show ?case
  proof (cases e)
    case (Some x)
    have "\<exists>b s'. bind_ast s (ReturnStatement (Some (resolve_calls tc x))) = Some (b, s') \<and> tc_names tc' \<subseteq> sc_names s'"
      if "small_expr x" "check_return tc e = tc'" "\<not> tc_error tc'" "sees tc s" for tc tc' s
      using verdict_no_error [OF check_return_verdict [of tc e]] bind_well_typed [of x tc s] that
      by (fastforce simp: sees_def small_expr_def return_ok_def Some)
    moreover have "in_function tc" if "check_return tc e = tc'" "\<not> tc_error tc'" for tc tc'
      using verdict_no_error [OF check_return_verdict [of tc e]] that by (auto simp: return_ok_def)
    ultimately show ?thesis unfolding carries_def by (auto simp: Some)
  next
    case None
    have "tc_names (check_return tc None) = tc_names tc" for tc
      using verdict_reports [OF check_return_verdict [of tc None]] by (auto simp: may_report_def)
    then show ?thesis unfolding carries_def by (auto simp: None sees_def split: if_splits)
  qed
next
  case (FunctionCall f as n)
  let ?e = "FunctionCall f as n"
  have "\<exists>b s'. bind_ast s (resolve_calls tc ?e) = Some (b, s') \<and> tc_names tc' \<subseteq> sc_names s'"
    if "stmt_ok ?e" "snd (expr_type tc ?e) = tc'" "\<not> tc_error tc'" "sees tc s" for tc tc' s
  proof -
    have "tc' = tc \<and> well_typed tc ?e" using expr_type_verdict [of tc ?e] that(2,3) verdict_no_error by blast
    moreover have "expr_ok ?e" using that(1) by (auto simp: list_all_iff small_expr_def)
    ultimately show ?thesis using bind_well_typed [of ?e tc s] that(4) unfolding sees_def by blast
  qed
  then show ?case unfolding carries_def by (auto simp del: expr_type.simps resolve_calls.simps)
qed (auto simp: carries_def sees_def split: if_splits)

lemma check_statements_carries:
  assumes "list_all stmt_ok as" "check_statements tc as = (as', tc')" "\<not> tc_error tc'" "list_all sym_wf (tc_symbols tc)" "sees tc s"
  shows "\<exists>bs s'. bind_asts s as' = Some (bs, s') \<and> tc_names tc' \<subseteq> sc_names s' \<and> widens s s'"
  using carries_list [OF _ assms] check_statement_carries by blast

section \<open>Top level\<close>

lemma parameters_see:
  assumes "sc_parameters s ps = (ks, s')" "flat s"
  shows "sc_names s' = sc_names s \<union> set ps" "widens s s'"
  using assms
proof (induction ps arbitrary: s ks)
  case (Cons p ps)
  case 1
  obtain ks' where ks: "sc_parameters (snd (sc_declare s p)) ps = (ks', s')" using 1 by (auto split: prod.splits)
  show ?case using Cons.IH(1) [OF ks widens_flat [OF widens_declare(1) 1(2)]] by (simp add: widens_declare(2))
next
  case (Cons p ps)
  case 2
  obtain ks' where ks: "sc_parameters (snd (sc_declare s p)) ps = (ks', s')" using 2 by (auto split: prod.splits)
  show ?case using Cons.IH(2) [OF ks widens_flat [OF widens_declare(1) 2(2)]] widens_trans widens_declare(1) by blast
qed auto

lemma add_symbol_names: "tc_names (add_symbol tc x t ex) = insert x (tc_names tc)"
  by (simp add: add_symbol_def)

lemma add_parameters_names:
  "\<not> tc_error (add_parameters seen tc ps) \<Longrightarrow> tc_names (add_parameters seen tc ps) = tc_names tc \<union> fst ` set ps"
proof (induction ps arbitrary: seen tc)
  case (Cons q ps)
  obtain p t where q: "q = (p, t)" by fastforce
  obtain pt where e: "add_parameters seen tc ((p, t) # ps) = add_parameters (p # seen) (add_symbol tc p pt (pt \<noteq> TY_UNKNOWN)) ps"
    using Cons.prems by (auto simp: q Let_def split: if_splits)
  show ?case using Cons.IH [of "p # seen" "add_symbol tc p pt (pt \<noteq> TY_UNKNOWN)"] Cons.prems
    unfolding q e by (simp add: add_symbol_names)
qed simp

lemma enter_function_names:
  assumes "\<not> tc_error (enter_function tc f ps r)"
  shows "tc_names (enter_function tc f ps r) = tc_names tc \<union> fst ` set ps"
proof -
  obtain tc1 where "enter_function tc f ps r = add_parameters [] tc1 ps" "tc_symbols tc1 = tc_symbols tc"
    by (simp add: enter_function_def Let_def type_error_def split: if_splits)
  then show ?thesis using add_parameters_names assms by auto
qed

lemma function_carries:
  assumes ok: "stmt_ok (FunctionDeclaration f ps ts n r u b)"
    and a: "check_statement tc (FunctionDeclaration f ps ts n r u b) = (a', tc')" "\<not> tc_error tc'"
    and wf: "list_all sym_wf (tc_symbols tc)" and v: "sees tc s" and d: "sc_depth s = 0"
  shows "\<exists>b' s'. bind_top g s a' = Some (b', s') \<and> tc_names tc' \<subseteq> sc_names s' \<and> sc_symbols s' = sc_symbols s \<and> sc_depth s' = 0"
proof -
  let ?in = "enter_function tc f (take n (zip ps ts)) r"
  from check_function_accepted [OF wf, of f ps ts n r u b] a(2) obtain b' tc2 where
    c: "check_statements ?in b = (b', tc2)" "\<not> tc_error tc2" and a': "a' = FunctionDeclaration f ps ts n r u b'"
    and k: "list_all2 sym_kept (tc_symbols tc) (tc_symbols tc')"
    unfolding a(1) by auto
  have wf1: "list_all sym_wf (tc_symbols ?in)" by (rule step_ok_wf [OF enter_function_step [OF wf]])
  have "\<not> tc_error ?in" using step_ok_error [OF check_statements_step [OF c(1) wf1]] c(2) by blast
  moreover have "map fst (take n (zip ps ts)) = ps" using ok by simp
  ultimately have names: "tc_names ?in = tc_names tc \<union> set ps" using enter_function_names by (metis set_map)
  obtain ks s1 where p: "sc_parameters (s\<lparr>sc_depth := 1\<rparr>) (take n ps) = (ks, s1)" by fastforce
  have "flat (s\<lparr>sc_depth := 1\<rparr>)" using v d by (auto simp: sees_def shallow_def)
  note P = parameters_see [OF p this]
  have "sees ?in s1" using v names P widens_flat [OF P(2) \<open>flat (s\<lparr>sc_depth := 1\<rparr>)\<close>] ok by (auto simp: sees_def sc_names_def)
  from check_statements_carries [OF _ c wf1 this] ok obtain bs s2 where bs: "bind_asts s1 b' = Some (bs, s2)" "widens s1 s2" by auto
  have "take (length (sc_symbols s)) (sc_symbols s2) = sc_symbols s" using widens_trans [OF P(2) bs(2)] by (auto simp: widens_def)
  then show ?thesis using bs(1) p kept_names [OF k] v by (simp add: a' sees_def sc_names_def)
qed

lemma bind_top_ast: "\<nexists>f ps ts n r u b. a = FunctionDeclaration f ps ts n r u b \<Longrightarrow> \<nexists>x t v. a = VariableDeclaration x t v False \<Longrightarrow> bind_top g s a = bind_ast s a"
  by (cases "(g, s, a)" rule: bind_top.cases) auto

text \<open>One statement at top level: the symbols that were there stay in front.\<close>

lemma top_carries:
  assumes ok: "stmt_ok a" and a: "check_statement tc a = (a', tc')" "\<not> tc_error tc'" and wf: "list_all sym_wf (tc_symbols tc)"
    and v: "sees tc s" "sc_depth s = 0" "has_globals gs s" and g: "set (global_names [a']) \<subseteq> source_name ` set gs"
  shows "\<exists>b s'. bind_top (length gs) s a' = Some (b, s') \<and> sees tc' s' \<and> sc_depth s' = 0 \<and> has_globals gs s'"
proof (cases "\<exists>f ps ts n r u b. a = FunctionDeclaration f ps ts n r u b")
  case True
  then obtain f ps ts n r u b where f: "a = FunctionDeclaration f ps ts n r u b" by blast
  from function_carries [OF ok [unfolded f] a(1) [unfolded f] a(2) wf v(1,2)] obtain b' s' where
    "bind_top (length gs) s a' = Some (b', s')" "tc_names tc' \<subseteq> sc_names s'" "sc_symbols s' = sc_symbols s" "sc_depth s' = 0" by blast
  then show ?thesis using v by (auto simp: sees_def has_globals_def shallow_def)
next
  case nofun: False
  have nofun': "\<nexists>f ps ts n r u b. a' = FunctionDeclaration f ps ts n r u b"
    using nofun a(1) by (cases "(tc, a)" rule: check_statement.cases) (auto simp: Let_def split: prod.splits if_splits)
  obtain b s' where b: "bind_ast s a' = Some (b, s')" "tc_names tc' \<subseteq> sc_names s'"
    using check_statement_carries [of a] ok a wf v(1) unfolding carries_def by blast
  have w: "widens s s'" using bind_widens(1) [OF b(1)] v(1) by (simp add: sees_def)
  have post: "flat s'" "sc_depth s' = 0" "has_globals gs s'" using widens_flat [OF w] w v by (auto simp: sees_def widens_def has_globals_def)
  show ?thesis
  proof (cases "\<exists>x t v. a' = VariableDeclaration x t v False")
    case False
    then show ?thesis using bind_top_ast [OF nofun' False] b post by (auto simp: sees_def)
  next
    case True
    then obtain x t e where x: "a' = VariableDeclaration x t e False" by blast
    with g have "find (\<lambda>y. source_name y = x) gs \<noteq> None" by (auto simp: find_None_iff)
    then obtain y where "find (\<lambda>y. source_name y = x) (take (length gs) (sc_symbols s)) = Some y" using v(3) by (auto simp: has_globals_def)
    moreover obtain e' s1 where e: "bind_ast s e = Some (e', s1)" "s' = snd (sc_declare s1 x)"
      using b(1) by (auto simp: x split: bind_splits prod.splits)
    moreover have "widens s s1" using bind_widens(1) [OF e(1)] v(1) by (simp add: sees_def)
    moreover have "x \<in> sc_names s" using g v(3) by (auto simp: x sc_names_def has_globals_def)
    ultimately have "bind_top (length gs) s a' = Some (VariableDeclaration (storage_key y) t e' False, s1)" "flat s1" "sc_depth s1 = 0" "has_globals gs s1"
      "tc_names tc' \<subseteq> sc_names s1"
      using widens_flat [of s s1] widens_names [of s s1] v b(2) by (auto simp: x sees_def widens_def has_globals_def widens_declare(2))
    then show ?thesis by (auto simp: sees_def)
  qed
qed

lemma global_names_append: "global_names (a # ss) = global_names [a] @ global_names ss"
  by (cases "a # ss" rule: global_names.cases) auto

lemma program_carries:
  assumes "list_all stmt_ok ss" "check_statements tc ss = (ss', tc')" "\<not> tc_error tc'" "list_all sym_wf (tc_symbols tc)"
    "sees tc s" "sc_depth s = 0" "has_globals gs s" "set (global_names ss') \<subseteq> source_name ` set gs"
  shows "\<exists>bs s'. bind_program (length gs) s ss' = Some (bs, s')"
  using assms
proof (induction ss arbitrary: tc ss' s)
  case (Cons a ss)
  from Cons.prems(2-4) obtain a' zs tc1 where a: "check_statement tc a = (a', tc1)" "\<not> tc_error tc1" "list_all sym_wf (tc_symbols tc1)"
    "check_statements tc1 ss = (zs, tc')" "ss' = a' # zs" by (rule check_statements_accepted)
  note names = global_names_append [of a' zs]
  obtain b s1 where b: "bind_top (length gs) s a' = Some (b, s1)" "sees tc1 s1" "sc_depth s1 = 0" "has_globals gs s1"
    using top_carries [OF _ a(1,2) Cons.prems(4-7)] Cons.prems(1,8) names a(5) by auto
  obtain bs s2 where "bind_program (length gs) s1 zs = Some (bs, s2)"
    using Cons.IH [OF _ a(4) Cons.prems(3) a(3) b(2-4)] Cons.prems(1,8) names a(5) by auto
  then show ?case using b(1) by (simp add: a(5))
qed simp

section \<open>Stored counts\<close>

lemma expr_counts: "expr_ok e \<Longrightarrow> counts_ok e" "expr_ok e \<Longrightarrow> counts_ok (resolve_calls tc e)"
  by (induction e) (auto simp: counts_ok_ast list_all_iff)

definition counted :: "ast \<Rightarrow> bool" where
  "counted a \<longleftrightarrow> (stmt_ok a \<longrightarrow> counts_ok a \<and> (\<forall>tc. counts_ok (fst (check_statement tc a))))"

lemma counted_list:
  "\<forall>a \<in> set as. counted a \<Longrightarrow> list_all stmt_ok as \<Longrightarrow> \<forall>a \<in> set (fst (check_statements tc as)). counts_ok a"
proof (induction as arbitrary: tc)
  case (Cons a as)
  obtain a' tc1 where a: "check_statement tc a = (a', tc1)" by fastforce
  have "counts_ok a'" using Cons.prems a unfolding counted_def by (metis fst_conv list.pred_inject(2) list.set_intros(1))
  then show ?case using Cons.IH [of tc1] Cons.prems by (auto simp: a counted_def list_all_iff split: prod.splits)
qed simp

lemma check_if_shape:
  "\<exists>tc1 tc2. fst (check_statement tc (IfStatement c th el)) = IfStatement (resolve_calls tc c) (fst (check_statements tc1 th)) el
     \<or> fst (check_statement tc (IfStatement c th el)) = IfStatement (resolve_calls tc c) (fst (check_statements tc1 th)) (fst (check_statements tc2 el))"
  by (simp add: Let_def split: prod.splits) (metis fst_conv)

lemma check_statement_counted: "counted a"
proof (induction a)
  case (FunctionDeclaration f ps ts n r u b)
  then show ?case using counted_list [of b]
    by (auto simp: counted_def counts_ok_ast copy_names_def list_all_iff split: prod.splits) (metis fst_conv)
next
  case (IfStatement c th el)
  have "counts_ok (fst (check_statement tc (IfStatement c th el))) \<and> counts_ok (IfStatement c th el)" if ok: "stmt_ok (IfStatement c th el)" for tc
  proof -
    from check_if_shape [of tc c th el] obtain tc1 tc2 el' where
      s: "fst (check_statement tc (IfStatement c th el)) = IfStatement (resolve_calls tc c) (fst (check_statements tc1 th)) el'"
      "el' = el \<or> el' = fst (check_statements tc2 el)" by blast
    have "\<forall>a \<in> set th. counts_ok a" "\<forall>a \<in> set el. counts_ok a" using IfStatement.IH(2,3) ok by (auto simp: counted_def list_all_iff)
    moreover have "\<forall>a \<in> set (fst (check_statements tc1 th)). counts_ok a" "\<forall>a \<in> set (fst (check_statements tc2 el)). counts_ok a"
      using IfStatement.IH(2,3) ok counted_list [of th tc1] counted_list [of el tc2] by auto
    ultimately show ?thesis using ok s(2) expr_counts unfolding s(1) counts_ok_ast by (auto simp: small_expr_def)
  qed
  then show ?case unfolding counted_def by blast
next
  case (WhileStatement c b)
  have "\<exists>tc1. fst (check_statement tc (WhileStatement c b)) = WhileStatement (resolve_calls tc c) (fst (check_statements tc1 b))" for tc
    by (simp add: Let_def split: prod.splits) (metis fst_conv)
  then show ?case using WhileStatement.IH counted_list [of b] expr_counts unfolding counted_def
    by (metis counts_ok_ast(6) list_all_iff small_expr_def stmt_ok.simps(3))
next
  case (UnsafeBlock ss)
  then show ?case using counted_list [of ss]
    by (auto simp: counted_def counts_ok_ast list_all_iff Let_def split: prod.splits) (metis fst_conv)
qed (auto simp: counted_def counts_ok_ast small_expr_def expr_counts copy_names_def list_all_iff split: prod.splits option.splits)

section \<open>Accepted programs\<close>

lemma global_of_declaration: "x \<in> set (global_names [a]) \<Longrightarrow> \<exists>t v. a = VariableDeclaration x t v False"
  by (cases "[a]" rule: global_names.cases) auto

lemma check_statement_global:
  assumes "check_statement tc a = (a', tc')" "\<not> tc_error tc'" "scope_depth tc = 0" "x \<in> set (global_names [a'])"
  shows "global_names [a'] = [x] \<and> x \<notin> tc_names tc \<and> x \<in> tc_names tc'"
proof -
  from global_of_declaration [OF assms(4)] obtain t v where a': "a' = VariableDeclaration x t v False" by blast
  with assms(1) obtain v0 r where a: "a = VariableDeclaration x t v0 r"
    by (cases "(tc, a)" rule: check_statement.cases) (auto simp: Let_def split: prod.splits if_splits)
  from assms(1) have c: "check_variable tc x t v0 = (False, tc')" by (auto simp: a a' split: prod.splits)
  note acc = check_variable_accepted [of tc x t v0, unfolded c fst_conv snd_conv, OF assms(2)]
  show ?thesis using acc(5) assms(3) arg_cong [OF acc(3), of set] by (auto simp: a')
qed

lemma step_ok_names: "step_ok tc tc' \<Longrightarrow> tc_names tc \<subseteq> tc_names tc'"
  using kept_names by (fastforce simp: step_ok_def outlives_def)

lemma accepted_globals:
  assumes "check_statements tc ss = (ss', tc')" "\<not> tc_error tc'" "list_all sym_wf (tc_symbols tc)" "scope_depth tc = 0"
  shows "distinct (global_names ss') \<and> set (global_names ss') \<inter> tc_names tc = {}"
  using assms
proof (induction ss arbitrary: tc ss')
  case (Cons a ss)
  from Cons.prems(1-3) obtain a' zs tc1 where a: "check_statement tc a = (a', tc1)" "\<not> tc_error tc1" "list_all sym_wf (tc_symbols tc1)"
    "check_statements tc1 ss = (zs, tc')" "ss' = a' # zs" by (rule check_statements_accepted)
  note st = check_statement_step [OF a(1) Cons.prems(3)]
  have "scope_depth tc1 = 0" using st Cons.prems(4) by (simp add: step_ok_def tc_frame_iff)
  note IH = Cons.IH [OF a(4) Cons.prems(2) a(3) this]
  show ?case
  proof (cases "global_names [a']")
    case Nil
    then show ?thesis using IH step_ok_names [OF st] global_names_append [of a' zs] by (auto simp: a(5))
  next
    case (Cons x xs)
    then have "global_names [a'] = [x] \<and> x \<notin> tc_names tc \<and> x \<in> tc_names tc1"
      using check_statement_global [OF a(1,2) \<open>scope_depth tc = 0\<close>, of x] by simp
    then show ?thesis using IH step_ok_names [OF st] global_names_append [of a' zs] by (auto simp: a(5))
  qed
qed simp

lemma global_scope_names: "sc_names (global_scope s ss) = sc_names s \<union> set (global_names ss)"
  by (induction s ss rule: global_scope.induct) (auto simp: widens_declare(2))

lemma typecheck_resolves:
  assumes "vnt_typecheck (Program ss) = (True, p', ms)" "list_all stmt_ok ss"
  shows "\<exists>ss' p. p' = Program ss' \<and> counts_ok (Program ss') \<and> distinct (global_names ss') \<and> resolve_ast (Program ss') = Some p"
proof -
  define tc where "tc = collect_declarations new_checker ss"
  obtain ss' tc' where ok: "check_statements tc ss = (ss', tc')" "\<not> tc_error tc'" and p': "p' = Program ss'"
    using assms(1) by (auto simp: tc_def [symmetric] Let_def split: if_splits prod.splits)
  have c: "tc_symbols tc = []" "scope_depth tc = 0" using collect_keeps [of new_checker ss] by (simp_all add: tc_def new_checker_def)
  let ?s = "global_scope empty_scope ss'" and ?gs = "sc_symbols (global_scope empty_scope ss')"
  have "sc_depth ?s = 0" "flat ?s" using global_scope_next [of empty_scope ss'] global_scope_symbols [of empty_scope ss']
    by (auto simp: empty_scope_def shallow_def)
  moreover have "set (global_names ss') \<subseteq> source_name ` set ?gs" using global_scope_names [of empty_scope ss'] by (auto simp: sc_names_def)
  ultimately obtain bs s' where "bind_program (length ?gs) ?s ss' = Some (bs, s')"
    using program_carries [OF assms(2) ok, of ?s ?gs] c by (auto simp: sees_def has_globals_def)
  moreover have "counts_ok (Program ss')" using counted_list [of ss tc] assms(2) check_statement_counted ok(1) by (simp add: counts_ok_ast)
  moreover have "distinct (global_names ss')" using accepted_globals [OF ok] c by simp
  ultimately show ?thesis by (simp add: p' Let_def)
qed

text \<open>\<open>x = 1 fun f(a: int) -> int { x = a  return x }\<close>\<close>

definition accepted_source :: string where
  "accepted_source = ''x = 1 fun f(a: int) -> int { x = a return x }''"

lemma accepted_lowered:
  assumes "parse_source src = Some (Some program, p)" "vnt_typecheck program = (True, checked, ms)"
  shows "\<exists>ir t ss. vnt_ir_lower strtod checked = Some (Some ir) \<and> vnt_ir_validate ir \<and> holds_tree ir t
    \<and> erase t = ast_tree strtod EDGE_ROOT (Program ss) \<and> counts_ok (Program ss) \<and> distinct (program_keys t)"
proof -
  from parse_source_wp [of src] assms(1) obtain ss where ss: "program = Program ss" "list_all stmt_ok ss" by auto
  from typecheck_resolves [OF assms(2) [unfolded ss(1)] ss(2)] obtain ss' q where
    s: "checked = Program ss'" "counts_ok (Program ss')" "distinct (global_names ss')" "resolve_ast (Program ss') = Some q" by blast
  from lower_program [OF s(2), of strtod] s(4) obtain ir t where
    "vnt_ir_lower strtod checked = Some (Some ir)" "vnt_ir_validate ir" "holds_tree ir t" "erase t = ast_tree strtod EDGE_ROOT q"
    by (auto simp: s(1) simp del: resolve_ast.simps)
  with lowered_keys_distinct [OF s(4,2,3)] resolve_counts_ok [OF s(4,2)] resolve_ast_Program [OF s(4)] show ?thesis by blast
qed

lemma accepted_source_front:
  "\<exists>program p checked. parse_source accepted_source = Some (Some program, p) \<and> vnt_typecheck program = (True, checked, [])"
proof -
  let ?f = "\<lambda>r. FunctionDeclaration ''f'' [''a''] [Some ''int''] 1 (Some ''int'') False
    [VariableDeclaration ''x'' None (Variable ''a'') r, ReturnStatement (Some (Variable ''x''))]"
  let ?p = "\<lambda>r. Program [VariableDeclaration ''x'' None (IntegerLiteral 1) False, ?f r]"
  have "map_option fst (parse_source accepted_source) = Some (Some (?p False))" by code_simp
  then obtain p where "parse_source accepted_source = Some (Some (?p False), p)" by auto
  moreover have "vnt_typecheck (?p False) = (True, ?p True, [])" by code_simp
  ultimately show ?thesis by blast
qed

text \<open>
  C25. The front end fits together: a source text that is parsed and passes the type checker is lowered, to an array that
  passes \<open>vnt_ir_validate\<close>; in the tree it holds, no two declarations share a storage key. Declarations are those of
  the globals, of the top-level functions with their parameters, and of every block and statement in them; functions nested in
  other statements, which \<open>resolve_hir_symbols\<close> does not visit, are left out.
\<close>

theorem accepted_source_lowers:
  assumes "parse_source src = Some (Some program, p)" "vnt_typecheck program = (True, checked, ms)"
  shows "\<exists>ir t. vnt_ir_lower strtod checked = Some (Some ir) \<and> vnt_ir_validate ir \<and> holds_tree ir t \<and> distinct (program_keys t)"
  using accepted_lowered [OF assms, of strtod] by blast

theorem accepted_source_lowers_witness:
  "\<exists>program p checked ir. parse_source accepted_source = Some (Some program, p) \<and> vnt_typecheck program = (True, checked, [])
    \<and> vnt_ir_lower id checked = Some (Some ir) \<and> vnt_ir_validate ir \<and> (\<exists>t. holds_tree ir t \<and> distinct (program_keys t))"
proof -
  obtain program p checked where p: "parse_source accepted_source = Some (Some program, p)" "vnt_typecheck program = (True, checked, [])"
    using accepted_source_front by blast
  from accepted_source_lowers [OF p, of id] p show ?thesis by blast
qed

end
