(* ===== verification/HirOptimize.thy ===== *)
theory HirOptimize
  imports HirLower "HOL-Library.Signed_Division"
begin

text \<open>
  The optimizer of the HIR, \<open>src/compiler/ir.c\<close> from \<open>hir_constant\<close> on: constant folding, propagation of
  constants along statement sequences, removal of unreachable code, and the copy that drops what is no longer
  linked. The passes rewrite the array in place and count their changes. Arithmetic on \<open>double\<close> is the
  parameter \<open>doubles\<close>. \<open>None\<close> is a fault, as in theory \<open>HirResolve\<close>; the recursion is bounded by the number of
  nodes. A loop over the children of a node visits the children it finds at its start:
  no pass changes the sibling link of a child while it visits it.
\<close>

section \<open>Constants\<close>

datatype 'f hir_constant = Integer_constant int | Boolean_constant bool | Float_constant 'f

record 'f doubles =
  d_add :: "'f \<Rightarrow> 'f \<Rightarrow> 'f"
  d_sub :: "'f \<Rightarrow> 'f \<Rightarrow> 'f"
  d_mul :: "'f \<Rightarrow> 'f \<Rightarrow> 'f"
  d_div :: "'f \<Rightarrow> 'f \<Rightarrow> 'f"
  d_neg :: "'f \<Rightarrow> 'f"
  d_zero :: 'f
  d_finite :: "'f \<Rightarrow> bool"
  d_eq :: "'f \<Rightarrow> 'f \<Rightarrow> bool"
  d_less :: "'f \<Rightarrow> 'f \<Rightarrow> bool"
  d_le :: "'f \<Rightarrow> 'f \<Rightarrow> bool"

fun node_constant :: "'f hir_node \<Rightarrow> 'f hir_constant option" where
  "node_constant n =
     (case (opcode n, node_value n) of
        (IR_INTEGER, Integer_value v) \<Rightarrow> Some (Integer_constant v)
      | (IR_BOOLEAN, Boolean_value b) \<Rightarrow> Some (Boolean_constant b)
      | (IR_FLOAT, Floating_value f) \<Rightarrow> Some (Float_constant f)
      | _ \<Rightarrow> None)"

definition hir_constant_at :: "'f hir_program \<Rightarrow> nat \<Rightarrow> 'f hir_constant option" where
  "hir_constant_at ir i = (if node_count ir \<le> i then None else node_constant (hir_node_at ir i))"

text \<open>The opcode and the value that a constant gives to a node.\<close>

fun set_constant :: "'f hir_constant \<Rightarrow> 'f hir_node \<Rightarrow> 'f hir_node" where
  "set_constant (Integer_constant v) n = n\<lparr>opcode := IR_INTEGER, node_value := Integer_value v\<rparr>"
| "set_constant (Boolean_constant b) n = n\<lparr>opcode := IR_BOOLEAN, node_value := Boolean_value b\<rparr>"
| "set_constant (Float_constant f) n = n\<lparr>opcode := IR_FLOAT, node_value := Floating_value f\<rparr>"

definition unlink_children :: "'f hir_node \<Rightarrow> 'f hir_node" where
  "unlink_children n = n\<lparr>first_child := None, last_child := None, child_count := 0\<rparr>"

section \<open>Folding\<close>

text \<open>\<open>__builtin_add_overflow\<close> and its relatives.\<close>

definition checked_int :: "int \<Rightarrow> 'f hir_constant option" where
  "checked_int z = (if int64 z then Some (Integer_constant z) else None)"

fun fold_integers :: "binary_operator \<Rightarrow> int \<Rightarrow> int \<Rightarrow> 'f hir_constant option" where
  "fold_integers BINARY_ADD x y = checked_int (x + y)"
| "fold_integers BINARY_SUBTRACT x y = checked_int (x - y)"
| "fold_integers BINARY_MULTIPLY x y = checked_int (x * y)"
| "fold_integers BINARY_DIVIDE x y =
     (if y \<noteq> 0 \<and> \<not> (x = INT64_MIN \<and> y = -1) then Some (Integer_constant (x sdiv y)) else None)"
| "fold_integers BINARY_MODULO x y =
     (if y \<noteq> 0 \<and> \<not> (x = INT64_MIN \<and> y = -1) then Some (Integer_constant (x smod y)) else None)"
| "fold_integers BINARY_EQUAL x y = Some (Boolean_constant (x = y))"
| "fold_integers BINARY_NOT_EQUAL x y = Some (Boolean_constant (x \<noteq> y))"
| "fold_integers BINARY_GREATER x y = Some (Boolean_constant (x > y))"
| "fold_integers BINARY_LESS x y = Some (Boolean_constant (x < y))"
| "fold_integers BINARY_GREATER_EQUAL x y = Some (Boolean_constant (x \<ge> y))"
| "fold_integers BINARY_LESS_EQUAL x y = Some (Boolean_constant (x \<le> y))"
| "fold_integers _ x y = None"

fun fold_booleans :: "binary_operator \<Rightarrow> bool \<Rightarrow> bool \<Rightarrow> 'f hir_constant option" where
  "fold_booleans BINARY_AND x y = Some (Boolean_constant (x \<and> y))"
| "fold_booleans BINARY_OR x y = Some (Boolean_constant (x \<or> y))"
| "fold_booleans BINARY_EQUAL x y = Some (Boolean_constant (x = y))"
| "fold_booleans BINARY_NOT_EQUAL x y = Some (Boolean_constant (x \<noteq> y))"
| "fold_booleans _ x y = None"

definition finite_float :: "'f doubles \<Rightarrow> 'f \<Rightarrow> 'f hir_constant option" where
  "finite_float d z = (if d_finite d z then Some (Float_constant z) else None)"

fun fold_floats :: "'f doubles \<Rightarrow> binary_operator \<Rightarrow> 'f \<Rightarrow> 'f \<Rightarrow> 'f hir_constant option" where
  "fold_floats d BINARY_ADD x y = finite_float d (d_add d x y)"
| "fold_floats d BINARY_SUBTRACT x y = finite_float d (d_sub d x y)"
| "fold_floats d BINARY_MULTIPLY x y = finite_float d (d_mul d x y)"
| "fold_floats d BINARY_DIVIDE x y = (if \<not> d_eq d y (d_zero d) then finite_float d (d_div d x y) else None)"
| "fold_floats d BINARY_EQUAL x y = Some (Boolean_constant (d_eq d x y))"
| "fold_floats d BINARY_NOT_EQUAL x y = Some (Boolean_constant (\<not> d_eq d x y))"
| "fold_floats d BINARY_GREATER x y = Some (Boolean_constant (d_less d y x))"
| "fold_floats d BINARY_LESS x y = Some (Boolean_constant (d_less d x y))"
| "fold_floats d BINARY_GREATER_EQUAL x y = Some (Boolean_constant (d_le d y x))"
| "fold_floats d BINARY_LESS_EQUAL x y = Some (Boolean_constant (d_le d x y))"
| "fold_floats d _ x y = None"

fun fold_binary :: "'f doubles \<Rightarrow> binary_operator \<Rightarrow> 'f hir_constant \<Rightarrow> 'f hir_constant \<Rightarrow> 'f hir_constant option" where
  "fold_binary d op (Integer_constant x) (Integer_constant y) = fold_integers op x y"
| "fold_binary d op (Boolean_constant x) (Boolean_constant y) = fold_booleans op x y"
| "fold_binary d op (Float_constant x) (Float_constant y) = fold_floats d op x y"
| "fold_binary d op _ _ = None"

fun fold_unary :: "'f doubles \<Rightarrow> unary_operator \<Rightarrow> 'f hir_constant \<Rightarrow> 'f hir_constant option" where
  "fold_unary d UNARY_NOT (Boolean_constant b) = Some (Boolean_constant (\<not> b))"
| "fold_unary d UNARY_NEGATE (Integer_constant v) = (if v = INT64_MIN then None else Some (Integer_constant (- v)))"
| "fold_unary d UNARY_NEGATE (Float_constant f) = finite_float d (d_neg d f)"
| "fold_unary d _ _ = None"

text \<open>
  What a node is folded to. \<open>child r\<close> is the constant at the child of role \<open>r\<close>, if there is one.
\<close>

definition folded :: "'f doubles \<Rightarrow> 'f hir_node \<Rightarrow> (edge_role \<Rightarrow> 'f hir_constant option) \<Rightarrow> 'f hir_constant option" where
  "folded d n child =
     (case (opcode n, operation n) of
        (IR_UNARY, Unary_operation op) \<Rightarrow> do { v \<leftarrow> child EDGE_OPERAND; fold_unary d op v }
      | (IR_BINARY, Binary_operation op) \<Rightarrow> do { a \<leftarrow> child EDGE_LEFT; b \<leftarrow> child EDGE_RIGHT; fold_binary d op a b }
      | _ \<Rightarrow> None)"

type_synonym 'f counted_ir = "'f hir_program \<times> nat"

text \<open>The last child of a role, as the loop of \<open>hir_fold_node\<close> finds the operands of a binary node, and the first.\<close>

definition last_of_role :: "'f hir_program \<Rightarrow> nat list \<Rightarrow> edge_role \<Rightarrow> nat option" where
  "last_of_role ir cs r = find (\<lambda>c. role (hir_node_at ir c) = r) (rev cs)"

definition first_of_role :: "'f hir_program \<Rightarrow> nat list \<Rightarrow> edge_role \<Rightarrow> nat option" where
  "first_of_role ir cs r = find (\<lambda>c. role (hir_node_at ir c) = r) cs"

definition operand_constant :: "'f hir_program \<Rightarrow> nat list \<Rightarrow> edge_role \<Rightarrow> 'f hir_constant option" where
  "operand_constant ir cs r = do {
     c \<leftarrow> (if r = EDGE_OPERAND then first_of_role ir cs r else last_of_role ir cs r);
     hir_constant_at ir c
   }"

fun fold_children :: "('f counted_ir \<Rightarrow> nat \<Rightarrow> 'f counted_ir option) \<Rightarrow> 'f counted_ir \<Rightarrow> nat list \<Rightarrow> 'f counted_ir option" where
  "fold_children go s [] = Some s"
| "fold_children go s (c # cs) = do { s \<leftarrow> go s c; fold_children go s cs }"

fun hir_fold_node :: "'f doubles \<Rightarrow> nat \<Rightarrow> 'f counted_ir \<Rightarrow> nat \<Rightarrow> 'f counted_ir option" where
  "hir_fold_node d 0 s i = None"
| "hir_fold_node d (Suc k) (ir, changed) i = do {
     cs \<leftarrow> children ir i;
     (ir, changed) \<leftarrow> fold_children (hir_fold_node d k) (ir, changed) cs;
     Some (case folded d (hir_node_at ir i) (operand_constant ir cs) of
         None \<Rightarrow> (ir, changed)
       | Some c \<Rightarrow> (update_node ir i (\<lambda>n. unlink_children (set_constant c n)), changed + 1))
   }"

section \<open>Unreachable code\<close>

definition statement_role :: "edge_role \<Rightarrow> bool" where
  "statement_role r \<longleftrightarrow> r = EDGE_STATEMENT \<or> r = EDGE_THEN \<or> r = EDGE_ELSE \<or> r = EDGE_BODY"

definition exit_opcode :: "opcode \<Rightarrow> bool" where
  "exit_opcode op \<longleftrightarrow> op = IR_RETURN \<or> op = IR_BREAK \<or> op = IR_CONTINUE"

text \<open>The loop of \<open>hir_prune_sequence\<close>; \<open>kept\<close> are the children linked so far, and \<open>terminated\<close> the roles that have ended.\<close>

fun prune_loop :: "'f counted_ir \<Rightarrow> edge_role list \<Rightarrow> nat list \<Rightarrow> nat list \<Rightarrow> 'f counted_ir \<times> nat list" where
  "prune_loop s terminated kept [] = (s, kept)"
| "prune_loop (ir, changed) terminated kept (c # cs) =
     (let child = hir_node_at ir c in
      if statement_role (role child) \<and> role child \<in> set terminated then prune_loop (ir, changed + 1) terminated kept cs
      else
        let ir = (if kept = [] then ir else update_node ir (last kept) (\<lambda>n. n\<lparr>next_sibling := Some c\<rparr>));
            terminated = (if statement_role (role child) \<and> exit_opcode (opcode child) then role child # terminated else terminated) in
        prune_loop (ir, changed) terminated (kept @ [c]) cs)"

text \<open>The end of a list of siblings, and the list as the children of a node.\<close>

definition end_siblings :: "'f hir_program \<Rightarrow> nat list \<Rightarrow> 'f hir_program" where
  "end_siblings ir cs = (if cs = [] then ir else update_node ir (last cs) (\<lambda>n. n\<lparr>next_sibling := None\<rparr>))"

definition link_children :: "nat list \<Rightarrow> 'f hir_node \<Rightarrow> 'f hir_node" where
  "link_children cs n = n\<lparr>first_child := (if cs = [] then None else Some (hd cs)),
     last_child := (if cs = [] then None else Some (last cs)), child_count := length cs\<rparr>"

definition hir_prune_sequence :: "'f counted_ir \<Rightarrow> nat \<Rightarrow> 'f counted_ir option" where
  "hir_prune_sequence s parent = do {
     cs \<leftarrow> children (fst s) parent;
     let ((ir, changed), kept) = prune_loop s [] [] cs;
     Some (update_node (end_siblings ir kept) parent (link_children kept), changed)
   }"

text \<open>The branch of a constant condition becomes the statements of a block.\<close>

definition set_roles :: "'f hir_program \<Rightarrow> edge_role \<Rightarrow> nat list \<Rightarrow> 'f hir_program" where
  "set_roles ir r cs = foldl (\<lambda>ir c. update_node ir c (\<lambda>n. n\<lparr>role := r\<rparr>)) ir cs"

definition choose_branch :: "'f hir_program \<Rightarrow> nat \<Rightarrow> edge_role \<Rightarrow> 'f hir_program option" where
  "choose_branch ir i chosen = do {
     cs \<leftarrow> children ir i;
     let branch = filter (\<lambda>c. role (hir_node_at ir c) = chosen) cs;
     let ir = end_siblings ir branch;
     linked \<leftarrow> walk (node_count ir) ir (if branch = [] then None else Some (hd branch));
     Some (update_node (set_roles ir EDGE_STATEMENT linked) i (\<lambda>n. link_children branch (n\<lparr>opcode := IR_PROGRAM\<rparr>)))
   }"

definition hir_child_role :: "'f hir_program \<Rightarrow> nat \<Rightarrow> edge_role \<Rightarrow> nat option option" where
  "hir_child_role ir parent r = map_option (\<lambda>cs. first_of_role ir cs r) (children ir parent)"

definition constant_condition :: "'f hir_program \<Rightarrow> nat \<Rightarrow> bool option option" where
  "constant_condition ir i = do {
     cond \<leftarrow> hir_child_role ir i EDGE_CONDITION;
     Some (case cond of
         None \<Rightarrow> None
       | Some c \<Rightarrow>
           (case (opcode (hir_node_at ir c), node_value (hir_node_at ir c)) of
              (IR_BOOLEAN, Boolean_value b) \<Rightarrow> Some b
            | _ \<Rightarrow> None))
   }"

definition simplify_here :: "'f counted_ir \<Rightarrow> nat \<Rightarrow> 'f counted_ir option" where
  "simplify_here s i =
     (let (ir, changed) = s; op = opcode (hir_node_at ir i) in
      if op = IR_IF then do {
        cond \<leftarrow> constant_condition ir i;
        (case cond of
           None \<Rightarrow> Some s
         | Some b \<Rightarrow> do { ir \<leftarrow> choose_branch ir i (if b then EDGE_THEN else EDGE_ELSE); Some (ir, changed + 1) })
      }
      else if op = IR_WHILE then do {
        cond \<leftarrow> constant_condition ir i;
        Some (if cond = Some False
          then (update_node ir i (\<lambda>n. unlink_children (n\<lparr>opcode := IR_PROGRAM\<rparr>)), changed + 1) else s)
      }
      else Some s)"

fun hir_simplify_control_flow :: "nat \<Rightarrow> 'f counted_ir \<Rightarrow> nat \<Rightarrow> 'f counted_ir option" where
  "hir_simplify_control_flow 0 s i = None"
| "hir_simplify_control_flow (Suc k) s i = do {
     cs \<leftarrow> children (fst s) i;
     s \<leftarrow> fold_children (hir_simplify_control_flow k) s cs;
     s \<leftarrow> simplify_here s i;
     hir_prune_sequence s i
   }"

section \<open>Known constants\<close>

type_synonym 'f constant_environment = "(string \<times> 'f hir_constant) list"

fun hir_constant_find :: "'f constant_environment \<Rightarrow> string \<Rightarrow> nat option" where
  "hir_constant_find [] name = None"
| "hir_constant_find ((x, c) # env) name =
     (if x = name then Some 0 else map_option Suc (hir_constant_find env name))"

text \<open>The last item moves to the place of the one that is removed.\<close>

definition hir_constant_invalidate :: "'f constant_environment \<Rightarrow> string \<Rightarrow> 'f constant_environment" where
  "hir_constant_invalidate env name =
     (case hir_constant_find env name of
        None \<Rightarrow> env
      | Some i \<Rightarrow> butlast (env[i := last env]))"

definition hir_constant_remember :: "'f constant_environment \<Rightarrow> string \<Rightarrow> 'f hir_constant \<Rightarrow> 'f constant_environment" where
  "hir_constant_remember env name c =
     (case hir_constant_find env name of
        None \<Rightarrow> env @ [(name, c)]
      | Some i \<Rightarrow> env[i := (fst (env ! i), c)])"

definition hir_constants_copy :: "'f constant_environment \<Rightarrow> 'f constant_environment" where
  "hir_constants_copy env = foldl (\<lambda>e (x, c). hir_constant_remember e x c) [] env"

section \<open>Propagation\<close>

record 'f propagation =
  prop_ir :: "'f hir_program"
  prop_env :: "'f constant_environment"
  prop_changed :: nat

definition hir_replace_variable_with_constant :: "'f propagation \<Rightarrow> nat \<Rightarrow> 'f hir_constant \<Rightarrow> 'f propagation" where
  "hir_replace_variable_with_constant s i c =
     s\<lparr>prop_ir := update_node (prop_ir s) i (set_constant c), prop_changed := prop_changed s + 1\<rparr>"

text \<open>Whether a node below \<open>i\<close> is a call; the recursive calls stop at the first that is.\<close>

fun contains_any :: "(nat \<Rightarrow> bool option) \<Rightarrow> nat list \<Rightarrow> bool option" where
  "contains_any go [] = Some False"
| "contains_any go (c # cs) = do { b \<leftarrow> go c; if b then Some True else contains_any go cs }"

fun hir_contains_call :: "nat \<Rightarrow> 'f hir_program \<Rightarrow> nat \<Rightarrow> bool option" where
  "hir_contains_call 0 ir i = None"
| "hir_contains_call (Suc k) ir i =
     (if node_count ir \<le> i then Some False
      else if opcode (hir_node_at ir i) = IR_CALL then Some True
      else do { cs \<leftarrow> children ir i; contains_any (hir_contains_call k ir) cs })"

fun each_child :: "('f propagation \<Rightarrow> nat \<Rightarrow> 'f propagation option) \<Rightarrow> 'f propagation \<Rightarrow> nat list \<Rightarrow> 'f propagation option" where
  "each_child go s [] = Some s"
| "each_child go s (c # cs) = do { s \<leftarrow> go s c; each_child go s cs }"

text \<open>An assignment: the variable that is written is unknown afterwards, and everything is when the target is no variable.\<close>

definition forget_target :: "'f propagation \<Rightarrow> nat \<Rightarrow> 'f propagation option" where
  "forget_target s i = do {
     target \<leftarrow> hir_child_role (prop_ir s) i EDGE_TARGET;
     (case target of
        Some t \<Rightarrow>
          if opcode (hir_node_at (prop_ir s) t) = IR_VARIABLE then do {
            name \<leftarrow> value_text (node_value (hir_node_at (prop_ir s) t));
            Some (s\<lparr>prop_env := hir_constant_invalidate (prop_env s) name\<rparr>)
          } else Some (s\<lparr>prop_env := []\<rparr>)
      | None \<Rightarrow> Some (s\<lparr>prop_env := []\<rparr>))
   }"

fun hir_substitute_expression :: "nat \<Rightarrow> 'f propagation \<Rightarrow> nat \<Rightarrow> 'f propagation option" where
  "hir_substitute_expression 0 s i = None"
| "hir_substitute_expression (Suc k) s i =
     (if node_count (prop_ir s) \<le> i then Some s
      else let node = hir_node_at (prop_ir s) i; op = opcode node in
      if op = IR_VARIABLE then do {
        name \<leftarrow> value_text (node_value node);
        Some (case hir_constant_find (prop_env s) name of
            None \<Rightarrow> s
          | Some known \<Rightarrow> hir_replace_variable_with_constant s i (snd (prop_env s ! known)))
      }
      else if op = IR_CALL then do {
        cs \<leftarrow> children (prop_ir s) i;
        s \<leftarrow> each_child (hir_substitute_expression k) s cs;
        Some (s\<lparr>prop_env := []\<rparr>)
      }
      else if op = IR_ASSIGN then forget_target s i
      else if op = IR_UNARY \<and> operation node = Unary_operation UNARY_REFERENCE then Some s
      else do { cs \<leftarrow> children (prop_ir s) i; each_child (hir_substitute_expression k) s cs })"

definition hir_propagate_sequence ::
  "('f propagation \<Rightarrow> nat \<Rightarrow> 'f propagation option) \<Rightarrow> 'f propagation \<Rightarrow> nat \<Rightarrow> edge_role \<Rightarrow> 'f propagation option" where
  "hir_propagate_sequence go s parent r =
     do { cs \<leftarrow> children (prop_ir s) parent; each_child (\<lambda>s c. if role (hir_node_at (prop_ir s) c) = r then go s c else Some s) s cs }"

text \<open>A block with an environment of its own; the environment around it stays.\<close>

definition in_block :: "('f propagation \<Rightarrow> nat \<Rightarrow> 'f propagation option) \<Rightarrow> 'f constant_environment \<Rightarrow> 'f propagation \<Rightarrow> nat \<Rightarrow> 'f propagation option" where
  "in_block go env s i =
     (if opcode (hir_node_at (prop_ir s) i) = IR_PROGRAM
      then map_option (\<lambda>s'. s'\<lparr>prop_env := prop_env s\<rparr>) (hir_propagate_sequence go (s\<lparr>prop_env := env\<rparr>) i EDGE_STATEMENT)
      else Some s)"

definition propagate_if :: "nat \<Rightarrow> ('f propagation \<Rightarrow> nat \<Rightarrow> 'f propagation option) \<Rightarrow> 'f propagation \<Rightarrow> nat \<Rightarrow> 'f propagation option" where
  "propagate_if k go s i = do {
     cond \<leftarrow> hir_child_role (prop_ir s) i EDGE_CONDITION;
     s \<leftarrow> (case cond of None \<Rightarrow> Some s | Some c \<Rightarrow> hir_substitute_expression k s c);
     cs \<leftarrow> children (prop_ir s) i;
     s \<leftarrow> each_child (\<lambda>s c.
            let r = role (hir_node_at (prop_ir s) c) in
            if r = EDGE_THEN \<or> r = EDGE_ELSE then in_block go (hir_constants_copy (prop_env s)) s c else Some s) s cs;
     Some (s\<lparr>prop_env := []\<rparr>)
   }"

definition propagate_declaration :: "nat \<Rightarrow> 'f propagation \<Rightarrow> nat \<Rightarrow> 'f propagation option" where
  "propagate_declaration k s i = do {
     v \<leftarrow> hir_child_role (prop_ir s) i EDGE_VALUE;
     s \<leftarrow> (case v of None \<Rightarrow> Some s | Some c \<Rightarrow> hir_substitute_expression k s c);
     let constant = (case v of None \<Rightarrow> None | Some c \<Rightarrow> hir_constant_at (prop_ir s) c);
     name \<leftarrow> value_text (node_value (hir_node_at (prop_ir s) i));
     Some (s\<lparr>prop_env := (case constant of
         Some c \<Rightarrow> hir_constant_remember (prop_env s) name c
       | None \<Rightarrow> hir_constant_invalidate (prop_env s) name)\<rparr>)
   }"

definition forget_after_call :: "nat \<Rightarrow> 'f propagation \<Rightarrow> nat \<Rightarrow> 'f propagation option" where
  "forget_after_call k s i = do {
     b \<leftarrow> hir_contains_call k (prop_ir s) i;
     Some (if b then s\<lparr>prop_env := []\<rparr> else s)
   }"

fun hir_propagate_statement :: "nat \<Rightarrow> 'f propagation \<Rightarrow> nat \<Rightarrow> 'f propagation option" where
  "hir_propagate_statement 0 s i = None"
| "hir_propagate_statement (Suc k) s i =
     (let op = opcode (hir_node_at (prop_ir s) i); go = hir_propagate_statement k in
      if op = IR_WHILE \<or> op = IR_ASM then Some (s\<lparr>prop_env := []\<rparr>)
      else do {
        s \<leftarrow>
          (if op = IR_IF then propagate_if k go s i
           else if op = IR_FUNCTION then do {
             body \<leftarrow> hir_child_role (prop_ir s) i EDGE_BODY;
             (case body of None \<Rightarrow> Some s | Some b \<Rightarrow> in_block go [] s b)
           }
           else if op = IR_PROGRAM then hir_propagate_sequence go s i EDGE_STATEMENT
           else if op = IR_VARIABLE_DECL \<or> op = IR_REASSIGN then propagate_declaration k s i
           else if op = IR_ASSIGN then forget_target s i
           else do { cs \<leftarrow> children (prop_ir s) i; each_child (hir_substitute_expression k) s cs });
        forget_after_call (Suc k) s i
      })"

section \<open>Compaction\<close>

text \<open>\<open>copy_text\<close> turns NULL into the empty text.\<close>

definition copy_fields :: "'f hir_node \<Rightarrow> 'f hir_node" where
  "copy_fields n = blank_node\<lparr>opcode := opcode n, role := role n, operation := operation n, names := names n, type_name := type_name n,
     node_value := (if text_opcode (opcode n)
       then Text_value (case value_text (node_value n) of None \<Rightarrow> [] | Some t \<Rightarrow> t) else node_value n)\<rparr>"

fun copy_children :: "('f hir_program \<Rightarrow> nat \<Rightarrow> (nat \<times> 'f hir_program) option) \<Rightarrow> 'f hir_program \<Rightarrow> nat \<Rightarrow> nat list \<Rightarrow> 'f hir_program option" where
  "copy_children go out parent [] = Some out"
| "copy_children go out parent (c # cs) = do {
     (copied, out) \<leftarrow> go out c;
     out \<leftarrow> add_child out parent copied;
     copy_children go out parent cs
   }"

fun hir_copy_node :: "nat \<Rightarrow> 'f hir_program \<Rightarrow> 'f hir_program \<Rightarrow> nat \<Rightarrow> (nat \<times> 'f hir_program) option" where
  "hir_copy_node 0 old out i = None"
| "hir_copy_node (Suc k) old out i = do {
     cs \<leftarrow> children old i;
     let (new_index, out) = reserve_node out;
     out \<leftarrow> copy_children (hir_copy_node k old) (update_node out new_index (\<lambda>_. copy_fields (hir_node_at old i))) new_index cs;
     Some (new_index, out)
   }"

section \<open>The optimizer\<close>

text \<open>One round: the array and the changes of the round.\<close>

definition optimize_round :: "'f doubles \<Rightarrow> 'f hir_program \<Rightarrow> 'f counted_ir option" where
  "optimize_round d ir = do {
     let k = node_count ir;
     (ir, n) \<leftarrow> hir_fold_node d k (ir, 0) (root ir);
     s \<leftarrow> hir_propagate_sequence (hir_propagate_statement k) \<lparr>prop_ir = ir, prop_env = [], prop_changed = n\<rparr> (root ir) EDGE_STATEMENT;
     (ir, n) \<leftarrow> hir_fold_node d k (prop_ir s, prop_changed s) (root ir);
     hir_simplify_control_flow k (ir, n) (root ir)
   }"

fun optimize_rounds :: "'f doubles \<Rightarrow> nat \<Rightarrow> 'f counted_ir \<Rightarrow> 'f counted_ir option" where
  "optimize_rounds d 0 s = Some s"
| "optimize_rounds d (Suc iterations) (ir, changed) = do {
     (ir, n) \<leftarrow> optimize_round d ir;
     if n = 0 then Some (ir, changed) else optimize_rounds d iterations (ir, changed + n)
   }"

text \<open>\<open>vnt_ir_optimize\<close>: the result and the program it leaves.\<close>

definition vnt_ir_optimize :: "'f doubles \<Rightarrow> 'f hir_program \<Rightarrow> (bool \<times> 'f hir_program) option" where
  "vnt_ir_optimize d ir =
     (if nodes ir = [] \<or> \<not> vnt_ir_validate ir then Some (False, ir)
      else do {
        (ir', changed) \<leftarrow> optimize_rounds d 8 (ir, 0);
        (r, compact) \<leftarrow> hir_copy_node (node_count ir') ir' \<lparr>nodes = [], root = 0, optimized_nodes = optimized_nodes ir + changed\<rparr> (root ir');
        let compact = compact\<lparr>root := r\<rparr>;
        Some (vnt_ir_validate compact, compact)
      })"

end
