(* ===== verification/HirRewrite.thy ===== *)
theory HirRewrite
  imports HirOptimize HirResolveSpec "HOL-Library.Sublist"
begin

text \<open>
  What a pass over the array does to the trees in it. \<open>replants ir ts ir' ts'\<close>: in place of the forest \<open>ts\<close> the array now
  holds \<open>ts'\<close>, with the same roots and sibling links, and nothing outside the forest has changed. A pass is
  then a function on trees: theories \<open>HirFold\<close>, \<open>HirSimplify\<close> and \<open>HirPropagate\<close> give the three of them.
\<close>

definition replants :: "'f hir_program \<Rightarrow> 'f htree list \<Rightarrow> 'f hir_program \<Rightarrow> 'f htree list \<Rightarrow> bool" where
  "replants ir ts ir' ts' \<longleftrightarrow> node_count ir' = node_count ir \<and> root ir' = root ir \<and> optimized_nodes ir' = optimized_nodes ir
     \<and> map tree_index ts' = map tree_index ts \<and> (\<forall>t \<in> set ts'. tree_at ir' t)
     \<and> (\<forall>t \<in> set ts. next_sibling (hir_node_at ir' (tree_index t)) = next_sibling (hir_node_at ir (tree_index t)))
     \<and> distinct (forest_indices ts') \<and> set (forest_indices ts') \<subseteq> set (forest_indices ts)
     \<and> (\<forall>j < node_count ir. j \<notin> set (forest_indices ts) \<longrightarrow> hir_node_at ir' j = hir_node_at ir j)"

text \<open>A forest that is in the array, each node once.\<close>

definition planted :: "'f hir_program \<Rightarrow> 'f htree list \<Rightarrow> bool" where
  "planted ir ts \<longleftrightarrow> (\<forall>t \<in> set ts. tree_at ir t) \<and> distinct (forest_indices ts)"

lemma forest_indices_list [simp]:
  "forest_indices [] = []" "forest_indices (t # ts) = indices t @ forest_indices ts"
  "forest_indices (ts @ us) = forest_indices ts @ forest_indices us"
  by (simp_all add: forest_indices_def)

lemma indices_forest: "indices (HTree i l ts) = i # forest_indices ts"
  by (simp add: forest_indices_def)

lemma planted_Nil [simp]: "planted ir []"
  by (simp add: planted_def)

lemma planted_Cons: "planted ir (t # ts) \<longleftrightarrow> tree_at ir t \<and> distinct (indices t) \<and> planted ir ts \<and> set (indices t) \<inter> set (forest_indices ts) = {}"
  by (auto simp: planted_def)

lemma planted_kids: "planted ir [HTree i l ts] \<Longrightarrow> planted ir ts \<and> i \<notin> set (forest_indices ts) \<and> i < node_count ir"
  by (auto simp: planted_def forest_indices_def list_all_iff)

lemma planted_range: "planted ir ts \<Longrightarrow> j \<in> set (forest_indices ts) \<Longrightarrow> j < node_count ir"
  using tree_at_range by (fastforce simp: planted_def forest_indices_def)

lemma planted_index: "planted ir ts \<Longrightarrow> t \<in> set ts \<Longrightarrow> tree_index t < node_count ir"
  using tree_at_range [OF _ tree_index_indices] by (fastforce simp: planted_def)

lemma planted_node: "planted ir ts \<Longrightarrow> t \<in> set ts \<Longrightarrow> node_label (hir_node_at ir (tree_index t)) = tree_label t"
  by (cases t) (auto simp: planted_def)

lemma planted_children: "planted ir [HTree i l ts] \<Longrightarrow> children ir i = Some (map tree_index ts)"
  using tree_children [of ir i l ts] by (simp add: planted_def del: tree_at.simps)

lemma planted_frame:
  assumes "planted ir ts" "node_count ir' = node_count ir"
    and "\<And>j. j \<in> set (forest_indices ts) \<Longrightarrow> hir_node_at ir' j = hir_node_at ir j"
  shows "planted ir' ts"
proof -
  have "tree_at ir' t" if "t \<in> set ts" for t
  proof (rule tree_at_frame [of ir])
    show "tree_at ir t" using assms(1) that by (simp add: planted_def)
    show "j < node_count ir' \<and> hir_node_at ir' j = hir_node_at ir j" if "j \<in> set (indices t)" for j
    proof -
      have "j \<in> set (forest_indices ts)" using that \<open>t \<in> set ts\<close> forest_indices_subtree by blast
      then show ?thesis using assms planted_range by metis
    qed
  qed
  then show ?thesis using assms(1) by (simp add: planted_def)
qed

lemma replants_planted: "replants ir ts ir' ts' \<Longrightarrow> planted ir' ts'"
  by (simp add: replants_def planted_def)

lemma replants_refl: "planted ir ts \<Longrightarrow> replants ir ts ir ts"
  by (auto simp: replants_def planted_def)

lemma replants_indices: "replants ir ts ir' ts' \<Longrightarrow> map tree_index ts' = map tree_index ts"
  by (simp add: replants_def)

lemma replants_counts: "replants ir ts ir' ts' \<Longrightarrow> node_count ir' = node_count ir \<and> root ir' = root ir \<and> optimized_nodes ir' = optimized_nodes ir"
  by (simp add: replants_def)

lemma same_roots: "map tree_index ts' = map tree_index ts \<Longrightarrow> t \<in> set ts \<Longrightarrow> \<exists>t' \<in> set ts'. tree_index t' = tree_index t"
  by (metis (no_types, lifting) image_iff image_set)

lemma replants_trans:
  assumes "replants ir ts ir1 ts1" "replants ir1 ts1 ir2 ts2"
  shows "replants ir ts ir2 ts2"
proof -
  have "next_sibling (hir_node_at ir2 (tree_index t)) = next_sibling (hir_node_at ir (tree_index t))" if "t \<in> set ts" for t
    using assms same_roots [of ts1 ts, OF _ that] that unfolding replants_def by metis
  moreover have "hir_node_at ir2 j = hir_node_at ir j" if "j < node_count ir" "j \<notin> set (forest_indices ts)" for j
    using assms that unfolding replants_def by (metis subsetD)
  ultimately show ?thesis using assms unfolding replants_def by auto
qed

lemma replants_other:
  assumes "replants ir ts ir' ts'" "planted ir us" "set (forest_indices ts) \<inter> set (forest_indices us) = {}"
  shows "planted ir' us"
proof (rule planted_frame [OF assms(2)])
  show "node_count ir' = node_count ir" using assms(1) by (simp add: replants_def)
  fix j assume j: "j \<in> set (forest_indices us)"
  then have "j \<notin> set (forest_indices ts)" using assms(3) by blast
  then show "hir_node_at ir' j = hir_node_at ir j" using assms(1) planted_range [OF assms(2) j] unfolding replants_def by blast
qed

lemma replants_append:
  assumes a: "replants ir ts ir1 ts1" and b: "replants ir1 us ir2 us2" and p: "planted ir (ts @ us)"
  shows "replants ir (ts @ us) ir2 (ts1 @ us2)"
proof -
  have d: "set (forest_indices ts) \<inter> set (forest_indices us) = {}" using p by (auto simp: planted_def)
  have sub: "set (forest_indices ts1) \<subseteq> set (forest_indices ts)" "set (forest_indices us2) \<subseteq> set (forest_indices us)"
    using a b by (simp_all add: replants_def)
  have "planted ir2 ts1" by (rule replants_other [OF b replants_planted [OF a]]) (use d sub in blast)
  moreover have "next_sibling (hir_node_at ir2 (tree_index t)) = next_sibling (hir_node_at ir (tree_index t))" if t: "t \<in> set (ts @ us)" for t
  proof -
    have i: "tree_index t < node_count ir" by (rule planted_index [OF p t])
    have mem: "tree_index t \<in> set (forest_indices vs)" if "t \<in> set vs" for vs using that tree_index_indices forest_indices_subtree by blast
    show ?thesis
    proof (cases "t \<in> set ts")
      case True
      then have "tree_index t \<notin> set (forest_indices us)" using mem d by blast
      then have "hir_node_at ir2 (tree_index t) = hir_node_at ir1 (tree_index t)" using a b i by (simp add: replants_def)
      then show ?thesis using a True by (simp add: replants_def)
    next
      case False
      then have u: "t \<in> set us" "tree_index t \<notin> set (forest_indices ts)" using t mem d by auto
      then have "hir_node_at ir1 (tree_index t) = hir_node_at ir (tree_index t)" using a i by (simp add: replants_def)
      then show ?thesis using b u by (simp add: replants_def)
    qed
  qed
  ultimately show ?thesis using a b d sub unfolding replants_def planted_def by auto
qed

lemma linked_next:
  "linked ir c is \<Longrightarrow> (\<And>i. i \<in> set is \<Longrightarrow> next_sibling (hir_node_at ir' i) = next_sibling (hir_node_at ir i)) \<Longrightarrow> linked ir' c is"
  by (induction "is" arbitrary: c) auto

text \<open>Rewriting the children of a node.\<close>

lemma replants_kids:
  assumes r: "replants ir ts ir' ts'" and p: "planted ir [HTree i l ts]"
  shows "replants ir [HTree i l ts] ir' [HTree i l ts']"
proof -
  have at: "tree_at ir (HTree i l ts)" and i: "i < node_count ir" "i \<notin> set (forest_indices ts)"
    using p planted_kids [OF p] by (auto simp: planted_def)
  have n: "hir_node_at ir' i = hir_node_at ir i" using r i by (simp add: replants_def)
  have mi: "map tree_index ts' = map tree_index ts" by (rule replants_indices [OF r])
  have "linked ir' (first_child (hir_node_at ir i)) (map tree_index ts)"
    by (rule linked_next [of ir]) (use at r in \<open>auto simp: replants_def\<close>)
  moreover have "length ts' = length ts" using mi by (metis length_map)
  ultimately have "tree_at ir' (HTree i l ts')" using at n mi r by (simp add: replants_def list_all_iff)
  moreover have "distinct (indices (HTree i l ts'))" using r i by (auto simp: replants_def indices_forest simp del: indices.simps)
  ultimately show ?thesis using r n by (auto simp: replants_def indices_forest simp del: indices.simps tree_at.simps)
qed

text \<open>Changing the label of a node, without or with its children.\<close>

lemma replants_label:
  assumes p: "planted ir [HTree i l ts]"
    and f: "\<And>n. first_child (f n) = first_child n" "\<And>n. last_child (f n) = last_child n"
      "\<And>n. child_count (f n) = child_count n" "\<And>n. next_sibling (f n) = next_sibling n" "\<And>n. node_label (f n) = f (node_label n)"
  shows "replants ir [HTree i l ts] (update_node ir i f) [HTree i (f l) ts]"
proof -
  have i: "i < node_count ir" "i \<notin> set (forest_indices ts)" "planted ir ts" using planted_kids [OF p] by simp_all
  have at: "tree_at ir (HTree i l ts)" using p by (simp add: planted_def)
  have "tree_at (update_node ir i f) (HTree i (node_label (hir_node_at (update_node ir i f) i)) ts)"
    by (rule tree_at_frame_root [OF at]) (use i f planted_range [OF i(3)] in \<open>auto simp: forest_indices_def\<close>)
  moreover have "node_label (hir_node_at (update_node ir i f) i) = f l" using at i(1) f(5) by simp
  ultimately show ?thesis using p i f(4) by (auto simp: replants_def planted_def indices_forest simp del: indices.simps tree_at.simps)
qed

lemma set_constant_fields [simp]:
  "first_child (set_constant c n) = first_child n" "last_child (set_constant c n) = last_child n"
  "child_count (set_constant c n) = child_count n" "next_sibling (set_constant c n) = next_sibling n"
  "node_label (set_constant c n) = set_constant c (node_label n)" "role (set_constant c n) = role n"
  "names (set_constant c n) = names n" "type_name (set_constant c n) = type_name n" "operation (set_constant c n) = operation n"
  by (cases c; simp add: node_label_def)+

text \<open>New children for a node: some of the old ones, in their order, with new sibling links and labels.\<close>

fun map_label :: "('f hir_node \<Rightarrow> 'f hir_node) \<Rightarrow> 'f htree \<Rightarrow> 'f htree" where
  "map_label g (HTree i l ts) = HTree i (g l) ts"

lemma map_label_index [simp]: "tree_index (map_label g t) = tree_index t" "indices (map_label g t) = indices t"
  "tree_kids (map_label g t) = tree_kids t" "tree_label (map_label g t) = g (tree_label t)"
  by (cases t; simp)+

lemma subseq_set: "subseq us ts \<Longrightarrow> set us \<subseteq> set ts"
  by (induction rule: list_emb.induct) auto

lemma forest_unique: "distinct (forest_indices ts) \<Longrightarrow> t \<in> set ts \<Longrightarrow> u \<in> set ts \<Longrightarrow> k \<in> set (indices t) \<Longrightarrow> k \<in> set (indices u) \<Longrightarrow> t = u"
  by (induction ts) (auto dest: forest_indices_subtree)

lemma forest_subseq: "subseq us ts \<Longrightarrow> set (forest_indices us) \<subseteq> set (forest_indices ts) \<and> (distinct (forest_indices ts) \<longrightarrow> distinct (forest_indices us))"
  by (induction rule: list_emb.induct) auto

lemma link_children_fields [simp]:
  "node_label (link_children cs n) = node_label n" "next_sibling (link_children cs n) = next_sibling n"
  "child_count (link_children cs n) = length cs" "last_child (link_children cs n) = last_index cs"
  "first_child (link_children cs n) = (if cs = [] then None else Some (hd cs))" "opcode (link_children cs n) = opcode n"
  by (simp_all add: link_children_def node_label_def last_index_def)

lemma replants_relink:
  assumes p: "planted ir [HTree i l ts]" and us: "subseq us ts"
    and c: "node_count ir' = node_count ir" "root ir' = root ir" "optimized_nodes ir' = optimized_nodes ir"
    and i: "hir_node_at ir' i = link_children (map tree_index us) (f (hir_node_at ir i))" "next_sibling (f (hir_node_at ir i)) = next_sibling (hir_node_at ir i)"
    and kids: "\<And>u. u \<in> set us \<Longrightarrow> \<exists>x. hir_node_at ir' (tree_index u) = (g (hir_node_at ir (tree_index u)))\<lparr>next_sibling := x\<rparr>"
    and g: "\<And>n. first_child (g n) = first_child n" "\<And>n. last_child (g n) = last_child n"
      "\<And>n. child_count (g n) = child_count n" "\<And>n. node_label (g n) = g (node_label n)"
    and ln: "linked ir' (if us = [] then None else Some (tree_index (hd us))) (map tree_index us)"
    and rest: "\<And>j. j < node_count ir \<Longrightarrow> j \<noteq> i \<Longrightarrow> j \<notin> tree_index ` set us \<Longrightarrow> hir_node_at ir' j = hir_node_at ir j"
  shows "replants ir [HTree i l ts] ir' [HTree i (node_label (f (hir_node_at ir i))) (map (map_label g) us)]"
proof -
  have pk: "planted ir ts" "i \<notin> set (forest_indices ts)" "i < node_count ir" using planted_kids [OF p] by simp_all
  have sub: "set (forest_indices us) \<subseteq> set (forest_indices ts)" "distinct (forest_indices us)"
    using forest_subseq [OF us] pk(1) by (auto simp: planted_def)
  have mem: "set us \<subseteq> set ts" using us by (rule subseq_set)
  have kid: "tree_at ir' (map_label g u)" if u: "u \<in> set us" for u
  proof -
    obtain j m vs where v: "u = HTree j m vs" by (cases u)
    have at: "tree_at ir (HTree j m vs)" using pk(1) u mem v unfolding planted_def by blast
    obtain x where x: "hir_node_at ir' j = (g (hir_node_at ir j))\<lparr>next_sibling := x\<rparr>" using kids [OF u] v by auto
    have j: "j < node_count ir" using at by simp
    have "tree_at ir' (HTree j (node_label (hir_node_at ir' j)) vs)"
    proof (rule tree_at_frame_root [OF at])
      fix k assume k: "k \<in> set (concat (map indices vs))"
      then have ku: "k \<in> set (indices u)" using v by simp
      then have kn: "k < node_count ir" using tree_at_range [OF at] v by blast
      have "k \<noteq> i" using ku u mem pk(2) forest_indices_subtree by blast
      moreover have "k \<notin> tree_index ` set us"
      proof
        assume "k \<in> tree_index ` set us"
        then obtain w where w: "w \<in> set us" "k = tree_index w" by blast
        then have "k \<in> set (indices w)" using tree_index_indices by metis
        then have "w = u" using forest_unique [OF sub(2) w(1) u] ku by blast
        moreover have "j \<notin> set (concat (map indices vs))" using sub(2) u v by (auto simp: forest_indices_def distinct_concat_iff)
        ultimately show False using w(2) v k by simp
      qed
      ultimately show "k < node_count ir' \<and> hir_node_at ir' k = hir_node_at ir k" using rest [OF kn] kn c(1) by simp
    qed (use x j c(1) g in simp_all)
    moreover have "node_label (hir_node_at ir' j) = g m" using x at g(4) [of "hir_node_at ir j"] by (simp add: node_label_def)
    ultimately show ?thesis by (simp add: v)
  qed
  have "map tree_index (map (map_label g) us) = map tree_index us" by simp
  moreover have "linked ir' (first_child (hir_node_at ir' i)) (map tree_index us)" using ln i(1) by (auto simp: hd_map)
  ultimately have "tree_at ir' (HTree i (node_label (f (hir_node_at ir i))) (map (map_label g) us))"
    using i(1) pk(3) c(1) kid by (cases us) (simp_all add: list_all_iff o_def)
  moreover have fi: "forest_indices (map (map_label g) us) = forest_indices us" by (simp add: forest_indices_def o_def)
  moreover have "hir_node_at ir' j = hir_node_at ir j" if "j < node_count ir" "j \<notin> set (indices (HTree i l ts))" for j
  proof -
    have "j \<notin> tree_index ` set us" using that(2) mem tree_index_indices by fastforce
    then show ?thesis using rest [OF that(1)] that(2) by auto
  qed
  ultimately show ?thesis using c i pk(2) sub
    by (auto simp: replants_def indices_forest simp del: indices.simps tree_at.simps)
qed

end
