(* ===== verification/HirFold.thy ===== *)
theory HirFold
  imports HirRewrite
begin

text \<open>Constant folding as a function on trees, with the number of changes.\<close>

definition kid_with_role :: "edge_role \<Rightarrow> 'f htree list \<Rightarrow> 'f htree option" where
  "kid_with_role r ts = find (\<lambda>t. role (tree_label t) = r) ts"

definition kid_constant :: "'f htree list \<Rightarrow> edge_role \<Rightarrow> 'f hir_constant option" where
  "kid_constant ts r = do {
     t \<leftarrow> kid_with_role r (if r = EDGE_OPERAND then ts else rev ts);
     node_constant (tree_label t)
   }"

fun fold_tree :: "'f doubles \<Rightarrow> 'f htree \<Rightarrow> nat \<times> 'f htree" where
  "fold_tree d (HTree i l ts) =
     (let rs = map (fold_tree d) ts; n = sum_list (map fst rs); us = map snd rs in
      case folded d l (kid_constant us) of
        None \<Rightarrow> (n, HTree i l us)
      | Some c \<Rightarrow> (n + 1, HTree i (set_constant c l) []))"

abbreviation fold_count :: "'f doubles \<Rightarrow> 'f htree \<Rightarrow> nat" where "fold_count d t \<equiv> fst (fold_tree d t)"
abbreviation fold_of :: "'f doubles \<Rightarrow> 'f htree \<Rightarrow> 'f htree" where "fold_of d t \<equiv> snd (fold_tree d t)"

section \<open>Reading a planted forest\<close>

lemma find_tree_index:
  "(\<forall>t \<in> set ts. tree_at ir t) \<Longrightarrow>
   find (\<lambda>c. role (hir_node_at ir c) = r) (map tree_index ts) = map_option tree_index (kid_with_role r ts)"
  by (induction ts) (auto simp: kid_with_role_def node_label_role)

lemma first_of_role_tree: "planted ir ts \<Longrightarrow> first_of_role ir (map tree_index ts) r = map_option tree_index (kid_with_role r ts)"
  unfolding first_of_role_def by (rule find_tree_index) (simp add: planted_def)

lemma last_of_role_tree: "planted ir ts \<Longrightarrow> last_of_role ir (map tree_index ts) r = map_option tree_index (kid_with_role r (rev ts))"
  unfolding last_of_role_def rev_map by (rule find_tree_index) (simp add: planted_def)

lemma kid_with_role_in: "kid_with_role r ts = Some t \<Longrightarrow> t \<in> set ts \<and> role (tree_label t) = r"
  by (auto simp: kid_with_role_def find_Some_iff)

lemma node_constant_label: "node_constant (node_label n) = node_constant n"
  by simp

lemma folded_label: "folded d (node_label n) child = folded d n child"
  by (simp add: folded_def)

declare node_constant.simps [simp del]

lemma constant_at_tree: "planted ir ts \<Longrightarrow> t \<in> set ts \<Longrightarrow> hir_constant_at ir (tree_index t) = node_constant (tree_label t)"
  using planted_index [of ir ts t] planted_node [of ir ts t] node_constant_label [of "hir_node_at ir (tree_index t)"]
  by (simp add: hir_constant_at_def)

lemma operand_constant_tree: "planted ir ts \<Longrightarrow> operand_constant ir (map tree_index ts) r = kid_constant ts r"
  using constant_at_tree [of ir ts] kid_with_role_in [of r ts] kid_with_role_in [of r "rev ts"]
  by (cases "kid_with_role r ts"; cases "kid_with_role r (rev ts)")
    (auto simp: operand_constant_def kid_constant_def first_of_role_tree last_of_role_tree)

lemma kid_size: "t \<in> set ts \<Longrightarrow> length (indices t) < length (indices (HTree i l ts))"
  by (induction ts) auto

section \<open>The pass\<close>

text \<open>
  A pass over one tree, with the counter of changes: the contract of the recursive call for the children of a node.
\<close>

definition counts_pass :: "('f counted_ir \<Rightarrow> nat \<Rightarrow> 'f counted_ir option) \<Rightarrow> ('f htree \<Rightarrow> nat \<times> 'f htree) \<Rightarrow> 'f htree \<Rightarrow> bool" where
  "counts_pass go f t \<longleftrightarrow> (\<forall>ir n. planted ir [t] \<longrightarrow>
     (\<exists>ir'. go (ir, n) (tree_index t) = Some (ir', n + fst (f t)) \<and> replants ir [t] ir' [snd (f t)]))"

lemma counts_pass_list:
  assumes "\<forall>t \<in> set ts. counts_pass go f t" "planted ir ts"
  shows "\<exists>ir'. fold_children go (ir, n) (map tree_index ts) = Some (ir', n + sum_list (map (\<lambda>t. fst (f t)) ts))
    \<and> replants ir ts ir' (map (\<lambda>t. snd (f t)) ts)"
  using assms
proof (induction ts arbitrary: ir n)
  case Nil
  then show ?case using replants_refl by fastforce
next
  case (Cons t ts)
  have p: "planted ir [t]" "planted ir ts" "set (forest_indices [t]) \<inter> set (forest_indices ts) = {}"
    using Cons.prems(2) by (auto simp: planted_Cons)
  obtain ir1 where 1: "go (ir, n) (tree_index t) = Some (ir1, n + fst (f t))" "replants ir [t] ir1 [snd (f t)]"
    using Cons.prems(1) p(1) unfolding counts_pass_def by (meson list.set_intros(1))
  obtain ir2 where 2: "fold_children go (ir1, n + fst (f t)) (map tree_index ts) = Some (ir2, n + fst (f t) + sum_list (map (\<lambda>t. fst (f t)) ts))"
    "replants ir1 ts ir2 (map (\<lambda>t. snd (f t)) ts)"
    using Cons.IH [of ir1 "n + fst (f t)"] Cons.prems(1) replants_other [OF 1(2) p(2,3)] by auto
  show ?case using 1 2 replants_append [OF 1(2) 2(2)] Cons.prems(2) by (simp add: add.assoc)
qed

lemma replants_constant:
  assumes p: "planted ir [HTree i l ts]"
  shows "replants ir [HTree i l ts] (update_node ir i (\<lambda>n. unlink_children (set_constant c n))) [HTree i (set_constant c l) []]"
proof -
  let ?ir = "update_node ir i (\<lambda>n. unlink_children (set_constant c n))"
  have i: "i < node_count ir" and l: "node_label (hir_node_at ir i) = l" using p by (auto simp: planted_def)
  have "replants ir [HTree i l ts] ?ir [HTree i (node_label (set_constant c (hir_node_at ir i))) (map (map_label id) [])]"
    by (rule replants_relink [OF p, where f = "set_constant c" and us = "[]" and g = id])
      (use i in \<open>auto simp: unlink_children_def link_children_def\<close>)
  then show ?thesis using l by simp
qed

lemma hir_fold_node_tree: "length (indices t) \<le> k \<Longrightarrow> counts_pass (hir_fold_node d k) (fold_tree d) t"
proof (induction k arbitrary: t)
  case 0
  then show ?case by (cases t) simp
next
  case (Suc k)
  obtain i l ts where t: "t = HTree i l ts" by (cases t)
  have kids: "\<forall>t \<in> set ts. counts_pass (hir_fold_node d k) (fold_tree d) t" using Suc kid_size [of _ ts i l] by (fastforce simp: t)
  show ?case unfolding counts_pass_def
  proof (intro allI impI)
    fix ir :: "'a hir_program" and n assume p: "planted ir [t]"
    note pk = planted_kids [OF p [unfolded t]]
    from counts_pass_list [OF kids conjunct1 [OF pk], of n] obtain ir1 where
      1: "fold_children (hir_fold_node d k) (ir, n) (map tree_index ts) = Some (ir1, n + sum_list (map (fold_count d) ts))"
      "replants ir ts ir1 (map (fold_of d) ts)" by blast
    let ?us = "map (fold_of d) ts"
    have mi: "map tree_index ?us = map tree_index ts" by (rule replants_indices [OF 1(2)])
    have r: "replants ir [t] ir1 [HTree i l ?us]" unfolding t by (rule replants_kids [OF 1(2) p [unfolded t]])
    have "operand_constant ir1 (map tree_index ts) = kid_constant ?us"
      using operand_constant_tree [OF replants_planted [OF 1(2)]] unfolding mi by blast
    moreover have "node_label (hir_node_at ir1 i) = l" using replants_planted [OF r] by (simp add: planted_def)
    then have "folded d (hir_node_at ir1 i) = folded d l" using folded_label [of d "hir_node_at ir1 i"] by (simp add: fun_eq_iff)
    ultimately have go: "hir_fold_node d (Suc k) (ir, n) i =
        Some (case folded d l (kid_constant ?us) of
            None \<Rightarrow> (ir1, n + sum_list (map (fold_count d) ts))
          | Some c \<Rightarrow> (update_node ir1 i (\<lambda>n. unlink_children (set_constant c n)), n + sum_list (map (fold_count d) ts) + 1))"
      using planted_children [OF p [unfolded t]] 1(1) by simp
    show "\<exists>ir'. hir_fold_node d (Suc k) (ir, n) (tree_index t) = Some (ir', n + fst (fold_tree d t)) \<and> replants ir [t] ir' [snd (fold_tree d t)]"
    proof (cases "folded d l (kid_constant ?us)")
      case None
      then show ?thesis using go r by (simp add: t Let_def o_def)
    next
      case (Some c)
      then show ?thesis using go replants_trans [OF r replants_constant [OF replants_planted [OF r]]] by (simp add: t Let_def o_def)
    qed
  qed
qed

end
