(* ===== verification/HirSimplify.thy ===== *)
theory HirSimplify
  imports HirFold
begin

text \<open>
  Removal of unreachable code as a function on trees. In the tree of a program the children of an if statement are the condition,
  the statements of the first branch and those of the second, in this order (\<open>branches_ok\<close>): so the
  branch that is chosen is a contiguous part of the list of siblings.
\<close>

fun prune_kids :: "edge_role list \<Rightarrow> 'f htree list \<Rightarrow> nat \<times> 'f htree list" where
  "prune_kids ended [] = (0, [])"
| "prune_kids ended (t # ts) =
     (let r = role (tree_label t) in
      if statement_role r \<and> r \<in> set ended then let (n, us) = prune_kids ended ts in (n + 1, us)
      else
        let (n, us) = prune_kids (if statement_role r \<and> exit_opcode (opcode (tree_label t)) then r # ended else ended) ts in
        (n, t # us))"

definition label_condition :: "'f htree list \<Rightarrow> bool option" where
  "label_condition ts = do {
     c \<leftarrow> kid_with_role EDGE_CONDITION ts;
     (case (opcode (tree_label c), node_value (tree_label c)) of (IR_BOOLEAN, Boolean_value b) \<Rightarrow> Some b | _ \<Rightarrow> None)
   }"

definition as_statement :: "'f htree \<Rightarrow> 'f htree" where
  "as_statement t = map_label (\<lambda>l. l\<lparr>role := EDGE_STATEMENT\<rparr>) t"

definition branch_kids :: "bool \<Rightarrow> 'f htree list \<Rightarrow> 'f htree list" where
  "branch_kids b ts = filter (\<lambda>t. role (tree_label t) = (if b then EDGE_THEN else EDGE_ELSE)) ts"

definition simplify_kids :: "'f hir_node \<Rightarrow> 'f htree list \<Rightarrow> nat \<times> 'f hir_node \<times> 'f htree list" where
  "simplify_kids l ts =
     (if opcode l = IR_IF then
        (case label_condition ts of
           None \<Rightarrow> (0, l, ts)
         | Some b \<Rightarrow> (1, l\<lparr>opcode := IR_PROGRAM\<rparr>, map as_statement (branch_kids b ts)))
      else if opcode l = IR_WHILE \<and> label_condition ts = Some False then (1, l\<lparr>opcode := IR_PROGRAM\<rparr>, [])
      else (0, l, ts))"

fun simplify_tree :: "'f htree \<Rightarrow> nat \<times> 'f htree" where
  "simplify_tree (HTree i l ts) =
     (let rs = map simplify_tree ts;
          (m, l', us) = simplify_kids l (map snd rs);
          (n, vs) = prune_kids [] us in
      (sum_list (map fst rs) + m + n, HTree i l' vs))"

abbreviation simplify_count :: "'f htree \<Rightarrow> nat" where "simplify_count t \<equiv> fst (simplify_tree t)"
abbreviation simplify_of :: "'f htree \<Rightarrow> 'f htree" where "simplify_of t \<equiv> snd (simplify_tree t)"

definition if_roles :: "edge_role list \<Rightarrow> bool" where
  "if_roles rs \<longleftrightarrow> (\<exists>m n. rs = EDGE_CONDITION # replicate m EDGE_THEN @ replicate n EDGE_ELSE)"

abbreviation kid_roles :: "'f htree list \<Rightarrow> edge_role list" where
  "kid_roles ts \<equiv> map (\<lambda>t. role (tree_label t)) ts"

fun branches_ok :: "'f htree \<Rightarrow> bool" where
  "branches_ok (HTree i l ts) \<longleftrightarrow> (opcode l = IR_IF \<longrightarrow> if_roles (kid_roles ts)) \<and> list_all branches_ok ts"

section \<open>Sibling links\<close>

fun chain :: "'f hir_program \<Rightarrow> nat list \<Rightarrow> 'f hir_program" where
  "chain ir (a # b # is) = chain (update_node ir a (\<lambda>n. n\<lparr>next_sibling := Some b\<rparr>)) (b # is)"
| "chain ir [a] = ir"
| "chain ir [] = ir"

lemma chain_counts [simp]: "node_count (chain ir is) = node_count ir" "root (chain ir is) = root ir"
  "optimized_nodes (chain ir is) = optimized_nodes ir"
  by (induction ir "is" rule: chain.induct) auto

lemma end_siblings_counts [simp]: "node_count (end_siblings ir is) = node_count ir" "root (end_siblings ir is) = root ir"
  "optimized_nodes (end_siblings ir is) = optimized_nodes ir"
  by (auto simp: end_siblings_def)

lemma end_siblings_nodes:
  "j < node_count ir \<Longrightarrow> hir_node_at (end_siblings ir is) j = (if is \<noteq> [] \<and> j = last is then (hir_node_at ir j)\<lparr>next_sibling := None\<rparr> else hir_node_at ir j)"
  by (auto simp: end_siblings_def)

lemma node_same_next: "n = n\<lparr>next_sibling := next_sibling n\<rparr>"
  by simp

lemma end_siblings_next:
  assumes "j < node_count ir"
  shows "\<exists>x. hir_node_at (end_siblings ir is) j = (hir_node_at ir j)\<lparr>next_sibling := x\<rparr>"
    "j \<notin> set is \<Longrightarrow> hir_node_at (end_siblings ir is) j = hir_node_at ir j"
  using node_same_next [of "hir_node_at ir j"] end_siblings_nodes [OF assms, of "is"] by (metis last_in_set)+

lemma chain_linked:
  assumes "distinct is" "is \<noteq> []" "\<And>j. j \<in> set is \<Longrightarrow> j < node_count ir"
  defines "ir' \<equiv> end_siblings (chain ir is) is"
  shows "linked ir' (Some (hd is)) is \<and> (\<forall>j < node_count ir. \<exists>x. hir_node_at ir' j = (hir_node_at ir j)\<lparr>next_sibling := x\<rparr>)
    \<and> (\<forall>j < node_count ir. j \<notin> set is \<longrightarrow> hir_node_at ir' j = hir_node_at ir j)"
  using assms(1-3) unfolding ir'_def
proof (induction ir "is" rule: chain.induct)
  case (1 ir a b "is")
  let ?ir = "update_node ir a (\<lambda>n. n\<lparr>next_sibling := Some b\<rparr>)"
  let ?f = "end_siblings (chain ?ir (b # is)) (b # is)"
  have IH: "linked ?f (Some b) (b # is)" "\<forall>j < node_count ir. \<exists>x. hir_node_at ?f j = (hir_node_at ?ir j)\<lparr>next_sibling := x\<rparr>"
    "\<forall>j < node_count ir. j \<notin> set (b # is) \<longrightarrow> hir_node_at ?f j = hir_node_at ?ir j"
    using "1.IH" "1.prems" by simp_all
  have e: "end_siblings (chain ir (a # b # is)) (a # b # is) = ?f" by (simp add: end_siblings_def)
  have a: "a < node_count ir" "a \<notin> set (b # is)" using "1.prems" by auto
  then have "next_sibling (hir_node_at ?f a) = Some b" using IH(3) by simp
  moreover have "\<exists>x. hir_node_at ?f j = (hir_node_at ir j)\<lparr>next_sibling := x\<rparr>" if j: "j < node_count ir" for j
  proof -
    obtain x where x: "hir_node_at ?f j = (hir_node_at ?ir j)\<lparr>next_sibling := x\<rparr>" using IH(2) j by blast
    have "(hir_node_at ?ir j)\<lparr>next_sibling := x\<rparr> = (hir_node_at ir j)\<lparr>next_sibling := x\<rparr>" using j by simp
    with x show ?thesis by metis
  qed
  moreover have "hir_node_at ?f j = hir_node_at ir j" if "j < node_count ir" "j \<notin> set (a # b # is)" for j
    using IH(3) that by simp
  ultimately show ?case using IH(1) unfolding e by simp
next
  case (3 ir)
  then show ?case by simp
next
  case (2 ir a)
  have "\<exists>x. hir_node_at ir j = (hir_node_at ir j)\<lparr>next_sibling := x\<rparr>" for j using node_same_next by blast
  with 2 show ?case by (auto simp: end_siblings_nodes)
qed

lemma prune_loop_kids:
  assumes "\<And>t. t \<in> set ts \<Longrightarrow> tree_index t < node_count ir \<and> role (hir_node_at ir (tree_index t)) = role (tree_label t)
      \<and> opcode (hir_node_at ir (tree_index t)) = opcode (tree_label t)"
    and "kept \<noteq> [] \<Longrightarrow> last kept < node_count ir"
  shows "prune_loop (ir, n) ended kept (map tree_index ts) =
    (let (m, us) = prune_kids ended ts; is = map tree_index us in
     ((chain ir ((if kept = [] then [] else [last kept]) @ is), n + m), kept @ is))"
  using assms
proof (induction ended ts arbitrary: ir n kept rule: prune_kids.induct)
  case (1 ended)
  then show ?case by simp
next
  case (2 ended t ts)
  let ?r = "role (tree_label t)"
  have t: "tree_index t < node_count ir" "role (hir_node_at ir (tree_index t)) = ?r"
    "opcode (hir_node_at ir (tree_index t)) = opcode (tree_label t)" using "2.prems"(1) by simp_all
  show ?case
  proof (cases "statement_role ?r \<and> ?r \<in> set ended")
    case True
    then show ?thesis using "2.IH"(1) [OF refl True, of ir kept "n + 1"] "2.prems" t by (simp add: Let_def split: prod.splits)
  next
    case False
    let ?ended = "if statement_role ?r \<and> exit_opcode (opcode (tree_label t)) then ?r # ended else ended"
    let ?ir = "if kept = [] then ir else update_node ir (last kept) (\<lambda>n. n\<lparr>next_sibling := Some (tree_index t)\<rparr>)"
    obtain m us where u: "prune_kids ?ended ts = (m, us)" by fastforce
    have "prune_loop (?ir, n) ?ended (kept @ [tree_index t]) (map tree_index ts) =
      ((chain ?ir (tree_index t # map tree_index us), n + m), kept @ [tree_index t] @ map tree_index us)"
    proof -
      have c: "u \<in> set ts \<Longrightarrow> tree_index u < node_count ?ir \<and> role (hir_node_at ?ir (tree_index u)) = role (tree_label u)
        \<and> opcode (hir_node_at ?ir (tree_index u)) = opcode (tree_label u)" for u using "2.prems"(1) [of u] by auto
      show ?thesis using "2.IH"(2) [OF refl False, of ?ir "kept @ [tree_index t]" n] c t(1) by (simp add: u Let_def)
    qed
    moreover have "chain ir ((if kept = [] then [] else [last kept]) @ tree_index t # map tree_index us) = chain ?ir (tree_index t # map tree_index us)"
      by simp
    moreover have "prune_loop (ir, n) ended kept (map tree_index (t # ts)) = prune_loop (?ir, n) ?ended (kept @ [tree_index t]) (map tree_index ts)"
      using False t by (auto simp: Let_def)
    moreover have "prune_kids ended (t # ts) = (m, t # us)" using False u by (auto simp: Let_def)
    ultimately show ?thesis by (simp add: Let_def)
  qed
qed

section \<open>Pruning a sequence\<close>

lemma prune_kids_subseq: "subseq (snd (prune_kids ended ts)) ts"
  by (induction ended ts rule: prune_kids.induct) (auto simp: Let_def split: prod.splits)

lemma planted_labels:
  "planted ir ts \<Longrightarrow> t \<in> set ts \<Longrightarrow> tree_index t < node_count ir \<and> role (hir_node_at ir (tree_index t)) = role (tree_label t)
    \<and> opcode (hir_node_at ir (tree_index t)) = opcode (tree_label t) \<and> node_value (hir_node_at ir (tree_index t)) = node_value (tree_label t)"
  using planted_index [of ir ts t] planted_node [of ir ts t] node_label_opcode [of "hir_node_at ir (tree_index t)"] by auto

lemma map_label_id [simp]: "map_label (\<lambda>n. n) t = t"
  by (cases t) simp

lemma hir_prune_sequence_tree:
  assumes p: "planted ir [HTree i l ts]"
  shows "\<exists>ir'. hir_prune_sequence (ir, n) i = Some (ir', n + fst (prune_kids [] ts)) \<and> replants ir [HTree i l ts] ir' [HTree i l (snd (prune_kids [] ts))]"
proof -
  note pk = planted_kids [OF p]
  obtain m us where u: "prune_kids [] ts = (m, us)" by fastforce
  have sub: "subseq us ts" using prune_kids_subseq [of "[]" ts] by (simp add: u)
  let ?is = "map tree_index us"
  define ir1 where "ir1 = end_siblings (chain ir ?is) ?is"
  have lp: "prune_loop (ir, n) [] [] (map tree_index ts) = ((chain ir ?is, n + m), ?is)"
    using prune_loop_kids [of ts ir "[]" n "[]"] planted_labels [OF conjunct1 [OF pk]] by (simp add: u Let_def)
  let ?ir = "update_node ir1 i (link_children ?is)"
  have go: "hir_prune_sequence (ir, n) i = Some (?ir, n + m)"
    using planted_children [OF p] lp by (simp add: hir_prune_sequence_def ir1_def)
  have c1: "node_count ir1 = node_count ir" "root ir1 = root ir" "optimized_nodes ir1 = optimized_nodes ir" by (simp_all add: ir1_def)
  have su: "set us \<subseteq> set ts" "distinct (forest_indices us)" using subseq_set [OF sub] forest_subseq [OF sub] pk by (auto simp: planted_def)
  have rng: "j < node_count ir" if "j \<in> set ?is" for j using that su(1) planted_index [OF conjunct1 [OF pk]] by auto
  have ni: "i \<notin> set ?is" using pk su(1) tree_index_indices forest_indices_subtree by fastforce
  have dis: "distinct ?is" using forest_roots(1) [OF su(2)] .
  have nodes: "linked ir1 (if ?is = [] then None else Some (hd ?is)) ?is \<and> (\<forall>j < node_count ir. \<exists>x. hir_node_at ir1 j = (hir_node_at ir j)\<lparr>next_sibling := x\<rparr>)
      \<and> (\<forall>j < node_count ir. j \<notin> set ?is \<longrightarrow> hir_node_at ir1 j = hir_node_at ir j)"
  proof (cases "?is = []")
    case True
    have "\<exists>x. hir_node_at ir j = (hir_node_at ir j)\<lparr>next_sibling := x\<rparr>" for j using node_same_next by blast
    then show ?thesis using True by (simp add: ir1_def end_siblings_def)
  next
    case False
    then show ?thesis using chain_linked [OF dis False rng] by (simp add: ir1_def)
  qed
  have "linked ?ir (if us = [] then None else Some (tree_index (hd us))) ?is"
  proof (rule linked_frame [of _ _ ir1])
    show "hir_node_at ?ir j = hir_node_at ir1 j" if "j \<in> set ?is" for j using that ni rng c1 by auto
    show "linked ir1 (if us = [] then None else Some (tree_index (hd us))) ?is" using nodes by (cases us) auto
  qed
  moreover have "hir_node_at ?ir i = link_children ?is (hir_node_at ir i)" using nodes ni pk c1 by simp
  moreover have "\<exists>x. hir_node_at ?ir (tree_index u) = (hir_node_at ir (tree_index u))\<lparr>next_sibling := x\<rparr>" if "u \<in> set us" for u
    using nodes rng [of "tree_index u"] ni that c1 by auto
  moreover have "hir_node_at ?ir j = hir_node_at ir j" if "j < node_count ir" "j \<noteq> i" "j \<notin> tree_index ` set us" for j
    using nodes that c1 by auto
  ultimately have "replants ir [HTree i l ts] ?ir [HTree i (node_label (hir_node_at ir i)) (map (map_label (\<lambda>n. n)) us)]"
    by (intro replants_relink [OF p sub, where f = "\<lambda>n. n" and g = "\<lambda>n. n"]) (use c1 in auto)
  moreover have "node_label (hir_node_at ir i) = l" using p by (simp add: planted_def)
  moreover have "map (map_label (\<lambda>n. n)) us = us" by (simp add: map_idI)
  ultimately show ?thesis using go by (simp only: u fst_conv snd_conv) blast
qed

section \<open>Constant conditions\<close>

lemma constant_condition_tree: "planted ir [HTree i l ts] \<Longrightarrow> constant_condition ir i = Some (label_condition ts)"
proof -
  assume p: "planted ir [HTree i l ts]"
  note pk = conjunct1 [OF planted_kids [OF p]]
  show ?thesis
  proof (cases "kid_with_role EDGE_CONDITION ts")
    case (Some c)
    then show ?thesis using planted_children [OF p] planted_labels [OF pk, of c] kid_with_role_in [OF Some]
      by (simp add: constant_condition_def hir_child_role_def first_of_role_tree [OF pk] label_condition_def)
  qed (use planted_children [OF p] in \<open>simp add: constant_condition_def hir_child_role_def first_of_role_tree [OF pk] label_condition_def\<close>)
qed

lemma linked_skip: "linked ir c (xs @ ys) \<Longrightarrow> ys \<noteq> [] \<Longrightarrow> linked ir (Some (hd ys)) ys"
  by (induction xs arbitrary: c) (auto simp: neq_Nil_conv)

lemma linked_part:
  assumes "linked ir c (xs @ ys @ zs)" "ys \<noteq> []" "distinct ys" "\<And>j. j \<in> set ys \<Longrightarrow> j < node_count ir"
  shows "linked (end_siblings ir ys) (Some (hd ys)) ys"
proof -
  have "linked ir (Some (hd ys)) (ys @ zs)" using linked_skip [OF assms(1)] assms(2) by simp
  then show ?thesis using assms(2-4)
  proof (induction ys)
    case (Cons y ys)
    show ?case
    proof (cases ys)
      case Nil
      then show ?thesis using Cons.prems(4) by (simp add: end_siblings_nodes)
    next
      case (Cons z vs)
      have "end_siblings ir (y # ys) = end_siblings ir ys" using Cons by (simp add: end_siblings_def)
      moreover have "y \<noteq> last ys" using Cons.prems(3) Cons by auto
      ultimately show ?thesis using Cons.IH Cons.prems Cons by (simp add: end_siblings_nodes)
    qed
  qed simp
qed

lemma set_roles_nodes:
  "node_count (set_roles ir r is) = node_count ir \<and> root (set_roles ir r is) = root ir \<and> optimized_nodes (set_roles ir r is) = optimized_nodes ir
   \<and> (\<forall>j < node_count ir. hir_node_at (set_roles ir r is) j = (if j \<in> set is then (hir_node_at ir j)\<lparr>role := r\<rparr> else hir_node_at ir j))"
  by (induction "is" arbitrary: ir) (auto simp: set_roles_def)

lemma replicate_split: "if_roles (kid_roles ts) \<Longrightarrow> \<exists>xs zs. ts = xs @ branch_kids b ts @ zs"
proof -
  assume "if_roles (kid_roles ts)"
  then obtain m n where r: "kid_roles ts = EDGE_CONDITION # replicate m EDGE_THEN @ replicate n EDGE_ELSE" by (auto simp: if_roles_def)
  then obtain c th el where t: "ts = c # th @ el" "role (tree_label c) = EDGE_CONDITION" "kid_roles th = replicate m EDGE_THEN" "kid_roles el = replicate n EDGE_ELSE"
    by (auto simp: map_eq_Cons_conv map_eq_append_conv)
  have f: "filter (\<lambda>t. role (tree_label t) = q) us = (if q = r then us else [])" if "kid_roles us = replicate k r" for us :: "'a htree list" and k q r
    using that by (induction us arbitrary: k) (auto simp: Cons_replicate_eq)
  have "branch_kids b ts = (if b then th else el)" using t f [OF t(3)] f [OF t(4)] by (simp add: branch_kids_def)
  moreover have "ts = [c] @ th @ el" "ts = (c # th) @ el @ []" by (simp_all add: t)
  ultimately show ?thesis by (cases b) (metis (full_types))+
qed

lemma choose_branch_tree:
  assumes p: "planted ir [HTree i l ts]" and rs: "if_roles (kid_roles ts)"
  shows "\<exists>ir'. choose_branch ir i (if b then EDGE_THEN else EDGE_ELSE) = Some ir'
    \<and> replants ir [HTree i l ts] ir' [HTree i (l\<lparr>opcode := IR_PROGRAM\<rparr>) (map as_statement (branch_kids b ts))]"
proof -
  note pk = planted_kids [OF p]
  let ?q = "if b then EDGE_THEN else EDGE_ELSE" and ?us = "branch_kids b ts"
  let ?is = "map tree_index ?us"
  have at: "tree_at ir (HTree i l ts)" using p by (simp add: planted_def)
  have fi: "filter (\<lambda>c. role (hir_node_at ir c) = ?q) (map tree_index ts) = ?is"
    using planted_labels [OF conjunct1 [OF pk]] by (auto simp: branch_kids_def filter_map o_def intro!: arg_cong [of _ _ "map tree_index"] filter_cong)
  have sub: "subseq ?us ts" by (simp add: branch_kids_def)
  have su: "set ?us \<subseteq> set ts" "distinct (forest_indices ?us)" using subseq_set [OF sub] forest_subseq [OF sub] pk by (auto simp: planted_def)
  have rng: "j < node_count ir" if "j \<in> set ?is" for j using that su(1) planted_index [OF conjunct1 [OF pk]] by auto
  have ni: "i \<notin> set ?is" using pk su(1) tree_index_indices forest_indices_subtree by fastforce
  have dis: "distinct ?is" using forest_roots(1) [OF su(2)] .
  define ir1 where "ir1 = end_siblings ir ?is"
  have c1: "node_count ir1 = node_count ir" "root ir1 = root ir" "optimized_nodes ir1 = optimized_nodes ir" by (simp_all add: ir1_def)
  have ln: "linked ir1 (if ?is = [] then None else Some (hd ?is)) ?is"
  proof (cases "?is = []")
    case False
    obtain xs zs where "ts = xs @ ?us @ zs" using replicate_split [OF rs] by blast
    then have "map tree_index ts = map tree_index xs @ ?is @ map tree_index zs" by (metis map_append)
    then have "linked ir (first_child (hir_node_at ir i)) (map tree_index xs @ ?is @ map tree_index zs)" using at by simp
    from linked_part [OF this False dis rng] False show ?thesis by (simp add: ir1_def)
  qed simp
  have w: "walk (node_count ir1) ir1 (if ?is = [] then None else Some (hd ?is)) = Some ?is"
    by (rule linked_walk [OF ln]) (use rng c1 distinct_bound [OF dis rng] in auto)
  let ?ir = "update_node (set_roles ir1 EDGE_STATEMENT ?is) i (\<lambda>n. link_children ?is (n\<lparr>opcode := IR_PROGRAM\<rparr>))"
  note sr = set_roles_nodes [of ir1 EDGE_STATEMENT ?is]
  have go: "choose_branch ir i ?q = Some ?ir"
    using planted_children [OF p] fi w c1 by (cases "?us = []") (simp_all add: choose_branch_def Let_def ir1_def)
  have n1: "\<exists>x. hir_node_at ir1 j = (hir_node_at ir j)\<lparr>next_sibling := x\<rparr>" "j \<notin> set ?is \<Longrightarrow> hir_node_at ir1 j = hir_node_at ir j"
    if "j < node_count ir" for j
    using end_siblings_next [OF that] by (simp_all add: ir1_def)
  have "linked ?ir (if ?us = [] then None else Some (tree_index (hd ?us))) ?is"
  proof (rule linked_next [of ir1])
    show "linked ir1 (if ?us = [] then None else Some (tree_index (hd ?us))) ?is" using ln by (cases ?us) auto
    show "next_sibling (hir_node_at ?ir j) = next_sibling (hir_node_at ir1 j)" if "j \<in> set ?is" for j using that rng sr c1 ni by auto
  qed
  moreover have "hir_node_at ?ir i = link_children ?is ((hir_node_at ir i)\<lparr>opcode := IR_PROGRAM\<rparr>)" using sr ni pk c1 n1 by auto
  moreover have "\<exists>x. hir_node_at ?ir (tree_index u) = ((hir_node_at ir (tree_index u))\<lparr>role := EDGE_STATEMENT\<rparr>)\<lparr>next_sibling := x\<rparr>" if u: "u \<in> set ?us" for u
  proof -
    have j: "tree_index u \<in> set ?is" "tree_index u < node_count ir" using u rng by auto
    obtain x where x: "hir_node_at ir1 (tree_index u) = (hir_node_at ir (tree_index u))\<lparr>next_sibling := x\<rparr>" using n1(1) [OF j(2)] by blast
    have "hir_node_at ?ir (tree_index u) = (hir_node_at ir1 (tree_index u))\<lparr>role := EDGE_STATEMENT\<rparr>" using j ni sr c1 by auto
    then have "hir_node_at ?ir (tree_index u) = ((hir_node_at ir (tree_index u))\<lparr>role := EDGE_STATEMENT\<rparr>)\<lparr>next_sibling := x\<rparr>" using x by simp
    then show ?thesis ..
  qed
  moreover have "hir_node_at ?ir j = hir_node_at ir j" if "j < node_count ir" "j \<noteq> i" "j \<notin> tree_index ` set ?us" for j
    using that n1 sr c1 by auto
  ultimately have "replants ir [HTree i l ts] ?ir [HTree i (node_label ((hir_node_at ir i)\<lparr>opcode := IR_PROGRAM\<rparr>)) (map (map_label (\<lambda>n. n\<lparr>role := EDGE_STATEMENT\<rparr>)) ?us)]"
    by (intro replants_relink [OF p sub, where f = "\<lambda>n. n\<lparr>opcode := IR_PROGRAM\<rparr>" and g = "\<lambda>n. n\<lparr>role := EDGE_STATEMENT\<rparr>"])
      (use c1 sr in \<open>auto simp: node_label_def\<close>)
  moreover have "node_label ((hir_node_at ir i)\<lparr>opcode := IR_PROGRAM\<rparr>) = l\<lparr>opcode := IR_PROGRAM\<rparr>" using at by (auto simp: node_label_def)
  moreover have "map (map_label (\<lambda>n. n\<lparr>role := EDGE_STATEMENT\<rparr>)) ?us = map as_statement ?us" by (simp add: as_statement_def)
  ultimately show ?thesis using go by (metis (no_types, lifting))
qed

lemma replants_emptied:
  assumes p: "planted ir [HTree i l ts]"
  shows "replants ir [HTree i l ts] (update_node ir i (\<lambda>n. unlink_children (n\<lparr>opcode := IR_PROGRAM\<rparr>))) [HTree i (l\<lparr>opcode := IR_PROGRAM\<rparr>) []]"
proof -
  let ?f = "\<lambda>n. n\<lparr>opcode := IR_PROGRAM\<rparr>"
  have i: "i < node_count ir" and l: "node_label (?f (hir_node_at ir i)) = ?f l" using p by (auto simp: planted_def node_label_def)
  have "replants ir [HTree i l ts] (update_node ir i (\<lambda>n. unlink_children (?f n))) [HTree i (node_label (?f (hir_node_at ir i))) (map (map_label id) [])]"
    by (rule replants_relink [OF p, where f = ?f and us = "[]" and g = id])
      (use i in \<open>auto simp: unlink_children_def link_children_def\<close>)
  then show ?thesis using l by simp
qed

lemma simplify_here_tree:
  assumes p: "planted ir [HTree i l ts]" and rs: "opcode l = IR_IF \<Longrightarrow> if_roles (kid_roles ts)" and s: "simplify_kids l ts = (m, l', us)"
  shows "\<exists>ir'. simplify_here (ir, n) i = Some (ir', n + m) \<and> replants ir [HTree i l ts] ir' [HTree i l' us]"
proof -
  have op: "opcode (hir_node_at ir i) = opcode l" using p by (auto simp: planted_def)
  note cond = constant_condition_tree [OF p]
  show ?thesis
  proof (cases "opcode l = IR_IF \<and> label_condition ts \<noteq> None")
    case True
    then obtain b where b: "opcode l = IR_IF" "label_condition ts = Some b" by blast
    have us: "m = 1" "l' = l\<lparr>opcode := IR_PROGRAM\<rparr>" "us = map as_statement (branch_kids b ts)" using s b by (simp_all add: simplify_kids_def)
    from choose_branch_tree [OF p rs [OF b(1)], of b] obtain ir' where
      c: "choose_branch ir i (if b then EDGE_THEN else EDGE_ELSE) = Some ir'" "replants ir [HTree i l ts] ir' [HTree i l' us]" unfolding us by blast
    have "simplify_here (ir, n) i = Some (ir', n + m)" using op cond c(1) b by (simp add: simplify_here_def us(1))
    then show ?thesis using c(2) by blast
  next
    case no_if: False
    show ?thesis
    proof (cases "opcode l = IR_WHILE \<and> label_condition ts = Some False")
      case True
      then have us: "m = 1" "l' = l\<lparr>opcode := IR_PROGRAM\<rparr>" "us = []" using s by (simp_all add: simplify_kids_def)
      have "simplify_here (ir, n) i = Some (update_node ir i (\<lambda>n. unlink_children (n\<lparr>opcode := IR_PROGRAM\<rparr>)), n + m)"
        using True op cond by (simp add: simplify_here_def us(1))
      then show ?thesis using replants_emptied [OF p] unfolding us by blast
    next
      case False
      have "simplify_kids l ts = (0, l, ts)" using False no_if by (auto simp: simplify_kids_def)
      moreover have "simplify_here (ir, n) i = Some (ir, n)" using False no_if op cond by (auto simp: simplify_here_def Let_def)
      ultimately show ?thesis using replants_refl [OF p] s by simp
    qed
  qed
qed

lemma simplify_role: "role (tree_label (simplify_of t)) = role (tree_label t)"
  by (cases t) (auto simp: Let_def simplify_kids_def split: prod.splits option.splits if_splits)

theorem hir_simplify_tree: "length (indices t) \<le> k \<Longrightarrow> branches_ok t \<Longrightarrow> counts_pass (hir_simplify_control_flow k) simplify_tree t"
proof (induction k arbitrary: t)
  case 0
  then show ?case by (cases t) simp
next
  case (Suc k)
  obtain i l ts where t: "t = HTree i l ts" by (cases t)
  have kids: "\<forall>t \<in> set ts. counts_pass (hir_simplify_control_flow k) simplify_tree t"
    using Suc kid_size [of _ ts i l] by (fastforce simp: t list_all_iff)
  let ?us = "map simplify_of ts"
  obtain m l' vs where m: "simplify_kids l ?us = (m, l', vs)" by (cases "simplify_kids l ?us")
  have st: "simplify_tree t = (sum_list (map simplify_count ts) + m + fst (prune_kids [] vs), HTree i l' (snd (prune_kids [] vs)))"
    using m by (simp add: t Let_def o_def split: prod.splits)
  have rs: "opcode l = IR_IF \<Longrightarrow> if_roles (kid_roles ?us)" using Suc.prems(2) by (simp add: t o_def simplify_role)
  show ?case unfolding counts_pass_def
  proof (intro allI impI)
    fix ir :: "'a hir_program" and n assume p: "planted ir [t]"
    note pk = planted_kids [OF p [unfolded t]]
    from counts_pass_list [OF kids conjunct1 [OF pk], of n] obtain ir1 where
      1: "fold_children (hir_simplify_control_flow k) (ir, n) (map tree_index ts) = Some (ir1, n + sum_list (map simplify_count ts))"
      "replants ir ts ir1 ?us" by blast
    have r1: "replants ir [t] ir1 [HTree i l ?us]" unfolding t by (rule replants_kids [OF 1(2) p [unfolded t]])
    from simplify_here_tree [OF replants_planted [OF r1] rs m, of "n + sum_list (map simplify_count ts)"] obtain ir2 where
      2: "simplify_here (ir1, n + sum_list (map simplify_count ts)) i = Some (ir2, n + sum_list (map simplify_count ts) + m)"
      "replants ir1 [HTree i l ?us] ir2 [HTree i l' vs]" by blast
    from hir_prune_sequence_tree [OF replants_planted [OF 2(2)], of "n + sum_list (map simplify_count ts) + m"] obtain ir3 where
      3: "hir_prune_sequence (ir2, n + sum_list (map simplify_count ts) + m) i = Some (ir3, n + sum_list (map simplify_count ts) + m + fst (prune_kids [] vs))"
      "replants ir2 [HTree i l' vs] ir3 [HTree i l' (snd (prune_kids [] vs))]" by blast
    have "hir_simplify_control_flow (Suc k) (ir, n) i = Some (ir3, n + fst (simplify_tree t))"
      using planted_children [OF p [unfolded t]] 1(1) 2(1) 3(1) by (simp add: st add.assoc)
    moreover have "replants ir [t] ir3 [snd (simplify_tree t)]" using replants_trans [OF replants_trans [OF r1 2(2)] 3(2)] by (simp add: st)
    ultimately show "\<exists>ir'. hir_simplify_control_flow (Suc k) (ir, n) (tree_index t) = Some (ir', n + fst (simplify_tree t)) \<and> replants ir [t] ir' [snd (simplify_tree t)]"
      by (simp add: t)
  qed
qed

end
