(* ===== verification/HirPropagate.thy ===== *)
theory HirPropagate
  imports HirSimplify
begin

text \<open>
  Propagation of constants as a function on trees that threads the environment of known constants.
\<close>

section \<open>Threading an environment\<close>

fun thread :: "('e \<Rightarrow> 't \<Rightarrow> 'e \<times> nat \<times> 't) \<Rightarrow> 'e \<Rightarrow> 't list \<Rightarrow> 'e \<times> nat \<times> 't list" where
  "thread f e [] = (e, 0, [])"
| "thread f e (t # ts) = (let (e, n, t) = f e t; (e, m, ts) = thread f e ts in (e, n + m, t # ts))"

text \<open>Only the first child of a role.\<close>

fun on_first :: "edge_role \<Rightarrow> ('e \<Rightarrow> 'f htree \<Rightarrow> 'e \<times> nat \<times> 'f htree) \<Rightarrow> 'e \<Rightarrow> 'f htree list \<Rightarrow> 'e \<times> nat \<times> 'f htree list" where
  "on_first r f e [] = (e, 0, [])"
| "on_first r f e (t # ts) =
     (if role (tree_label t) = r then let (e, n, t) = f e t in (e, n, t # ts)
      else let (e, n, ts) = on_first r f e ts in (e, n, t # ts))"

lemma thread_cong [fundef_cong]: "e = e' \<Longrightarrow> ts = ts' \<Longrightarrow> (\<And>e t. t \<in> set ts' \<Longrightarrow> f e t = g e t) \<Longrightarrow> thread f e ts = thread g e' ts'"
  by (induction ts arbitrary: e e' ts') auto

lemma on_first_cong [fundef_cong]:
  "r = r' \<Longrightarrow> e = e' \<Longrightarrow> ts = ts' \<Longrightarrow> (\<And>e t. t \<in> set ts' \<Longrightarrow> f e t = g e t) \<Longrightarrow> on_first r f e ts = on_first r' g e' ts'"
  by (induction ts arbitrary: e e' ts') auto

lemma on_first_None: "kid_with_role r ts = None \<Longrightarrow> on_first r f e ts = (e, 0, ts)"
  by (induction ts) (auto simp: kid_with_role_def split: if_splits)

lemma on_first_Some:
  "kid_with_role r ts = Some t \<Longrightarrow> \<exists>xs ys. ts = xs @ t # ys \<and> on_first r f e ts = (let (e, n, t) = f e t in (e, n, xs @ t # ys))
     \<and> (\<forall>x \<in> set xs. role (tree_label x) \<noteq> r)"
proof (induction ts)
  case (Cons u us)
  show ?case
  proof (cases "role (tree_label u) = r")
    case True
    then have "u = t" using Cons.prems by (simp add: kid_with_role_def)
    then show ?thesis using True by (intro exI [of _ "[]"] exI [of _ us]) auto
  next
    case False
    then obtain xs ys where "us = xs @ t # ys" "on_first r f e us = (let (e, n, t) = f e t in (e, n, xs @ t # ys))" "\<forall>x \<in> set xs. role (tree_label x) \<noteq> r"
      using Cons by (auto simp: kid_with_role_def)
    then show ?thesis using False by (intro exI [of _ "u # xs"] exI [of _ ys]) (auto split: prod.splits)
  qed
qed (simp add: kid_with_role_def)

section \<open>Substitution and propagation\<close>

fun has_call :: "'f htree \<Rightarrow> bool" where
  "has_call (HTree i l ts) \<longleftrightarrow> opcode l = IR_CALL \<or> list_ex has_call ts"

definition label_text :: "'f htree \<Rightarrow> string" where
  "label_text t = (case value_text (node_value (tree_label t)) of None \<Rightarrow> [] | Some x \<Rightarrow> x)"

definition forget_kids :: "'f constant_environment \<Rightarrow> 'f htree list \<Rightarrow> 'f constant_environment" where
  "forget_kids env ts =
     (case kid_with_role EDGE_TARGET ts of
        Some t \<Rightarrow> if opcode (tree_label t) = IR_VARIABLE then hir_constant_invalidate env (label_text t) else []
      | None \<Rightarrow> [])"

fun subst_tree :: "'f constant_environment \<Rightarrow> 'f htree \<Rightarrow> 'f constant_environment \<times> nat \<times> 'f htree" where
  "subst_tree env (HTree i l ts) =
     (if opcode l = IR_VARIABLE then
        (case hir_constant_find env (label_text (HTree i l ts)) of
           None \<Rightarrow> (env, 0, HTree i l ts)
         | Some k \<Rightarrow> (env, 1, HTree i (set_constant (snd (env ! k)) l) ts))
      else if opcode l = IR_CALL then let (env', n, us) = thread subst_tree env ts in ([], n, HTree i l us)
      else if opcode l = IR_ASSIGN then (forget_kids env ts, 0, HTree i l ts)
      else if opcode l = IR_UNARY \<and> operation l = Unary_operation UNARY_REFERENCE then (env, 0, HTree i l ts)
      else let (env', n, us) = thread subst_tree env ts in (env', n, HTree i l us))"

declare subst_tree.simps [simp del]

abbreviation tree_nodes :: "'f htree \<Rightarrow> nat" where "tree_nodes t \<equiv> length (indices t)"

text \<open>All that a substitution changes in a tree: some variables have become constants.\<close>

inductive specialised :: "'f htree \<Rightarrow> 'f htree \<Rightarrow> bool" where
  "m = l \<or> opcode l = IR_VARIABLE \<and> (\<exists>c. m = set_constant c l) \<Longrightarrow> list_all2 specialised ts us
    \<Longrightarrow> specialised (HTree i l ts) (HTree i m us)"
  monos list_all2_mono

inductive_cases specialised_HTree: "specialised (HTree i l ts) u"

lemma specialised_refl [simp]: "specialised t t"
  by (induction t) (auto intro!: specialised.intros simp: list_all2_same)

lemma specialised_kids: "list_all2 specialised ts us \<Longrightarrow> specialised (HTree i l ts) (HTree i l us)"
  by (rule specialised.intros) simp_all

lemma set_constant_opcode [simp]:
  "opcode (set_constant c l) = (case c of Integer_constant _ \<Rightarrow> IR_INTEGER | Boolean_constant _ \<Rightarrow> IR_BOOLEAN | Float_constant _ \<Rightarrow> IR_FLOAT)"
  by (cases c) simp_all

lemma specialised_trans: "specialised t u \<Longrightarrow> specialised u v \<Longrightarrow> specialised t v"
proof (induction t u arbitrary: v rule: specialised.induct)
  case (1 m l ts us i)
  from 1(3) obtain k vs where v: "v = HTree i k vs" "k = m \<or> opcode m = IR_VARIABLE \<and> (\<exists>c. k = set_constant c m)" "list_all2 specialised us vs"
    by (elim specialised_HTree) metis
  have "k = l \<or> opcode l = IR_VARIABLE \<and> (\<exists>c. k = set_constant c l)"
    using v(2) 1(1) by (auto split: hir_constant.splits)
  moreover have "list_all2 specialised ts vs"
    using 1(2) v(3) by (auto simp: list_all2_conv_all_nth)
  ultimately show ?case using v(1) by (auto intro: specialised.intros)
qed

lemma specialised_indices: "specialised t u \<Longrightarrow> indices u = indices t"
proof (induction rule: specialised.induct)
  case (1 m l ts us i)
  have "map indices us = map indices ts" using 1(2) by (induction rule: list_all2_induct) auto
  then show ?case by simp
qed

lemma specialised_role: "specialised t u \<Longrightarrow> role (tree_label u) = role (tree_label t)"
  by (erule specialised.cases) auto

lemma specialised_forest: "list_all2 specialised ts us \<Longrightarrow> sum_list (map tree_nodes us) = sum_list (map tree_nodes ts) \<and> kid_roles us = kid_roles ts"
  by (induction rule: list_all2_induct) (auto simp: specialised_indices specialised_role)

lemma thread_specialised:
  "(\<And>e t. t \<in> set ts \<Longrightarrow> specialised t (snd (snd (f e t)))) \<Longrightarrow> thread f e ts = (e', n, us) \<Longrightarrow> list_all2 specialised ts us"
proof (induction ts arbitrary: e n us)
  case (Cons t ts)
  obtain e1 n1 t1 where 1: "f e t = (e1, n1, t1)" by (cases "f e t")
  obtain e2 n2 ts2 where 2: "thread f e1 ts = (e2, n2, ts2)" by (cases "thread f e1 ts")
  have "specialised t t1" using Cons.prems(1) [of t e] 1 by simp
  moreover have "list_all2 specialised ts ts2" using Cons.IH [OF Cons.prems(1), of e1 n2 ts2] Cons.prems(2) 1 2 by simp
  ultimately show ?case using Cons.prems(2) by (auto simp: 1 2)
qed simp

lemma on_first_specialised:
  "(\<And>e t. t \<in> set ts \<Longrightarrow> specialised t (snd (snd (f e t)))) \<Longrightarrow> on_first r f e ts = (e', n, us) \<Longrightarrow> list_all2 specialised ts us"
proof (induction ts arbitrary: us n)
  case (Cons t ts)
  obtain e1 n1 t1 where 1: "f e t = (e1, n1, t1)" by (cases "f e t")
  obtain e2 n2 ts2 where 2: "on_first r f e ts = (e2, n2, ts2)" by (cases "on_first r f e ts")
  have "specialised t t1" using Cons.prems(1) [of t e] 1 by simp
  moreover have "list_all2 specialised ts ts2" if "e2 = e'" using Cons.IH [OF Cons.prems(1), of n2 ts2] 2 that by simp
  ultimately show ?case using Cons.prems(2) by (auto simp: 1 2 list_all2_same split: if_splits)
qed simp

lemma subst_specialised: "specialised t (snd (snd (subst_tree env t)))"
proof (induction t arbitrary: env)
  case (HTree i l ts)
  obtain e n us where th: "thread subst_tree env ts = (e, n, us)" by (cases "thread subst_tree env ts")
  have "list_all2 specialised ts us" by (rule thread_specialised [OF _ th]) (rule HTree)
  then show ?case
    by (subst subst_tree.simps) (auto simp: th list_all2_same split: option.splits intro!: specialised.intros)
qed

lemma nodes_HTree: "tree_nodes (HTree i l ts) = Suc (sum_list (map tree_nodes ts))"
  by (simp add: length_concat o_def)

lemma kid_nodes: "t \<in> set ts \<Longrightarrow> tree_nodes t \<le> sum_list (map tree_nodes ts)"
  by (rule member_le_sum_list) auto

lemma first_kid_nodes:
  assumes "on_first r subst_tree env ts = (e, n, us)" "t \<in> set us"
  shows "tree_nodes t \<le> sum_list (map tree_nodes ts)"
proof -
  have "list_all2 specialised ts us" by (rule on_first_specialised [OF _ assms(1)]) (rule subst_specialised)
  from specialised_forest [OF this] show ?thesis using kid_nodes [OF assms(2)] by simp
qed

definition statement_kid :: "('e \<Rightarrow> 'f htree \<Rightarrow> 'e \<times> nat \<times> 'f htree) \<Rightarrow> 'e \<Rightarrow> 'f htree \<Rightarrow> 'e \<times> nat \<times> 'f htree" where
  "statement_kid f e t = (if role (tree_label t) = EDGE_STATEMENT then f e t else (e, 0, t))"

definition branch_kid ::
  "('f constant_environment \<Rightarrow> 'f htree \<Rightarrow> nat \<times> 'f htree) \<Rightarrow> 'f constant_environment \<Rightarrow> 'f htree \<Rightarrow> 'f constant_environment \<times> nat \<times> 'f htree" where
  "branch_kid f e t =
     (if role (tree_label t) = EDGE_THEN \<or> role (tree_label t) = EDGE_ELSE then (e, f (hir_constants_copy e) t) else (e, 0, t))"

lemma statement_kid_cong [fundef_cong]: "e = e' \<Longrightarrow> t = t' \<Longrightarrow> f e' t' = g e' t' \<Longrightarrow> statement_kid f e t = statement_kid g e' t'"
  by (simp add: statement_kid_def)

lemma branch_kid_cong [fundef_cong]: "e = e' \<Longrightarrow> t = t' \<Longrightarrow> f (hir_constants_copy e') t' = g (hir_constants_copy e') t' \<Longrightarrow> branch_kid f e t = branch_kid g e' t'"
  by (simp add: branch_kid_def)

text \<open>A declaration: what is known of the variable afterwards.\<close>

definition declare_known :: "'f constant_environment \<Rightarrow> string \<Rightarrow> 'f htree list \<Rightarrow> 'f constant_environment" where
  "declare_known env x ts =
     (case do { t \<leftarrow> kid_with_role EDGE_VALUE ts; node_constant (tree_label t) } of
        Some c \<Rightarrow> hir_constant_remember env x c
      | None \<Rightarrow> hir_constant_invalidate env x)"

definition after_call :: "'f constant_environment \<times> nat \<times> 'f htree \<Rightarrow> 'f constant_environment \<times> nat \<times> 'f htree" where
  "after_call r = (if has_call (snd (snd r)) then [] else fst r, snd r)"

function propagate_tree :: "'f constant_environment \<Rightarrow> 'f htree \<Rightarrow> 'f constant_environment \<times> nat \<times> 'f htree"
  and propagate_block :: "'f constant_environment \<Rightarrow> 'f htree \<Rightarrow> nat \<times> 'f htree" where
  "propagate_tree env (HTree i l ts) =
     (let op = opcode l in
      if op = IR_WHILE \<or> op = IR_ASM then ([], 0, HTree i l ts)
      else after_call
        (if op = IR_IF then
           let (env', n, us) = on_first EDGE_CONDITION subst_tree env ts;
               (_, m, vs) = thread (branch_kid propagate_block) env' us in
           ([], n + m, HTree i l vs)
         else if op = IR_FUNCTION then
           let (env', n, us) = on_first EDGE_BODY (\<lambda>e t. (e, propagate_block [] t)) env ts in (env', n, HTree i l us)
         else if op = IR_PROGRAM then
           let (env', n, us) = thread (statement_kid propagate_tree) env ts in (env', n, HTree i l us)
         else if op = IR_VARIABLE_DECL \<or> op = IR_REASSIGN then
           let (env', n, us) = on_first EDGE_VALUE subst_tree env ts in
           (declare_known env' (label_text (HTree i l ts)) us, n, HTree i l us)
         else if op = IR_ASSIGN then (forget_kids env ts, 0, HTree i l ts)
         else let (env', n, us) = thread subst_tree env ts in (env', n, HTree i l us)))"
| "propagate_block env (HTree i l ts) =
     (if opcode l = IR_PROGRAM then let (_, n, us) = thread (statement_kid propagate_tree) env ts in (n, HTree i l us)
      else (0, HTree i l ts))"
  by pat_completeness auto
termination
proof (relation "measure (case_sum (\<lambda>(_, t). 2 * tree_nodes t + 1) (\<lambda>(_, t). 2 * tree_nodes t))")
qed (auto simp: nodes_HTree simp del: indices.simps dest: kid_nodes first_kid_nodes [OF sym])

declare propagate_tree.simps [simp del] propagate_block.simps [simp del]

lemma statement_kid_specialised:
  "specialised t (snd (snd (f e t))) \<Longrightarrow> specialised t (snd (snd (statement_kid f e t)))"
  by (simp add: statement_kid_def)

lemma branch_kid_specialised: "(\<And>e. specialised t (snd (f e t))) \<Longrightarrow> specialised t (snd (snd (branch_kid f e t)))"
  by (simp add: branch_kid_def)

lemma propagate_specialised:
  "tree_nodes t < k \<Longrightarrow> specialised t (snd (snd (propagate_tree env t))) \<and> specialised t (snd (propagate_block env t))"
proof (induction k arbitrary: env t)
  case (Suc k)
  obtain i l ts where t: "t = HTree i l ts" by (cases t)
  have kid: "specialised u (snd (snd (propagate_tree e u)))" "specialised u (snd (propagate_block e u))"
    if "tree_nodes u \<le> sum_list (map tree_nodes ts)" for u :: "'a htree" and e
    using Suc.IH [of u e] Suc.prems that by (simp_all add: t nodes_HTree del: indices.simps)
  have seq: "list_all2 specialised ts us" if "thread (statement_kid propagate_tree) e ts = (e', n, us)" for e e' n us
    by (rule thread_specialised [OF _ that]) (rule statement_kid_specialised, rule kid, rule kid_nodes)
  have body: "list_all2 specialised ts us" if "on_first r (\<lambda>e t. (e, propagate_block [] t)) e ts = (e', n, us)" for r e e' n us
    by (rule on_first_specialised [OF _ that]) (auto intro: kid kid_nodes)
  have first: "list_all2 specialised ts us" if "on_first r subst_tree e ts = (e', n, us)" for r e e' n us
    by (rule on_first_specialised [OF _ that]) (rule subst_specialised)
  have all: "list_all2 specialised ts us" if "thread subst_tree e ts = (e', n, us)" for e e' n us
    by (rule thread_specialised [OF _ that]) (rule subst_specialised)
  have branches: "specialised (HTree i l ts) (HTree i l vs)"
    if "on_first r subst_tree e ts = (e', n, us)" "thread (branch_kid propagate_block) e' us = (e2, m, vs)" for r e e' n us e2 m vs
  proof -
    have "list_all2 specialised us vs"
      by (rule thread_specialised [OF _ that(2)]) (rule branch_kid_specialised, rule kid, rule first_kid_nodes [OF that(1)])
    then show ?thesis using specialised_trans specialised_kids first [OF that(1)] by blast
  qed
  show ?case unfolding t
    by (subst propagate_tree.simps, subst propagate_block.simps)
      (simp add: Let_def after_call_def seq body first all branches specialised_kids split: prod.split)
qed simp

end
