(* ===== verification/HirPropagateCorrect.thy ===== *)
theory HirPropagateCorrect
  imports HirPropagate
begin

text \<open>The propagation over the array is the function on trees of theory \<open>HirPropagate\<close>.\<close>

section \<open>What propagation keeps\<close>

lemma constant_label_ok:
  assumes "label_ok l" "opcode l = IR_VARIABLE \<or> opcode l = IR_UNARY \<or> opcode l = IR_BINARY"
  shows "label_ok (set_constant c l)"
proof -
  have "names l = []" "type_name l = None" using assms unfolding label_ok_def node_fields_ok_def by (elim disjE; simp)+
  then show ?thesis by (cases c) (simp_all add: label_ok_def node_fields_ok_def text_opcode_def)
qed

lemma constant_shape_ok: "shape_ok (set_constant c l) []"
  by (cases c) (simp_all add: shape_ok_def validate_node_shape_def)

lemma roles_upt: "map (\<lambda>c. role (ks ! c)) [0..<length ks] = map role ks"
  by (rule nth_equalityI) simp_all

lemma shape_ok_roles: "map role ks = map role js \<Longrightarrow> shape_ok l ks = shape_ok l js"
  unfolding shape_ok_def by (rule validate_node_shape_cong) (simp_all add: roles_upt, metis length_map)

lemma shape_ok_kids: "kid_roles us = kid_roles ts \<Longrightarrow> shape_ok l (map tree_label us) = shape_ok l (map tree_label ts)"
  by (rule shape_ok_roles) (simp add: o_def)

lemma shape_variable: "shape_ok l ks \<Longrightarrow> opcode l = IR_VARIABLE \<Longrightarrow> ks = []"
  by (simp add: shape_ok_def validate_node_shape_def)

lemma specialised_ok: "specialised t u \<Longrightarrow> tree_ok t \<Longrightarrow> tree_ok u"
proof (induction rule: specialised.induct)
  case (1 m l ts us i)
  have kids: "list_all tree_ok us" using 1(2,3) by (auto simp: list_all_length list_all2_conv_all_nth)
  have roles: "kid_roles us = kid_roles ts" using specialised_forest [OF list_all2_mono [OF 1(2)]] by simp
  show ?case
  proof (cases "m = l")
    case True
    then show ?thesis using 1(3) kids shape_ok_kids [OF roles] by simp
  next
    case False
    then obtain c where c: "opcode l = IR_VARIABLE" "m = set_constant c l" using 1(1) by blast
    have "ts = []" using shape_variable [of l "map tree_label ts"] 1(3) c(1) by simp
    then have "us = []" using 1(2) by simp
    then show ?thesis using constant_label_ok [of l c] constant_shape_ok [of c l] c 1(3) by simp
  qed
qed

lemma specialised_branches: "specialised t u \<Longrightarrow> branches_ok t \<Longrightarrow> branches_ok u"
proof (induction rule: specialised.induct)
  case (1 m l ts us i)
  have "list_all branches_ok us" using 1(2,3) by (auto simp: list_all_length list_all2_conv_all_nth)
  moreover have "kid_roles us = kid_roles ts" using specialised_forest [OF list_all2_mono [OF 1(2)]] by simp
  ultimately show ?case using 1(1,3) by (auto split: hir_constant.splits)
qed

lemma specialised_call: "specialised t u \<Longrightarrow> has_call u = has_call t"
proof (induction rule: specialised.induct)
  case (1 m l ts us i)
  have "list_ex has_call us = list_ex has_call ts" using 1(2) by (induction rule: list_all2_induct) auto
  then show ?case using 1(1) by (auto split: hir_constant.splits)
qed

lemma specialised_all_ok: "list_all2 specialised ts us \<Longrightarrow> list_all tree_ok ts \<Longrightarrow> list_all tree_ok us"
  by (auto simp: list_all_length list_all2_conv_all_nth specialised_ok)

lemma text_of: "tree_ok t \<Longrightarrow> text_opcode (opcode (tree_label t)) \<Longrightarrow> value_text (node_value (tree_label t)) = Some (label_text t)"
  by (cases t) (auto simp: label_ok_def node_fields_ok_def label_text_def)

section \<open>Steps of the propagation\<close>

definition propagates :: "'f propagation \<Rightarrow> 'f htree list \<Rightarrow> 'f constant_environment \<times> nat \<times> 'f htree list \<Rightarrow> 'f propagation \<Rightarrow> bool" where
  "propagates s ts r s' \<longleftrightarrow> prop_env s' = fst r \<and> prop_changed s' = prop_changed s + fst (snd r) \<and> replants (prop_ir s) ts (prop_ir s') (snd (snd r))"

definition env_pass ::
  "('f propagation \<Rightarrow> nat \<Rightarrow> 'f propagation option) \<Rightarrow> ('f constant_environment \<Rightarrow> 'f htree \<Rightarrow> 'f constant_environment \<times> nat \<times> 'f htree) \<Rightarrow> 'f htree \<Rightarrow> bool" where
  "env_pass go f t \<longleftrightarrow> (\<forall>s e n t'. planted (prop_ir s) [t] \<longrightarrow> f (prop_env s) t = (e, n, t') \<longrightarrow>
     (\<exists>s'. go s (tree_index t) = Some s' \<and> propagates s [t] (e, n, [t']) s'))"

lemma env_passD:
  "env_pass go f t \<Longrightarrow> planted (prop_ir s) [t] \<Longrightarrow> f (prop_env s) t = (e, n, t') \<Longrightarrow> \<exists>s'. go s (tree_index t) = Some s' \<and> propagates s [t] (e, n, [t']) s'"
  by (simp add: env_pass_def)

lemma propagates_refl: "planted (prop_ir s) ts \<Longrightarrow> propagates s ts (prop_env s, 0, ts) s"
  by (simp add: propagates_def replants_refl)

lemma propagates_env: "propagates s ts (e, r) s' \<Longrightarrow> propagates s ts (e', r) (s'\<lparr>prop_env := e'\<rparr>)"
  by (simp add: propagates_def)

lemma propagates_planted: "propagates s ts (e, n, us) s' \<Longrightarrow> planted (prop_ir s') us"
  by (auto simp: propagates_def intro: replants_planted)

lemma propagates_trans: "propagates s ts (e, n, us) s1 \<Longrightarrow> propagates s1 us (e', m, vs) s2 \<Longrightarrow> propagates s ts (e', n + m, vs) s2"
  by (auto simp: propagates_def intro: replants_trans)

lemma propagates_append:
  "propagates s ts (e, n, us) s1 \<Longrightarrow> propagates s1 ts' (e', m, us') s2 \<Longrightarrow> planted (prop_ir s) (ts @ ts') \<Longrightarrow> propagates s (ts @ ts') (e', n + m, us @ us') s2"
  by (auto simp: propagates_def intro: replants_append)

lemma propagates_other:
  "propagates s ts (e, n, us) s1 \<Longrightarrow> planted (prop_ir s) (ts @ ts') \<Longrightarrow> planted (prop_ir s1) ts'"
  by (rule replants_other [of "prop_ir s" ts _ us]) (auto simp: propagates_def planted_def)

lemma propagates_kids: "propagates s ts (e, n, us) s' \<Longrightarrow> planted (prop_ir s) [HTree i l ts] \<Longrightarrow> propagates s [HTree i l ts] (e, n, [HTree i l us]) s'"
  by (simp add: propagates_def replants_kids)

lemma propagates_kid:
  assumes "propagates s [t] (e, n, [t']) s'" "planted (prop_ir s) (xs @ t # ys)"
  shows "propagates s (xs @ t # ys) (e, n, xs @ t' # ys) s'"
proof -
  have p: "planted (prop_ir s) xs" "planted (prop_ir s) (t # ys)" "planted (prop_ir s) ([t] @ ys)" using assms(2) by (auto simp: planted_def)
  have "propagates s ([t] @ ys) (prop_env s', n + 0, [t'] @ ys) s'"
    by (rule propagates_append [OF assms(1) propagates_refl p(3)]) (rule propagates_other [OF assms(1) p(3)])
  then have "propagates s (xs @ t # ys) (prop_env s', 0 + n, xs @ t' # ys) s'"
    using propagates_append [OF propagates_refl [OF p(1)] _ assms(2)] by simp
  then show ?thesis using assms(1) by (simp add: propagates_def)
qed

lemma each_child_thread:
  assumes "\<forall>t \<in> set ts. env_pass go f t" "planted (prop_ir s) ts" "thread f (prop_env s) ts = (e, n, us)"
  shows "\<exists>s'. each_child go s (map tree_index ts) = Some s' \<and> propagates s ts (e, n, us) s'"
  using assms
proof (induction ts arbitrary: s e n us)
  case Nil
  then show ?case using propagates_refl [of s "[]"] by auto
next
  case (Cons t ts)
  obtain e1 n1 t1 where 1: "f (prop_env s) t = (e1, n1, t1)" by (cases "f (prop_env s) t")
  obtain e2 n2 ts2 where 2: "thread f e1 ts = (e2, n2, ts2)" by (cases "thread f e1 ts")
  have p: "planted (prop_ir s) [t]" "planted (prop_ir s) ([t] @ ts)" using Cons.prems(2) by (auto simp: planted_Cons)
  obtain s1 where s1: "go s (tree_index t) = Some s1" "propagates s [t] (e1, n1, [t1]) s1"
    using env_passD [where go = go and f = f and t = t and s = s, OF _ p(1) 1] Cons.prems(1) by auto
  then have "prop_env s1 = e1" by (simp add: propagates_def)
  then obtain s2 where s2: "each_child go s1 (map tree_index ts) = Some s2" "propagates s1 ts (e2, n2, ts2) s2"
    using Cons.IH [of s1 e2 n2 ts2] Cons.prems(1) propagates_other [OF s1(2) p(2)] 2 by auto
  show ?case using s1(1) s2(1) propagates_append [OF s1(2) s2(2) p(2)] Cons.prems(3) by (auto simp: 1 2)
qed

lemma on_first_pass:
  assumes "\<forall>t \<in> set ts. env_pass go f t" "planted (prop_ir s) ts" "on_first r f (prop_env s) ts = (e, n, us)"
  shows "\<exists>s'. (case kid_with_role r ts of None \<Rightarrow> Some s | Some t \<Rightarrow> go s (tree_index t)) = Some s' \<and> propagates s ts (e, n, us) s'"
proof (cases "kid_with_role r ts")
  case None
  then show ?thesis using assms(2,3) propagates_refl on_first_None [OF None, of f "prop_env s"] by auto
next
  case (Some t)
  then have "t \<in> set ts" using kid_with_role_in by blast
  then have p: "planted (prop_ir s) [t]" using assms(2) by (auto simp: planted_def forest_indices_def distinct_concat_iff)
  obtain e1 n1 t1 where 1: "f (prop_env s) t = (e1, n1, t1)" by (cases "f (prop_env s) t")
  obtain s1 where s1: "go s (tree_index t) = Some s1" "propagates s [t] (e1, n1, [t1]) s1"
    using env_passD [where go = go and f = f and t = t and s = s, OF _ p 1] assms(1) \<open>t \<in> set ts\<close> by auto
  from on_first_Some [OF Some, of f "prop_env s"] obtain xs ys where
    x: "ts = xs @ t # ys" "on_first r f (prop_env s) ts = (e1, n1, xs @ t1 # ys)" by (auto simp: 1)
  show ?thesis using Some s1 x assms(2,3) propagates_kid [OF s1(2), of xs ys] by auto
qed

section \<open>Substitution\<close>

lemma planted_kid: "planted ir ts \<Longrightarrow> t \<in> set ts \<Longrightarrow> planted ir [t]"
  by (auto simp: planted_def forest_indices_def distinct_concat_iff)

lemma planted_label: "planted ir [HTree i l ts] \<Longrightarrow> i < node_count ir \<and> node_label (hir_node_at ir i) = l"
  by (simp add: planted_def)

lemma planted_fields:
  assumes "planted ir [HTree i l ts]"
  shows "opcode (hir_node_at ir i) = opcode l" "role (hir_node_at ir i) = role l" "operation (hir_node_at ir i) = operation l"
    "node_value (hir_node_at ir i) = node_value l"
  using planted_label [OF assms] by (metis node_label_opcode)+

lemma hir_child_role_tree: "planted ir [HTree i l ts] \<Longrightarrow> hir_child_role ir i r = Some (map_option tree_index (kid_with_role r ts))"
  using planted_children [of ir i l ts] planted_kids [of ir i l ts] first_of_role_tree [of ir ts r] by (simp add: hir_child_role_def)

lemma contains_any_tree:
  "(\<And>t. t \<in> set ts \<Longrightarrow> go (tree_index t) = Some (has_call t)) \<Longrightarrow> contains_any go (map tree_index ts) = Some (list_ex has_call ts)"
  by (induction ts) auto

lemma hir_contains_call_tree: "planted ir [t] \<Longrightarrow> tree_nodes t \<le> k \<Longrightarrow> hir_contains_call k ir (tree_index t) = Some (has_call t)"
proof (induction k arbitrary: t)
  case 0
  then show ?case by (cases t) simp
next
  case (Suc k)
  obtain i l ts where t: "t = HTree i l ts" by (cases t)
  note p = Suc.prems(1) [unfolded t]
  have "contains_any (hir_contains_call k ir) (map tree_index ts) = Some (list_ex has_call ts)"
  proof (rule contains_any_tree)
    fix u assume u: "u \<in> set ts"
    have "tree_nodes u \<le> k" using kid_size [OF u, of i l] Suc.prems(2) by (simp add: t)
    then show "hir_contains_call k ir (tree_index u) = Some (has_call u)"
      using Suc.IH planted_kid [OF conjunct1 [OF planted_kids [OF p]] u] by blast
  qed
  then show ?case using planted_fields(1) [OF p] planted_label [OF p] planted_children [OF p] by (simp add: t)
qed

lemma forget_target_tree:
  assumes p: "planted (prop_ir s) [HTree i l ts]" and ok: "list_all tree_ok ts"
  shows "forget_target s i = Some (s\<lparr>prop_env := forget_kids (prop_env s) ts\<rparr>)"
proof (cases "kid_with_role EDGE_TARGET ts")
  case None
  then show ?thesis using hir_child_role_tree [OF p] by (simp add: forget_target_def forget_kids_def)
next
  case (Some t)
  then have t: "t \<in> set ts" using kid_with_role_in by blast
  obtain j m us where tt: "t = HTree j m us" by (cases t)
  note f = planted_fields [OF planted_kid [OF conjunct1 [OF planted_kids [OF p]] t, unfolded tt]]
  have "tree_ok t" using ok t by (simp add: list_all_iff)
  then have "value_text (node_value m) = Some (label_text t)" if "opcode m = IR_VARIABLE"
    using text_of [of t] that by (simp add: tt text_opcode_def)
  then show ?thesis using hir_child_role_tree [OF p] Some f by (simp add: forget_target_def forget_kids_def tt)
qed

lemma hir_substitute_tree: "tree_nodes t \<le> k \<Longrightarrow> tree_ok t \<Longrightarrow> env_pass (hir_substitute_expression k) subst_tree t"
proof (induction k arbitrary: t)
  case 0
  then show ?case by (cases t) simp
next
  case (Suc k)
  obtain i l ts where t: "t = HTree i l ts" by (cases t)
  have ok: "list_all tree_ok ts" using Suc.prems(2) by (simp add: t)
  have kids: "\<forall>u \<in> set ts. env_pass (hir_substitute_expression k) subst_tree u"
    using Suc kid_size [of _ ts i l] ok by (fastforce simp: t list_all_iff)
  show ?case unfolding env_pass_def
  proof (intro allI impI)
    fix s :: "'a propagation" and e n t' assume p: "planted (prop_ir s) [t]" and f: "subst_tree (prop_env s) t = (e, n, t')"
    note p' = p [unfolded t]
    note fl = planted_fields [OF p'] and pl = planted_label [OF p'] and ch = planted_children [OF p'] and pk = planted_kids [OF p']
    obtain e1 n1 us where th: "thread subst_tree (prop_env s) ts = (e1, n1, us)" by (cases "thread subst_tree (prop_env s) ts")
    obtain s1 where s1: "each_child (hir_substitute_expression k) s (map tree_index ts) = Some s1" "propagates s ts (e1, n1, us) s1"
      using each_child_thread [OF kids conjunct1 [OF pk] th] by blast
    have m1: "propagates s [t] (e1, n1, [HTree i l us]) s1" unfolding t by (rule propagates_kids [OF s1(2) p'])
    note go = f [symmetric, unfolded t subst_tree.simps] pl ch fl s1(1) th
    consider (var) "opcode l = IR_VARIABLE" | (call) "opcode l = IR_CALL" | (assign) "opcode l = IR_ASSIGN"
      | (ref) "opcode l \<noteq> IR_VARIABLE" "opcode l \<noteq> IR_CALL" "opcode l \<noteq> IR_ASSIGN" "opcode l = IR_UNARY \<and> operation l = Unary_operation UNARY_REFERENCE"
      | (value_of) "opcode l = IR_UNARY" "operation l \<noteq> Unary_operation UNARY_REFERENCE"
      | (other) "opcode l \<noteq> IR_VARIABLE" "opcode l \<noteq> IR_CALL" "opcode l \<noteq> IR_ASSIGN" "opcode l \<noteq> IR_UNARY"
      by blast
    then show "\<exists>s'. hir_substitute_expression (Suc k) s (tree_index t) = Some s' \<and> propagates s [t] (e, n, [t']) s'"
    proof cases
      case var
      have x: "value_text (node_value l) = Some (label_text t)" using text_of [OF Suc.prems(2)] var by (simp add: t text_opcode_def)
      show ?thesis
      proof (cases "hir_constant_find (prop_env s) (label_text t)")
        case None
        then show ?thesis using var go x propagates_refl [OF p] by (simp add: t Let_def)
      next
        case (Some j)
        have "propagates s [t] (prop_env s, 1, [HTree i (set_constant (snd (prop_env s ! j)) l) ts])
            (hir_replace_variable_with_constant s i (snd (prop_env s ! j)))"
          using replants_label [OF p', of "set_constant (snd (prop_env s ! j))"] by (simp add: propagates_def hir_replace_variable_with_constant_def t)
        then show ?thesis using var go x Some by (auto simp: t Let_def)
      qed
    next
      case call
      then show ?thesis using go propagates_env [OF m1, of "[]"] by (auto simp: t Let_def)
    next
      case assign
      then show ?thesis using go propagates_env [OF propagates_refl [OF p]] forget_target_tree [OF p' ok] by (auto simp: t Let_def)
    next
      case ref
      then show ?thesis using go propagates_refl [OF p] by (simp add: t Let_def)
    next
      case value_of
      then show ?thesis using go m1 by (simp add: t Let_def)
    next
      case other
      then show ?thesis using go m1 by (simp add: t Let_def)
    qed
  qed
qed

section \<open>Statements\<close>

lemma planted_role: "planted ir [t] \<Longrightarrow> role (hir_node_at ir (tree_index t)) = role (tree_label t)"
  by (simp add: planted_def node_label_role)

lemma statement_pass:
  "env_pass go f t \<Longrightarrow> env_pass (\<lambda>s c. if role (hir_node_at (prop_ir s) c) = EDGE_STATEMENT then go s c else Some s) (statement_kid f) t"
  unfolding env_pass_def by (auto simp: statement_kid_def planted_role propagates_refl)

lemma hir_propagate_sequence_tree:
  assumes p: "planted (prop_ir s) [HTree i l ts]" and kids: "\<forall>u \<in> set ts. env_pass go f u"
    and th: "thread (statement_kid f) (prop_env s) ts = (e, n, us)"
  shows "\<exists>s'. hir_propagate_sequence go s i EDGE_STATEMENT = Some s' \<and> propagates s [HTree i l ts] (e, n, [HTree i l us]) s'"
proof -
  have "\<forall>u \<in> set ts. env_pass (\<lambda>s c. if role (hir_node_at (prop_ir s) c) = EDGE_STATEMENT then go s c else Some s) (statement_kid f) u"
    using kids statement_pass by blast
  from each_child_thread [OF this conjunct1 [OF planted_kids [OF p]] th] propagates_kids [OF _ p, of e n us] planted_children [OF p]
  show ?thesis by (auto simp: hir_propagate_sequence_def)
qed

definition block_pass :: "('f propagation \<Rightarrow> nat \<Rightarrow> 'f propagation option) \<Rightarrow> 'f htree \<Rightarrow> bool" where
  "block_pass go t \<longleftrightarrow> (\<forall>env s n t'. planted (prop_ir s) [t] \<longrightarrow> propagate_block env t = (n, t') \<longrightarrow>
     (\<exists>s'. in_block go env s (tree_index t) = Some s' \<and> propagates s [t] (prop_env s, n, [t']) s'))"

lemma block_passD:
  "block_pass go t \<Longrightarrow> planted (prop_ir s) [t] \<Longrightarrow> propagate_block env t = (n, t')
    \<Longrightarrow> \<exists>s'. in_block go env s (tree_index t) = Some s' \<and> propagates s [t] (prop_env s, n, [t']) s'"
  by (simp add: block_pass_def)

lemma in_block_tree:
  assumes kids: "\<forall>u \<in> set ts. env_pass go propagate_tree u"
  shows "block_pass go (HTree i l ts)"
  unfolding block_pass_def
proof (intro allI impI)
  fix env and s :: "'a propagation" and n t'
  assume p: "planted (prop_ir s) [HTree i l ts]" and b: "propagate_block env (HTree i l ts) = (n, t')"
  note op = planted_fields(1) [OF p]
  show "\<exists>s'. in_block go env s (tree_index (HTree i l ts)) = Some s' \<and> propagates s [HTree i l ts] (prop_env s, n, [t']) s'"
  proof (cases "opcode l = IR_PROGRAM")
    case True
    let ?s = "s\<lparr>prop_env := env\<rparr>"
    obtain e m us where th: "thread (statement_kid propagate_tree) env ts = (e, m, us)" by (cases "thread (statement_kid propagate_tree) env ts")
    have r: "n = m" "t' = HTree i l us" using b True th by (simp_all add: propagate_block.simps)
    obtain s' where s': "hir_propagate_sequence go ?s i EDGE_STATEMENT = Some s'" "propagates ?s [HTree i l ts] (e, m, [HTree i l us]) s'"
      using hir_propagate_sequence_tree [of ?s i l ts go propagate_tree e m us] p kids th by auto
    have "propagates s [HTree i l ts] (prop_env s, m, [HTree i l us]) (s'\<lparr>prop_env := prop_env s\<rparr>)" using s'(2) by (simp add: propagates_def)
    then show ?thesis using True op s'(1) r by (simp add: in_block_def)
  next
    case False
    then show ?thesis using b [symmetric] op propagates_refl [OF p] by (simp add: in_block_def propagate_block.simps)
  qed
qed

lemma branch_pass:
  assumes "block_pass go t"
  shows "env_pass (\<lambda>s c. let r = role (hir_node_at (prop_ir s) c) in
            if r = EDGE_THEN \<or> r = EDGE_ELSE then in_block go (hir_constants_copy (prop_env s)) s c else Some s) (branch_kid propagate_block) t"
  unfolding env_pass_def
proof (intro allI impI)
  fix s :: "'a propagation" and e n t'
  assume p: "planted (prop_ir s) [t]" and f: "branch_kid propagate_block (prop_env s) t = (e, n, t')"
  obtain m u where b: "propagate_block (hir_constants_copy (prop_env s)) t = (m, u)" by (cases "propagate_block (hir_constants_copy (prop_env s)) t")
  show "\<exists>s'. (let r = role (hir_node_at (prop_ir s) (tree_index t)) in
            if r = EDGE_THEN \<or> r = EDGE_ELSE then in_block go (hir_constants_copy (prop_env s)) s (tree_index t) else Some s) = Some s'
      \<and> propagates s [t] (e, n, [t']) s'"
    using f [symmetric] block_passD [OF assms p b] propagates_refl [OF p]
    by (cases "role (tree_label t) = EDGE_THEN \<or> role (tree_label t) = EDGE_ELSE") (auto simp: branch_kid_def planted_role [OF p] b Let_def)
qed

lemma body_pass: "block_pass go t \<Longrightarrow> env_pass (\<lambda>s c. in_block go [] s c) (\<lambda>e t. (e, propagate_block [] t)) t"
  unfolding env_pass_def using block_passD by fastforce

lemma hir_propagate_if_tree:
  fixes s :: "'f propagation"
  assumes p: "planted (prop_ir s) [HTree i l ts]" and ok: "list_all tree_ok ts"
    and sub: "\<And>u :: 'f htree. tree_nodes u \<le> sum_list (map tree_nodes ts) \<Longrightarrow> tree_ok u \<Longrightarrow> env_pass (hir_substitute_expression k) subst_tree u"
    and blk: "\<And>u :: 'f htree. tree_nodes u \<le> sum_list (map tree_nodes ts) \<Longrightarrow> tree_ok u \<Longrightarrow> block_pass go u"
    and c: "on_first EDGE_CONDITION subst_tree (prop_env s) ts = (e, n, us)" and b: "thread (branch_kid propagate_block) e us = (e2, m, vs)"
  shows "\<exists>s'. propagate_if k go s i = Some s' \<and> propagates s [HTree i l ts] ([], n + m, [HTree i l vs]) s'"
proof -
  note pk = conjunct1 [OF planted_kids [OF p]]
  have "\<forall>u \<in> set ts. env_pass (hir_substitute_expression k) subst_tree u" by (intro ballI sub kid_nodes) (use ok in \<open>auto simp: list_all_iff\<close>)
  then obtain s1 where s1: "(case kid_with_role EDGE_CONDITION ts of None \<Rightarrow> Some s | Some t \<Rightarrow> hir_substitute_expression k s (tree_index t)) = Some s1"
    "propagates s ts (e, n, us) s1" using on_first_pass [OF _ pk c] by blast
  have m1: "propagates s [HTree i l ts] (e, n, [HTree i l us]) s1" by (rule propagates_kids [OF s1(2) p])
  note p1 = propagates_planted [OF m1]
  have sp: "list_all2 specialised ts us" by (rule on_first_specialised [OF _ c]) (rule subst_specialised)
  have "\<forall>u \<in> set us. block_pass go u"
    by (intro ballI blk first_kid_nodes [OF c]) (use specialised_all_ok [OF sp ok] in \<open>auto simp: list_all_iff\<close>)
  then have "\<forall>u \<in> set us. env_pass (\<lambda>s c. let r = role (hir_node_at (prop_ir s) c) in
      if r = EDGE_THEN \<or> r = EDGE_ELSE then in_block go (hir_constants_copy (prop_env s)) s c else Some s) (branch_kid propagate_block) u"
    using branch_pass by blast
  moreover have "prop_env s1 = e" using s1(2) by (simp add: propagates_def)
  ultimately obtain s2 where s2: "each_child (\<lambda>s c. let r = role (hir_node_at (prop_ir s) c) in
      if r = EDGE_THEN \<or> r = EDGE_ELSE then in_block go (hir_constants_copy (prop_env s)) s c else Some s) s1 (map tree_index us) = Some s2"
    "propagates s1 us (e2, m, vs) s2" using each_child_thread [OF _ conjunct1 [OF planted_kids [OF p1]], of _ "branch_kid propagate_block" e2 m vs] b by blast
  have "propagates s [HTree i l ts] ([], n + m, [HTree i l vs]) (s2\<lparr>prop_env := []\<rparr>)"
    using propagates_env [OF propagates_trans [OF m1 propagates_kids [OF s2(2) p1]]] .
  moreover have "propagate_if k go s i = Some (s2\<lparr>prop_env := []\<rparr>)"
    using hir_child_role_tree [OF p] s1(1) planted_children [OF p1] s2(1) unfolding propagate_if_def
    by (cases "kid_with_role EDGE_CONDITION ts") simp_all
  ultimately show ?thesis by blast
qed

lemma specialised_index: "specialised t u \<Longrightarrow> tree_index u = tree_index t"
  by (erule specialised.cases) auto

lemma specialised_kid: "list_all2 specialised ts us \<Longrightarrow> map_option tree_index (kid_with_role r us) = map_option tree_index (kid_with_role r ts)"
  by (induction rule: list_all2_induct) (auto simp: kid_with_role_def specialised_role specialised_index)

lemma hir_propagate_declaration_tree:
  fixes s :: "'f propagation"
  assumes p: "planted (prop_ir s) [HTree i l ts]" and ok: "tree_ok (HTree i l ts)" and op: "opcode l = IR_VARIABLE_DECL \<or> opcode l = IR_REASSIGN"
    and sub: "\<forall>u \<in> set ts. env_pass (hir_substitute_expression k) subst_tree u"
    and c: "on_first EDGE_VALUE subst_tree (prop_env s) ts = (e, n, us)"
  shows "\<exists>s'. propagate_declaration k s i = Some s' \<and> propagates s [HTree i l ts] (declare_known e (label_text (HTree i l ts)) us, n, [HTree i l us]) s'"
proof -
  note pk = conjunct1 [OF planted_kids [OF p]]
  obtain s1 where s1: "(case kid_with_role EDGE_VALUE ts of None \<Rightarrow> Some s | Some t \<Rightarrow> hir_substitute_expression k s (tree_index t)) = Some s1"
    "propagates s ts (e, n, us) s1" using on_first_pass [OF sub pk c] by blast
  have m1: "propagates s [HTree i l ts] (e, n, [HTree i l us]) s1" by (rule propagates_kids [OF s1(2) p])
  note p1 = propagates_planted [OF m1] and pu = propagates_planted [OF s1(2)]
  have sp: "list_all2 specialised ts us" by (rule on_first_specialised [OF _ c]) (rule subst_specialised)
  have val: "(case map_option tree_index (kid_with_role EDGE_VALUE ts) of None \<Rightarrow> None | Some c \<Rightarrow> hir_constant_at (prop_ir s1) c)
      = do { t \<leftarrow> kid_with_role EDGE_VALUE us; node_constant (tree_label t) }"
    unfolding specialised_kid [OF sp, symmetric] using constant_at_tree [OF pu] kid_with_role_in [of EDGE_VALUE us]
    by (cases "kid_with_role EDGE_VALUE us") auto
  have nm: "value_text (node_value (hir_node_at (prop_ir s1) i)) = Some (label_text (HTree i l ts))"
    using text_of [OF ok] op planted_fields(4) [OF p1] by (auto simp: text_opcode_def)
  have pe: "prop_env s1 = e" using s1(2) by (simp add: propagates_def)
  have "propagate_declaration k s i = Some (s1\<lparr>prop_env := declare_known e (label_text (HTree i l ts)) us\<rparr>)"
    using hir_child_role_tree [OF p] s1(1) val nm unfolding propagate_declaration_def
    by (cases "kid_with_role EDGE_VALUE ts") (simp_all add: Let_def declare_known_def pe cong: option.case_cong)
  then show ?thesis using propagates_env [OF m1] by blast
qed

lemma forget_after_call_tree:
  assumes m: "propagates s [t] (e, n, [t']) s'" and c: "tree_nodes t' \<le> k" and r: "after_call (e, n, t') = (e2, n2, t2)"
  shows "\<exists>s2. forget_after_call k s' (tree_index t') = Some s2 \<and> propagates s [t] (e2, n2, [t2]) s2"
  using hir_contains_call_tree [OF propagates_planted [OF m] c] m propagates_env [OF m, of "[]"] r
  by (auto simp: forget_after_call_def after_call_def split: if_splits)

lemma hir_propagate_tree: "tree_nodes t \<le> k \<Longrightarrow> tree_ok t \<Longrightarrow> env_pass (hir_propagate_statement k) propagate_tree t"
proof (induction k arbitrary: t)
  case 0
  then show ?case by (cases t) simp
next
  case (Suc k)
  let ?go = "hir_propagate_statement k :: 'a propagation \<Rightarrow> nat \<Rightarrow> 'a propagation option"
  obtain i l ts where t: "t = HTree i l ts" by (cases t)
  have ok: "list_all tree_ok ts" and le: "sum_list (map tree_nodes ts) \<le> k" using Suc.prems by (simp_all add: t nodes_HTree del: indices.simps)
  have kids: "\<forall>u \<in> set ts. env_pass ?go propagate_tree u" using Suc.IH ok le kid_nodes by (fastforce simp: list_all_iff)
  have sub: "env_pass (hir_substitute_expression k) subst_tree u" if "tree_nodes u \<le> sum_list (map tree_nodes ts)" "tree_ok u" for u :: "'a htree"
    using hir_substitute_tree that le by (meson order_trans)
  then have subs: "\<forall>u \<in> set ts. env_pass (hir_substitute_expression k) subst_tree u" using ok kid_nodes by (fastforce simp: list_all_iff)
  have blk: "block_pass ?go u" if u: "tree_nodes u \<le> sum_list (map tree_nodes ts)" "tree_ok u" for u
  proof -
    obtain j m us where uu: "u = HTree j m us" by (cases u)
    have "\<forall>v \<in> set us. env_pass ?go propagate_tree v"
      using Suc.IH u le kid_size [of _ us j m] by (fastforce simp: uu list_all_iff simp del: indices.simps)
    then show ?thesis unfolding uu by (rule in_block_tree)
  qed
  then have blks: "\<forall>u \<in> set ts. env_pass (\<lambda>s c. in_block ?go [] s c) (\<lambda>e t. (e, propagate_block [] t)) u"
    using ok kid_nodes body_pass by (fastforce simp: list_all_iff)
  show ?case unfolding env_pass_def
  proof (intro allI impI)
    fix s :: "'a propagation" and e n t' assume p: "planted (prop_ir s) [t]" and f: "propagate_tree (prop_env s) t = (e, n, t')"
    note p' = p [unfolded t]
    note fl = planted_fields(1) [OF p'] and ch = planted_children [OF p'] and pk = conjunct1 [OF planted_kids [OF p']]
    note goal = hir_propagate_statement.simps(2) [of k s i] Let_def fl
    let ?c = "on_first EDGE_CONDITION subst_tree (prop_env s) ts" and ?b = "on_first EDGE_BODY (\<lambda>e t. (e, propagate_block [] t)) (prop_env s) ts"
      and ?q = "thread (statement_kid propagate_tree) (prop_env s) ts" and ?v = "on_first EDGE_VALUE subst_tree (prop_env s) ts"
      and ?a = "thread subst_tree (prop_env s) ts"
    obtain ec nc uc where c: "?c = (ec, nc, uc)" by (cases ?c)
    obtain eb nb ub where b: "thread (branch_kid propagate_block) ec uc = (eb, nb, ub)" by (cases "thread (branch_kid propagate_block) ec uc")
    obtain ef nf uf where bd: "?b = (ef, nf, uf)" by (cases ?b)
    obtain eq nq uq where q: "?q = (eq, nq, uq)" by (cases ?q)
    obtain ev nv uv where v: "?v = (ev, nv, uv)" by (cases ?v)
    obtain ea na ua where a: "?a = (ea, na, ua)" by (cases ?a)
    note f' = f [unfolded t propagate_tree.simps, simplified Let_def c b bd q v a prod.case]
    have fin: "\<exists>s'. hir_propagate_statement (Suc k) s (tree_index t) = Some s' \<and> propagates s [t] (e, n, [t']) s'"
      if "hir_propagate_statement (Suc k) s i = do { s1 \<leftarrow> r; forget_after_call (Suc k) s1 i }"
        and "\<exists>s1. r = Some s1 \<and> propagates s [HTree i l ts] (e1, n1, [HTree i l us]) s1"
        and "after_call (e1, n1, HTree i l us) = (e, n, t')" "snd (snd (propagate_tree (prop_env s) t)) = HTree i l us" for r e1 n1 us
    proof -
      have "indices (HTree i l us) = indices t" using propagate_specialised [of t] specialised_indices that(4) by (metis lessI)
      then have "tree_nodes (HTree i l us) \<le> Suc k" using Suc.prems(1) by simp
      with that forget_after_call_tree [where t = t and k = "Suc k" and t' = "HTree i l us" and e = e1 and n = n1 and s = s, OF _ _ that(3)] show ?thesis by (auto simp: t)
    qed
    have same: "t' = u" if "after_call (e1, n1, u) = (e, n, t')" for e1 n1 u using that by (simp add: after_call_def)
    consider (stop) "opcode l = IR_WHILE \<or> opcode l = IR_ASM" | (cond) "opcode l = IR_IF" | (func) "opcode l = IR_FUNCTION" | (seq) "opcode l = IR_PROGRAM"
      | (decl) "opcode l = IR_VARIABLE_DECL \<or> opcode l = IR_REASSIGN" | (assign) "opcode l = IR_ASSIGN"
      | (other) "opcode l \<notin> {IR_WHILE, IR_ASM, IR_IF, IR_FUNCTION, IR_PROGRAM, IR_VARIABLE_DECL, IR_REASSIGN, IR_ASSIGN}" by blast
    then show "\<exists>s'. hir_propagate_statement (Suc k) s (tree_index t) = Some s' \<and> propagates s [t] (e, n, [t']) s'"
    proof cases
      case stop
      then show ?thesis using f' [symmetric] propagates_env [OF propagates_refl [OF p], of "[]"] by (auto simp: goal t)
    next
      case cond
      show ?thesis
        by (rule fin [of "propagate_if k ?go s i", OF _ hir_propagate_if_tree [OF p' ok sub blk c b]]) (use cond f' f same in \<open>auto simp: goal\<close>)
    next
      case func
      show ?thesis
        by (rule fin [of "case kid_with_role EDGE_BODY ts of None \<Rightarrow> Some s | Some t \<Rightarrow> in_block ?go [] s (tree_index t)" ef nf uf])
          (use func f' f same on_first_pass [OF blks pk bd] propagates_kids [OF _ p'] hir_child_role_tree [OF p'] in \<open>auto simp: goal split: option.splits\<close>)
    next
      case seq
      show ?thesis by (rule fin [OF _ hir_propagate_sequence_tree [OF p' kids q]]) (use seq f' f same in \<open>auto simp: goal\<close>)
    next
      case decl
      show ?thesis
        by (rule fin [OF _ hir_propagate_declaration_tree [OF p' Suc.prems(2) [unfolded t] decl subs v]]) (use decl f' f same in \<open>auto simp: goal\<close>)
    next
      case assign
      show ?thesis
        by (rule fin [of "forget_target s i" "forget_kids (prop_env s) ts" 0 ts])
          (use assign f' f same forget_target_tree [OF p' ok] propagates_env [OF propagates_refl [OF p']] in \<open>auto simp: goal\<close>)
    next
      case other
      show ?thesis
        by (rule fin [of "each_child (hir_substitute_expression k) s (map tree_index ts)" ea na ua])
          (use other f' f same ch each_child_thread [OF subs pk a] propagates_kids [OF _ p'] in \<open>auto simp: goal\<close>)
    qed
  qed
qed

end
