(* ===== verification/HirCopy.thy ===== *)
theory HirCopy
  imports HirPropagateCorrect HirLowerSpec
begin

text \<open>Compaction: the copy holds the same tree, in depth-first order and with no other nodes.\<close>

definition copied :: "'f hir_program \<Rightarrow> 'f htree \<Rightarrow> nat \<Rightarrow> 'f hir_program \<Rightarrow> bool" where
  "copied out t i out' \<longleftrightarrow> i = node_count out \<and> grows i out out' \<and> next_sibling (hir_node_at out' i) = None
     \<and> (\<exists>u. tree_at out' u \<and> indices u = [i..<node_count out'] \<and> erase u = erase t)"

lemma copy_fields_label: "tree_ok t \<Longrightarrow> planted ir [t] \<Longrightarrow> copy_fields (hir_node_at ir (tree_index t)) = tree_label t"
proof -
  assume ok: "tree_ok t" and p: "planted ir [t]"
  obtain i l ts where t: "t = HTree i l ts" by (cases t)
  note l = planted_label [OF p [unfolded t]]
  have "node_value l = Text_value (label_text t)" if "text_opcode (opcode l)"
    using text_of [OF ok] that by (cases "node_value l") (simp_all add: t)
  then have "copy_fields l = node_label l"
    by (cases l) (auto simp: copy_fields_def node_label_def blank_node_def label_text_def t)
  moreover have "node_label l = l" "copy_fields (hir_node_at ir i) = copy_fields (node_label (hir_node_at ir i))"
    using l by (auto simp: copy_fields_def node_label_def)
  ultimately show ?thesis using l by (simp add: t)
qed

lemma copy_children_tree:
  assumes "\<And>u out. u \<in> set us \<Longrightarrow> \<exists>i out'. go out (tree_index u) = Some (i, out') \<and> copied out u i out'"
    and "tree_at out (HTree p l ts)" "indices (HTree p l ts) = [p..<node_count out]" "next_sibling (hir_node_at out p) = None"
  shows "\<exists>out' vs. copy_children go out p (map tree_index us) = Some out' \<and> grows p out out' \<and> next_sibling (hir_node_at out' p) = None
    \<and> tree_at out' (HTree p l (ts @ vs)) \<and> indices (HTree p l (ts @ vs)) = [p..<node_count out'] \<and> map erase vs = map erase us"
  using assms
proof (induction us arbitrary: out ts)
  case Nil
  then show ?case by (intro exI [of _ out] exI [of _ "[]"]) (simp add: grows_def)
next
  case (Cons u us)
  obtain i out1 where 1: "go out (tree_index u) = Some (i, out1)" "copied out u i out1" using Cons.prems(1) [of u out] by auto
  then obtain c where c: "i = node_count out" "grows i out out1" "next_sibling (hir_node_at out1 i) = None"
    "tree_at out1 c" "indices c = [i..<node_count out1]" "erase c = erase u" unfolding copied_def by blast
  have "tree_index c = hd (indices c)" "indices c \<noteq> []" by (cases c; simp)+
  then have ci: "tree_index c = i" unfolding c(5) by (simp add: hd_upt)
  obtain out2 where 2: "add_child out1 p i = Some out2" "grows p out out2" "next_sibling (hir_node_at out2 p) = None"
    "tree_at out2 (HTree p l (ts @ [c]))" "indices (HTree p l (ts @ [c])) = [p..<node_count out2]"
    using attach_tree [OF Cons.prems(2-4), of out1 c] c ci by auto
  obtain out3 vs where 3: "copy_children go out2 p (map tree_index us) = Some out3" "grows p out2 out3" "next_sibling (hir_node_at out3 p) = None"
    "tree_at out3 (HTree p l ((ts @ [c]) @ vs))" "indices (HTree p l ((ts @ [c]) @ vs)) = [p..<node_count out3]" "map erase vs = map erase us"
    using Cons.IH [OF Cons.prems(1) 2(4,5,3)] by auto
  have "copy_children go out p (map tree_index (u # us)) = Some out3" using 1(1) 2(1) 3(1) by simp
  moreover have "grows p out out3" by (rule grows_trans [OF 2(2) 3(2)]) simp
  moreover have "map erase (c # vs) = map erase (u # us)" using 3(6) c(6) by simp
  moreover have "ts @ c # vs = (ts @ [c]) @ vs" by simp
  ultimately show ?case using 3(3-5) by metis
qed

lemma hir_copy_node_tree:
  "planted old [t] \<Longrightarrow> tree_ok t \<Longrightarrow> tree_nodes t \<le> k \<Longrightarrow> \<exists>i out'. hir_copy_node k old out (tree_index t) = Some (i, out') \<and> copied out t i out'"
proof (induction k arbitrary: t out)
  case 0
  then show ?case by (cases t) simp
next
  case (Suc k)
  obtain j l ts where t: "t = HTree j l ts" by (cases t)
  note p = Suc.prems(1) [unfolded t]
  let ?i = "node_count out" and ?out = "out\<lparr>nodes := nodes out @ [l]\<rparr>"
  have lab: "node_label l = l" using planted_label [OF p] by (auto simp: node_label_def)
  have kid: "\<exists>i out'. hir_copy_node k old out (tree_index u) = Some (i, out') \<and> copied out u i out'" if u: "u \<in> set ts" for u out
  proof (rule Suc.IH)
    show "planted old [u]" by (rule planted_kid [OF conjunct1 [OF planted_kids [OF p]] u])
    show "tree_ok u" "tree_nodes u \<le> k" using Suc.prems(2,3) u kid_size [OF u, of j l] by (auto simp: t list_all_iff)
  qed
  have l0: "first_child l = None" "last_child l = None" "next_sibling l = None" "child_count l = 0"
    using planted_label [OF p] by (auto simp: node_label_def)
  have t0: "tree_at ?out (HTree ?i l [])" "indices (HTree ?i l []) = [?i..<node_count ?out]" "next_sibling (hir_node_at ?out ?i) = None"
    using l0 lab by (simp_all add: last_index_def)
  from copy_children_tree [where go = "hir_copy_node k old" and us = ts, OF kid t0] obtain out' vs where
    1: "copy_children (hir_copy_node k old) ?out ?i (map tree_index ts) = Some out'" "grows ?i ?out out'" "next_sibling (hir_node_at out' ?i) = None"
      "tree_at out' (HTree ?i l vs)" "indices (HTree ?i l vs) = [?i..<node_count out']" "map erase vs = map erase ts" by auto
  have "copy_fields (hir_node_at old j) = l" using copy_fields_label [OF Suc.prems(2,1)] by (simp add: t)
  then have "hir_copy_node (Suc k) old out (tree_index t) = Some (?i, out')"
    using planted_children [OF p] 1(1) by (simp add: t reserve_node_def update_node_def Let_def)
  moreover have "erase (HTree ?i l vs) = erase t" using 1(6) by (simp add: t)
  moreover have "grows ?i out out'" using 1(2) by (auto simp: grows_def nth_append)
  ultimately show ?case using 1(3,4,5) unfolding copied_def by blast
qed

end
