(* ===== verification/HirOptimizeCorrect.thy ===== *)
theory HirOptimizeCorrect
  imports HirCopy HirLowerCorrect
begin

text \<open>
  The optimizer as a whole: every pass keeps the tree well formed, so no pass faults and the compacted array passes
  \<open>vnt_ir_validate\<close>.
\<close>

section \<open>Folding keeps the tree well formed\<close>

lemma folded_opcode: "folded d l child = Some c \<Longrightarrow> opcode l = IR_UNARY \<or> opcode l = IR_BINARY"
  by (auto simp: folded_def split: opcode.splits operation.splits)

lemma fold_role: "role (tree_label (fold_of d t)) = role (tree_label t)"
  by (cases t) (auto simp: Let_def split: option.splits)

lemma fold_roles: "kid_roles (map (fold_of d) ts) = kid_roles ts"
  by (simp add: fold_role)

lemma fold_ok: "tree_ok t \<Longrightarrow> tree_ok (fold_of d t)"
proof (induction t)
  case (HTree i l ts)
  let ?us = "map (fold_of d) ts"
  have "list_all tree_ok ?us" using HTree by (auto simp: list_all_iff)
  moreover have "shape_ok l (map tree_label ?us)" using HTree.prems shape_ok_kids [OF fold_roles, of l d ts] by simp
  ultimately show ?case
    using HTree.prems folded_opcode [of d l "kid_constant ?us"] constant_label_ok [of l] constant_shape_ok [of _ l]
    by (auto simp: Let_def o_def split: option.splits)
qed

lemma fold_branches: "branches_ok t \<Longrightarrow> branches_ok (fold_of d t)"
proof (induction t)
  case (HTree i l ts)
  have "list_all branches_ok (map (fold_of d) ts)" using HTree by (auto simp: list_all_iff)
  then show ?case using HTree.prems by (auto simp: Let_def o_def fold_role split: option.splits hir_constant.splits)
qed

section \<open>So does the removal of unreachable code\<close>

abbreviation roles_of :: "edge_role \<Rightarrow> edge_role list \<Rightarrow> nat" where
  "roles_of r rs \<equiv> length (filter ((=) r) rs)"

lemma length_roles:
  "length rs = roles_of EDGE_ROOT rs + roles_of EDGE_STATEMENT rs + roles_of EDGE_CONDITION rs + roles_of EDGE_THEN rs + roles_of EDGE_ELSE rs
     + roles_of EDGE_BODY rs + roles_of EDGE_VALUE rs + roles_of EDGE_TARGET rs + roles_of EDGE_ARGUMENT rs + roles_of EDGE_ELEMENT rs
     + roles_of EDGE_OBJECT rs + roles_of EDGE_INDEX rs + roles_of EDGE_LEFT rs + roles_of EDGE_RIGHT rs + roles_of EDGE_OPERAND rs"
proof (induction rs)
  case (Cons r rs)
  then show ?case by (cases r) simp_all
qed simp

lemma shape_ok_shrink:
  assumes ok: "shape_ok l ks"
    and keep: "\<And>r. \<not> statement_role r \<Longrightarrow> roles_of r (map role js) = roles_of r (map role ks)"
    and less: "\<And>r. roles_of r (map role js) \<le> roles_of r (map role ks)"
  shows "shape_ok l js"
proof -
  obtain f g where f: "f = (\<lambda>q. roles_of q (map role ks))" and g: "g = (\<lambda>q. roles_of q (map role js))" by blast
  have rc: "role_count \<lparr>nodes = ks, root = 0, optimized_nodes = 0\<rparr> [0..<length ks] = f"
    "role_count \<lparr>nodes = js, root = 0, optimized_nodes = 0\<rparr> [0..<length js] = g"
    unfolding f g by (rule ext, rule shape_counts)+
  have len: "length ks = f EDGE_ROOT + f EDGE_STATEMENT + f EDGE_CONDITION + f EDGE_THEN + f EDGE_ELSE + f EDGE_BODY + f EDGE_VALUE + f EDGE_TARGET
      + f EDGE_ARGUMENT + f EDGE_ELEMENT + f EDGE_OBJECT + f EDGE_INDEX + f EDGE_LEFT + f EDGE_RIGHT + f EDGE_OPERAND"
    "length js = g EDGE_ROOT + g EDGE_STATEMENT + g EDGE_CONDITION + g EDGE_THEN + g EDGE_ELSE + g EDGE_BODY + g EDGE_VALUE + g EDGE_TARGET
      + g EDGE_ARGUMENT + g EDGE_ELEMENT + g EDGE_OBJECT + g EDGE_INDEX + g EDGE_LEFT + g EDGE_RIGHT + g EDGE_OPERAND"
    using length_roles [of "map role ks"] length_roles [of "map role js"] unfolding f g length_map by blast+
  have same: "g EDGE_ROOT = f EDGE_ROOT" "g EDGE_CONDITION = f EDGE_CONDITION" "g EDGE_VALUE = f EDGE_VALUE" "g EDGE_TARGET = f EDGE_TARGET"
    "g EDGE_ARGUMENT = f EDGE_ARGUMENT" "g EDGE_ELEMENT = f EDGE_ELEMENT" "g EDGE_OBJECT = f EDGE_OBJECT" "g EDGE_INDEX = f EDGE_INDEX"
    "g EDGE_LEFT = f EDGE_LEFT" "g EDGE_RIGHT = f EDGE_RIGHT" "g EDGE_OPERAND = f EDGE_OPERAND"
    unfolding f g by (rule keep, simp add: statement_role_def)+
  have "g r \<le> f r" for r unfolding f g by (rule less)
  then obtain st th el bo where d: "f EDGE_STATEMENT = g EDGE_STATEMENT + st" "f EDGE_THEN = g EDGE_THEN + th" "f EDGE_ELSE = g EDGE_ELSE + el"
    "f EDGE_BODY = g EDGE_BODY + bo" using le_Suc_ex by metis
  have n: "length ks = length js + (st + th + el + bo)" unfolding len same d by simp
  have "f EDGE_ARGUMENT \<le> length js" "f EDGE_ELEMENT \<le> length js" "f EDGE_VALUE \<le> length js" "f EDGE_OBJECT + f EDGE_INDEX \<le> length js"
    "f EDGE_TARGET + f EDGE_VALUE \<le> length js" "f EDGE_LEFT + f EDGE_RIGHT \<le> length js" "f EDGE_OPERAND \<le> length js" "f EDGE_OBJECT \<le> length js" "g EDGE_BODY + g EDGE_STATEMENT \<le> length js"
    unfolding len same by simp_all
  moreover have fields: "opcode (l\<lparr>child_count := k\<rparr>) = opcode l" "child_count (l\<lparr>child_count := k\<rparr>) = k" for k by simp_all
  ultimately show ?thesis using ok unfolding shape_ok_def validate_node_shape_def Let_def rc fields unfolding n same d
    by (cases "opcode l") simp_all
qed

lemma prune_roles:
  "(\<not> statement_role r \<longrightarrow> roles_of r (kid_roles (snd (prune_kids ended ts))) = roles_of r (kid_roles ts))
   \<and> roles_of r (kid_roles (snd (prune_kids ended ts))) \<le> roles_of r (kid_roles ts)"
  by (induction ended ts rule: prune_kids.induct) (auto simp: Let_def split: prod.splits)

lemma shape_ok_prune: "shape_ok l (map tree_label ts) \<Longrightarrow> shape_ok l (map tree_label (snd (prune_kids [] ts)))"
  using prune_roles [of _ "[]" ts] by (elim shape_ok_shrink) (simp_all add: o_def)

lemma shape_ok_statements: "opcode l = IR_PROGRAM \<Longrightarrow> \<forall>k \<in> set ks. role k = EDGE_STATEMENT \<Longrightarrow> shape_ok l ks"
proof -
  assume op: "opcode l = IR_PROGRAM" and "\<forall>k \<in> set ks. role k = EDGE_STATEMENT"
  then have "map role ks = replicate (length ks) EDGE_STATEMENT" by (intro replicate_eqI) auto
  then show ?thesis unfolding shape_ok_def validate_node_shape_def Let_def shape_counts by (simp add: op)
qed

lemma subseq_replicate: "subseq xs (replicate n a) \<Longrightarrow> \<exists>k. xs = replicate k a"
  using subseq_set by (metis empty_iff insert_iff replicate_eqI set_replicate_conv_if subsetD)

lemma subseq_map_roles: "subseq us ts \<Longrightarrow> subseq (kid_roles us) (kid_roles ts)"
  by (rule subseq_map)

lemma prune_if_roles:
  assumes "if_roles (kid_roles ts)"
  shows "if_roles (kid_roles (snd (prune_kids [] ts)))"
proof -
  obtain m n where "kid_roles ts = EDGE_CONDITION # replicate m EDGE_THEN @ replicate n EDGE_ELSE" using assms by (auto simp: if_roles_def)
  then obtain c us where ts: "ts = c # us" "role (tree_label c) = EDGE_CONDITION" "kid_roles us = replicate m EDGE_THEN @ replicate n EDGE_ELSE" by auto
  have "subseq (kid_roles (snd (prune_kids [] us))) (replicate m EDGE_THEN @ replicate n EDGE_ELSE)"
    using subseq_map_roles [OF prune_kids_subseq, of "[]" us] unfolding ts(3) .
  then obtain xs ys where "kid_roles (snd (prune_kids [] us)) = xs @ ys" "subseq xs (replicate m EDGE_THEN)" "subseq ys (replicate n EDGE_ELSE)"
    by (rule subseq_appendE)
  then obtain j k where "kid_roles (snd (prune_kids [] us)) = replicate j EDGE_THEN @ replicate k EDGE_ELSE"
    using subseq_replicate by metis
  then show ?thesis unfolding if_roles_def using ts(2) by (intro exI [of _ j] exI [of _ k]) (auto simp: ts(1) statement_role_def split: prod.splits)
qed

lemma simplify_label_ok: "label_ok l \<Longrightarrow> opcode l = IR_IF \<or> opcode l = IR_WHILE \<Longrightarrow> label_ok (l\<lparr>opcode := IR_PROGRAM\<rparr>)"
proof -
  assume a: "label_ok l" "opcode l = IR_IF \<or> opcode l = IR_WHILE"
  then have "names l = []" "type_name l = None" unfolding label_ok_def node_fields_ok_def by (elim disjE; simp)+
  then show ?thesis by (simp add: label_ok_def node_fields_ok_def text_opcode_def)
qed

lemma as_statement_ok: "tree_ok (as_statement t) = tree_ok t" "branches_ok (as_statement t) = branches_ok t" "role (tree_label (as_statement t)) = EDGE_STATEMENT"
proof -
  obtain i l ts where t: "t = HTree i l ts" by (cases t)
  have "shape_ok (l\<lparr>role := EDGE_STATEMENT\<rparr>) ks = shape_ok l ks" for ks unfolding shape_ok_def by (rule validate_node_shape_cong) simp_all
  then show "tree_ok (as_statement t) = tree_ok t" by (simp add: t as_statement_def label_ok_def node_fields_ok_def)
qed (cases t, simp add: as_statement_def)+

lemma simplify_kids_ok:
  assumes "tree_ok (HTree i l ts)" "simplify_kids l ts = (m, l', us)"
  shows "tree_ok (HTree i l' us)"
proof (cases "simplify_kids l ts = (0, l, ts)")
  case True
  then show ?thesis using assms by simp
next
  case False
  then have l': "l' = l\<lparr>opcode := IR_PROGRAM\<rparr>" "opcode l = IR_IF \<or> opcode l = IR_WHILE" and us: "us = [] \<or> (\<exists>b. us = map as_statement (branch_kids b ts))"
    using assms(2) by (auto simp: simplify_kids_def split: if_splits option.splits)
  have "list_all tree_ok us" using us assms(1) by (auto simp: list_all_iff as_statement_ok branch_kids_def)
  moreover have "\<forall>k \<in> set (map tree_label us). role k = EDGE_STATEMENT" using us as_statement_ok(3) by auto
  ultimately show ?thesis using shape_ok_statements [of l' "map tree_label us"] simplify_label_ok [OF _ l'(2)] assms(1) l'(1) by simp
qed

lemma simplify_kids_branches:
  assumes "branches_ok (HTree i l ts)" "simplify_kids l ts = (m, l', us)"
  shows "branches_ok (HTree i l' us)"
  using assms by (auto simp: simplify_kids_def list_all_iff as_statement_ok branch_kids_def split: if_splits option.splits)

lemma list_all_prune: "list_all P ts \<Longrightarrow> list_all P (snd (prune_kids [] ts))"
  using subseq_set [OF prune_kids_subseq, of "[]" ts] by (auto simp: list_all_iff)

lemma simplify_roles: "kid_roles (map simplify_of ts) = kid_roles ts"
  by (simp add: simplify_role)

lemma simplify_ok: "tree_ok t \<Longrightarrow> tree_ok (simplify_of t)"
proof (induction t)
  case (HTree i l ts)
  obtain m l' us where s: "simplify_kids l (map simplify_of ts) = (m, l', us)" by (cases "simplify_kids l (map simplify_of ts)")
  have "tree_ok (HTree i l (map simplify_of ts))"
    using HTree shape_ok_kids [OF simplify_roles, of l ts] by (auto simp: list_all_iff)
  from simplify_kids_ok [OF this s] show ?case
    using shape_ok_prune [of l' us] list_all_prune [of tree_ok us] by (simp add: Let_def o_def s split: prod.splits) (metis snd_conv)
qed

lemma simplify_branches: "branches_ok t \<Longrightarrow> branches_ok (simplify_of t)"
proof (induction t)
  case (HTree i l ts)
  obtain m l' us where s: "simplify_kids l (map simplify_of ts) = (m, l', us)" by (cases "simplify_kids l (map simplify_of ts)")
  have "branches_ok (HTree i l (map simplify_of ts))"
    using HTree simplify_roles [of ts] by (auto simp: list_all_iff simp del: map_map)
  from simplify_kids_branches [OF this s] show ?case
    using prune_if_roles [of us] list_all_prune [of branches_ok us] by (simp add: Let_def o_def s split: prod.splits) (metis snd_conv)
qed

section \<open>The rounds\<close>

definition good_tree :: "'f htree \<Rightarrow> bool" where
  "good_tree t \<longleftrightarrow> tree_ok t \<and> branches_ok t"

abbreviation program_root :: "'f htree \<Rightarrow> bool" where
  "program_root t \<equiv> opcode (tree_label t) = IR_PROGRAM \<and> role (tree_label t) = EDGE_ROOT"

fun propagate_program :: "'f htree \<Rightarrow> nat \<times> 'f htree" where
  "propagate_program (HTree i l ts) = (let (_, n, us) = thread (statement_kid propagate_tree) [] ts in (n, HTree i l us))"

definition round_tree :: "'f doubles \<Rightarrow> 'f htree \<Rightarrow> nat \<times> 'f htree" where
  "round_tree d t =
     (let (n1, t) = fold_tree d t; (n2, t) = propagate_program t; (n3, t) = fold_tree d t; (n4, t) = simplify_tree t in
      (n1 + n2 + n3 + n4, t))"

fun rounds_tree :: "'f doubles \<Rightarrow> nat \<Rightarrow> nat \<times> 'f htree \<Rightarrow> nat \<times> 'f htree" where
  "rounds_tree d 0 (n, t) = (n, t)"
| "rounds_tree d (Suc k) (n, t) = (let (m, u) = round_tree d t in if m = 0 then (n, u) else rounds_tree d k (n + m, u))"

lemma propagate_program_specialised: "specialised t (snd (propagate_program t))"
proof -
  obtain i l ts where t: "t = HTree i l ts" by (cases t)
  obtain e n us where th: "thread (statement_kid propagate_tree) [] ts = (e, n, us)" by (cases "thread (statement_kid propagate_tree) [] ts")
  have "list_all2 specialised ts us"
    by (rule thread_specialised [OF _ th]) (rule statement_kid_specialised, rule conjunct1 [OF propagate_specialised [OF lessI]])
  then show ?thesis by (simp add: t th specialised_kids)
qed

lemma root_labels:
  "program_root t \<Longrightarrow> program_root (fold_of d t)" "program_root t \<Longrightarrow> program_root (simplify_of t)" "program_root t \<Longrightarrow> program_root (snd (propagate_program t))"
proof -
  obtain i l ts where t: "t = HTree i l ts" by (cases t)
  show "program_root t \<Longrightarrow> program_root (fold_of d t)" using folded_opcode [of d l] by (auto simp: t Let_def split: option.splits)
  show "program_root t \<Longrightarrow> program_root (simplify_of t)" by (auto simp: t Let_def simplify_kids_def split: prod.splits)
  show "program_root t \<Longrightarrow> program_root (snd (propagate_program t))" by (auto simp: t split: prod.splits)
qed

lemma good_passes:
  "good_tree t \<Longrightarrow> good_tree (fold_of d t)" "good_tree t \<Longrightarrow> good_tree (simplify_of t)" "good_tree t \<Longrightarrow> good_tree (snd (propagate_program t))"
  unfolding good_tree_def
  by (simp_all add: fold_ok fold_branches simplify_ok simplify_branches specialised_ok [OF propagate_program_specialised]
      specialised_branches [OF propagate_program_specialised])

lemma good_round: "good_tree t \<Longrightarrow> good_tree (snd (round_tree d t))" "program_root t \<Longrightarrow> program_root (snd (round_tree d t))"
  by (simp_all add: round_tree_def Let_def case_prod_unfold good_passes root_labels)

lemma planted_nodes: "planted ir [t] \<Longrightarrow> tree_nodes t \<le> node_count ir"
  by (rule distinct_bound) (auto simp: planted_def dest: tree_at_range)

lemma counts_passD:
  "counts_pass go f t \<Longrightarrow> planted ir [t] \<Longrightarrow> \<exists>ir'. go (ir, n) (tree_index t) = Some (ir', n + fst (f t)) \<and> replants ir [t] ir' [snd (f t)]"
  by (simp add: counts_pass_def)

lemma propagate_program_tree:
  assumes p: "planted ir [t]" and ok: "tree_ok t" and k: "tree_nodes t \<le> k"
  shows "\<exists>s. hir_propagate_sequence (hir_propagate_statement k) \<lparr>prop_ir = ir, prop_env = [], prop_changed = n\<rparr> (tree_index t) EDGE_STATEMENT = Some s
    \<and> prop_changed s = n + fst (propagate_program t) \<and> replants ir [t] (prop_ir s) [snd (propagate_program t)]"
proof -
  obtain i l ts where t: "t = HTree i l ts" by (cases t)
  let ?s = "\<lparr>prop_ir = ir, prop_env = [], prop_changed = n\<rparr>"
  obtain e m us where th: "thread (statement_kid propagate_tree) [] ts = (e, m, us)" by (cases "thread (statement_kid propagate_tree) [] ts")
  have "\<forall>u \<in> set ts. env_pass (hir_propagate_statement k) propagate_tree u"
  proof
    fix u assume u: "u \<in> set ts"
    have "tree_nodes u \<le> k" "tree_ok u" using k ok u kid_size [OF u, of i l] by (auto simp: t list_all_iff)
    then show "env_pass (hir_propagate_statement k) propagate_tree u" by (rule hir_propagate_tree)
  qed
  from hir_propagate_sequence_tree [of ?s i l ts, OF _ this, of e m us] show ?thesis using p th by (auto simp: t propagates_def)
qed

lemma optimize_round_tree:
  assumes p: "planted ir [t]" and r: "root ir = tree_index t" and g: "good_tree t"
  shows "\<exists>ir'. optimize_round d ir = Some (ir', fst (round_tree d t)) \<and> replants ir [t] ir' [snd (round_tree d t)]"
proof -
  let ?k = "node_count ir"
  define t1 t2 t3 where "t1 = fold_of d t" and "t2 = snd (propagate_program t1)" and "t3 = fold_of d t2"
  have gs: "good_tree t1" "good_tree t2" "good_tree t3" using g by (simp_all add: t1_def t2_def t3_def good_passes)
  have n: "tree_nodes u \<le> ?k" if "replants ir [t] ir' [u]" for ir' u
    using planted_nodes [OF replants_planted [OF that]] replants_counts [OF that] by simp
  have ix: "tree_index u = tree_index t" if "replants ir [t] ir' [u]" for ir' u using replants_indices [OF that] by simp
  obtain ir1 where 1: "hir_fold_node d ?k (ir, 0) (tree_index t) = Some (ir1, fold_count d t)" "replants ir [t] ir1 [t1]"
    using counts_passD [OF hir_fold_node_tree [OF planted_nodes [OF p]] p, of d 0] by (auto simp: t1_def)
  obtain s where 2: "hir_propagate_sequence (hir_propagate_statement ?k) \<lparr>prop_ir = ir1, prop_env = [], prop_changed = fold_count d t\<rparr> (tree_index t) EDGE_STATEMENT = Some s"
      "prop_changed s = fold_count d t + fst (propagate_program t1)" "replants ir1 [t1] (prop_ir s) [t2]"
    using propagate_program_tree [OF replants_planted [OF 1(2)] _ n [OF 1(2)], of "fold_count d t"] gs(1) ix [OF 1(2)] by (auto simp: t2_def good_tree_def)
  note r2 = replants_trans [OF 1(2) 2(3)]
  obtain ir3 where 3: "hir_fold_node d ?k (prop_ir s, prop_changed s) (tree_index t) = Some (ir3, prop_changed s + fold_count d t2)" "replants (prop_ir s) [t2] ir3 [t3]"
    using counts_passD [OF hir_fold_node_tree [OF n [OF r2]] replants_planted [OF r2], of d "prop_changed s"] ix [OF r2] by (auto simp: t3_def)
  note r3 = replants_trans [OF r2 3(2)]
  obtain ir4 where 4: "hir_simplify_control_flow ?k (ir3, prop_changed s + fold_count d t2) (tree_index t)
      = Some (ir4, prop_changed s + fold_count d t2 + simplify_count t3)" "replants ir3 [t3] ir4 [simplify_of t3]"
    using counts_passD [OF hir_simplify_tree [OF n [OF r3]] replants_planted [OF r3], of "prop_changed s + fold_count d t2"] gs(3) ix [OF r3]
    by (auto simp: good_tree_def)
  have rt: "round_tree d t = (prop_changed s + fold_count d t2 + simplify_count t3, simplify_of t3)"
    by (simp add: round_tree_def Let_def case_prod_unfold 2(2) t1_def t2_def t3_def)
  have roots: "root ir1 = tree_index t" using replants_counts [OF 1(2)] r by simp
  show ?thesis using 1(1) 2(1) 3(1) 4(1) replants_trans [OF r3 4(2)] roots r replants_counts [OF 3(2)] replants_counts [OF r2]
    by (auto simp: optimize_round_def Let_def rt)
qed

lemma optimize_rounds_tree:
  assumes "planted ir [t]" "root ir = tree_index t" "good_tree t"
  shows "\<exists>ir'. optimize_rounds d k (ir, n) = Some (ir', fst (rounds_tree d k (n, t))) \<and> replants ir [t] ir' [snd (rounds_tree d k (n, t))]"
  using assms
proof (induction k arbitrary: ir n t)
  case 0
  then show ?case by (simp add: replants_refl)
next
  case (Suc k)
  obtain m u where u: "round_tree d t = (m, u)" by (cases "round_tree d t")
  obtain ir1 where 1: "optimize_round d ir = Some (ir1, m)" "replants ir [t] ir1 [u]" using optimize_round_tree [OF Suc.prems, of d] u by auto
  have "root ir1 = tree_index u" using replants_counts [OF 1(2)] replants_indices [OF 1(2)] Suc.prems(2) by simp
  then obtain ir2 where 2: "optimize_rounds d k (ir1, n + m) = Some (ir2, fst (rounds_tree d k (n + m, u)))" "replants ir1 [u] ir2 [snd (rounds_tree d k (n + m, u))]"
    using Suc.IH [OF replants_planted [OF 1(2)]] good_round(1) [OF Suc.prems(3), of d] u by auto
  show ?case using 1 2 replants_trans [OF 1(2) 2(2)] by (simp add: u)
qed

lemma good_rounds: "good_tree t \<Longrightarrow> good_tree (snd (rounds_tree d k (n, t)))" "program_root t \<Longrightarrow> program_root (snd (rounds_tree d k (n, t)))"
  using good_round [where d = d] by (induction k arbitrary: n t) (simp_all add: case_prod_unfold Let_def)

section \<open>The optimizer\<close>

definition optimized_tree :: "'f doubles \<Rightarrow> 'f htree \<Rightarrow> nat \<times> 'f htree" where
  "optimized_tree d t = rounds_tree d 8 (0, t)"

lemma vnt_ir_optimize_tree:
  assumes h: "holds_tree ir t" and g: "good_tree t" and r: "program_root t"
  shows "\<exists>ir' u. vnt_ir_optimize d ir = Some (True, ir') \<and> vnt_ir_validate ir' \<and> holds_tree ir' u \<and> erase u = erase (snd (optimized_tree d t))
    \<and> optimized_nodes ir' = optimized_nodes ir + fst (optimized_tree d t)"
proof -
  obtain n v where v: "optimized_tree d t = (n, v)" by (cases "optimized_tree d t")
  have at: "tree_at ir t" "indices t = [0..<node_count ir]" "root ir = 0" using h by (auto simp: holds_tree_def)
  have p: "planted ir [t]" using at by (simp add: planted_def)
  have i0: "tree_index t = 0" using at(2) tree_index_indices [of t] by (cases t; cases "node_count ir") (auto simp: upt_conv_Cons simp del: upt_Suc)
  have valid: "vnt_ir_validate ir" using holds_tree_valid [OF h] g r by (simp add: good_tree_def)
  obtain ir1 where 1: "optimize_rounds d 8 (ir, 0) = Some (ir1, n)" "replants ir [t] ir1 [v]"
    using optimize_rounds_tree [OF p _ g, of d 8 0] at(3) i0 v by (auto simp: optimized_tree_def)
  have gv: "good_tree v" "program_root v" using good_rounds [of t d 8 0] g r v by (simp_all add: optimized_tree_def)
  have iv: "tree_index v = root ir1" using replants_indices [OF 1(2)] replants_counts [OF 1(2)] i0 at(3) by simp
  let ?out = "\<lparr>nodes = [], root = 0, optimized_nodes = optimized_nodes ir + n\<rparr>"
  note p1 = replants_planted [OF 1(2)]
  obtain i out where 2: "hir_copy_node (node_count ir1) ir1 ?out (root ir1) = Some (i, out)" "copied ?out v i out"
    using hir_copy_node_tree [OF p1 _ planted_nodes [OF p1], of ?out] gv(1) iv by (auto simp: good_tree_def)
  then obtain u where u: "i = 0" "optimized_nodes out = optimized_nodes ir + n" "next_sibling (hir_node_at out 0) = None"
      "tree_at out u" "indices u = [0..<node_count out]" "erase u = erase v"
    by (auto simp: copied_def grows_def)
  let ?c = "out\<lparr>root := 0\<rparr>"
  have hu: "holds_tree ?c u"
    unfolding holds_tree_def using u(3,5) tree_at_frame [OF u(4), of ?c] tree_at_range [OF u(4)] by simp
  have lab: "tree_label u = tree_label v" using u(6) by (cases u; cases v) simp
  have "tree_ok u" using gv(1) tree_ok_erase u(6) unfolding good_tree_def by metis
  then have vc: "vnt_ir_validate ?c" using holds_tree_valid [OF hu] gv(2) lab by simp
  have "nodes ir \<noteq> []" using at(1) by (cases t) auto
  then have "vnt_ir_optimize d ir = Some (True, ?c)" using valid vc 1(1) 2(1) u(1) by (simp add: vnt_ir_optimize_def Let_def)
  then show ?thesis using hu vc u(2,6) v by auto
qed

end
