(* ===== verification/HirOptimizeProps.thy ===== *)
theory HirOptimizeProps
  imports HirOptimizeCorrect TypeCheckLower
begin

text \<open>The optimizer after lowering: it succeeds on every program that the front end accepts; and one program that it changes.\<close>

lemma branches_ok_erase: "branches_ok (erase t) = branches_ok t"
proof (induction t)
  case (HTree i l ts)
  have "tree_label (erase t) = tree_label t" for t :: "'a htree" by (cases t) simp
  then have "kid_roles (map erase ts) = kid_roles ts" by simp
  moreover have "list_all branches_ok (map erase ts) = list_all branches_ok ts" using HTree by (simp add: list_all_iff)
  ultimately show ?case by (simp only: erase.simps branches_ok.simps)
qed

lemma ast_if_roles: "opcode_for a = IR_IF \<Longrightarrow> if_roles (map fst (ast_edges a))"
proof (cases a)
  case (IfStatement c th el)
  then have "map fst (ast_edges a) = EDGE_CONDITION # replicate (length th) EDGE_THEN @ replicate (length el) EDGE_ELSE"
    by (simp add: comp_def map_replicate_const)
  then show ?thesis unfolding if_roles_def by (intro exI [of _ "length th"] exI [of _ "length el"])
qed (auto split: if_splits)

lemma ast_tree_role: "role (tree_label (ast_tree strtod q c)) = q"
  by (subst ast_tree.simps) simp

lemma ast_tree_branches: "counts_ok a \<Longrightarrow> branches_ok (ast_tree strtod r a)"
proof (induction a arbitrary: r rule: ast_depth.induct)
  case (1 a)
  from counts_okD(1) [OF 1(2)] obtain n where n: "node_payload strtod a = Some n" by blast
  then have "opcode n = opcode_for a" by (auto simp: node_payload_def bind_eq_Some_conv)
  moreover have "kid_roles (map (\<lambda>(r, c). ast_tree strtod r c) (ast_edges a)) = map fst (ast_edges a)"
    by (auto simp: ast_tree_role case_prod_unfold)
  ultimately show ?case using ast_if_roles [of a] 1 counts_okD(2) [OF 1(2)] n
    by (subst ast_tree.simps) (auto simp: list_all_iff simp del: map_map)
qed

lemma lowered_good:
  assumes "erase t = ast_tree strtod EDGE_ROOT (Program ss)" "counts_ok (Program ss)"
  shows "good_tree t" "program_root t"
proof -
  show "good_tree t"
    using assms ast_tree_ok [OF assms(2), of strtod EDGE_ROOT] ast_tree_branches [OF assms(2), of strtod EDGE_ROOT] tree_ok_erase [of t] branches_ok_erase [of t]
    by (simp add: good_tree_def)
  have "tree_label t = tree_label (erase t)" by (cases t) simp
  moreover obtain n where "node_payload strtod (Program ss) = Some n" using counts_okD(1) [OF assms(2)] by blast
  ultimately show "program_root t" by (simp add: assms(1) ast_tree.simps [of strtod EDGE_ROOT "Program ss"] node_payload_def)
qed

text \<open>
  C27. The optimizer on what the front end accepts: after parsing, type checking and lowering, \<open>vnt_ir_optimize\<close> reads no node outside
  the array, returns 1, and leaves an array that passes \<open>vnt_ir_validate\<close>; it holds the tree that the passes, as functions on trees, make
  of the lowered one, in depth-first order and with nothing else.
\<close>

theorem accepted_source_optimizes:
  assumes "parse_source src = Some (Some program, p)" "vnt_typecheck program = (True, checked, ms)"
  shows "\<exists>ir t ir' u. vnt_ir_lower strtod checked = Some (Some ir) \<and> holds_tree ir t \<and> vnt_ir_optimize d ir = Some (True, ir')
    \<and> vnt_ir_validate ir' \<and> holds_tree ir' u \<and> erase u = erase (snd (optimized_tree d t))
    \<and> optimized_nodes ir' = optimized_nodes ir + fst (optimized_tree d t)"
proof -
  from accepted_lowered [OF assms, of strtod] obtain ir t ss where
    l: "vnt_ir_lower strtod checked = Some (Some ir)" "holds_tree ir t" "erase t = ast_tree strtod EDGE_ROOT (Program ss)" "counts_ok (Program ss)" by blast
  from vnt_ir_optimize_tree [OF l(2) lowered_good [OF l(3,4)], of d] l(1,2) show ?thesis by blast
qed

text \<open>Whole numbers in the place of \<open>double\<close>, for examples.\<close>

definition whole_doubles :: "int doubles" where
  "whole_doubles = \<lparr>d_add = (+), d_sub = (-), d_mul = (*), d_div = (sdiv), d_neg = uminus, d_zero = 0,
     d_finite = \<lambda>_. True, d_eq = (=), d_less = (<), d_le = (\<le>)\<rparr>"

theorem accepted_source_optimizes_witness:
  "\<exists>program p checked ir ir'. parse_source accepted_source = Some (Some program, p) \<and> vnt_typecheck program = (True, checked, [])
    \<and> vnt_ir_lower (\<lambda>_. 0) checked = Some (Some ir) \<and> vnt_ir_optimize whole_doubles ir = Some (True, ir') \<and> vnt_ir_validate ir'"
proof -
  obtain program p checked where p: "parse_source accepted_source = Some (Some program, p)" "vnt_typecheck program = (True, checked, [])"
    using accepted_source_front by blast
  from accepted_source_optimizes [OF p, of "\<lambda>_. 0" whole_doubles] p show ?thesis by blast
qed

end
