(* ===== verification/Compile.thy ===== *)
theory Compile
  imports HirOptimizeProps CfgFlowProps
begin

text \<open>
  \<open>compiler/compiler.c\<close>: the passes in their order. The code generators are parameters: they get the program and the
  content of the assembly file (\<open>None\<close> when there is none), and give their result and the content they leave. The result is that of
  \<open>compile_mode\<close> with the lines printed and the file. The diagnostic of the definite-assignment check goes through a buffer of
  256 bytes, which keeps the first 255.
\<close>

type_synonym 'f emitter = "'f hir_program \<Rightarrow> string option \<Rightarrow> bool \<times> string option"

definition compile_mode :: "(string \<Rightarrow> 'f) \<Rightarrow> 'f doubles \<Rightarrow> 'f emitter \<Rightarrow> 'f emitter \<Rightarrow> ast \<Rightarrow> bool \<Rightarrow> string option
    \<Rightarrow> (bool \<times> string list \<times> string option) option" where
  "compile_mode strtod d vnt_emit_x86_64 vnt_emit_freestanding_x86_64 program freestanding file =
     (case vnt_typecheck program of (checks, program, messages) \<Rightarrow>
      if \<not> checks then Some (False, messages @ [''Native compiler: type checking failed.''], file)
      else do {
        lowered \<leftarrow> vnt_ir_lower strtod program;
        (case lowered of
           None \<Rightarrow> Some (False, messages @ [''Native compiler: IR lowering failed.''], file)
         | Some ir \<Rightarrow> do {
             (optimized, ir) \<leftarrow> vnt_ir_optimize d ir;
             if \<not> optimized \<or> \<not> vnt_ir_validate ir then Some (False, messages @ [''Native compiler: IR optimization/validation failed.''], file)
             else do {
               built \<leftarrow> vnt_cfg_build ir;
               (case built of
                  None \<Rightarrow> Some (False, messages @ [''Native compiler: control-flow graph construction failed.''], file)
                | Some cfg \<Rightarrow>
                    if \<not> vnt_cfg_validate cfg then Some (False, messages @ [''Native compiler: control-flow graph construction failed.''], file)
                    else do {
                      assigned \<leftarrow> vnt_cfg_check_definite_assignment ir cfg;
                      Some (case assigned of
                          Inl diagnostic \<Rightarrow> (False, messages @ [''Native compiler: '' @ take 255 diagnostic @ ''.''], file)
                        | Inr _ \<Rightarrow>
                            (case (if freestanding then vnt_emit_freestanding_x86_64 else vnt_emit_x86_64) ir file of
                               (True, file) \<Rightarrow> (True, messages, file)
                             | (False, file) \<Rightarrow> (False, messages @ [(if freestanding then ''Freestanding'' else ''Native'')
                                 @ '' compiler: x86-64 code generation failed.''], None)))
                    })
             }
           })
      })"

definition compiler_compile :: "(string \<Rightarrow> 'f) \<Rightarrow> 'f doubles \<Rightarrow> 'f emitter \<Rightarrow> 'f emitter \<Rightarrow> ast \<Rightarrow> string option
    \<Rightarrow> (bool \<times> string list \<times> string option) option" where
  "compiler_compile strtod d hosted bare program file = compile_mode strtod d hosted bare program False file"

definition compiler_compile_freestanding :: "(string \<Rightarrow> 'f) \<Rightarrow> 'f doubles \<Rightarrow> 'f emitter \<Rightarrow> 'f emitter \<Rightarrow> ast \<Rightarrow> string option
    \<Rightarrow> (bool \<times> string list \<times> string option) option" where
  "compiler_compile_freestanding strtod d hosted bare program file = compile_mode strtod d hosted bare program True file"

text \<open>
  C26. The compiler gives a verdict on every program that is parsed, whatever its code generators do. Type errors are rejected. A program
  that the type checker accepts is lowered and optimised without fail. The result of the optimizer reaches the code generator of the mode unless
  one of its bodies has a break outside every loop or no body of it can end (no graph), or a variable of it may be read before it is written;
  what the code generator then says is the result, and a failure leaves no file.
\<close>

theorem compile_mode_verdict:
  assumes "parse_source src = Some (Some program, p)"
  shows "\<exists>ok ms out. compile_mode strtod d hosted bare program freestanding file = Some (ok, ms, out)
    \<and> (if \<not> fst (vnt_typecheck program) then \<not> ok \<and> out = file
       else \<exists>checked reported lowered ir. vnt_typecheck program = (True, checked, reported) \<and> vnt_ir_lower strtod checked = Some (Some lowered)
         \<and> vnt_ir_optimize d lowered = Some (True, ir) \<and> vnt_ir_validate ir
         \<and> (if (\<exists>is \<in> set (bodies ir). stray_body ir is) \<or> \<not> (\<exists>is \<in> set (bodies ir). \<exists>tr. body_trace ir is tr) then \<not> ok \<and> out = file
            else \<exists>g. vnt_cfg_build ir = Some (Some g)
              \<and> (if reads_assigned ir g
                 then ok = fst ((if freestanding then bare else hosted) ir file)
                   \<and> out = (if ok then snd ((if freestanding then bare else hosted) ir file) else None)
                 else \<not> ok \<and> out = file)))"
proof -
  obtain checks checked ms where t: "vnt_typecheck program = (checks, checked, ms)" by (cases "vnt_typecheck program")
  show ?thesis
  proof (cases checks)
    case False
    then show ?thesis by (auto simp: compile_mode_def t)
  next
    case True
    from accepted_lowered [OF assms t [unfolded True [THEN eqTrueI]], of strtod] obtain ir0 t0 ss where
      l: "vnt_ir_lower strtod checked = Some (Some ir0)" "holds_tree ir0 t0" "erase t0 = ast_tree strtod EDGE_ROOT (Program ss)" "counts_ok (Program ss)" by blast
    obtain ir where o: "vnt_ir_optimize d ir0 = Some (True, ir)" "vnt_ir_validate ir" using vnt_ir_optimize_tree [OF l(2) lowered_good [OF l(3,4)], of d] by blast
    obtain r where r: "vnt_cfg_build ir = Some r"
      "(r \<noteq> None) = (\<not> (\<exists>is \<in> set (bodies ir). stray_body ir is) \<and> (\<exists>is \<in> set (bodies ir). \<exists>tr. body_trace ir is tr))"
      using cfg_build_total [OF o(2)] by blast
    have fin: ?thesis if "compile_mode strtod d hosted bare program freestanding file = Some (ok, ms', out)"
        and "if (\<exists>is \<in> set (bodies ir). stray_body ir is) \<or> \<not> (\<exists>is \<in> set (bodies ir). \<exists>tr. body_trace ir is tr) then \<not> ok \<and> out = file
            else \<exists>g. vnt_cfg_build ir = Some (Some g)
              \<and> (if reads_assigned ir g
                 then ok = fst ((if freestanding then bare else hosted) ir file)
                   \<and> out = (if ok then snd ((if freestanding then bare else hosted) ir file) else None)
                 else \<not> ok \<and> out = file)" for ok ms' out
      using that o l(1) t True by (simp only: fst_conv not_True_eq_False if_False) blast
    show ?thesis
    proof (cases r)
      case None
      then have n: "(\<exists>is \<in> set (bodies ir). stray_body ir is) \<or> \<not> (\<exists>is \<in> set (bodies ir). \<exists>tr. body_trace ir is tr)" using r(2) by blast
      have "compile_mode strtod d hosted bare program freestanding file
          = Some (False, ms @ [''Native compiler: control-flow graph construction failed.''], file)"
        using None r(1) by (simp add: compile_mode_def t True l(1) o)
      then show ?thesis by (rule fin) (subst if_P [OF n], simp)
    next
      case (Some g)
      then have n: "\<not> ((\<exists>is \<in> set (bodies ir). stray_body ir is) \<or> \<not> (\<exists>is \<in> set (bodies ir). \<exists>tr. body_trace ir is tr))" using r(2) by blast
      have g: "vnt_cfg_build ir = Some (Some g)" using r(1) Some by simp
      obtain a where a: "vnt_cfg_check_definite_assignment ir g = Some a" "a = Inr () \<longleftrightarrow> reads_assigned ir g" by (rule check_exact [OF g])
      obtain ok out where e: "(if freestanding then bare else hosted) ir file = (ok, out)" by (cases "(if freestanding then bare else hosted) ir file")
      note run = compile_mode_def t True l(1) o g cfg_build_graph(2) [OF g] a(1) e
      show ?thesis
      proof (cases a)
        case (Inl x)
        then have nr: "\<not> reads_assigned ir g" using a(2) by simp
        have "compile_mode strtod d hosted bare program freestanding file = Some (False, ms @ [''Native compiler: '' @ take 255 x @ ''.''], file)"
          using Inl by (simp add: run)
        then show ?thesis by (rule fin) (subst if_not_P [OF n], intro exI [of _ g], simp add: g nr)
      next
        case (Inr u)
        then have ra: "reads_assigned ir g" using a(2) by simp
        obtain ms' where "compile_mode strtod d hosted bare program freestanding file = Some (ok, ms', if ok then out else None)"
          using Inr by (cases ok) (simp_all add: run)
        then show ?thesis by (rule fin) (subst if_not_P [OF n], intro exI [of _ g], simp add: g ra e)
      qed
    qed
  qed
qed

theorem compile_mode_verdict_witness:
  "\<exists>program p checked lowered ir ok ms out. parse_source accepted_source = Some (Some program, p) \<and> vnt_typecheck program = (True, checked, [])
    \<and> vnt_ir_lower (\<lambda>_. 0) checked = Some (Some lowered) \<and> vnt_ir_optimize whole_doubles lowered = Some (True, ir)
    \<and> compile_mode (\<lambda>_. 0) whole_doubles (\<lambda>ir file. (True, Some ''code'')) (\<lambda>ir file. (False, None)) program False None = Some (ok, ms, out)"
proof -
  obtain program p checked where p: "parse_source accepted_source = Some (Some program, p)" "vnt_typecheck program = (True, checked, [])"
    using accepted_source_front by blast
  show ?thesis
    using compile_mode_verdict [OF p(1), of "\<lambda>_. 0" whole_doubles "\<lambda>ir file. (True, Some ''code'')" "\<lambda>ir file. (False, None)" False None] p
    by (simp only: fst_conv not_True_eq_False if_False) blast
qed

end
