(* ===== verification/RuntimeValues.thy ===== *)
theory RuntimeValues
  imports HirOptimize
begin

text \<open>
  The values of a compiled program and the memory they live in, \<open>src/compiler/native_runtime.c\<close> from \<open>VntType\<close>
  to the references. A value is a cell, and a \<open>VntValue *\<close> is the number of its cell or \<open>NULL\<close>;
  cells are never freed. A cell of a slab is used once and never moves, so the slabs are one growing
  list. A \<open>VntValue **\<close> is the number of a slot: a local or global variable of the compiled program.

  A routine returns, or prints a message and leaves the process with a status, or crashes: it reads through
  \<open>NULL\<close> or exhausts the C stack. The depth the stack allows is an argument of the recursive routines.
\<close>

section \<open>Effects\<close>

datatype 'a effect = Returns 'a | Exits int string | Crashes

fun and_then :: "'a effect \<Rightarrow> ('a \<Rightarrow> 'b effect) \<Rightarrow> 'b effect" where
  "and_then (Returns x) f = f x"
| "and_then (Exits n message) f = Exits n message"
| "and_then Crashes f = Crashes"

definition runtime_error :: "string \<Rightarrow> 'a effect" where
  "runtime_error message = Exits 1 (''Runtime error: '' @ message @ [LF])"

text \<open>Some messages are written with two backslashes in the source and end in a backslash and an \<open>n\<close>.\<close>

definition runtime_error_escaped :: "string \<Rightarrow> 'a effect" where
  "runtime_error_escaped message = Exits 1 (''Runtime error: '' @ message @ [BACKSLASH, CHR ''n''])"

lemma and_then_Returns_iff: "and_then m f = Returns y \<longleftrightarrow> (\<exists>x. m = Returns x \<and> f x = Returns y)"
  by (cases m) auto

lemma runtime_error_neq [simp]: "runtime_error s \<noteq> Returns x" "runtime_error_escaped s \<noteq> Returns x"
  by (simp_all add: runtime_error_def runtime_error_escaped_def)

section \<open>Values\<close>

type_synonym pointer = "nat option"

datatype 'f vnt_value =
    VNT_NULL
  | VNT_INT (integer: int)
  | VNT_FLOAT (floating: 'f)
  | VNT_BOOL (boolean: bool)
  | VNT_STRING (chars: string)
  | VNT_ARRAY (items: "pointer list") nat
  | VNT_BYTES (data: "nat list")
  | VNT_OBJECT "(string \<times> pointer) list" nat "string option"
  | VNT_PROCESS nat
  | VNT_REFERENCE nat
  | VNT_POINTER nat

text \<open>\<open>v->type\<close>.\<close>

fun tag :: "'f vnt_value \<Rightarrow> nat" where
  "tag VNT_NULL = 0"
| "tag (VNT_INT _) = 1"
| "tag (VNT_FLOAT _) = 2"
| "tag (VNT_BOOL _) = 3"
| "tag (VNT_STRING _) = 4"
| "tag (VNT_ARRAY _ _) = 5"
| "tag (VNT_BYTES _) = 6"
| "tag (VNT_OBJECT _ _ _) = 7"
| "tag (VNT_PROCESS _) = 8"
| "tag (VNT_REFERENCE _) = 9"
| "tag (VNT_POINTER _) = 10"

text \<open>
  The items and the capacity of an array, and the fields, the capacity and the type name of an object.
  The state of the process: the cells, the variables, and what was printed.
\<close>

record 'f runtime =
  cells :: "'f vnt_value list"
  slots :: "pointer list"
  printed :: string

text \<open>What the runtime uses of \<open>double\<close> besides \<open>doubles\<close>: \<open>(double)n\<close>, \<open>%.15g\<close> and \<open>fabs\<close>.\<close>

record 'f double_lib =
  of_int64 :: "int \<Rightarrow> 'f"
  format_g :: "'f \<Rightarrow> string"
  f_abs :: "'f \<Rightarrow> 'f"

definition INT_MAX :: int where "INT_MAX = 2 ^ 31 - 1"

abbreviation SIZE_MAX :: int where "SIZE_MAX \<equiv> UINT64_MAX"

text \<open>The value a pointer leads to, \<open>None\<close> for \<open>NULL\<close>.\<close>

definition load :: "'f runtime \<Rightarrow> pointer \<Rightarrow> 'f vnt_value option" where
  "load r p = (case p of None \<Rightarrow> None | Some a \<Rightarrow> if a < length (cells r) then Some (cells r ! a) else None)"

definition store :: "'f runtime \<Rightarrow> pointer \<Rightarrow> 'f vnt_value \<Rightarrow> 'f runtime" where
  "store r p v = (case p of None \<Rightarrow> r | Some a \<Rightarrow> r\<lparr>cells := (cells r)[a := v]\<rparr>)"

text \<open>A new cell and its contents.\<close>

definition alloc_value :: "'f runtime \<Rightarrow> 'f vnt_value \<Rightarrow> pointer \<times> 'f runtime" where
  "alloc_value r v = (Some (length (cells r)), r\<lparr>cells := cells r @ [v]\<rparr>)"

definition vnt_null :: "'f runtime \<Rightarrow> pointer \<times> 'f runtime" where
  "vnt_null r = alloc_value r VNT_NULL"

definition vnt_int :: "'f runtime \<Rightarrow> int \<Rightarrow> pointer \<times> 'f runtime" where
  "vnt_int r x = alloc_value r (VNT_INT x)"

definition vnt_float :: "'f runtime \<Rightarrow> 'f \<Rightarrow> pointer \<times> 'f runtime" where
  "vnt_float r x = alloc_value r (VNT_FLOAT x)"

definition vnt_bool :: "'f runtime \<Rightarrow> bool \<Rightarrow> pointer \<times> 'f runtime" where
  "vnt_bool r x = alloc_value r (VNT_BOOL x)"

definition vnt_string :: "'f runtime \<Rightarrow> string option \<Rightarrow> pointer \<times> 'f runtime" where
  "vnt_string r s = alloc_value r (VNT_STRING (case s of None \<Rightarrow> '''' | Some s \<Rightarrow> s))"

definition vnt_array_new :: "'f runtime \<Rightarrow> pointer \<times> 'f runtime" where
  "vnt_array_new r = alloc_value r (VNT_ARRAY [] 0)"

definition vnt_bytes_new :: "'f runtime \<Rightarrow> nat list option \<Rightarrow> nat \<Rightarrow> pointer \<times> 'f runtime" where
  "vnt_bytes_new r source n = alloc_value r (VNT_BYTES (case source of None \<Rightarrow> replicate n 0 | Some bs \<Rightarrow> take n bs))"

lemmas constructors = vnt_null_def vnt_int_def vnt_float_def vnt_bool_def vnt_string_def vnt_array_new_def
  vnt_bytes_new_def

section \<open>References\<close>

definition vnt_ref :: "'f runtime \<Rightarrow> nat option \<Rightarrow> (pointer \<times> 'f runtime) effect" where
  "vnt_ref r slot =
     (case slot of
        None \<Rightarrow> runtime_error ''cannot reference a null slot.''
      | Some s \<Rightarrow> Returns (alloc_value r (VNT_REFERENCE s)))"

definition vnt_deref :: "'f runtime \<Rightarrow> pointer \<Rightarrow> (pointer \<times> 'f runtime) effect" where
  "vnt_deref r ref =
     (case load r ref of
        Some (VNT_REFERENCE s) \<Rightarrow> if s < length (slots r) then Returns (slots r ! s, r) else Crashes
      | _ \<Rightarrow> runtime_error ''dereference requires a reference.'')"

definition vnt_ref_set :: "'f runtime \<Rightarrow> pointer \<Rightarrow> pointer \<Rightarrow> (pointer \<times> 'f runtime) effect" where
  "vnt_ref_set r ref value =
     (case load r ref of
        Some (VNT_REFERENCE s) \<Rightarrow>
          if s < length (slots r) then Returns (value, r\<lparr>slots := (slots r)[s := value]\<rparr>) else Crashes
      | _ \<Rightarrow> runtime_error ''assignment requires a reference.'')"

section \<open>Growth of the memory\<close>

text \<open>Only new cells, and nothing else.\<close>

definition mem_grows :: "'f runtime \<Rightarrow> 'f runtime \<Rightarrow> bool" where
  "mem_grows r r' \<longleftrightarrow> slots r' = slots r \<and> printed r' = printed r \<and> (\<exists>vs. cells r' = cells r @ vs)"

lemma mem_grows_refl [simp]: "mem_grows r r"
  by (simp add: mem_grows_def)

lemma mem_grows_trans [trans]: "mem_grows r s \<Longrightarrow> mem_grows s t \<Longrightarrow> mem_grows r t"
  by (auto simp: mem_grows_def)

lemma load_mem_grows: "mem_grows r r' \<Longrightarrow> load r p = Some v \<Longrightarrow> load r' p = Some v"
  by (auto simp: mem_grows_def load_def nth_append split: option.splits if_splits)

lemma alloc_value_new: "alloc_value r v = (p, r') \<Longrightarrow> load r' p = Some v \<and> load r p = None \<and> mem_grows r r'"
  by (auto simp: alloc_value_def load_def mem_grows_def)

lemma load_store: "load r p \<noteq> None \<Longrightarrow> load (store r p v) q = (if q = p then Some v else load r q)"
  by (auto simp: load_def store_def split: option.splits if_splits)

lemma reference_roundtrip:
  assumes "s < length (slots r)" "vnt_ref r (Some s) = Returns (p, r')" "vnt_ref_set r' p v = Returns (q, r'')"
  shows "vnt_deref r'' p = Returns (v, r'')"
  using assms by (auto simp: vnt_ref_def vnt_ref_set_def vnt_deref_def alloc_value_def load_def)

end
