(* ===== verification/RuntimeScalar.thy ===== *)
theory RuntimeScalar
  imports RuntimeValues
begin

text \<open>
  Arithmetic, comparison, logic and printing of the runtime, \<open>require_number\<close> to \<open>vnt_print\<close> of
  \<open>src/compiler/native_runtime.c\<close>. \<open>d\<close> and \<open>m\<close> are the arithmetic and the library of \<open>double\<close>,
  \<open>stack\<close> is the number of nested calls the C stack allows.
\<close>

section \<open>Numbers\<close>

fun is_number :: "'f vnt_value \<Rightarrow> bool" where
  "is_number (VNT_INT _) = True"
| "is_number (VNT_FLOAT _) = True"
| "is_number _ = False"

fun is_float :: "'f vnt_value \<Rightarrow> bool" where
  "is_float (VNT_FLOAT _) = True"
| "is_float _ = False"

fun is_string :: "'f vnt_value \<Rightarrow> bool" where
  "is_string (VNT_STRING _) = True"
| "is_string _ = False"

text \<open>\<open>v->integer\<close> of a number that is not a \<open>double\<close>.\<close>

fun integer_of :: "'f vnt_value \<Rightarrow> int" where
  "integer_of (VNT_INT x) = x"
| "integer_of _ = 0"

fun number_value :: "'f double_lib \<Rightarrow> 'f vnt_value \<Rightarrow> 'f" where
  "number_value m (VNT_FLOAT x) = x"
| "number_value m v = of_int64 m (integer_of v)"

text \<open>The two values when both are numbers.\<close>

definition require_number :: "'f runtime \<Rightarrow> pointer \<Rightarrow> pointer \<Rightarrow> ('f vnt_value \<times> 'f vnt_value) effect" where
  "require_number r a b =
     (case (load r a, load r b) of
        (Some x, Some y) \<Rightarrow> if is_number x \<and> is_number y then Returns (x, y)
          else runtime_error ''arithmetic requires numbers.''
      | _ \<Rightarrow> runtime_error ''arithmetic requires numbers.'')"

section \<open>Arithmetic\<close>

text \<open>\<open>%lld\<close>.\<close>

definition decimal_int :: "int \<Rightarrow> string" where
  "decimal_int z = (if z < 0 then CHR ''-'' # decimal (nat (- z)) else decimal (nat z))"

fun value_to_concat_string :: "'f double_lib \<Rightarrow> 'f vnt_value option \<Rightarrow> string option" where
  "value_to_concat_string m None = Some ''null''"
| "value_to_concat_string m (Some (VNT_STRING s)) = Some s"
| "value_to_concat_string m (Some (VNT_INT x)) = Some (decimal_int x)"
| "value_to_concat_string m (Some (VNT_FLOAT x)) = Some (format_g m x)"
| "value_to_concat_string m (Some (VNT_BOOL b)) = Some (if b then ''true'' else ''false'')"
| "value_to_concat_string m (Some _) = None"

definition concat_values :: "'f double_lib \<Rightarrow> 'f runtime \<Rightarrow> 'f vnt_value \<Rightarrow> 'f vnt_value \<Rightarrow> (pointer \<times> 'f runtime) effect" where
  "concat_values m r x y =
     (case (value_to_concat_string m (Some x), value_to_concat_string m (Some y)) of
        (Some left, Some right) \<Rightarrow>
          if int (length left) > SIZE_MAX - int (length right) - 1
          then runtime_error ''string concatenation size overflow.''
          else Returns (vnt_string r (Some (left @ right)))
      | _ \<Rightarrow> runtime_error ''string concatenation supports strings, numbers, and booleans.'')"

definition add_numbers :: "'f doubles \<Rightarrow> 'f double_lib \<Rightarrow> 'f runtime \<Rightarrow> pointer \<Rightarrow> pointer \<Rightarrow> (pointer \<times> 'f runtime) effect" where
  "add_numbers d m r a b = and_then (require_number r a b) (\<lambda>(x, y).
     if is_float x \<or> is_float y then Returns (vnt_float r (d_add d (number_value m x) (number_value m y)))
     else let z = integer_of x + integer_of y in
       if int64 z then Returns (vnt_int r z)
       else runtime_error ''signed 64-bit integer overflow in addition.'')"

definition vnt_add :: "'f doubles \<Rightarrow> 'f double_lib \<Rightarrow> 'f runtime \<Rightarrow> pointer \<Rightarrow> pointer \<Rightarrow> (pointer \<times> 'f runtime) effect" where
  "vnt_add d m r a b =
     (case (load r a, load r b) of
        (Some x, Some y) \<Rightarrow> if is_string x \<or> is_string y then concat_values m r x y else add_numbers d m r a b
      | _ \<Rightarrow> add_numbers d m r a b)"

definition vnt_sub :: "'f doubles \<Rightarrow> 'f double_lib \<Rightarrow> 'f runtime \<Rightarrow> pointer \<Rightarrow> pointer \<Rightarrow> (pointer \<times> 'f runtime) effect" where
  "vnt_sub d m r a b = and_then (require_number r a b) (\<lambda>(x, y).
     if is_float x \<or> is_float y then Returns (vnt_float r (d_sub d (number_value m x) (number_value m y)))
     else let z = integer_of x - integer_of y in
       if int64 z then Returns (vnt_int r z)
       else runtime_error ''signed 64-bit integer overflow in subtraction.'')"

definition vnt_mul :: "'f doubles \<Rightarrow> 'f double_lib \<Rightarrow> 'f runtime \<Rightarrow> pointer \<Rightarrow> pointer \<Rightarrow> (pointer \<times> 'f runtime) effect" where
  "vnt_mul d m r a b = and_then (require_number r a b) (\<lambda>(x, y).
     if is_float x \<or> is_float y then Returns (vnt_float r (d_mul d (number_value m x) (number_value m y)))
     else let z = integer_of x * integer_of y in
       if int64 z then Returns (vnt_int r z)
       else runtime_error ''signed 64-bit integer overflow in multiplication.'')"

definition vnt_div :: "'f doubles \<Rightarrow> 'f double_lib \<Rightarrow> 'f runtime \<Rightarrow> pointer \<Rightarrow> pointer \<Rightarrow> (pointer \<times> 'f runtime) effect" where
  "vnt_div d m r a b = and_then (require_number r a b) (\<lambda>(x, y).
     if d_eq d (number_value m y) (d_zero d) then runtime_error ''division by zero.''
     else if is_float x \<or> is_float y then Returns (vnt_float r (d_div d (number_value m x) (number_value m y)))
     else if integer_of x = INT64_MIN \<and> integer_of y = -1 then runtime_error ''integer overflow in division.''
     else Returns (vnt_int r (integer_of x sdiv integer_of y)))"

definition vnt_mod :: "'f runtime \<Rightarrow> pointer \<Rightarrow> pointer \<Rightarrow> (pointer \<times> 'f runtime) effect" where
  "vnt_mod r a b =
     (case (load r a, load r b) of
        (Some (VNT_INT x), Some (VNT_INT y)) \<Rightarrow>
          if y = 0 then runtime_error ''modulo by zero.''
          else if x = INT64_MIN \<and> y = -1 then runtime_error ''integer overflow in modulo.''
          else Returns (vnt_int r (x smod y))
      | _ \<Rightarrow> runtime_error ''modulo requires integers.'')"

definition vnt_neg :: "'f doubles \<Rightarrow> 'f runtime \<Rightarrow> pointer \<Rightarrow> (pointer \<times> 'f runtime) effect" where
  "vnt_neg d r a = and_then (require_number r a a) (\<lambda>(x, _).
     case x of
       VNT_FLOAT f \<Rightarrow> Returns (vnt_float r (d_neg d f))
     | _ \<Rightarrow> if integer_of x = INT64_MIN then runtime_error ''integer overflow in negation.''
         else Returns (vnt_int r (- integer_of x)))"

section \<open>Comparison\<close>

text \<open>The loop over the items of two arrays of the same length.\<close>

fun all_equal :: "('a \<Rightarrow> 'b \<Rightarrow> bool effect) \<Rightarrow> 'a list \<Rightarrow> 'b list \<Rightarrow> bool effect" where
  "all_equal eq (x # xs) (y # ys) = and_then (eq x y) (\<lambda>same. if same then all_equal eq xs ys else Returns False)"
| "all_equal eq _ _ = Returns True"

text \<open>
  Tags first. References and raw pointers have no case in the \<open>switch\<close> and are never equal.
\<close>

fun equal_value :: "'f doubles \<Rightarrow> 'f double_lib \<Rightarrow> 'f runtime \<Rightarrow> nat \<Rightarrow> pointer \<Rightarrow> pointer \<Rightarrow> bool effect" where
  "equal_value d m r 0 a b = Crashes"
| "equal_value d m r (Suc stack) a b =
     (case (load r a, load r b) of
        (Some x, Some y) \<Rightarrow>
          if tag x \<noteq> tag y then Returns (is_number x \<and> is_number y \<and> d_eq d (number_value m x) (number_value m y))
          else (case x of
             VNT_NULL \<Rightarrow> Returns True
           | VNT_INT i \<Rightarrow> Returns (i = integer y)
           | VNT_FLOAT f \<Rightarrow> Returns (d_eq d f (floating y))
           | VNT_BOOL p \<Rightarrow> Returns (p = boolean y)
           | VNT_STRING s \<Rightarrow> Returns (s = chars y)
           | VNT_BYTES s \<Rightarrow> Returns (s = data y)
           | VNT_ARRAY xs _ \<Rightarrow>
               if length xs \<noteq> length (items y) then Returns False
               else all_equal (equal_value d m r stack) xs (items y)
           | VNT_OBJECT _ _ _ \<Rightarrow> Returns (a = b)
           | VNT_PROCESS _ \<Rightarrow> Returns (a = b)
           | _ \<Rightarrow> Returns False)
      | _ \<Rightarrow> Crashes)"

definition vnt_eq :: "'f doubles \<Rightarrow> 'f double_lib \<Rightarrow> nat \<Rightarrow> 'f runtime \<Rightarrow> pointer \<Rightarrow> pointer \<Rightarrow> (pointer \<times> 'f runtime) effect" where
  "vnt_eq d m stack r a b = and_then (equal_value d m r stack a b) (\<lambda>e. Returns (vnt_bool r e))"

definition vnt_ne :: "'f doubles \<Rightarrow> 'f double_lib \<Rightarrow> nat \<Rightarrow> 'f runtime \<Rightarrow> pointer \<Rightarrow> pointer \<Rightarrow> (pointer \<times> 'f runtime) effect" where
  "vnt_ne d m stack r a b = and_then (equal_value d m r stack a b) (\<lambda>e. Returns (vnt_bool r (\<not> e)))"

definition order :: "'f doubles \<Rightarrow> 'f double_lib \<Rightarrow> 'f runtime \<Rightarrow> pointer \<Rightarrow> pointer \<Rightarrow> nat \<Rightarrow> bool effect" where
  "order d m r a b op = and_then (require_number r a b) (\<lambda>(v, w).
     case (v, w) of
       (VNT_INT x, VNT_INT y) \<Rightarrow> Returns (if op = 0 then x > y else if op = 1 then x < y else if op = 2 then x \<ge> y else x \<le> y)
     | _ \<Rightarrow> let x = number_value m v; y = number_value m w in
         Returns (if op = 0 then d_less d y x else if op = 1 then d_less d x y else if op = 2 then d_le d y x else d_le d x y))"

definition vnt_gt :: "'f doubles \<Rightarrow> 'f double_lib \<Rightarrow> 'f runtime \<Rightarrow> pointer \<Rightarrow> pointer \<Rightarrow> (pointer \<times> 'f runtime) effect" where
  "vnt_gt d m r a b = and_then (order d m r a b 0) (\<lambda>x. Returns (vnt_bool r x))"

definition vnt_lt :: "'f doubles \<Rightarrow> 'f double_lib \<Rightarrow> 'f runtime \<Rightarrow> pointer \<Rightarrow> pointer \<Rightarrow> (pointer \<times> 'f runtime) effect" where
  "vnt_lt d m r a b = and_then (order d m r a b 1) (\<lambda>x. Returns (vnt_bool r x))"

definition vnt_ge :: "'f doubles \<Rightarrow> 'f double_lib \<Rightarrow> 'f runtime \<Rightarrow> pointer \<Rightarrow> pointer \<Rightarrow> (pointer \<times> 'f runtime) effect" where
  "vnt_ge d m r a b = and_then (order d m r a b 2) (\<lambda>x. Returns (vnt_bool r x))"

definition vnt_le :: "'f doubles \<Rightarrow> 'f double_lib \<Rightarrow> 'f runtime \<Rightarrow> pointer \<Rightarrow> pointer \<Rightarrow> (pointer \<times> 'f runtime) effect" where
  "vnt_le d m r a b = and_then (order d m r a b 3) (\<lambda>x. Returns (vnt_bool r x))"

section \<open>Logic\<close>

definition vnt_not :: "'f runtime \<Rightarrow> pointer \<Rightarrow> (pointer \<times> 'f runtime) effect" where
  "vnt_not r a =
     (case load r a of
        Some (VNT_BOOL x) \<Rightarrow> Returns (vnt_bool r (\<not> x))
      | _ \<Rightarrow> runtime_error (CHR 0x27 # ''!'' @ CHR 0x27 # '' requires a boolean.''))"

definition vnt_truth :: "'f runtime \<Rightarrow> pointer \<Rightarrow> bool effect" where
  "vnt_truth r a =
     (case load r a of
        Some (VNT_BOOL x) \<Rightarrow> Returns x
      | _ \<Rightarrow> runtime_error ''condition must be boolean.'')"

section \<open>Printing\<close>

text \<open>What the loops print: the texts of the items with commas between them.\<close>

fun commas :: "string list \<Rightarrow> string" where
  "commas [] = ''''"
| "commas [s] = s"
| "commas (s # ss) = s @ '', '' @ commas ss"

fun all_texts :: "('a \<Rightarrow> string effect) \<Rightarrow> 'a list \<Rightarrow> string list effect" where
  "all_texts f [] = Returns []"
| "all_texts f (x # xs) = and_then (f x) (\<lambda>s. and_then (all_texts f xs) (\<lambda>ss. Returns (s # ss)))"

text \<open>The text \<open>print_value\<close> writes.\<close>

fun print_value :: "'f double_lib \<Rightarrow> 'f runtime \<Rightarrow> nat \<Rightarrow> pointer \<Rightarrow> string effect" where
  "print_value m r 0 p = Crashes"
| "print_value m r (Suc stack) p =
     (case load r p of
        None \<Rightarrow> Returns ''null''
      | Some VNT_NULL \<Rightarrow> Returns ''null''
      | Some (VNT_INT x) \<Rightarrow> Returns (decimal_int x)
      | Some (VNT_FLOAT x) \<Rightarrow> Returns (format_g m x)
      | Some (VNT_BOOL b) \<Rightarrow> Returns (if b then ''true'' else ''false'')
      | Some (VNT_STRING s) \<Rightarrow> Returns s
      | Some (VNT_BYTES bs) \<Rightarrow> Returns (''['' @ commas (map decimal bs) @ '']'')
      | Some (VNT_ARRAY ps _) \<Rightarrow>
          and_then (all_texts (print_value m r stack) ps) (\<lambda>ss. Returns (''['' @ commas ss @ '']''))
      | Some (VNT_OBJECT fs _ name) \<Rightarrow>
          and_then (all_texts (\<lambda>(key, v). and_then (print_value m r stack v) (\<lambda>s. Returns (key @ '': '' @ s))) fs) (\<lambda>ss.
            Returns ((case name of None \<Rightarrow> '''' | Some n \<Rightarrow> n) @ ''{'' @ commas ss @ ''}''))
      | Some (VNT_PROCESS _) \<Rightarrow> Returns ''<process>''
      | Some (VNT_REFERENCE _) \<Rightarrow> Returns ''<reference>''
      | Some (VNT_POINTER _) \<Rightarrow> Returns '''')"

definition vnt_print :: "'f double_lib \<Rightarrow> nat \<Rightarrow> 'f runtime \<Rightarrow> pointer \<Rightarrow> (unit \<times> 'f runtime) effect" where
  "vnt_print m stack r p = and_then (print_value m r stack p) (\<lambda>s. Returns ((), r\<lparr>printed := printed r @ s @ [LF]\<rparr>))"

end
