(* ===== verification/RuntimeContainers.thy ===== *)
theory RuntimeContainers
  imports RuntimeScalar
begin

text \<open>
  Arrays, byte buffers, objects, \<open>len()\<close>, \<open>range()\<close> and the numeric builtins that return one of
  their arguments, of \<open>src/compiler/native_runtime.c\<close>. An index is compared with the bounds as a signed 64-bit integer.
  The lemmas at the end are the laws of arrays and objects as finite sequences and maps.
\<close>

section \<open>Arrays and byte buffers\<close>

text \<open>The capacity for one more element: \<open>count\<close> elements of \<open>width\<close> bytes are there.\<close>

definition grow_capacity :: "string \<Rightarrow> int \<Rightarrow> nat \<Rightarrow> nat \<Rightarrow> nat effect" where
  "grow_capacity what width count capacity =
     (if count = capacity then
        if int capacity > INT_MAX div 2 then runtime_error (what @ '' capacity limit exceeded.'')
        else let cap = (if capacity \<noteq> 0 then capacity * 2 else 4) in
          if int cap > SIZE_MAX div width then runtime_error (what @ '' allocation size overflow.'')
          else Returns cap
      else Returns capacity)"

definition vnt_array_push :: "'f runtime \<Rightarrow> pointer \<Rightarrow> pointer \<Rightarrow> (pointer \<times> 'f runtime) effect" where
  "vnt_array_push r a item =
     (case load r a of
        Some (VNT_ARRAY xs capacity) \<Rightarrow>
          and_then (grow_capacity ''array'' 8 (length xs) capacity) (\<lambda>cap.
            Returns (a, store r a (VNT_ARRAY (xs @ [item]) cap)))
      | _ \<Rightarrow> runtime_error ''expected an array.'')"

definition vnt_array_get_int :: "'f runtime \<Rightarrow> pointer \<Rightarrow> int \<Rightarrow> (pointer \<times> 'f runtime) effect" where
  "vnt_array_get_int r a index =
     (case load r a of
        Some (VNT_BYTES bs) \<Rightarrow>
          if index < 0 \<or> index \<ge> int (length bs) then runtime_error ''byte buffer index out of bounds.''
          else Returns (vnt_int r (int (bs ! nat index)))
      | Some (VNT_ARRAY xs _) \<Rightarrow>
          if index < 0 \<or> index \<ge> int (length xs) then runtime_error ''array index out of bounds.''
          else Returns (xs ! nat index, r)
      | _ \<Rightarrow> runtime_error ''indexing requires an array or byte buffer.'')"

text \<open>The byte an element of a byte buffer is set to.\<close>

fun byte_value :: "'f vnt_value option \<Rightarrow> nat option" where
  "byte_value (Some (VNT_INT x)) = (if 0 \<le> x \<and> x \<le> 255 then Some (nat x) else None)"
| "byte_value _ = None"

definition vnt_array_set_int :: "'f runtime \<Rightarrow> pointer \<Rightarrow> int \<Rightarrow> pointer \<Rightarrow> (pointer \<times> 'f runtime) effect" where
  "vnt_array_set_int r a index v =
     (case load r a of
        Some (VNT_BYTES bs) \<Rightarrow>
          (case byte_value (load r v) of
             Some x \<Rightarrow>
               if index < 0 \<or> index \<ge> int (length bs)
               then runtime_error ''byte buffer assignment requires an in-range index and byte integer.''
               else Returns (v, store r a (VNT_BYTES (bs[nat index := x])))
           | None \<Rightarrow> runtime_error ''byte buffer assignment requires an in-range index and byte integer.'')
      | Some (VNT_ARRAY xs capacity) \<Rightarrow>
          if index < 0 \<or> index \<ge> int (length xs) then runtime_error ''array index out of bounds.''
          else Returns (v, store r a (VNT_ARRAY (xs[nat index := v]) capacity))
      | _ \<Rightarrow> runtime_error ''array assignment requires an array.'')"

definition vnt_string_get :: "'f runtime \<Rightarrow> pointer \<Rightarrow> pointer \<Rightarrow> (pointer \<times> 'f runtime) effect" where
  "vnt_string_get r s index =
     (case (load r s, load r index) of
        (Some (VNT_STRING t), Some (VNT_INT i)) \<Rightarrow>
          if i < 0 \<or> i \<ge> int (length t) then runtime_error ''string index out of bounds.''
          else Returns (vnt_string r (Some [t ! nat i]))
      | _ \<Rightarrow> runtime_error ''string indexing requires a string and integer index.'')"

definition vnt_array_get :: "'f runtime \<Rightarrow> pointer \<Rightarrow> pointer \<Rightarrow> (pointer \<times> 'f runtime) effect" where
  "vnt_array_get r a index =
     (case load r a of
        Some (VNT_BYTES _) \<Rightarrow>
          (case load r index of
             Some (VNT_INT i) \<Rightarrow> vnt_array_get_int r a i
           | _ \<Rightarrow> runtime_error ''byte buffer indexing requires an integer index.'')
      | Some (VNT_STRING _) \<Rightarrow> vnt_string_get r a index
      | Some (VNT_ARRAY xs _) \<Rightarrow>
          (case load r index of
             Some (VNT_INT i) \<Rightarrow>
               if i < 0 \<or> i \<ge> int (length xs) then runtime_error ''array index out of bounds.''
               else Returns (xs ! nat i, r)
           | _ \<Rightarrow> runtime_error ''indexing requires an array/string and integer index.'')
      | _ \<Rightarrow> runtime_error ''indexing requires an array/string and integer index.'')"

definition vnt_array_set :: "'f runtime \<Rightarrow> pointer \<Rightarrow> pointer \<Rightarrow> pointer \<Rightarrow> (pointer \<times> 'f runtime) effect" where
  "vnt_array_set r a index v =
     (case load r a of
        Some (VNT_BYTES _) \<Rightarrow>
          (case load r index of
             Some (VNT_INT i) \<Rightarrow> vnt_array_set_int r a i v
           | _ \<Rightarrow> runtime_error ''byte buffer assignment requires an integer index.'')
      | Some (VNT_ARRAY xs capacity) \<Rightarrow>
          (case load r index of
             Some (VNT_INT i) \<Rightarrow>
               if i < 0 \<or> i \<ge> int (length xs) then runtime_error ''array index out of bounds.''
               else Returns (v, store r a (VNT_ARRAY (xs[nat i := v]) capacity))
           | _ \<Rightarrow> runtime_error ''array assignment requires an array and integer index.'')
      | _ \<Rightarrow> runtime_error ''array assignment requires an array and integer index.'')"

definition vnt_len :: "'f runtime \<Rightarrow> pointer \<Rightarrow> (pointer \<times> 'f runtime) effect" where
  "vnt_len r v =
     (case load r v of
        None \<Rightarrow> Crashes
      | Some (VNT_STRING s) \<Rightarrow> Returns (vnt_int r (int (length s)))
      | Some (VNT_ARRAY xs _) \<Rightarrow> Returns (vnt_int r (int (length xs)))
      | Some (VNT_BYTES bs) \<Rightarrow>
          if int (length bs) > INT64_MAX then runtime_error ''byte buffer is too large for len().''
          else Returns (vnt_int r (int (length bs)))
      | Some (VNT_OBJECT fs _ _) \<Rightarrow> Returns (vnt_int r (int (length fs)))
      | _ \<Rightarrow> runtime_error ''len() requires a string, array, or object.'')"

section \<open>Objects\<close>

definition vnt_object_new :: "'f runtime \<Rightarrow> pointer \<times> 'f runtime" where
  "vnt_object_new r = alloc_value r (VNT_OBJECT [] 0 None)"

definition vnt_struct_new :: "'f runtime \<Rightarrow> string option \<Rightarrow> pointer \<times> 'f runtime" where
  "vnt_struct_new r name = alloc_value r (VNT_OBJECT [] 0 (Some (case name of None \<Rightarrow> '''' | Some n \<Rightarrow> n)))"

text \<open>A missing field reads as a new null.\<close>

definition vnt_object_get :: "'f runtime \<Rightarrow> pointer \<Rightarrow> string option \<Rightarrow> (pointer \<times> 'f runtime) effect" where
  "vnt_object_get r obj key =
     (case (load r obj, key) of
        (Some (VNT_OBJECT fs _ _), Some k) \<Rightarrow>
          (case find (\<lambda>(f, _). f = k) fs of
             Some (_, v) \<Rightarrow> Returns (v, r)
           | None \<Rightarrow> Returns (vnt_null r))
      | _ \<Rightarrow> runtime_error ''member access requires an object and non-null key.'')"

text \<open>The first field of the name, replaced in place.\<close>

fun replace_field :: "string \<Rightarrow> pointer \<Rightarrow> (string \<times> pointer) list \<Rightarrow> (string \<times> pointer) list option" where
  "replace_field k v [] = None"
| "replace_field k v ((f, w) # fs) =
     (if f = k then Some ((f, v) # fs) else map_option ((#) (f, w)) (replace_field k v fs))"

definition vnt_object_set :: "'f runtime \<Rightarrow> pointer \<Rightarrow> string option \<Rightarrow> pointer \<Rightarrow> (pointer \<times> 'f runtime) effect" where
  "vnt_object_set r obj key v =
     (case (load r obj, key) of
        (Some (VNT_OBJECT fs capacity name), Some k) \<Rightarrow>
          (case replace_field k v fs of
             Some fs' \<Rightarrow> Returns (v, store r obj (VNT_OBJECT fs' capacity name))
           | None \<Rightarrow> and_then (grow_capacity ''object'' 16 (length fs) capacity) (\<lambda>cap.
               Returns (v, store r obj (VNT_OBJECT (fs @ [(k, v)]) cap name))))
      | _ \<Rightarrow> runtime_error ''member assignment requires an object and non-null key.'')"

section \<open>Numeric builtins\<close>

definition vnt_abs :: "'f double_lib \<Rightarrow> 'f runtime \<Rightarrow> pointer \<Rightarrow> (pointer \<times> 'f runtime) effect" where
  "vnt_abs m r p = and_then (require_number r p p) (\<lambda>(x, _).
     case x of
       VNT_FLOAT f \<Rightarrow> Returns (vnt_float r (f_abs m f))
     | _ \<Rightarrow> if integer_of x = INT64_MIN then runtime_error ''integer overflow in abs().''
         else Returns (vnt_int r (if integer_of x < 0 then - integer_of x else integer_of x)))"

definition vnt_min :: "'f doubles \<Rightarrow> 'f double_lib \<Rightarrow> 'f runtime \<Rightarrow> pointer \<Rightarrow> pointer \<Rightarrow> (pointer \<times> 'f runtime) effect" where
  "vnt_min d m r a b = and_then (require_number r a b) (\<lambda>(x, y).
     Returns (if \<not> is_float x \<and> \<not> is_float y then (if integer_of x < integer_of y then a else b)
       else if d_less d (number_value m x) (number_value m y) then a else b, r))"

definition vnt_max :: "'f doubles \<Rightarrow> 'f double_lib \<Rightarrow> 'f runtime \<Rightarrow> pointer \<Rightarrow> pointer \<Rightarrow> (pointer \<times> 'f runtime) effect" where
  "vnt_max d m r a b = and_then (require_number r a b) (\<lambda>(x, y).
     Returns (if \<not> is_float x \<and> \<not> is_float y then (if integer_of x > integer_of y then a else b)
       else if d_less d (number_value m y) (number_value m x) then a else b, r))"

text \<open>The two loops of \<open>vnt_range\<close>; the next element is not computed when it would leave the 64 bits.\<close>

function range_up :: "'f runtime \<Rightarrow> pointer \<Rightarrow> int \<Rightarrow> int \<Rightarrow> int \<Rightarrow> 'f runtime effect" where
  "range_up r p i stop step =
     (if i < stop \<and> 0 < step then
        let (q, r) = vnt_int r i in
        and_then (vnt_array_push r p q) (\<lambda>(_, r).
          if i > INT64_MAX - step then Returns r else range_up r p (i + step) stop step)
      else Returns r)"
  by pat_completeness auto
termination by (relation "measure (\<lambda>(_, _, i, stop, _). nat (stop - i))") auto

function range_down :: "'f runtime \<Rightarrow> pointer \<Rightarrow> int \<Rightarrow> int \<Rightarrow> int \<Rightarrow> 'f runtime effect" where
  "range_down r p i stop step =
     (if i > stop \<and> step < 0 then
        let (q, r) = vnt_int r i in
        and_then (vnt_array_push r p q) (\<lambda>(_, r).
          if i < INT64_MIN - step then Returns r else range_down r p (i + step) stop step)
      else Returns r)"
  by pat_completeness auto
termination by (relation "measure (\<lambda>(_, _, i, stop, _). nat (i - stop))") auto

declare range_up.simps [simp del] range_down.simps [simp del]

text \<open>The integer arguments that are used; reading the type of a \<open>NULL\<close> argument crashes.\<close>

fun range_arguments :: "'f runtime \<Rightarrow> pointer list \<Rightarrow> int list effect" where
  "range_arguments r [] = Returns []"
| "range_arguments r (p # ps) =
     (case load r p of
        None \<Rightarrow> Crashes
      | Some (VNT_INT x) \<Rightarrow> and_then (range_arguments r ps) (\<lambda>xs. Returns (x # xs))
      | _ \<Rightarrow> runtime_error ''range() requires integer arguments.'')"

definition vnt_range :: "'f runtime \<Rightarrow> pointer \<Rightarrow> pointer \<Rightarrow> pointer \<Rightarrow> int \<Rightarrow> (pointer \<times> 'f runtime) effect" where
  "vnt_range r a b c argc =
     and_then (range_arguments r (if argc = 1 then [a] else if argc = 2 then [a, b] else [a, b, c])) (\<lambda>xs.
       let (start, stop, step) =
         (case xs of [x] \<Rightarrow> (0, x, 1) | [x, y] \<Rightarrow> (x, y, 1) | x # y # z # _ \<Rightarrow> (x, y, z) | [] \<Rightarrow> (0, 0, 1)) in
       if step = 0 then runtime_error ''range() step cannot be zero.''
       else let (p, r) = vnt_array_new r in
         and_then (if step > 0 then range_up r p start stop step else range_down r p start stop step) (\<lambda>r. Returns (p, r)))"

section \<open>Process status\<close>

text \<open>\<open>(int)code->integer\<close> keeps the low 32 bits.\<close>

definition to_int32 :: "int \<Rightarrow> int" where
  "to_int32 x = (x + 2 ^ 31) mod 2 ^ 32 - 2 ^ 31"

definition vnt_process_exit :: "'f runtime \<Rightarrow> pointer \<Rightarrow> (pointer \<times> 'f runtime) effect" where
  "vnt_process_exit r code =
     (case load r code of
        Some (VNT_INT x) \<Rightarrow>
          let status = to_int32 x in
          if status < 0 \<or> status > 255 then runtime_error ''process_exit() status must be between 0 and 255.''
          else Exits status ''''
      | _ \<Rightarrow> runtime_error ''process_exit() requires an integer status.'')"

section \<open>Stores by key\<close>

text \<open>
  Arrays are stores by index and objects stores by name. The contract: a write that succeeds is what the
  next read of its key finds, and no other key is affected.
\<close>

locale keyed_store =
  fixes lookup :: "'s \<Rightarrow> 'k \<Rightarrow> 'v option"
    and put :: "'s \<Rightarrow> 'k \<Rightarrow> 'v \<Rightarrow> 's option"
  assumes lookup_put: "put s k v = Some s' \<Longrightarrow> lookup s' j = (if j = k then Some v else lookup s j)"
begin

fun puts :: "'s \<Rightarrow> ('k \<times> 'v) list \<Rightarrow> 's option" where
  "puts s [] = Some s"
| "puts s ((k, v) # kvs) = Option.bind (put s k v) (\<lambda>s'. puts s' kvs)"

lemma lookup_puts: "puts s kvs = Some s' \<Longrightarrow> lookup s' j = (case map_of (rev kvs) j of Some v \<Rightarrow> Some v | None \<Rightarrow> lookup s j)"
proof (induction s kvs rule: puts.induct)
  case (2 s k v kvs)
  then obtain t where "put s k v = Some t" "puts t kvs = Some s'" by (auto simp: bind_eq_Some_conv)
  then show ?case using 2 lookup_put [of s k v t j] by (auto simp: map_add_def split: option.splits)
qed simp

lemma last_put_wins: "put s k v = Some t \<Longrightarrow> put t k w = Some u \<Longrightarrow> put s k w = Some u' \<Longrightarrow> lookup u = lookup u'"
  by (auto simp: lookup_put fun_eq_iff)

end

text \<open>The array at \<open>a\<close> and the object at \<open>a\<close>.\<close>

definition array_read :: "pointer \<Rightarrow> 'f runtime \<Rightarrow> int \<Rightarrow> pointer option" where
  "array_read a r i =
     (case (load r a, vnt_array_get_int r a i) of (Some (VNT_ARRAY _ _), Returns (p, _)) \<Rightarrow> Some p | _ \<Rightarrow> None)"

definition array_write :: "pointer \<Rightarrow> 'f runtime \<Rightarrow> int \<Rightarrow> pointer \<Rightarrow> 'f runtime option" where
  "array_write a r i v =
     (case (load r a, vnt_array_set_int r a i v) of (Some (VNT_ARRAY _ _), Returns (_, r')) \<Rightarrow> Some r' | _ \<Rightarrow> None)"

definition object_read :: "pointer \<Rightarrow> 'f runtime \<Rightarrow> string \<Rightarrow> pointer option" where
  "object_read a r k = (case load r a of Some (VNT_OBJECT fs _ _) \<Rightarrow> map_of fs k | _ \<Rightarrow> None)"

definition object_write :: "pointer \<Rightarrow> 'f runtime \<Rightarrow> string \<Rightarrow> pointer \<Rightarrow> 'f runtime option" where
  "object_write a r k v = (case vnt_object_set r a (Some k) v of Returns (_, r') \<Rightarrow> Some r' | _ \<Rightarrow> None)"

lemma array_read_write: "array_write a r i v = Some r' \<Longrightarrow> array_read a r' j = (if j = i then Some v else array_read a r j)"
  by (auto simp: array_write_def array_read_def vnt_array_set_int_def vnt_array_get_int_def load_store nth_list_update
      split: option.splits vnt_value.splits effect.splits if_splits)

lemma replace_field_map: "replace_field k v fs = Some fs' \<Longrightarrow> map_of fs' = (map_of fs)(k \<mapsto> v)"
  by (induction fs arbitrary: fs' rule: replace_field.induct) (auto split: if_splits)

lemma replace_field_none: "replace_field k v fs = None \<Longrightarrow> map_of fs k = None"
  by (induction fs rule: replace_field.induct) (auto split: if_splits)

lemma object_read_write: "object_write a r k v = Some r' \<Longrightarrow> object_read a r' j = (if j = k then Some v else object_read a r j)"
  using replace_field_map replace_field_none
  by (fastforce simp: object_write_def object_read_def vnt_object_set_def load_store map_add_def and_then_Returns_iff
      split: option.splits vnt_value.splits effect.splits if_splits)

lemma object_get_read: "vnt_object_get r a (Some k) = Returns (p, r') \<Longrightarrow> object_read a r k = Some q \<Longrightarrow> p = q \<and> r' = r"
proof -
  have "find (\<lambda>(f, _). f = k) fs = map_option (\<lambda>v. (k, v)) (map_of fs k)" for fs :: "(string \<times> pointer) list"
    by (induction fs) auto
  then show "vnt_object_get r a (Some k) = Returns (p, r') \<Longrightarrow> object_read a r k = Some q \<Longrightarrow> p = q \<and> r' = r"
    by (auto simp: vnt_object_get_def object_read_def split: option.splits vnt_value.splits)
qed

interpretation array_store: keyed_store "array_read a" "array_write a" for a
  by unfold_locales (rule array_read_write)

interpretation object_store: keyed_store "object_read a" "object_write a" for a
  by unfold_locales (rule object_read_write)

section \<open>The elements of a range\<close>

text \<open>The numbers from \<open>start\<close> on in steps of \<open>step\<close>, as long as \<open>stop\<close> is not reached.\<close>

definition range_values :: "int \<Rightarrow> int \<Rightarrow> int \<Rightarrow> int list" where
  "range_values start stop step = map (\<lambda>k. start + int k * step) [0..<nat ((stop - start + step - sgn step) div step)]"

lemma range_values_neg: "range_values (- i) (- stop) (- step) = map uminus (range_values i stop step)"
proof -
  have "- stop - - i + - step - sgn (- step) = - (stop - i + step - sgn step)" by simp
  then have "(- stop - - i + - step - sgn (- step)) div (- step) = (stop - i + step - sgn step) div step"
    by (simp only: div_minus_minus)
  then show ?thesis by (simp only: range_values_def map_map o_def) simp
qed

lemma range_values_up:
  assumes "0 < step"
  shows "range_values i stop step = (if i < stop then i # range_values (i + step) stop step else [])"
proof (cases "i < stop")
  case True
  let ?m = "(stop - i - 1) div step"
  have "(stop - i - 1 + step) div step = ?m + 1" by (rule div_add_self2) (use assms in simp)
  moreover have "stop - i - 1 + step = stop - i + step - 1" by simp
  moreover have "0 \<le> ?m" using True assms by (simp add: pos_imp_zdiv_nonneg_iff)
  ultimately have n: "nat ((stop - i + step - sgn step) div step) = Suc (nat ?m)" using assms by (simp add: sgn_if nat_add_distrib)
  have "nat ((stop - (i + step) + step - sgn step) div step) = nat ?m" using assms by (simp add: sgn_if)
  then show ?thesis using True unfolding range_values_def n by (simp add: map_upt_Suc algebra_simps del: upt_Suc)
next
  case False
  then have "(stop - i + step - 1) div step \<le> (step - 1) div step" using assms by (intro zdiv_mono1) auto
  then show ?thesis using False assms by (simp add: range_values_def div_pos_pos_trivial sgn_if)
qed

lemma range_values_down:
  assumes "step < 0"
  shows "range_values i stop step = (if stop < i then i # range_values (i + step) stop step else [])"
  using range_values_up [of "- step" "- i" "- stop"] range_values_neg [of i stop step] range_values_neg [of "i + step" stop step] assms
  by (auto simp: map_eq_Cons_conv)

text \<open>Capacities are 0 or a power of two from 4 to \<open>2 ^ 30\<close>; below that an array can grow.\<close>

definition capacity_ok :: "nat \<Rightarrow> nat \<Rightarrow> bool" where
  "capacity_ok n cap \<longleftrightarrow> n \<le> cap \<and> (cap = 0 \<or> (\<exists>k \<le> 28. cap = 2 ^ (k + 2)))"

lemma grow_capacity_ok:
  assumes "capacity_ok n cap" "n < 2 ^ 30"
  shows "\<exists>cap'. grow_capacity what 8 n cap = Returns cap' \<and> capacity_ok (Suc n) cap'"
proof (cases "n = cap")
  case False
  then show ?thesis using assms(1) by (auto simp: grow_capacity_def capacity_ok_def)
next
  case True
  consider "cap = 0" | k where "k \<le> 28" "cap = 2 ^ (k + 2)" using assms(1) by (auto simp: capacity_ok_def)
  then show ?thesis
  proof cases
    case 1
    then have "capacity_ok (Suc n) 4" using True by (auto simp: capacity_ok_def intro!: exI [of _ 0])
    then show ?thesis using 1 True by (simp add: grow_capacity_def INT_MAX_def UINT64_MAX_def)
  next
    case 2
    have "(2 :: nat) ^ (k + 2) < 2 ^ 30" using assms(2) unfolding True 2(2) .
    then have "k + 2 < 30" by (rule power_less_imp_less_exp [rotated]) simp
    then have k: "Suc k \<le> 28" "k + 2 \<le> 29" by simp_all
    have "(2 :: nat) ^ (k + 2) \<le> 2 ^ 29" by (rule power_increasing [OF k(2)]) simp
    then have le: "cap \<le> 536870912" unfolding 2(2) [symmetric] by simp
    have cap: "cap * 2 = 2 ^ (Suc k + 2)" "0 < cap" unfolding 2(2) by simp_all
    have "Suc n \<le> cap * 2" using True cap(2) by simp
    then have "capacity_ok (Suc n) (cap * 2)" unfolding capacity_ok_def using cap(1) k(1) by blast
    moreover have "grow_capacity what 8 n cap = Returns (cap * 2)"
      using le cap(2) True by (simp add: grow_capacity_def INT_MAX_def UINT64_MAX_def)
    ultimately show ?thesis by blast
  qed
qed

text \<open>Every cell other than \<open>p\<close> keeps its contents.\<close>

definition keeps_others :: "pointer \<Rightarrow> 'f runtime \<Rightarrow> 'f runtime \<Rightarrow> bool" where
  "keeps_others p r r' \<longleftrightarrow> (\<forall>q v. q \<noteq> p \<longrightarrow> load r q = Some v \<longrightarrow> load r' q = Some v)"

lemma range_push:
  assumes a: "load r p = Some (VNT_ARRAY xs cap)" and c: "capacity_ok (length xs) cap" and n: "length xs < 2 ^ 30"
  shows "\<exists>q r1 r2 cap'. vnt_int r i = (q, r1) \<and> vnt_array_push r1 p q = Returns (p, r2) \<and> q \<noteq> p \<and> load r2 q = Some (VNT_INT i)
    \<and> load r2 p = Some (VNT_ARRAY (xs @ [q]) cap') \<and> capacity_ok (length (xs @ [q])) cap' \<and> keeps_others p r r2"
proof -
  obtain q r1 where q: "vnt_int r i = (q, r1)" by fastforce
  have new: "load r1 q = Some (VNT_INT i)" "load r q = None" "mem_grows r r1" using alloc_value_new q by (auto simp: vnt_int_def)
  then have ne: "q \<noteq> p" and a1: "load r1 p = Some (VNT_ARRAY xs cap)" using a load_mem_grows by auto
  obtain cap' where g: "grow_capacity ''array'' 8 (length xs) cap = Returns cap'" "capacity_ok (Suc (length xs)) cap'"
    using grow_capacity_ok [OF c n] by blast
  have "keeps_others p r (store r1 p (VNT_ARRAY (xs @ [q]) cap'))"
    using load_mem_grows [OF new(3)] a1 by (auto simp: keeps_others_def load_store)
  then show ?thesis using q new(1) ne a1 g by (auto simp: vnt_array_push_def load_store)
qed

text \<open>The loop has appended the numbers \<open>vs\<close> to the array at \<open>p\<close>.\<close>

definition appended :: "pointer \<Rightarrow> 'f runtime \<Rightarrow> pointer list \<Rightarrow> int list \<Rightarrow> 'f runtime effect \<Rightarrow> bool" where
  "appended p r xs vs e \<longleftrightarrow> (\<exists>r' ys cap. e = Returns r' \<and> load r' p = Some (VNT_ARRAY (xs @ ys) cap)
     \<and> map (load r') ys = map (\<lambda>x. Some (VNT_INT x)) vs \<and> keeps_others p r r')"

lemma appended_Nil: "load r p = Some (VNT_ARRAY xs cap) \<Longrightarrow> appended p r xs [] (Returns r)"
  by (auto simp: appended_def keeps_others_def)

lemma appended_Cons:
  assumes "appended p r2 (xs @ [q]) vs e" "keeps_others p r r2" "q \<noteq> p" "load r2 q = Some (VNT_INT i)"
  shows "appended p r xs (i # vs) e"
proof -
  from assms(1) obtain r' ys cap where e: "e = Returns r'" "load r' p = Some (VNT_ARRAY ((xs @ [q]) @ ys) cap)"
    "map (load r') ys = map (\<lambda>x. Some (VNT_INT x)) vs" "keeps_others p r2 r'" by (auto simp: appended_def)
  moreover have "load r' q = Some (VNT_INT i)" "keeps_others p r r'" using e(4) assms(2,3,4) by (auto simp: keeps_others_def)
  ultimately show ?thesis unfolding appended_def by (intro exI [of _ r'] exI [of _ "q # ys"] exI [of _ cap]) simp
qed

lemma range_up_values:
  "load r p = Some (VNT_ARRAY xs cap) \<Longrightarrow> capacity_ok (length xs) cap \<Longrightarrow> 0 < step \<Longrightarrow> stop \<le> INT64_MAX \<Longrightarrow>
   length xs + length (range_values i stop step) \<le> 2 ^ 30 \<Longrightarrow> appended p r xs (range_values i stop step) (range_up r p i stop step)"
proof (induction r p i stop step arbitrary: xs cap rule: range_up.induct)
  case (1 r p i stop step)
  note up = range_values_up [OF 1(4), of i stop]
  show ?case
  proof (cases "i < stop")
    case False
    then show ?thesis using 1(2) up by (subst range_up.simps) (simp add: appended_Nil)
  next
    case True
    then have n: "length xs < 2 ^ 30" "length (xs @ [q]) + length (range_values (i + step) stop step) \<le> 2 ^ 30" for q
      using 1(6) up by simp_all
    obtain q r1 r2 cap' where s: "vnt_int r i = (q, r1)" "vnt_array_push r1 p q = Returns (p, r2)" "q \<noteq> p" "load r2 q = Some (VNT_INT i)"
      "load r2 p = Some (VNT_ARRAY (xs @ [q]) cap')" "capacity_ok (length (xs @ [q])) cap'" "keeps_others p r r2"
      using range_push [OF 1(2,3) n(1)] by blast
    have "appended p r2 (xs @ [q]) (range_values (i + step) stop step)
        (if i > INT64_MAX - step then Returns r2 else range_up r2 p (i + step) stop step)"
    proof (cases "i > INT64_MAX - step")
      case out: True
      then have "\<not> i + step < stop" using 1(5) by simp
      then show ?thesis using out range_values_up [OF 1(4), of "i + step" stop] appended_Nil [OF s(5)] by simp
    next
      case False
      then show ?thesis using 1(1) [OF conjI [OF True 1(4)] s(1) [symmetric] refl False s(5,6) 1(4,5) n(2)] by simp
    qed
    from appended_Cons [OF this s(7,3,4)] show ?thesis using True 1(4) up s(1,2) by (subst range_up.simps) (simp add: Let_def)
  qed
qed

lemma range_down_values:
  "load r p = Some (VNT_ARRAY xs cap) \<Longrightarrow> capacity_ok (length xs) cap \<Longrightarrow> step < 0 \<Longrightarrow> INT64_MIN \<le> stop \<Longrightarrow>
   length xs + length (range_values i stop step) \<le> 2 ^ 30 \<Longrightarrow> appended p r xs (range_values i stop step) (range_down r p i stop step)"
proof (induction r p i stop step arbitrary: xs cap rule: range_down.induct)
  case (1 r p i stop step)
  note down = range_values_down [OF 1(4), of i stop]
  show ?case
  proof (cases "i > stop")
    case False
    then show ?thesis using 1(2) down by (subst range_down.simps) (simp add: appended_Nil)
  next
    case True
    then have n: "length xs < 2 ^ 30" "length (xs @ [q]) + length (range_values (i + step) stop step) \<le> 2 ^ 30" for q
      using 1(6) down by simp_all
    obtain q r1 r2 cap' where s: "vnt_int r i = (q, r1)" "vnt_array_push r1 p q = Returns (p, r2)" "q \<noteq> p" "load r2 q = Some (VNT_INT i)"
      "load r2 p = Some (VNT_ARRAY (xs @ [q]) cap')" "capacity_ok (length (xs @ [q])) cap'" "keeps_others p r r2"
      using range_push [OF 1(2,3) n(1)] by blast
    have "appended p r2 (xs @ [q]) (range_values (i + step) stop step)
        (if i < INT64_MIN - step then Returns r2 else range_down r2 p (i + step) stop step)"
    proof (cases "i < INT64_MIN - step")
      case out: True
      then have "\<not> i + step > stop" using 1(5) by simp
      then show ?thesis using out range_values_down [OF 1(4), of "i + step" stop] appended_Nil [OF s(5)] by simp
    next
      case False
      then show ?thesis using 1(1) [OF conjI [OF True 1(4)] s(1) [symmetric] refl False s(5,6) 1(4,5) n(2)] by simp
    qed
    from appended_Cons [OF this s(7,3,4)] show ?thesis using True 1(4) down s(1,2) by (subst range_down.simps) (simp add: Let_def)
  qed
qed

text \<open>How \<open>range(stop)\<close>, \<open>range(start, stop)\<close> and \<open>range(start, stop, step)\<close> pass their arguments.\<close>

definition range_call :: "'f runtime \<Rightarrow> pointer \<Rightarrow> pointer \<Rightarrow> pointer \<Rightarrow> int \<Rightarrow> int \<Rightarrow> int \<Rightarrow> int \<Rightarrow> bool" where
  "range_call r a b c argc start stop step \<longleftrightarrow>
     argc = 1 \<and> load r a = Some (VNT_INT stop) \<and> start = 0 \<and> step = 1
     \<or> argc = 2 \<and> load r a = Some (VNT_INT start) \<and> load r b = Some (VNT_INT stop) \<and> step = 1
     \<or> argc = 3 \<and> load r a = Some (VNT_INT start) \<and> load r b = Some (VNT_INT stop) \<and> load r c = Some (VNT_INT step)"

lemma range_call_loops:
  assumes "range_call r a b c argc start stop step" "step \<noteq> 0" "vnt_array_new r = (p, r1)"
  shows "vnt_range r a b c argc =
    and_then (if step > 0 then range_up r1 p start stop step else range_down r1 p start stop step) (\<lambda>r. Returns (p, r))"
  using assms by (auto simp: range_call_def vnt_range_def)

text \<open>
  C31. \<open>range\<close> with one, two or three integers returns a new array that holds exactly the numbers of the range, upwards or downwards, also
  where the next number would leave the 64 bits; all other values are as before. The range has at most \<open>2 ^ 30\<close> numbers, the size
  to which an array can grow, and the step is not zero.
\<close>

theorem vnt_range_elements:
  assumes "range_call r a b c argc start stop step" "step \<noteq> 0" "int64 stop" "length (range_values start stop step) \<le> 2 ^ 30"
  shows "\<exists>p r' xs capacity. vnt_range r a b c argc = Returns (p, r') \<and> load r p = None \<and> load r' p = Some (VNT_ARRAY xs capacity)
    \<and> map (load r') xs = map (\<lambda>x. Some (VNT_INT x)) (range_values start stop step)
    \<and> (\<forall>q v. load r q = Some v \<longrightarrow> load r' q = Some v)"
proof -
  obtain p r1 where n: "vnt_array_new r = (p, r1)" by fastforce
  then have new: "load r1 p = Some (VNT_ARRAY [] 0)" "load r p = None" "mem_grows r r1" using alloc_value_new by (auto simp: vnt_array_new_def)
  have "appended p r1 [] (range_values start stop step) (if step > 0 then range_up r1 p start stop step else range_down r1 p start stop step)"
    using range_up_values [OF new(1), of step stop start] range_down_values [OF new(1), of step stop start] assms(2-4)
    by (auto simp: capacity_ok_def int64_def)
  then obtain r' xs cap where e: "(if step > 0 then range_up r1 p start stop step else range_down r1 p start stop step) = Returns r'"
    "load r' p = Some (VNT_ARRAY xs cap)" "map (load r') xs = map (\<lambda>x. Some (VNT_INT x)) (range_values start stop step)" "keeps_others p r1 r'"
    by (auto simp: appended_def)
  have "vnt_range r a b c argc = Returns (p, r')" unfolding range_call_loops [OF assms(1,2) n] e(1) by simp
  moreover have "load r' q = Some v" if "load r q = Some v" for q v
    using e(4) load_mem_grows [OF new(3) that] that new(2) by (cases "q = p") (auto simp: keeps_others_def)
  ultimately show ?thesis using new(2) e(2,3) by blast
qed

text \<open>\<open>range(9, -1, -4)\<close>\<close>

definition range_memory :: "int runtime" where
  "range_memory = \<lparr>cells = [VNT_INT 9, VNT_INT (-1), VNT_INT (-4)], slots = [], printed = []\<rparr>"

theorem vnt_range_elements_witness:
  "\<exists>p r' xs capacity. vnt_range range_memory (Some 0) (Some 1) (Some 2) 3 = Returns (p, r') \<and> load r' p = Some (VNT_ARRAY xs capacity)
    \<and> map (load r') xs = [Some (VNT_INT 9), Some (VNT_INT 5), Some (VNT_INT 1)]"
proof -
  have v: "range_values 9 (-1) (-4) = [9, 5, 1]" by code_simp
  have "range_call range_memory (Some 0) (Some 1) (Some 2) 3 9 (-1) (-4)" by (simp add: range_call_def range_memory_def load_def)
  moreover have "int64 (-1)" by (simp add: int64_def INT64_MIN_def INT64_MAX_def)
  ultimately show ?thesis using vnt_range_elements [of range_memory "Some 0" "Some 1" "Some 2" 3 9 "-1" "-4"] v by auto
qed

end
