(* ===== verification/NativeExpr.thy ===== *)
theory NativeExpr
  imports HirOptimizeCorrect RuntimeContainers
begin

text \<open>
  The code that \<open>src/compiler/x86_backend.c\<close> emits for an expression, as its effect on the memory of the program:
  which routines of the runtime it calls, in which order, and the integer instructions in line.
  \<open>None\<close> means that the generator fails on the expression. The place of a variable is the argument \<open>place\<close>, and
  the code of a call the argument \<open>emit_call\<close>. Children come in the order of the child list, and \<open>child\<close>
  takes the first one of a role. The generator keeps a table of float literals for the whole program; the list of its values is
  threaded through the expressions in the order in which their code is written. Entries are only added, at the end, so that
  what a label denotes is fixed when it is given out.
\<close>

section \<open>Code\<close>

type_synonym 'f code = "'f runtime \<Rightarrow> (pointer \<times> 'f runtime) effect"

type_synonym 'f gen = "'f list \<Rightarrow> ('f code \<times> 'f list) option"

type_synonym 'f operand = "'f hir_node \<times> 'f gen"

definition child :: "edge_role \<Rightarrow> 'f operand list \<Rightarrow> 'f operand option" where
  "child q ks = find (\<lambda>(l, _). role l = q) ks"

text \<open>The label of a float literal, as its position: that of the first entry equal to it by \<open>==\<close>, else a new entry.\<close>

fun float_index :: "'f doubles \<Rightarrow> 'f list \<Rightarrow> 'f \<Rightarrow> nat option" where
  "float_index d [] x = None"
| "float_index d (y # table) x = (if d_eq d y x then Some 0 else map_option Suc (float_index d table x))"

definition float_label :: "'f doubles \<Rightarrow> 'f list \<Rightarrow> 'f \<Rightarrow> nat \<times> 'f list" where
  "float_label d table x = (case float_index d table x of Some i \<Rightarrow> (i, table) | None \<Rightarrow> (length table, table @ [x]))"

text \<open>Code that adds nothing to the table.\<close>

definition plain :: "'f code \<Rightarrow> 'f gen" where
  "plain x = (\<lambda>table. Some (x, table))"

text \<open>One operand in \<open>%rcx\<close>; the first operand on the machine stack while the second one is evaluated.\<close>

definition with_one :: "'f code \<Rightarrow> ('f runtime \<Rightarrow> pointer \<Rightarrow> (pointer \<times> 'f runtime) effect) \<Rightarrow> 'f code" where
  "with_one x f = (\<lambda>r. and_then (x r) (\<lambda>(p, r). f r p))"

definition with_two :: "'f code \<Rightarrow> 'f code \<Rightarrow> ('f runtime \<Rightarrow> pointer \<Rightarrow> pointer \<Rightarrow> (pointer \<times> 'f runtime) effect) \<Rightarrow> 'f code" where
  "with_two x y f = (\<lambda>r. and_then (x r) (\<lambda>(p, r). and_then (y r) (\<lambda>(q, r). f r p q)))"

section \<open>Binary operators\<close>

definition INT32_MIN :: int where "INT32_MIN = - (2 ^ 31)"
definition INT32_MAX :: int where "INT32_MAX = 2 ^ 31 - 1"

text \<open>\<open>addq\<close>, \<open>subq\<close> and \<open>imulq\<close>, with \<open>jo\<close> on overflow.\<close>

fun machine_arithmetic :: "binary_operator \<Rightarrow> int \<Rightarrow> int \<Rightarrow> int option" where
  "machine_arithmetic BINARY_ADD x y = (if int64 (x + y) then Some (x + y) else None)"
| "machine_arithmetic BINARY_SUBTRACT x y = (if int64 (x - y) then Some (x - y) else None)"
| "machine_arithmetic BINARY_MULTIPLY x y = (if int64 (x * y) then Some (x * y) else None)"
| "machine_arithmetic _ x y = None"

abbreviation arithmetic_operator :: "binary_operator \<Rightarrow> bool" where
  "arithmetic_operator op \<equiv> op \<in> {BINARY_ADD, BINARY_SUBTRACT, BINARY_MULTIPLY}"

fun slow_arithmetic :: "'f doubles \<Rightarrow> 'f double_lib \<Rightarrow> binary_operator \<Rightarrow> 'f runtime \<Rightarrow> pointer \<Rightarrow> pointer \<Rightarrow> (pointer \<times> 'f runtime) effect" where
  "slow_arithmetic d m BINARY_ADD = vnt_add d m"
| "slow_arithmetic d m BINARY_SUBTRACT = vnt_sub d m"
| "slow_arithmetic d m _ = vnt_mul d m"

text \<open>A right operand that is an integer literal of 32 bits is evaluated on the slow path alone.\<close>

definition immediate_operand :: "'f hir_node \<Rightarrow> int option" where
  "immediate_operand l =
     (case (opcode l, node_value l) of
        (IR_INTEGER, Integer_value i) \<Rightarrow> if INT32_MIN \<le> i \<and> i \<le> INT32_MAX then Some i else None
      | _ \<Rightarrow> None)"

definition immediate_arithmetic :: "'f doubles \<Rightarrow> 'f double_lib \<Rightarrow> binary_operator \<Rightarrow> int \<Rightarrow> 'f code \<Rightarrow> 'f code \<Rightarrow> 'f code" where
  "immediate_arithmetic d m op y left right = with_one left (\<lambda>r p.
     let slow = and_then (right r) (\<lambda>(q, r). slow_arithmetic d m op r p q) in
     case load r p of
       Some (VNT_INT x) \<Rightarrow> (case machine_arithmetic op x y of Some z \<Rightarrow> Returns (vnt_int r z) | None \<Rightarrow> slow)
     | _ \<Rightarrow> slow)"

definition guarded_arithmetic :: "'f doubles \<Rightarrow> 'f double_lib \<Rightarrow> binary_operator \<Rightarrow> 'f runtime \<Rightarrow> pointer \<Rightarrow> pointer \<Rightarrow> (pointer \<times> 'f runtime) effect" where
  "guarded_arithmetic d m op r p q =
     (let slow = slow_arithmetic d m op r p q in
      case (load r p, load r q) of
        (Some (VNT_INT x), Some (VNT_INT y)) \<Rightarrow>
          (case machine_arithmetic op x y of Some z \<Rightarrow> Returns (vnt_int r z) | None \<Rightarrow> slow)
      | _ \<Rightarrow> slow)"

fun helper :: "'f doubles \<Rightarrow> 'f double_lib \<Rightarrow> nat \<Rightarrow> binary_operator \<Rightarrow> ('f runtime \<Rightarrow> pointer \<Rightarrow> pointer \<Rightarrow> (pointer \<times> 'f runtime) effect) option" where
  "helper d m stack BINARY_DIVIDE = Some (vnt_div d m)"
| "helper d m stack BINARY_MODULO = Some vnt_mod"
| "helper d m stack BINARY_EQUAL = Some (vnt_eq d m stack)"
| "helper d m stack BINARY_NOT_EQUAL = Some (vnt_ne d m stack)"
| "helper d m stack BINARY_GREATER = Some (vnt_gt d m)"
| "helper d m stack BINARY_LESS = Some (vnt_lt d m)"
| "helper d m stack BINARY_GREATER_EQUAL = Some (vnt_ge d m)"
| "helper d m stack BINARY_LESS_EQUAL = Some (vnt_le d m)"
| "helper d m stack _ = None"

text \<open>The right operand runs only when the left one does not decide.\<close>

definition short_circuit :: "bool \<Rightarrow> 'f code \<Rightarrow> 'f code \<Rightarrow> 'f code" where
  "short_circuit decides left right = with_one left (\<lambda>r p. and_then (vnt_truth r p) (\<lambda>x.
     if x = decides then Returns (vnt_bool r decides)
     else with_one right (\<lambda>r q. and_then (vnt_truth r q) (\<lambda>y. Returns (vnt_bool r y))) r))"

definition emit_binary :: "'f doubles \<Rightarrow> 'f double_lib \<Rightarrow> nat \<Rightarrow> binary_operator \<Rightarrow> 'f operand list \<Rightarrow> 'f gen" where
  "emit_binary d m stack op ks table = do {
     (_, left) \<leftarrow> child EDGE_LEFT ks;
     (rl, right) \<leftarrow> child EDGE_RIGHT ks;
     (x, table) \<leftarrow> left table;
     (y, table) \<leftarrow> right table;
     if op = BINARY_AND then Some (short_circuit False x y, table)
     else if op = BINARY_OR then Some (short_circuit True x y, table)
     else if arithmetic_operator op then
       (case immediate_operand rl of
          Some i \<Rightarrow> Some (immediate_arithmetic d m op i x y, table)
        | None \<Rightarrow> Some (with_two x y (guarded_arithmetic d m op), table))
     else map_option (\<lambda>f. (with_two x y f, table)) (helper d m stack op)
   }"

section \<open>Other expressions\<close>

definition emit_unary :: "'f doubles \<Rightarrow> (string \<Rightarrow> nat option) \<Rightarrow> unary_operator \<Rightarrow> 'f operand list \<Rightarrow> 'f gen" where
  "emit_unary d place op ks table = do {
     (l, operand) \<leftarrow> child EDGE_OPERAND ks;
     if op = UNARY_REFERENCE then
       (case (opcode l, node_value l) of
          (IR_VARIABLE, Text_value name) \<Rightarrow> map_option (\<lambda>s. (\<lambda>r. vnt_ref r (Some s), table)) (place name)
        | _ \<Rightarrow> None)
     else do {
       (x, table) \<leftarrow> operand table;
       Some (with_one x (if op = UNARY_DEREFERENCE then vnt_deref else if op = UNARY_NEGATE then vnt_neg d else vnt_not), table)
     }
   }"

fun push_elements :: "'f code list \<Rightarrow> pointer \<Rightarrow> 'f code" where
  "push_elements [] p r = Returns (p, r)"
| "push_elements (x # xs) p r =
     and_then (x r) (\<lambda>(q, r). and_then (vnt_array_push r p q) (\<lambda>(p, r). push_elements xs p r))"

fun emit_elements :: "'f operand list \<Rightarrow> 'f list \<Rightarrow> ('f code list \<times> 'f list) option" where
  "emit_elements [] table = Some ([], table)"
| "emit_elements ((_, element) # ks) table = do {
     (x, table) \<leftarrow> element table;
     (xs, table) \<leftarrow> emit_elements ks table;
     Some (x # xs, table)
   }"

definition emit_array :: "'f operand list \<Rightarrow> 'f gen" where
  "emit_array ks table =
     map_option (\<lambda>(xs, table). (\<lambda>r. let (p, r) = vnt_array_new r in push_elements xs p r, table)) (emit_elements ks table)"

definition emit_index :: "'f operand list \<Rightarrow> 'f gen" where
  "emit_index ks table = do {
     (_, obj) \<leftarrow> child EDGE_OBJECT ks;
     (_, index) \<leftarrow> child EDGE_INDEX ks;
     (x, table) \<leftarrow> obj table;
     (y, table) \<leftarrow> index table;
     Some (with_two x y vnt_array_get, table)
   }"

definition emit_member :: "string \<Rightarrow> 'f operand list \<Rightarrow> 'f gen" where
  "emit_member key ks table = do {
     (_, obj) \<leftarrow> child EDGE_OBJECT ks;
     (x, table) \<leftarrow> obj table;
     Some (with_one x (\<lambda>r p. vnt_object_get r p (Some key)), table)
   }"

text \<open>\<open>movsd\<close> from the label of the literal, then \<open>vnt_float\<close>.\<close>

definition emit_float :: "'f doubles \<Rightarrow> 'f \<Rightarrow> 'f gen" where
  "emit_float d x table = (let (i, table) = float_label d table x in Some (\<lambda>r. Returns (vnt_float r (table ! i)), table))"

text \<open>The value of a variable: the contents of its place.\<close>

definition read_place :: "nat \<Rightarrow> 'f code" where
  "read_place s r = (if s < length (slots r) then Returns (slots r ! s, r) else Crashes)"

fun emit_expr :: "'f doubles \<Rightarrow> 'f double_lib \<Rightarrow> nat \<Rightarrow> (string \<Rightarrow> nat option) \<Rightarrow> ('f hir_node \<Rightarrow> 'f operand list \<Rightarrow> 'f gen) \<Rightarrow>
    'f htree \<Rightarrow> 'f gen" where
  "emit_expr d m stack place emit_call (HTree i l ts) =
     (let ks = map (\<lambda>t. (tree_label t, emit_expr d m stack place emit_call t)) ts in
      case (opcode l, node_value l, operation l) of
        (IR_INTEGER, Integer_value x, _) \<Rightarrow> plain (\<lambda>r. Returns (vnt_int r x))
      | (IR_BOOLEAN, Boolean_value b, _) \<Rightarrow> plain (\<lambda>r. Returns (vnt_bool r b))
      | (IR_NULL, _, _) \<Rightarrow> plain (\<lambda>r. Returns (None, r))
      | (IR_FLOAT, Floating_value f, _) \<Rightarrow> emit_float d f
      | (IR_STRING, Text_value s, _) \<Rightarrow> plain (\<lambda>r. Returns (vnt_string r (Some s)))
      | (IR_VARIABLE, Text_value name, _) \<Rightarrow> (\<lambda>table. map_option (\<lambda>s. (read_place s, table)) (place name))
      | (IR_ARRAY, _, _) \<Rightarrow> emit_array ks
      | (IR_INDEX, _, _) \<Rightarrow> emit_index ks
      | (IR_MEMBER, Text_value key, _) \<Rightarrow> emit_member key ks
      | (IR_UNARY, _, Unary_operation op) \<Rightarrow> emit_unary d place op ks
      | (IR_CALL, _, _) \<Rightarrow> emit_call l ks
      | (IR_BINARY, _, Binary_operation op) \<Rightarrow> emit_binary d m stack op ks
      | _ \<Rightarrow> (\<lambda>_. None))"

end
