(* ===== verification/NativeExprCorrect.thy ===== *)
theory NativeExprCorrect
  imports NativeExpr
begin

text \<open>
  Constant folding against the code of expressions: the optimizer computes what the compiled program would have
  computed. One hypothesis on \<open>double\<close> is the one \<open>vnt_div\<close> relies on when it tests an integer divisor for
  zero after converting it; the other says that \<open>==\<close> tells the float literals at hand apart, as \<open>float_label\<close> takes for
  granted (\<open>0.0\<close> and \<open>-0.0\<close> are not told apart).
\<close>

section \<open>The in-line integer instructions\<close>

lemma guarded_exact:
  assumes "arithmetic_operator op"
  shows "guarded_arithmetic d m op = slow_arithmetic d m op"
proof (intro ext)
  fix r :: "'a runtime" and p q
  show "guarded_arithmetic d m op r p q = slow_arithmetic d m op r p q"
    using assms by (auto simp: guarded_arithmetic_def vnt_add_def add_numbers_def vnt_sub_def vnt_mul_def require_number_def Let_def
        split: option.splits vnt_value.splits)
qed

section \<open>Operators on constants\<close>

fun constant_value :: "'f hir_constant \<Rightarrow> 'f vnt_value" where
  "constant_value (Integer_constant x) = VNT_INT x"
| "constant_value (Boolean_constant b) = VNT_BOOL b"
| "constant_value (Float_constant f) = VNT_FLOAT f"

definition converts :: "'f doubles \<Rightarrow> 'f double_lib \<Rightarrow> bool" where
  "converts d m \<longleftrightarrow> (\<forall>n. d_eq d (of_int64 m n) (d_zero d) \<longrightarrow> n = 0)"

lemmas runtime_operators = vnt_add_def add_numbers_def vnt_sub_def vnt_mul_def vnt_div_def vnt_mod_def vnt_eq_def vnt_ne_def
  vnt_gt_def vnt_lt_def vnt_ge_def vnt_le_def order_def require_number_def constructors Let_def

lemma slow_arithmetic_constant:
  assumes "arithmetic_operator op" "load r p = Some (constant_value a)" "load r q = Some (constant_value b)" "fold_binary d op a b = Some c"
  shows "slow_arithmetic d m op r p q = Returns (alloc_value r (constant_value c))"
  using assms by (cases a; cases b) (auto simp: runtime_operators checked_int_def finite_float_def split: if_splits)

lemma helper_constant:
  assumes "\<not> arithmetic_operator op" "op \<noteq> BINARY_AND" "op \<noteq> BINARY_OR" "fold_binary d op a b = Some c" "converts d m" "0 < stack"
  shows "\<exists>f. helper d m stack op = Some f \<and> (\<forall>r p q. load r p = Some (constant_value a) \<longrightarrow> load r q = Some (constant_value b) \<longrightarrow>
    f r p q = Returns (alloc_value r (constant_value c)))"
proof -
  obtain k where k: "stack = Suc k" using assms(6) gr0_implies_Suc by blast
  show ?thesis using assms unfolding k
    by (cases op; cases a; cases b) (auto simp: runtime_operators finite_float_def converts_def split: if_splits)
qed

lemma unary_constant:
  assumes "fold_unary d op a = Some c" "load r p = Some (constant_value a)"
  shows "(if op = UNARY_DEREFERENCE then vnt_deref else if op = UNARY_NEGATE then vnt_neg d else vnt_not) r p
    = Returns (alloc_value r (constant_value c))"
  using assms by (cases op; cases a) (auto simp: vnt_neg_def vnt_not_def require_number_def constructors finite_float_def split: if_splits)

section \<open>Code that yields a constant\<close>

definition yields :: "'f code \<Rightarrow> 'f vnt_value \<Rightarrow> bool" where
  "yields x v \<longleftrightarrow> (\<forall>r. \<exists>p r'. x r = Returns (p, r') \<and> load r' p = Some v \<and> mem_grows r r')"

lemma yields_alloc: "(\<And>r. x r = Returns (alloc_value r v)) \<Longrightarrow> yields x v"
  using alloc_value_new by (metis yields_def surj_pair)

lemma yields_D: "yields x v \<Longrightarrow> \<exists>p r'. x r = Returns (p, r') \<and> load r' p = Some v \<and> mem_grows r r'"
  by (simp add: yields_def)

lemma yields_with_one:
  assumes x: "yields x u" and f: "\<And>r p. load r p = Some u \<Longrightarrow> \<exists>q r'. f r p = Returns (q, r') \<and> load r' q = Some v \<and> mem_grows r r'"
  shows "yields (with_one x f) v"
  unfolding yields_def
proof
  fix r
  obtain p r1 where 1: "x r = Returns (p, r1)" "load r1 p = Some u" "mem_grows r r1" using yields_D [OF x] by blast
  obtain q r2 where "f r1 p = Returns (q, r2)" "load r2 q = Some v" "mem_grows r1 r2" using f [OF 1(2)] by blast
  then show "\<exists>q r'. with_one x f r = Returns (q, r') \<and> load r' q = Some v \<and> mem_grows r r'"
    using 1 mem_grows_trans by (auto simp: with_one_def)
qed

lemma alloc_ex: "\<exists>p r'. alloc_value r v = (p, r') \<and> load r' p = Some v \<and> mem_grows r r'"
  using alloc_value_new by (metis surj_pair)

lemma yields_with_two:
  assumes x: "yields x u" and y: "yields y v"
    and f: "\<And>r p q. load r p = Some u \<Longrightarrow> load r q = Some v \<Longrightarrow> f r p q = Returns (alloc_value r w)"
  shows "yields (with_two x y f) w"
proof -
  have "with_two x y f = with_one x (\<lambda>r p. with_one y (\<lambda>r q. f r p q) r)" by (simp add: with_two_def with_one_def fun_eq_iff)
  moreover have "\<exists>q r'. with_one y (\<lambda>r q. f r p q) r = Returns (q, r') \<and> load r' q = Some w \<and> mem_grows r r'" if p: "load r p = Some u" for r p
  proof -
    obtain q r1 where 1: "y r = Returns (q, r1)" "load r1 q = Some v" "mem_grows r r1" using yields_D [OF y] by blast
    then have "with_one y (\<lambda>r q. f r p q) r = Returns (alloc_value r1 w)" using f load_mem_grows [OF 1(3) p] by (simp add: with_one_def)
    then show ?thesis using alloc_ex [of r1 w] mem_grows_trans [OF 1(3)] by auto
  qed
  ultimately show ?thesis using yields_with_one [OF x] by simp
qed

lemma yields_short_circuit:
  assumes "yields x (VNT_BOOL a)" "yields y (VNT_BOOL b)"
  shows "yields (short_circuit e x y) (VNT_BOOL (if a = e then e else b))"
proof -
  let ?right = "with_one y (\<lambda>r q. and_then (vnt_truth r q) (\<lambda>b. Returns (vnt_bool r b)))"
  have "yields ?right (VNT_BOOL b)"
    by (rule yields_with_one [OF assms(2)]) (simp add: vnt_truth_def vnt_bool_def alloc_ex)
  then show ?thesis unfolding short_circuit_def using assms(1)
    by (elim yields_with_one) (auto simp: vnt_truth_def vnt_bool_def alloc_ex dest: yields_D)
qed

lemma yields_immediate:
  assumes op: "arithmetic_operator op" and x: "yields x (constant_value a)" and y: "yields y (VNT_INT i)"
    and c: "fold_binary d op a (Integer_constant i) = Some c"
  shows "yields (immediate_arithmetic d m op i x y) (constant_value c)"
  unfolding immediate_arithmetic_def
proof (rule yields_with_one [OF x])
  fix r p assume "load r p = Some (constant_value a)"
  moreover obtain z where "a = Integer_constant z" using c by (cases a) auto
  moreover have "machine_arithmetic op z i = Some (integer (constant_value c)) \<and> constant_value c = VNT_INT (integer (constant_value c))"
    using op c calculation(2) by (auto simp: checked_int_def split: if_splits)
  ultimately show "\<exists>q r'. (let slow = and_then (y r) (\<lambda>(q, r). slow_arithmetic d m op r p q) in
      case load r p of Some (VNT_INT x) \<Rightarrow> (case machine_arithmetic op x i of Some z \<Rightarrow> Returns (vnt_int r z) | None \<Rightarrow> slow)
      | _ \<Rightarrow> slow) = Returns (q, r') \<and> load r' q = Some (constant_value c) \<and> mem_grows r r'"
    using alloc_ex [of r "constant_value c"] by (auto simp: vnt_int_def)
qed

section \<open>The table of float literals\<close>

definition told_apart :: "'f doubles \<Rightarrow> 'f set \<Rightarrow> bool" where
  "told_apart d F \<longleftrightarrow> (\<forall>x \<in> F. \<forall>y \<in> F. d_eq d x y \<longrightarrow> x = y)"

fun float_literals :: "'f htree \<Rightarrow> 'f list" where
  "float_literals (HTree i l ts) =
     (case (opcode l, node_value l) of (IR_FLOAT, Floating_value x) \<Rightarrow> [x] | _ \<Rightarrow> []) @ concat (map float_literals ts)"

text \<open>The generator succeeds on every table over \<open>F\<close>, stays in \<open>F\<close>, and its code yields the value.\<close>

definition gen_yields :: "'f set \<Rightarrow> 'f gen \<Rightarrow> 'f vnt_value \<Rightarrow> bool" where
  "gen_yields F g v \<longleftrightarrow>
     (\<forall>table. set table \<subseteq> F \<longrightarrow> (\<exists>code table'. g table = Some (code, table') \<and> set table' \<subseteq> F \<and> yields code v))"

lemma gen_yieldsE:
  assumes "gen_yields F g v" "set table \<subseteq> F"
  obtains code table' where "g table = Some (code, table')" "set table' \<subseteq> F" "yields code v"
  using assms unfolding gen_yields_def by blast

lemma gen_yields_plain: "yields x v \<Longrightarrow> gen_yields F (plain x) v"
  by (simp add: gen_yields_def plain_def)

lemma float_index_Some: "float_index d table x = Some i \<Longrightarrow> i < length table \<and> d_eq d (table ! i) x"
  by (induction table arbitrary: i) (auto split: if_splits)

lemma float_label_entry:
  assumes "told_apart d F" "set table \<subseteq> F" "x \<in> F" "float_label d table x = (i, table')"
  shows "set table' \<subseteq> F \<and> i < length table' \<and> table' ! i = x"
proof (cases "float_index d table x")
  case None
  then show ?thesis using assms by (auto simp: float_label_def)
next
  case (Some j)
  note j = float_index_Some [OF Some]
  then have "table ! j = x" using assms(1-3) nth_mem unfolding told_apart_def by blast
  then show ?thesis using j Some assms(2,4) by (auto simp: float_label_def)
qed

lemma gen_yields_float:
  assumes "told_apart d F" "x \<in> F"
  shows "gen_yields F (emit_float d x) (VNT_FLOAT x)"
  unfolding gen_yields_def
proof (intro allI impI)
  fix table assume t: "set table \<subseteq> F"
  obtain i table' where l: "float_label d table x = (i, table')" by fastforce
  have "yields (\<lambda>r. Returns (vnt_float r x)) (VNT_FLOAT x)" by (rule yields_alloc) (simp add: constructors)
  then show "\<exists>code table'. emit_float d x table = Some (code, table') \<and> set table' \<subseteq> F \<and> yields code (VNT_FLOAT x)"
    using float_label_entry [OF assms(1) t assms(2) l] by (simp add: emit_float_def l)
qed

section \<open>Trees that are folded\<close>

lemma binary_kids:
  assumes "tree_ok (HTree i l ts)" "opcode l = IR_BINARY"
  shows "\<exists>x y. (ts = [x, y] \<or> ts = [y, x]) \<and> role (tree_label x) = EDGE_LEFT \<and> role (tree_label y) = EDGE_RIGHT"
proof -
  let ?rs = "map role (map tree_label ts)"
  have c: "length (filter ((=) EDGE_LEFT) ?rs) = 1" "length (filter ((=) EDGE_RIGHT) ?rs) = 1" "length ts = 2"
    using assms by (simp_all add: shape_ok_def validate_node_shape_def Let_def shape_counts [of "map tree_label ts", simplified])
  obtain x y where ts: "ts = [x, y]" using c(3) by (auto simp: numeral_2_eq_2 length_Suc_conv)
  have "role (tree_label x) = EDGE_LEFT \<and> role (tree_label y) = EDGE_RIGHT \<or> role (tree_label y) = EDGE_LEFT \<and> role (tree_label x) = EDGE_RIGHT"
    using c(1,2) by (auto simp: ts split: if_splits)
  then show ?thesis using ts by blast
qed

lemma unary_kids:
  assumes "tree_ok (HTree i l ts)" "opcode l = IR_UNARY"
  shows "\<exists>x. ts = [x] \<and> role (tree_label x) = EDGE_OPERAND"
proof -
  let ?rs = "map role (map tree_label ts)"
  have c: "length (filter ((=) EDGE_OPERAND) ?rs) = 1" "length ts = 1"
    using assms by (simp_all add: shape_ok_def validate_node_shape_def Let_def shape_counts [of "map tree_label ts", simplified])
  obtain x where ts: "ts = [x]" using c(2) by (auto simp: length_Suc_conv)
  show ?thesis using c(1) by (auto simp: ts split: if_splits)
qed

abbreviation tree_constant :: "'f htree \<Rightarrow> 'f hir_constant option" where
  "tree_constant t \<equiv> node_constant (tree_label t)"

text \<open>How a folded node got its constant: it was a literal, or an operator on folded operands.\<close>

lemma folded_cases:
  assumes ok: "tree_ok (HTree i l ts)" and c: "tree_constant (fold_of d (HTree i l ts)) = Some c"
  obtains "node_constant l = Some c"
  | op x a where "opcode l = IR_UNARY" "operation l = Unary_operation op" "ts = [x]" "role (tree_label x) = EDGE_OPERAND"
      "tree_constant (fold_of d x) = Some a" "fold_unary d op a = Some c"
  | op x y a b where "opcode l = IR_BINARY" "operation l = Binary_operation op" "ts = [x, y] \<or> ts = [y, x]"
      "role (tree_label x) = EDGE_LEFT" "role (tree_label y) = EDGE_RIGHT"
      "tree_constant (fold_of d x) = Some a" "tree_constant (fold_of d y) = Some b" "fold_binary d op a b = Some c"
proof (cases "folded d l (kid_constant (map (fold_of d) ts))")
  case None
  then show ?thesis using c that(1) by (simp add: Let_def o_def)
next
  case (Some e)
  then have e: "e = c" using c by (cases e) (auto simp: Let_def o_def node_constant.simps)
  consider op where "opcode l = IR_UNARY" "operation l = Unary_operation op" | op where "opcode l = IR_BINARY" "operation l = Binary_operation op"
    using Some by (auto simp: folded_def split: opcode.splits operation.splits)
  then show ?thesis
  proof cases
    case u: 1
    obtain x where x: "ts = [x]" "role (tree_label x) = EDGE_OPERAND" using unary_kids [OF ok u(1)] by blast
    then show ?thesis using Some u e that(2) [OF u x]
      by (auto simp: folded_def kid_constant_def kid_with_role_def fold_role bind_eq_Some_conv)
  next
    case b: 2
    obtain x y where xy: "ts = [x, y] \<or> ts = [y, x]" "role (tree_label x) = EDGE_LEFT" "role (tree_label y) = EDGE_RIGHT"
      using binary_kids [OF ok b(1)] by blast
    then show ?thesis using Some b e that(3) [OF b xy]
      by (auto simp: folded_def kid_constant_def kid_with_role_def fold_role bind_eq_Some_conv)
  qed
qed

lemma immediate_operand_constant: "immediate_operand l = Some i \<Longrightarrow> node_constant l = Some (Integer_constant i)"
  by (auto simp: immediate_operand_def node_constant.simps split: opcode.splits hir_value.splits if_splits)

lemma emit_binary_code:
  assumes k: "child EDGE_LEFT ks = Some (ll, left)" "child EDGE_RIGHT ks = Some (rl, right)"
    and g: "left table = Some (x, table1)" "right table1 = Some (y, table2)"
    and x: "yields x (constant_value a)" and y: "yields y (constant_value b)" and b: "\<And>e. node_constant rl = Some e \<Longrightarrow> e = b"
    and c: "fold_binary d op a b = Some c" and d: "converts d m" "0 < stack"
  shows "\<exists>code. emit_binary d m stack op ks table = Some (code, table2) \<and> yields code (constant_value c)"
proof -
  consider "op = BINARY_AND" | "op = BINARY_OR" | "arithmetic_operator op" | "\<not> arithmetic_operator op" "op \<noteq> BINARY_AND" "op \<noteq> BINARY_OR" by blast
  then show ?thesis
  proof cases
    case 1
    then obtain u v where uv: "a = Boolean_constant u" "b = Boolean_constant v" "c = Boolean_constant (u \<and> v)"
      using c by (cases a; cases b) auto
    then show ?thesis using 1 k g yields_short_circuit [of x u y v False] x y by (cases u) (simp_all add: emit_binary_def)
  next
    case 2
    then obtain u v where uv: "a = Boolean_constant u" "b = Boolean_constant v" "c = Boolean_constant (u \<or> v)"
      using c by (cases a; cases b) auto
    then show ?thesis using 2 k g yields_short_circuit [of x u y v True] x y by (cases u) (simp_all add: emit_binary_def)
  next
    case 3
    have two: "yields (with_two x y (guarded_arithmetic d m op)) (constant_value c)"
      unfolding guarded_exact [OF 3] by (rule yields_with_two [OF x y]) (rule slow_arithmetic_constant [OF 3 _ _ c])
    show ?thesis
    proof (cases "immediate_operand rl")
      case None
      then have "emit_binary d m stack op ks table = Some (with_two x y (guarded_arithmetic d m op), table2)" using 3 k g by (auto simp: emit_binary_def)
      then show ?thesis using two by blast
    next
      case (Some i)
      then have "b = Integer_constant i" using b immediate_operand_constant by blast
      then have "yields (immediate_arithmetic d m op i x y) (constant_value c)" using yields_immediate [OF 3 x] y c by simp
      moreover have "emit_binary d m stack op ks table = Some (immediate_arithmetic d m op i x y, table2)" using 3 Some k g by (auto simp: emit_binary_def)
      ultimately show ?thesis by blast
    qed
  next
    case 4
    obtain f where f: "helper d m stack op = Some f" "\<forall>r p q. load r p = Some (constant_value a) \<longrightarrow> load r q = Some (constant_value b) \<longrightarrow>
        f r p q = Returns (alloc_value r (constant_value c))" using helper_constant [OF 4 c d] by blast
    then have "yields (with_two x y f) (constant_value c)" by (intro yields_with_two [OF x y]) auto
    moreover have "emit_binary d m stack op ks table = Some (with_two x y f, table2)" using 4 k g f(1) by (auto simp: emit_binary_def)
    ultimately show ?thesis by blast
  qed
qed

lemma emit_binary_constant:
  assumes k: "child EDGE_LEFT ks = Some (ll, left)" "child EDGE_RIGHT ks = Some (rl, right)"
    and x: "gen_yields F left (constant_value a)" and y: "gen_yields F right (constant_value b)"
    and b: "\<And>e. node_constant rl = Some e \<Longrightarrow> e = b" and c: "fold_binary d op a b = Some c" and d: "converts d m" "0 < stack"
  shows "gen_yields F (emit_binary d m stack op ks) (constant_value c)"
  unfolding gen_yields_def
proof (intro allI impI)
  fix table assume t: "set table \<subseteq> F"
  obtain p table1 where p: "left table = Some (p, table1)" "set table1 \<subseteq> F" "yields p (constant_value a)" by (rule gen_yieldsE [OF x t])
  obtain q table2 where q: "right table1 = Some (q, table2)" "set table2 \<subseteq> F" "yields q (constant_value b)" by (rule gen_yieldsE [OF y p(2)])
  show "\<exists>code table'. emit_binary d m stack op ks table = Some (code, table') \<and> set table' \<subseteq> F \<and> yields code (constant_value c)"
    using emit_binary_code [OF k p(1) q(1) p(3) q(3) b c d] q(2) by blast
qed

lemma fold_literal: "tree_ok t \<Longrightarrow> node_constant (tree_label t) = Some e \<Longrightarrow> tree_constant (fold_of d t) = Some e"
proof -
  assume "node_constant (tree_label t) = Some e"
  moreover obtain i l ts where t: "t = HTree i l ts" by (cases t)
  ultimately have "folded d l child = None" for child
    by (auto simp: folded_def node_constant.simps split: opcode.splits)
  then show ?thesis using \<open>node_constant (tree_label t) = Some e\<close> by (simp add: t Let_def o_def)
qed

lemma emit_literal:
  assumes "node_constant l = Some c" "told_apart d F" "set (float_literals (HTree i l ts)) \<subseteq> F"
  shows "gen_yields F (emit_expr d m stack place call (HTree i l ts)) (constant_value c)"
proof (cases c)
  case (Float_constant x)
  then have l: "opcode l = IR_FLOAT" "node_value l = Floating_value x"
    using assms(1) by (auto simp: node_constant.simps split: opcode.splits hir_value.splits)
  then have "x \<in> F" using assms(3) by simp
  then show ?thesis using gen_yields_float [OF assms(2)] l Float_constant by simp
qed (use assms(1) in \<open>auto simp: node_constant.simps constructors intro!: gen_yields_plain yields_alloc split: opcode.splits hir_value.splits\<close>)

lemma folded_evaluates:
  assumes d: "converts d m" "0 < stack" "told_apart d F"
  shows "tree_ok t \<Longrightarrow> tree_constant (fold_of d t) = Some c \<Longrightarrow> set (float_literals t) \<subseteq> F \<Longrightarrow>
    gen_yields F (emit_expr d m stack place call t) (constant_value c)"
proof (induction t arbitrary: c)
  case (HTree i l ts)
  let ?g = "emit_expr d m stack place call"
  let ?k = "\<lambda>t. (tree_label t, ?g t)"
  have F: "set (float_literals u) \<subseteq> F" if "u \<in> set ts" for u using HTree.prems(3) that by auto
  from HTree.prems(1,2) show ?case
  proof (cases rule: folded_cases)
    case 1
    then show ?thesis by (rule emit_literal [OF _ d(3) HTree.prems(3)])
  next
    case (2 op x a)
    then have x: "gen_yields F (?g x) (constant_value a)" using HTree.IH [of x a] HTree.prems(1) F by auto
    let ?f = "if op = UNARY_DEREFERENCE then vnt_deref else if op = UNARY_NEGATE then vnt_neg d else vnt_not"
    have y: "yields (with_one code ?f) (constant_value c)" if "yields code (constant_value a)" for code
      by (rule yields_with_one [OF that]) (simp add: unary_constant [OF 2(6)] alloc_ex)
    have "op \<noteq> UNARY_REFERENCE" using 2(6) by auto
    then have "?g (HTree i l ts) table = (case ?g x table of None \<Rightarrow> None | Some (code, table') \<Rightarrow> Some (with_one code ?f, table'))" for table
      using 2 by (simp add: emit_unary_def child_def split: option.splits)
    then show ?thesis using x y unfolding gen_yields_def by fastforce
  next
    case (3 op x y a b)
    then have xy: "x \<in> set ts" "y \<in> set ts" by auto
    then have p: "gen_yields F (?g x) (constant_value a)" and q: "gen_yields F (?g y) (constant_value b)" and ok: "tree_ok y"
      using HTree.IH [of x a] HTree.IH [of y b] HTree.prems(1) 3(6,7) F by (auto simp: list_all_iff)
    have "child EDGE_LEFT (map ?k ts) = Some (tree_label x, ?g x)" "child EDGE_RIGHT (map ?k ts) = Some (tree_label y, ?g y)"
      using 3(3,4,5) by (auto simp: child_def)
    then have "gen_yields F (emit_binary d m stack op (map ?k ts)) (constant_value c)"
      using fold_literal [OF ok, of _ d] 3(7) by (intro emit_binary_constant [OF _ _ p q _ 3(8) d(1,2)]) auto
    then show ?thesis using 3(1,2) by simp
  qed
qed

section \<open>Folding agrees with the compiled program\<close>

text \<open>
  The code that is emitted for an expression when the table of float literals is \<open>table\<close> runs without an error from every
  state of the memory, returns a value equal to \<open>v\<close>, and changes nothing else.
\<close>

definition evaluates_to :: "'f gen \<Rightarrow> 'f list \<Rightarrow> 'f vnt_value \<Rightarrow> bool" where
  "evaluates_to g table v \<longleftrightarrow> (\<exists>code table'. g table = Some (code, table') \<and>
     (\<forall>r. \<exists>q r'. code r = Returns (q, r') \<and> load r' q = Some v \<and> mem_grows r r'))"

lemma gen_yields_evaluates: "gen_yields F g v \<Longrightarrow> set table \<subseteq> F \<Longrightarrow> evaluates_to g table v"
  unfolding gen_yields_def evaluates_to_def yields_def by meson

text \<open>
  C28. Constant folding computes what the compiled program computes. For every expression in the node array, the folding pass
  returns, and when the node of the expression carries a constant afterwards, the code emitted for the expression as it was before
  runs without an error from every state of the memory, returns a new value equal to the constant, and changes nothing else; so does
  the code emitted for the expression as it is after the pass. Each time the float literals of the expression and those already in the
  table of \<open>float_label\<close> are assumed to be told apart by \<open>==\<close>, which fails for \<open>0.0\<close> and \<open>-0.0\<close>. The conversion of a nonzero
  integer to \<open>double\<close> is assumed not to be zero, and the C stack to have room for one call.
\<close>

theorem folding_agrees_with_runtime:
  assumes p: "planted ir [t]" and ok: "tree_ok t" and d: "converts d m" "0 < stack"
  shows "\<exists>ir' n' u. hir_fold_node d (node_count ir) (ir, n) (tree_index t) = Some (ir', n') \<and> planted ir' [u] \<and> tree_index u = tree_index t \<and>
    (\<forall>c. hir_constant_at ir' (tree_index t) = Some c \<longrightarrow>
      (told_apart d (set table \<union> set (float_literals t)) \<longrightarrow>
        evaluates_to (emit_expr d m stack place emit_call t) table (constant_value c)) \<and>
      (told_apart d (set table \<union> set (float_literals u)) \<longrightarrow>
        evaluates_to (emit_expr d m stack place emit_call u) table (constant_value c)))"
proof -
  let ?u = "fold_of d t"
  obtain ir' where f: "hir_fold_node d (node_count ir) (ir, n) (tree_index t) = Some (ir', n + fold_count d t)"
    "replants ir [t] ir' [?u]"
    using hir_fold_node_tree [OF planted_nodes [OF p], of d] p unfolding counts_pass_def by blast
  have u: "planted ir' [?u]" "tree_index ?u = tree_index t" using replants_planted [OF f(2)] replants_indices [OF f(2)] by simp_all
  have c: "hir_constant_at ir' (tree_index t) = tree_constant ?u" using constant_at_tree [OF u(1), of ?u] u(2) by simp
  have before: "evaluates_to (emit_expr d m stack place emit_call t) table (constant_value c)"
    if "tree_constant ?u = Some c" "told_apart d (set table \<union> set (float_literals t))" for c
    by (rule gen_yields_evaluates [OF folded_evaluates [OF d that(2) ok that(1)]]) simp_all
  have after: "evaluates_to (emit_expr d m stack place emit_call ?u) table (constant_value c)"
    if "tree_constant ?u = Some c" "told_apart d (set table \<union> set (float_literals ?u))" for c
  proof -
    obtain i l ts where t: "?u = HTree i l ts" by (cases ?u)
    have "gen_yields (set table \<union> set (float_literals ?u)) (emit_expr d m stack place emit_call ?u) (constant_value c)"
      using that unfolding t by (intro emit_literal) auto
    then show ?thesis by (rule gen_yields_evaluates) simp
  qed
  show ?thesis
    by (rule exI [of _ ir'], rule exI [of _ "n + fold_count d t"], rule exI [of _ ?u]) (simp add: f(1) u c before after)
qed

text \<open>\<open>7.0 / 2.0 < 3.0\<close> after an earlier literal \<open>2.0\<close>, with integers in the place of \<open>double\<close>.\<close>

definition whole_lib :: "int double_lib" where
  "whole_lib = \<lparr>of_int64 = id, format_g = decimal_int, f_abs = abs\<rparr>"

definition literal_node :: "edge_role \<Rightarrow> int \<Rightarrow> int hir_node" where
  "literal_node q x = blank_node\<lparr>opcode := IR_FLOAT, role := q, node_value := Floating_value x\<rparr>"

definition binary_node :: "edge_role \<Rightarrow> binary_operator \<Rightarrow> int hir_node" where
  "binary_node q op = blank_node\<lparr>opcode := IR_BINARY, role := q, operation := Binary_operation op\<rparr>"

definition integer_doubles :: "int doubles" where
  "integer_doubles = \<lparr>d_add = (+), d_sub = (-), d_mul = (*), d_div = (sdiv), d_neg = uminus, d_zero = 0,
     d_finite = \<lambda>_. True, d_eq = (=), d_less = (<), d_le = (\<le>)\<rparr>"

definition small_program :: "int hir_program" where
  "small_program = \<lparr>nodes =
     [(binary_node EDGE_VALUE BINARY_LESS)\<lparr>first_child := Some 1, last_child := Some 4, child_count := 2\<rparr>,
      (binary_node EDGE_LEFT BINARY_DIVIDE)\<lparr>first_child := Some 2, last_child := Some 3, next_sibling := Some 4, child_count := 2\<rparr>,
      (literal_node EDGE_LEFT 7)\<lparr>next_sibling := Some 3\<rparr>,
      literal_node EDGE_RIGHT 2,
      literal_node EDGE_RIGHT 3],
     root = 0, optimized_nodes = 0\<rparr>"

definition small_tree :: "int htree" where
  "small_tree = HTree 0 (binary_node EDGE_VALUE BINARY_LESS)
     [HTree 1 (binary_node EDGE_LEFT BINARY_DIVIDE) [HTree 2 (literal_node EDGE_LEFT 7) [], HTree 3 (literal_node EDGE_RIGHT 2) []],
      HTree 4 (literal_node EDGE_RIGHT 3) []]"

theorem folding_agrees_with_runtime_witness:
  "evaluates_to (emit_expr integer_doubles whole_lib 1 (\<lambda>_. None) (\<lambda>_ _ _. None) small_tree) [2] (VNT_BOOL False)"
proof -
  have p: "planted small_program [small_tree]"
    by (simp add: planted_def small_program_def small_tree_def forest_indices_def last_index_def node_label_def
        binary_node_def literal_node_def blank_node_def)
  have ok: "tree_ok small_tree" by code_simp
  have d: "converts integer_doubles whole_lib" by (simp add: converts_def integer_doubles_def whole_lib_def)
  have a: "told_apart integer_doubles F" for F by (simp add: told_apart_def integer_doubles_def)
  have c: "(case hir_fold_node integer_doubles (node_count small_program) (small_program, 0) (tree_index small_tree) of
      Some (ir, _) \<Rightarrow> hir_constant_at ir (tree_index small_tree) | None \<Rightarrow> None) = Some (Boolean_constant False)" by code_simp
  show ?thesis
    using folding_agrees_with_runtime [OF p ok d zero_less_one, of 0 "[2]" "\<lambda>_. None" "\<lambda>_ _ _. None"] c a by (auto split: option.splits)
qed

section \<open>Further properties of the code of expressions\<close>


lemma float_index_find: "map_option ((!) table) (float_index d table x) = find (\<lambda>y. d_eq d y x) table"
  by (induction table) (auto simp: option.map_comp o_def)

text \<open>
  C30. What the code of a float literal yields: the first literal of the program so far that is equal to it by \<open>==\<close>, and
  itself only when there is none. For a \<open>-0.0\<close> that constant folding made and that comes after a \<open>0.0\<close>, this is \<open>0.0\<close>. The entries of
  the table stay as they are.
\<close>

theorem float_literal_value:
  "evaluates_to (emit_float d x) table (VNT_FLOAT (case find (\<lambda>y. d_eq d y x) table of Some y \<Rightarrow> y | None \<Rightarrow> x))
   \<and> (\<exists>code. emit_float d x table = Some (code, table @ (if find (\<lambda>y. d_eq d y x) table = None then [x] else [])))"
  unfolding float_index_find [symmetric]
  by (auto simp: evaluates_to_def emit_float_def float_label_def vnt_float_def alloc_ex split: option.splits)

end
