(* ===== verification/BigIntCorrect.thy ===== *)
theory BigIntCorrect
  imports BigInt
begin

text \<open>
  The results of the big integers against the integers of HOL. \<open>numeral_value\<close> is the
  value of a list of digits, the most significant one first. One lemma covers the loops that fill a number from its
  end with a carry, addition and subtraction; a second one the rows of the product.
\<close>

section \<open>Values of digit lists\<close>

definition horner :: "int list \<Rightarrow> int" where
  "horner = foldl (\<lambda>n x. 10 * n + x) 0"

definition numeral_value :: "string \<Rightarrow> int" where
  "numeral_value s = horner (map digit s)"

definition all_digits :: "string \<Rightarrow> bool" where
  "all_digits s \<longleftrightarrow> (\<forall>c \<in> set s. isdigit c)"

text \<open>A numeral without superfluous zeros.\<close>

definition canonical :: "string \<Rightarrow> bool" where
  "canonical s \<longleftrightarrow> all_digits s \<and> s \<noteq> [] \<and> (hd s = CHR ''0'' \<longrightarrow> s = ''0'')"

lemma horner_Nil [simp]: "horner [] = 0"
  by (simp add: horner_def)

lemma horner_snoc: "horner (xs @ [x]) = 10 * horner xs + x"
  by (simp add: horner_def)

lemma horner_Cons: "horner (x # xs) = x * 10 ^ length xs + horner xs"
proof (induction xs rule: rev_induct)
  case (snoc y xs)
  then show ?case using horner_snoc [of "x # xs" y] by (simp add: horner_snoc)
qed (simp add: horner_def)

lemma horner_update: "p < length xs \<Longrightarrow> horner (xs[p := v]) = horner xs + (v - xs ! p) * 10 ^ (length xs - 1 - p)"
  by (induction xs arbitrary: p) (auto simp: horner_Cons algebra_simps split: nat.splits)

lemma horner_zeros [simp]: "horner (replicate n 0) = 0"
  by (induction n) (simp_all add: horner_Cons)

lemma numeral_value_simps [simp]:
  "numeral_value [] = 0" "numeral_value (c # s) = digit c * 10 ^ length s + numeral_value s"
  "numeral_value (s @ [c]) = 10 * numeral_value s + digit c"
  by (simp_all add: numeral_value_def horner_Cons horner_snoc)

lemma digit_range: "isdigit c \<Longrightarrow> 0 \<le> digit c \<and> digit c \<le> 9"
  by (auto simp: digit_def isdigit_def)

lemma digit_char [simp]:
  assumes "0 \<le> z" "z \<le> 9"
  shows "digit (digit_char z) = z" "isdigit (digit_char z)"
  using assms by (auto simp: digit_def digit_char_def isdigit_def)

lemma digit_char_digit [simp]: "isdigit c \<Longrightarrow> digit_char (digit c) = c"
  by (simp add: digit_def digit_char_def isdigit_def nat_add_distrib)

lemma digit_eq_iff: "isdigit c \<Longrightarrow> isdigit e \<Longrightarrow> digit c = digit e \<longleftrightarrow> c = e"
  by (metis digit_char_digit)

lemma digit_zero: "isdigit c \<Longrightarrow> digit c = 0 \<longleftrightarrow> c = CHR ''0''"
proof -
  assume "isdigit c"
  moreover have "isdigit (CHR ''0'')" "digit (CHR ''0'') = 0" by (simp_all add: isdigit_def digit_def)
  ultimately show ?thesis using digit_eq_iff [of c "CHR ''0''"] by simp
qed

lemma digit_0 [simp]: "digit (CHR ''0'') = 0" "isdigit (CHR ''0'')"
  by (simp_all add: digit_def isdigit_def)

lemma all_digits_simps [simp]:
  "all_digits []" "all_digits (c # s) \<longleftrightarrow> isdigit c \<and> all_digits s" "all_digits (s @ t) \<longleftrightarrow> all_digits s \<and> all_digits t"
  by (auto simp: all_digits_def)

lemma numeral_value_range: "all_digits s \<Longrightarrow> 0 \<le> numeral_value s \<and> numeral_value s < 10 ^ length s"
proof (induction s rule: rev_induct)
  case (snoc c s)
  then show ?case using digit_range [of c] by auto
qed simp

lemma canonical_low:
  assumes "canonical s" "s \<noteq> ''0''"
  shows "10 ^ (length s - 1) \<le> numeral_value s"
proof (cases s)
  case (Cons c t)
  then have "1 \<le> digit c" using assms digit_range [of c] digit_zero [of c] by (force simp: canonical_def)
  then have "1 * (10::int) ^ length t \<le> digit c * 10 ^ length t" by (intro mult_right_mono) simp_all
  moreover have "0 \<le> numeral_value t" using assms Cons numeral_value_range by (simp add: canonical_def)
  moreover have "numeral_value s = digit c * 10 ^ length t + numeral_value t" by (simp add: Cons)
  ultimately have "10 ^ length t \<le> numeral_value s" by linarith
  then show ?thesis by (simp only: Cons list.size diff_add_inverse2 One_nat_def)
qed (use assms in \<open>simp add: canonical_def\<close>)

lemma canonical_zero: "canonical s \<Longrightarrow> numeral_value s = 0 \<longleftrightarrow> s = ''0''"
proof -
  assume c: "canonical s"
  have "0 < numeral_value s" if "s \<noteq> ''0''"
    using canonical_low [OF c that] zero_less_power [of "10::int" "length s - 1"] by linarith
  then show ?thesis by (cases "s = ''0''") auto
qed

lemma skip_zeros_canonical: "all_digits s \<Longrightarrow> s \<noteq> [] \<Longrightarrow> canonical (skip_zeros s) \<and> numeral_value (skip_zeros s) = numeral_value s"
  by (induction s rule: skip_zeros.induct) (auto simp: canonical_def)

lemma decimal_one_digit: "isdigit c \<Longrightarrow> decimal (nat (digit c)) = [c]"
  by (auto simp: decimal.simps digit_def isdigit_def nat_diff_distrib)

lemma decimal_snoc: "isdigit c \<Longrightarrow> 0 < n \<Longrightarrow> decimal (nat (10 * n + digit c)) = decimal (nat n) @ [c]"
proof -
  assume c: "isdigit c" and n: "0 < n"
  note r = digit_range [OF c]
  have "nat (10 * n + digit c) = 10 * nat n + nat (digit c)" using r n by (simp add: nat_add_distrib nat_mult_distrib)
  moreover have "nat (digit c) < 10" using r by linarith
  moreover have "char_of (48 + nat (digit c)) = c" using digit_char_digit [OF c] r by (simp add: digit_char_def nat_add_distrib)
  moreover have "\<not> 10 * nat n + nat (digit c) < 10" using n by linarith
  ultimately show ?thesis by (subst decimal.simps) simp
qed

lemma decimal_canonical: "canonical s \<Longrightarrow> decimal (nat (numeral_value s)) = s"
proof (induction s rule: rev_induct)
  case (snoc c t)
  show ?case
  proof (cases "t = []")
    case True
    then show ?thesis using snoc.prems decimal_one_digit by (simp add: canonical_def)
  next
    case False
    then have t: "canonical t" "t \<noteq> ''0''" using snoc.prems by (auto simp: canonical_def)
    then have "0 < numeral_value t" using canonical_zero [OF t(1)] numeral_value_range [of t] by (auto simp: canonical_def)
    then show ?thesis using snoc t decimal_snoc [of c "numeral_value t"] by (simp add: canonical_def)
  qed
qed (simp add: canonical_def)

section \<open>Comparison of magnitudes\<close>

lemma memcmp_value:
  "length s = length t \<Longrightarrow> all_digits s \<Longrightarrow> all_digits t \<Longrightarrow> memcmp s t = sgn (numeral_value s - numeral_value t)"
proof (induction s t rule: list_induct2)
  case (Cons c s e t)
  have v: "0 \<le> numeral_value s" "numeral_value s < 10 ^ length t" "0 \<le> numeral_value t" "numeral_value t < 10 ^ length t"
    using Cons numeral_value_range [of s] numeral_value_range [of t] by auto
  consider "byte c < byte e" | "byte e < byte c" | "byte c = byte e" by linarith
  then show ?case
  proof cases
    case 1
    then have "(digit c + 1) * 10 ^ length t \<le> digit e * 10 ^ length t" by (intro mult_right_mono) (simp_all add: digit_def)
    then show ?thesis using 1 v Cons.hyps by (simp add: algebra_simps)
  next
    case 2
    then have "(digit e + 1) * 10 ^ length t \<le> digit c * 10 ^ length t" by (intro mult_right_mono) (simp_all add: digit_def)
    then show ?thesis using 2 v Cons.hyps by (simp add: algebra_simps)
  next
    case 3
    then show ?thesis using Cons by (simp add: digit_def)
  qed
qed simp

text \<open>What \<open>vnt_bigint_parse\<close> returns: the magnitude without leading zeros, and sign 0 for zero alone.\<close>

definition bigint_ok :: "bigint \<Rightarrow> bool" where
  "bigint_ok a \<longleftrightarrow> canonical (big_digits a) \<and> big_sign a \<in> {-1, 0, 1} \<and> (big_sign a = 0 \<longleftrightarrow> big_digits a = ''0'')"

definition magnitude :: "bigint \<Rightarrow> int" where
  "magnitude a = numeral_value (big_digits a)"

definition bigint_value :: "bigint \<Rightarrow> int" where
  "bigint_value a = big_sign a * magnitude a"

lemma shorter_less:
  assumes "canonical s" "canonical t" "length s < length t"
  shows "numeral_value s < numeral_value t"
proof -
  have "t \<noteq> ''0''" using assms by (auto simp: canonical_def)
  then have "10 ^ (length t - 1) \<le> numeral_value t" by (rule canonical_low [OF assms(2)])
  moreover have "numeral_value s < 10 ^ length s" using assms(1) numeral_value_range by (simp add: canonical_def)
  moreover have "(10::int) ^ length s \<le> 10 ^ (length t - 1)" using assms(3) by (intro power_increasing) auto
  ultimately show ?thesis by linarith
qed

lemma magcmp_value: "bigint_ok a \<Longrightarrow> bigint_ok b \<Longrightarrow> vnt_bigint_magcmp a b = sgn (magnitude a - magnitude b)"
  using shorter_less [of "big_digits a" "big_digits b"] shorter_less [of "big_digits b" "big_digits a"]
    memcmp_value [of "big_digits a" "big_digits b"]
  by (auto simp: vnt_bigint_magcmp_def bigint_ok_def magnitude_def canonical_def neq_iff)

section \<open>Addition and subtraction\<close>

lemma drop_update_Suc:
  assumes "length out = n" "k < n"
  shows "drop (n - Suc k) (out[n - 1 - k := c]) = c # drop (n - k) out"
proof -
  have "n - Suc k < length (out[n - 1 - k := c])" using assms by simp
  then have "drop (n - Suc k) (out[n - 1 - k := c])
      = out[n - 1 - k := c] ! (n - Suc k) # drop (Suc (n - Suc k)) (out[n - 1 - k := c])"
    by (rule Cons_nth_drop_Suc [symmetric])
  then show ?thesis using assms by (simp add: Suc_diff_Suc)
qed

text \<open>A loop that writes digit \<open>f k c\<close> at weight \<open>10 ^ k\<close> and goes on with carry \<open>g k c\<close>, counted with the factor \<open>w\<close>.\<close>

lemma carry_loop:
  fixes w :: int and f :: "nat \<Rightarrow> int \<Rightarrow> char" and g :: "nat \<Rightarrow> int \<Rightarrow> int"
  assumes "\<And>k c. k < m \<Longrightarrow> c \<in> {0, 1} \<Longrightarrow>
      g k c \<in> {0, 1} \<and> isdigit (f k c) \<and> digit (f k c) + 10 * (w * g k c) = h k + w * c"
    and "m \<le> n"
  shows "\<exists>out c. fold (\<lambda>k (out, c). (out[n - 1 - k := f k c], g k c)) [0..<m] (replicate n NUL, 0) = (out, c)
    \<and> c \<in> {0, 1} \<and> length out = n \<and> all_digits (drop (n - m) out)
    \<and> numeral_value (drop (n - m) out) + w * c * 10 ^ m = (\<Sum>k<m. h k * 10 ^ k)"
  using assms
proof (induction m)
  case (Suc m)
  have "\<exists>out c. fold (\<lambda>k (out, c). (out[n - 1 - k := f k c], g k c)) [0..<m] (replicate n NUL, 0) = (out, c)
      \<and> c \<in> {0, 1} \<and> length out = n \<and> all_digits (drop (n - m) out)
      \<and> numeral_value (drop (n - m) out) + w * c * 10 ^ m = (\<Sum>k<m. h k * 10 ^ k)"
    by (rule Suc.IH) (use Suc.prems in auto)
  then obtain out c where l: "fold (\<lambda>k (out, c). (out[n - 1 - k := f k c], g k c)) [0..<m] (replicate n NUL, 0) = (out, c)"
    and c: "c \<in> {0, 1}" and n: "length out = n" and d: "all_digits (drop (n - m) out)"
    and v: "numeral_value (drop (n - m) out) + w * c * 10 ^ m = (\<Sum>k<m. h k * 10 ^ k)" by blast
  have step: "g m c \<in> {0, 1}" "isdigit (f m c)" "digit (f m c) + 10 * (w * g m c) = h m + w * c"
    using Suc.prems(1) [of m c] c by auto
  have drop: "drop (n - Suc m) (out[n - 1 - m := f m c]) = f m c # drop (n - m) out"
    using drop_update_Suc [OF n] Suc.prems(2) by simp
  have "(digit (f m c) + 10 * (w * g m c)) * 10 ^ m = (h m + w * c) * 10 ^ m" using step(3) by simp
  then have "numeral_value (f m c # drop (n - m) out) + w * g m c * 10 ^ Suc m = (\<Sum>k<Suc m. h k * 10 ^ k)"
    using v n Suc.prems(2) by (simp add: algebra_simps)
  then show ?case using l step n d drop by simp
qed simp

lemma low_digit_Cons: "low_digit (c # s) k = low_digit s k + (if k = length s then digit c else 0)"
  by (auto simp: low_digit_def nth_Cons' Suc_diff_Suc)

lemma sum_low_digits: "length s \<le> m \<Longrightarrow> (\<Sum>k<m. low_digit s k * 10 ^ k) = numeral_value s"
proof (induction s)
  case (Cons c s)
  have "(\<Sum>k<m. low_digit (c # s) k * 10 ^ k)
      = (\<Sum>k<m. low_digit s k * 10 ^ k) + (\<Sum>k<m. if k = length s then digit c * 10 ^ k else 0)"
    unfolding low_digit_Cons sum.distrib [symmetric] by (rule sum.cong) (auto simp: algebra_simps)
  then show ?case using Cons by (simp add: sum.delta)
qed (simp add: low_digit_def)

lemma low_digit_range: "all_digits s \<Longrightarrow> 0 \<le> low_digit s k \<and> low_digit s k \<le> 9"
  using digit_range by (auto simp: low_digit_def all_digits_def)

lemma addmag_value:
  assumes ok: "bigint_ok a" "bigint_ok b" and small: "length (big_digits a) + length (big_digits b) < 2 ^ 61"
  shows "\<exists>ds. vnt_bigint_addmag a b = Returns ds \<and> all_digits ds \<and> ds \<noteq> [] \<and> numeral_value ds = magnitude a + magnitude b
    \<and> length ds \<le> length (big_digits a) + length (big_digits b)"
proof -
  let ?a = "big_digits a" and ?b = "big_digits b"
  let ?m = "max (length ?a) (length ?b)"
  let ?s = "\<lambda>k c. low_digit ?a k + low_digit ?b k + c"
  have d: "all_digits ?a" "all_digits ?b" "?a \<noteq> []" "?b \<noteq> []" using ok by (auto simp: bigint_ok_def canonical_def)
  have step: "?s k c div 10 \<in> {0, 1} \<and> isdigit (digit_char (?s k c mod 10))
      \<and> digit (digit_char (?s k c mod 10)) + 10 * (1 * (?s k c div 10)) = low_digit ?a k + low_digit ?b k + 1 * c"
    if "k < ?m" "c \<in> {0, 1}" for k c
  proof -
    have "0 \<le> ?s k c" "?s k c < 20" using that low_digit_range [OF d(1), of k] low_digit_range [OF d(2), of k] by auto
    then have "0 \<le> ?s k c div 10" "?s k c div 10 < 2" by auto
    moreover have "0 \<le> ?s k c mod 10" "?s k c mod 10 \<le> 9" using pos_mod_bound [of 10 "?s k c"] by auto
    ultimately show ?thesis by auto
  qed
  obtain out c where l: "fold (\<lambda>k (out, c). (out[?m + 1 - 1 - k := digit_char (?s k c mod 10)], ?s k c div 10)) [0..<?m]
      (replicate (?m + 1) NUL, 0) = (out, c)" and c: "c \<in> {0, 1}" "length out = ?m + 1" "all_digits (drop (?m + 1 - ?m) out)"
    and v: "numeral_value (drop (?m + 1 - ?m) out) + 1 * c * 10 ^ ?m = (\<Sum>k<?m. (low_digit ?a k + low_digit ?b k) * 10 ^ k)"
    using carry_loop [where w = 1 and f = "\<lambda>k c. digit_char (?s k c mod 10)" and g = "\<lambda>k c. ?s k c div 10"
        and h = "\<lambda>k. low_digit ?a k + low_digit ?b k", OF step le_add1] by blast
  have out: "out[0 := digit_char c] = digit_char c # drop 1 out" using c(2) by (cases out) auto
  have sum: "numeral_value (drop 1 out) + c * 10 ^ ?m = magnitude a + magnitude b"
    using v sum_low_digits [of ?a ?m] sum_low_digits [of ?b ?m] by (simp add: magnitude_def distrib_right sum.distrib)
  have "add_step ?a ?b (?m + 1) = (\<lambda>k (out, c). (out[?m + 1 - 1 - k := digit_char (?s k c mod 10)], ?s k c div 10))"
    by (auto simp: add_step_def fun_eq_iff Let_def)
  then have "fold (add_step ?a ?b (?m + 1)) [0..<?m + 1 - 1] (replicate (?m + 1) NUL, 0) = (out, c)" using l by (simp only: add_diff_cancel_right')
  then have "vnt_bigint_addmag a b = Returns (drop (if c \<noteq> 0 then 0 else 1) (digit_char c # drop 1 out))"
    unfolding vnt_bigint_addmag_def Let_def using small out by (simp add: UINT64_MAX_def del: replicate_Suc)
  moreover have "1 \<le> length ?a" "1 \<le> length ?b" using d by (auto simp: Suc_leI)
  ultimately show ?thesis using c sum by (auto simp: max_def split: if_splits)
qed

lemma submag_value:
  assumes ok: "bigint_ok a" "bigint_ok b" and le: "magnitude b \<le> magnitude a"
  shows "all_digits (vnt_bigint_submag a b)" "vnt_bigint_submag a b \<noteq> []"
    "numeral_value (vnt_bigint_submag a b) = magnitude a - magnitude b" "length (vnt_bigint_submag a b) \<le> length (big_digits a)"
proof -
  let ?a = "big_digits a" and ?b = "big_digits b"
  let ?n = "length ?a"
  let ?v = "\<lambda>k c. low_digit ?a k - low_digit ?b k - c"
  let ?f = "\<lambda>k c. digit_char (if ?v k c < 0 then ?v k c + 10 else ?v k c)" and ?g = "\<lambda>k c. if ?v k c < 0 then 1 else 0"
  have d: "all_digits ?a" "all_digits ?b" "?a \<noteq> []" and lb: "length ?b \<le> ?n"
    using ok le shorter_less [of ?a ?b] by (auto simp: bigint_ok_def canonical_def magnitude_def not_less [symmetric])
  have step: "?g k c \<in> {0, 1} \<and> isdigit (?f k c) \<and> digit (?f k c) + 10 * (- 1 * ?g k c) = low_digit ?a k - low_digit ?b k + - 1 * c"
    if "k < ?n" "c \<in> {0, 1}" for k c
    using that low_digit_range [OF d(1), of k] low_digit_range [OF d(2), of k] by auto
  obtain out c where l: "fold (\<lambda>k (out, c). (out[?n - 1 - k := ?f k c], ?g k c)) [0..<?n] (replicate ?n NUL, 0) = (out, c)"
    and c: "c \<in> {0, 1}" "length out = ?n" "all_digits (drop (?n - ?n) out)"
    and v: "numeral_value (drop (?n - ?n) out) + - 1 * c * 10 ^ ?n = (\<Sum>k<?n. (low_digit ?a k - low_digit ?b k) * 10 ^ k)"
    using carry_loop [where w = "- 1" and f = ?f and g = ?g and h = "\<lambda>k. low_digit ?a k - low_digit ?b k", OF step order_refl] by blast
  have out: "all_digits out" using c(3) by simp
  have diff: "numeral_value out - c * 10 ^ ?n = magnitude a - magnitude b"
    using v sum_low_digits [of ?a ?n] sum_low_digits [of ?b ?n] lb by (simp add: magnitude_def left_diff_distrib sum_subtractf)
  have "c = 0" using c diff le numeral_value_range [OF out] by auto
  moreover have "sub_step ?a ?b = (\<lambda>k (out, c). (out[?n - 1 - k := ?f k c], ?g k c))"
    by (auto simp: sub_step_def fun_eq_iff Let_def)
  then have "vnt_bigint_submag a b = skip_zeros out" using l by (simp add: vnt_bigint_submag_def Let_def)
  moreover have "out \<noteq> []" using c(2) d(3) by auto
  moreover have "length (skip_zeros out) \<le> length out" by (induction out rule: skip_zeros.induct) auto
  ultimately show "all_digits (vnt_bigint_submag a b)" "vnt_bigint_submag a b \<noteq> []"
    "numeral_value (vnt_bigint_submag a b) = magnitude a - magnitude b" "length (vnt_bigint_submag a b) \<le> length ?a"
    using skip_zeros_canonical [OF out] diff c(2) by (auto simp: canonical_def)
qed

section \<open>Multiplication\<close>

lemma rev_upt_Suc: "rev [1..<Suc n] = map (\<lambda>t. n - t) [0..<n]"
  by (rule nth_equalityI) (auto simp: rev_nth simp del: upt_Suc)

text \<open>An accumulator of decimal digits whose first \<open>i\<close> places and last place are still 0.\<close>

definition acc_ok :: "nat \<Rightarrow> nat \<Rightarrow> int list \<Rightarrow> bool" where
  "acc_ok n i acc \<longleftrightarrow> length acc = Suc n \<and> (\<forall>x \<in> set acc. 0 \<le> x \<and> x \<le> 9) \<and> (\<forall>p < i. acc ! p = 0) \<and> acc ! n = 0"

lemma acc_ok_update:
  assumes "acc_ok n i acc" "0 \<le> x" "x \<le> 9" "p < n" "j \<le> i" "j \<le> p"
  shows "acc_ok n j (acc[p := x])"
  using assms set_update_subset_insert [of acc p x] by (fastforce simp: acc_ok_def)

lemma acc_ok_nth: "acc_ok n i acc \<Longrightarrow> p \<le> n \<Longrightarrow> 0 \<le> acc ! p \<and> acc ! p \<le> 9"
  by (simp add: acc_ok_def)

lemma mul_step_loop:
  assumes i: "0 < i" "i \<le> la" and da: "0 \<le> da" "da \<le> 9" and b: "all_digits b" and ok: "acc_ok (la + length b) i acc0" and t: "t \<le> length b"
  shows "\<exists>acc c. fold (\<lambda>t. mul_step da b i (length b - t)) [0..<t] (acc0, 0) = (acc, c) \<and> acc_ok (la + length b) i acc
    \<and> 0 \<le> c \<and> c \<le> 9
    \<and> horner acc + c * 10 ^ (la - i + 1 + t) = horner acc0 + da * (\<Sum>k<t. low_digit b k * 10 ^ k) * 10 ^ (la - i + 1)"
  using t
proof (induction t)
  case 0
  then show ?case using ok by simp
next
  case (Suc t)
  let ?n = "la + length b"
  define pos where "pos = i + (length b - t) - 1"
  obtain acc c where l: "fold (\<lambda>t. mul_step da b i (length b - t)) [0..<t] (acc0, 0) = (acc, c)" and a: "acc_ok ?n i acc"
    and c: "0 \<le> c" "c \<le> 9"
    and v: "horner acc + c * 10 ^ (la - i + 1 + t) = horner acc0 + da * (\<Sum>k<t. low_digit b k * 10 ^ k) * 10 ^ (la - i + 1)"
    using Suc by auto
  let ?db = "low_digit b t"
  define w where "w = (10 :: int) ^ (la - i + 1 + t)"
  define sum where "sum = acc ! pos + da * ?db + c"
  have pos: "pos < ?n" "i \<le> pos" "?n - pos = la - i + 1 + t" using i Suc.prems by (auto simp: pos_def)
  have db: "digit (b ! (length b - t - 1)) = ?db" "0 \<le> ?db" "?db \<le> 9"
    using Suc.prems low_digit_range [OF b, of t] by (simp_all add: low_digit_def diff_commute)
  have "da * ?db \<le> 9 * 9" using da db by (intro mult_mono) auto
  moreover have "0 \<le> da * ?db" using da db by simp
  ultimately have s: "0 \<le> sum" "sum \<le> 99" using c acc_ok_nth [OF a, of pos] pos by (auto simp: sum_def)
  have step: "mul_step da b i (length b - t) (acc, c) = (acc[pos := sum mod 10], sum div 10)"
    using db by (simp add: mul_step_def Let_def sum_def pos_def)
  have "horner (acc[pos := sum mod 10]) = horner acc + (sum mod 10 - acc ! pos) * w"
    using horner_update [of pos acc "sum mod 10"] a pos by (simp add: acc_ok_def w_def)
  moreover have "(sum mod 10 - acc ! pos) * w + (sum div 10) * (10 * w) = (sum mod 10 + 10 * (sum div 10) - acc ! pos) * w"
    by (simp only: algebra_simps)
  moreover have "sum mod 10 + 10 * (sum div 10) - acc ! pos = da * ?db + c" unfolding mod_mult_div_eq by (simp add: sum_def)
  ultimately have "horner (acc[pos := sum mod 10]) + (sum div 10) * (10 * w) = horner acc + c * w + da * ?db * w"
    by (simp add: distrib_right)
  also have "\<dots> = horner acc0 + da * (\<Sum>k<Suc t. low_digit b k * 10 ^ k) * 10 ^ (la - i + 1)"
    unfolding w_def v by (simp add: algebra_simps power_add)
  finally have "horner (acc[pos := sum mod 10]) + (sum div 10) * 10 ^ (la - i + 1 + Suc t)
      = horner acc0 + da * (\<Sum>k<Suc t. low_digit b k * 10 ^ k) * 10 ^ (la - i + 1)" by (simp add: w_def)
  moreover have "acc_ok ?n i (acc[pos := sum mod 10])" using a pos by (intro acc_ok_update [OF a]) auto
  moreover have "0 \<le> sum div 10" "sum div 10 \<le> 9" using s by auto
  ultimately show ?case using l step by simp
qed

lemma mul_row_value:
  assumes i: "0 < i" "i \<le> length a" and d: "all_digits a" "all_digits b" and ok: "acc_ok (length a + length b) i acc"
  shows "acc_ok (length a + length b) (i - 1) (mul_row a b i acc)"
    "horner (mul_row a b i acc) = horner acc + digit (a ! (i - 1)) * numeral_value b * 10 ^ (length a - i + 1)"
proof -
  let ?da = "digit (a ! (i - 1))" and ?n = "length a + length b"
  have da: "0 \<le> ?da" "?da \<le> 9" using i d(1) digit_range by (auto simp: all_digits_def)
  obtain acc1 c where l: "fold (\<lambda>t. mul_step ?da b i (length b - t)) [0..<length b] (acc, 0) = (acc1, c)"
    and a: "acc_ok ?n i acc1" and c: "0 \<le> c" "c \<le> 9"
    and v: "horner acc1 + c * 10 ^ (length a - i + 1 + length b) = horner acc + ?da * numeral_value b * 10 ^ (length a - i + 1)"
    using mul_step_loop [OF i da d(2) ok order_refl] unfolding sum_low_digits [OF order_refl] by blast
  have row: "mul_row a b i acc = acc1[i - 1 := c]"
    unfolding mul_row_def rev_upt_Suc fold_map o_def l using a i by (simp add: acc_ok_def)
  show "acc_ok ?n (i - 1) (mul_row a b i acc)" unfolding row using i c by (intro acc_ok_update [OF a]) auto
  have "i - 1 < length acc1" "acc1 ! (i - 1) = 0" "length acc1 - 1 - (i - 1) = length a - i + 1 + length b"
    using a i by (auto simp: acc_ok_def)
  then show "horner (mul_row a b i acc) = horner acc + ?da * numeral_value b * 10 ^ (length a - i + 1)"
    unfolding row horner_update [OF \<open>i - 1 < length acc1\<close>] using v by simp
qed

lemma mul_rows:
  assumes d: "all_digits a" "all_digits b" and u: "u \<le> length a"
  shows "\<exists>acc. fold (\<lambda>t. mul_row a b (length a - t)) [0..<u] (replicate (Suc (length a + length b)) 0) = acc
    \<and> acc_ok (length a + length b) (length a - u) acc \<and> horner acc = 10 * numeral_value b * (\<Sum>k<u. low_digit a k * 10 ^ k)"
  using u
proof (induction u)
  case 0
  show ?case by (auto simp del: replicate_Suc simp: acc_ok_def)
next
  case (Suc u)
  then obtain acc where l: "fold (\<lambda>t. mul_row a b (length a - t)) [0..<u] (replicate (Suc (length a + length b)) 0) = acc"
    and a: "acc_ok (length a + length b) (length a - u) acc" and v: "horner acc = 10 * numeral_value b * (\<Sum>k<u. low_digit a k * 10 ^ k)" by auto
  have i: "0 < length a - u" "length a - u \<le> length a" "length a - (length a - u) + 1 = Suc u" using Suc.prems by auto
  have "digit (a ! (length a - u - 1)) = low_digit a u" using Suc.prems by (simp add: low_digit_def diff_commute)
  then have "horner (mul_row a b (length a - u) acc) = 10 * numeral_value b * (\<Sum>k<Suc u. low_digit a k * 10 ^ k)"
    using mul_row_value(2) [OF i(1,2) d a] i(3) v by (simp add: algebra_simps)
  then show ?case using l mul_row_value(1) [OF i(1,2) d a] by (simp del: replicate_Suc)
qed

lemma mul_digits_value:
  assumes d: "all_digits a" "all_digits b"
  shows "all_digits (mul_digits a b)" "numeral_value (mul_digits a b) = numeral_value a * numeral_value b"
    "length (mul_digits a b) = length a + length b"
proof -
  let ?n = "length a + length b"
  obtain acc where l: "fold (\<lambda>t. mul_row a b (length a - t)) [0..<length a] (replicate (Suc ?n) 0) = acc"
    and a: "acc_ok ?n 0 acc" and v: "horner acc = 10 * numeral_value b * numeral_value a"
    using mul_rows [OF d order_refl] sum_low_digits [of a "length a"] by auto
  have m: "mul_digits a b = map (\<lambda>i. digit_char (acc ! i)) [0..<?n]"
    unfolding mul_digits_def rev_upt_Suc fold_map o_def Let_def Suc_eq_plus1 [symmetric] l by simp
  show "length (mul_digits a b) = ?n" by (simp add: m)
  show "all_digits (mul_digits a b)" using acc_ok_nth [OF a] by (auto simp: m all_digits_def)
  have "map digit (mul_digits a b) = take ?n acc"
    using acc_ok_nth [OF a] a by (intro nth_equalityI) (auto simp: m acc_ok_def)
  moreover have "acc = take ?n acc @ [acc ! ?n]" using a by (metis acc_ok_def lessI take_Suc_conv_app_nth take_all order_refl)
  then have "horner acc = 10 * horner (take ?n acc)" using a horner_snoc [of "take ?n acc" "acc ! ?n"] by (simp add: acc_ok_def)
  ultimately show "numeral_value (mul_digits a b) = numeral_value a * numeral_value b" using v by (simp add: numeral_value_def mult.commute)
qed

section \<open>Whole operations\<close>

text \<open>The integer a text stands for: a sign or none, then digits and nothing else.\<close>

definition signed_decimal :: "string \<Rightarrow> int option" where
  "signed_decimal s =
     (let negative = (take 1 s = ''-''); t = (if take 1 s = ''-'' \<or> take 1 s = ''+'' then drop 1 s else s) in
      if t \<noteq> [] \<and> list_all isdigit t then Some ((if negative then - 1 else 1) * numeral_value t) else None)"

lemma takeWhile_digits: "dropWhile isdigit t = [] \<longleftrightarrow> all_digits t"
  by (auto simp: dropWhile_eq_Nil_conv all_digits_def)

lemma skip_zeros_length: "length (skip_zeros s) \<le> length s"
  by (induction s rule: skip_zeros.induct) auto

lemma bigint_of_digits:
  assumes "all_digits t" "t \<noteq> []" "sign \<in> {-1, 1}"
  shows "bigint_ok \<lparr>big_sign = (if skip_zeros t = ''0'' then 0 else sign), big_digits = skip_zeros t\<rparr>"
    "bigint_value \<lparr>big_sign = (if skip_zeros t = ''0'' then 0 else sign), big_digits = skip_zeros t\<rparr> = sign * numeral_value t"
  using skip_zeros_canonical [OF assms(1,2)] assms(3) canonical_zero [of "skip_zeros t"]
  by (auto simp: bigint_ok_def bigint_value_def magnitude_def)

text \<open>The sign and the text behind it.\<close>

definition split_sign :: "string \<Rightarrow> int \<times> string" where
  "split_sign s = (if take 1 s = ''-'' then (-1, drop 1 s) else if take 1 s = ''+'' then (1, drop 1 s) else (1, s))"

lemma split_sign_cases:
  "(case s of [] \<Rightarrow> (1, s) | c # cs \<Rightarrow> if c = CHR ''-'' then (-1, cs) else if c = CHR ''+'' then (1, cs) else (1, s)) = split_sign s"
  by (cases s) (simp_all add: split_sign_def)

lemma signed_decimal_split:
  "signed_decimal s = (let (sign, t) = split_sign s in if all_digits t \<and> t \<noteq> [] then Some (sign * numeral_value t) else None)"
  by (cases s) (auto simp: signed_decimal_def split_sign_def Let_def all_digits_def list_all_iff)

lemma parse_unfold:
  assumes "load r p = Some (VNT_STRING s)" "split_sign s = (sign, t)"
  shows "vnt_bigint_parse r p fn = (if all_digits t \<and> t \<noteq> []
    then Returns \<lparr>big_sign = (if skip_zeros t = ''0'' then 0 else sign), big_digits = skip_zeros t\<rparr> else vnt_bigint_fail)"
proof -
  have "takeWhile isdigit t = [] \<or> dropWhile isdigit t \<noteq> [] \<longleftrightarrow> \<not> (all_digits t \<and> t \<noteq> [])"
    using takeWhile_digits [of t] takeWhile_dropWhile_id [of isdigit t] by (cases t) auto
  then show ?thesis using assms by (simp add: vnt_bigint_parse_def vnt_app_string_def split_sign_cases Let_def)
qed

lemma parse_value:
  assumes "load r p = Some (VNT_STRING s)" "signed_decimal s = Some x"
  shows "\<exists>a. vnt_bigint_parse r p fn = Returns a \<and> bigint_ok a \<and> bigint_value a = x \<and> length (big_digits a) \<le> length s"
proof -
  obtain sign t where t: "split_sign s = (sign, t)" by fastforce
  then have d: "all_digits t" "t \<noteq> []" "x = sign * numeral_value t"
    using assms(2) by (auto simp: signed_decimal_split split: if_splits)
  have "sign \<in> {-1, 1}" "length t \<le> length s" using t by (auto simp: split_sign_def split: if_splits)
  then show ?thesis using parse_unfold [OF assms(1) t] bigint_of_digits [OF d(1,2)] d skip_zeros_length [of t] by auto
qed

lemma parse_fails:
  assumes "load r p = Some (VNT_STRING s)" "signed_decimal s = None"
  shows "vnt_bigint_parse r p fn = vnt_bigint_fail"
proof -
  obtain sign t where t: "split_sign s = (sign, t)" by fastforce
  then show ?thesis using parse_unfold [OF assms(1) t] assms(2) by (auto simp: signed_decimal_split split: if_splits)
qed

text \<open>Digits and a sign as they go to \<open>vnt_bigint_format\<close>.\<close>

definition denotes :: "string \<times> int \<Rightarrow> nat \<Rightarrow> int \<Rightarrow> bool" where
  "denotes = (\<lambda>(ds, sign) n z. all_digits ds \<and> ds \<noteq> [] \<and> length ds \<le> n \<and> sign \<in> {-1, 0, 1}
     \<and> (sign = 0 \<longrightarrow> numeral_value ds = 0) \<and> z = sign * numeral_value ds)"

lemma format_denotes:
  assumes "denotes (ds, sign) n z" "n < 2 ^ 61"
  shows "vnt_bigint_format sign ds = Returns (decimal_int z)"
proof -
  have a: "all_digits ds" "ds \<noteq> []" "length ds < 2 ^ 61" "sign \<in> {-1, 0, 1}" "sign = 0 \<longrightarrow> numeral_value ds = 0" "z = sign * numeral_value ds"
    using assms by (auto simp: denotes_def)
  note k = skip_zeros_canonical [OF a(1,2)]
  have "decimal (nat (numeral_value ds)) = skip_zeros ds" using k decimal_canonical [of "skip_zeros ds"] by simp
  moreover have "numeral_value ds = 0 \<longleftrightarrow> skip_zeros ds = ''0''" using k canonical_zero by metis
  moreover have "0 \<le> numeral_value ds" using numeral_value_range [OF a(1)] by simp
  moreover have "\<not> int (length (skip_zeros ds)) > SIZE_MAX - 2" using a(3) skip_zeros_length [of ds] by (simp add: UINT64_MAX_def)
  ultimately show ?thesis using a(4,5,6) by (auto simp: vnt_bigint_format_def decimal_int_def Let_def)
qed

lemma multiply_denotes:
  assumes "bigint_ok a" "bigint_ok b" "length (big_digits a) + length (big_digits b) \<le> n" "n < 2 ^ 61"
  shows "\<exists>x. multiply_bigints a b = Returns x \<and> denotes x n (bigint_value a * bigint_value b)"
proof (cases "big_sign a = 0 \<or> big_sign b = 0")
  case True
  moreover have "1 \<le> length (big_digits a)" using assms(1) by (auto simp: bigint_ok_def canonical_def Suc_le_eq)
  ultimately show ?thesis using assms(3) by (auto simp: multiply_bigints_def denotes_def bigint_value_def)
next
  case False
  let ?a = "big_digits a" and ?b = "big_digits b"
  have d: "all_digits ?a" "all_digits ?b" "?a \<noteq> []" using assms(1,2) by (auto simp: bigint_ok_def canonical_def)
  have "multiply_bigints a b = Returns (mul_digits ?a ?b, big_sign a * big_sign b)"
    using False assms(3,4) by (simp add: multiply_bigints_def UINT64_MAX_def)
  moreover have "mul_digits ?a ?b \<noteq> []" using mul_digits_value(3) [OF d(1,2)] d(3) by auto
  ultimately show ?thesis using mul_digits_value [OF d(1,2)] assms False
    by (auto simp: denotes_def bigint_value_def magnitude_def bigint_ok_def)
qed

lemma magnitude_nonneg: "bigint_ok a \<Longrightarrow> 0 \<le> magnitude a"
  using numeral_value_range by (auto simp: bigint_ok_def canonical_def magnitude_def)

lemma add_denotes:
  assumes ok: "bigint_ok a" "bigint_ok b" and n: "length (big_digits a) + length (big_digits b) \<le> n" "n < 2 ^ 61"
    and s: "bsign = big_sign b \<or> bsign = - big_sign b"
  shows "\<exists>x. add_bigints a b bsign = Returns x \<and> denotes x n (bigint_value a + bsign * magnitude b)"
proof -
  let ?a = "big_digits a" and ?b = "big_digits b"
  have d: "all_digits ?a" "all_digits ?b" "?a \<noteq> []" "?b \<noteq> []" using ok by (auto simp: bigint_ok_def canonical_def)
  have ss: "big_sign a \<in> {-1, 0, 1}" "bsign \<in> {-1, 0, 1}" using ok s by (auto simp: bigint_ok_def)
  have z: "big_sign a = 0 \<Longrightarrow> magnitude a = 0" "bsign = 0 \<Longrightarrow> magnitude b = 0"
    using ok s by (auto simp: bigint_ok_def magnitude_def)
  have "0 < length ?a" using d(3) by simp
  then have l: "1 \<le> n" "length ?a \<le> n" "length ?b \<le> n" using n(1) by linarith+
  have "big_sign a = 0 \<or> bsign = 0 \<or> bsign = big_sign a \<or> bsign = - big_sign a" using ss by (elim insertE emptyE) simp_all
  then consider "big_sign a = 0" | "big_sign a \<noteq> 0" "bsign = 0" | "big_sign a \<noteq> 0" "bsign = big_sign a" | "big_sign a \<noteq> 0" "bsign = - big_sign a"
    by blast
  then show ?thesis
  proof cases
    case 1
    then show ?thesis using d z ss l by (auto simp: add_bigints_def denotes_def bigint_value_def magnitude_def)
  next
    case 2
    then show ?thesis using d z ss l by (auto simp: add_bigints_def denotes_def bigint_value_def magnitude_def)
  next
    case 3
    obtain ds where "vnt_bigint_addmag a b = Returns ds" "all_digits ds" "ds \<noteq> []" "numeral_value ds = magnitude a + magnitude b"
      "length ds \<le> length ?a + length ?b" using addmag_value [OF ok] n by auto
    then show ?thesis using 3 ss n by (auto simp: add_bigints_def denotes_def bigint_value_def distrib_left)
  next
    case 4
    consider "magnitude a = magnitude b" | "magnitude a > magnitude b" | "magnitude a < magnitude b" by linarith
    then show ?thesis
    proof cases
      case 1
      then show ?thesis using 4 l magcmp_value [OF ok] by (simp add: add_bigints_def denotes_def bigint_value_def)
    next
      case 2
      then show ?thesis using 4 ss l magcmp_value [OF ok] submag_value [OF ok]
        by (auto simp: add_bigints_def denotes_def bigint_value_def Let_def algebra_simps)
    next
      case 3
      then show ?thesis using 4 ss l magcmp_value [OF ok] submag_value [OF ok(2,1)]
        by (auto simp: add_bigints_def denotes_def bigint_value_def Let_def algebra_simps)
    qed
  qed
qed

lemma compare_value: "bigint_ok a \<Longrightarrow> bigint_ok b \<Longrightarrow> compare_bigints a b = sgn (bigint_value a - bigint_value b)"
proof -
  assume ok: "bigint_ok a" "bigint_ok b"
  have p: "big_sign a \<noteq> 0 \<Longrightarrow> 0 < magnitude a" "big_sign b \<noteq> 0 \<Longrightarrow> 0 < magnitude b"
    using ok magnitude_nonneg [of a] magnitude_nonneg [of b] canonical_zero by (auto simp: bigint_ok_def magnitude_def less_le)
  have "big_sign a = -1 \<or> big_sign a = 0 \<or> big_sign a = 1" "big_sign b = -1 \<or> big_sign b = 0 \<or> big_sign b = 1"
    using ok by (auto simp: bigint_ok_def)
  then show ?thesis using p magcmp_value [OF ok]
    by (elim disjE) (simp_all add: compare_bigints_def bigint_value_def sgn_if)
qed

lemma sign_of_sgn: "(if sgn x < 0 then - 1 else if sgn x > 0 then 1 else 0) = sgn (x :: int)"
  by (simp add: sgn_if)

text \<open>
  C34. On texts of decimal digits with an optional sign, of any length that fits into memory, \<open>vnt_bigint_add\<close>, \<open>vnt_bigint_sub\<close>
  and \<open>vnt_bigint_mul\<close> return a new string with the decimal text of the exact result, without leading zeros
  and with a minus sign only below zero, and \<open>vnt_bigint_compare\<close> returns the sign of the difference. On any
  other text all four end the program with the message of \<open>vnt_bigint_fail\<close>.
\<close>

theorem bigint_arithmetic:
  assumes a: "load r a = Some (VNT_STRING s)" and b: "load r b = Some (VNT_STRING t)" and size: "length s + length t < 2 ^ 61"
  shows "case (signed_decimal s, signed_decimal t) of
      (Some x, Some y) \<Rightarrow>
        vnt_bigint_add r a b = Returns (vnt_string r (Some (decimal_int (x + y)))) \<and>
        vnt_bigint_sub r a b = Returns (vnt_string r (Some (decimal_int (x - y)))) \<and>
        vnt_bigint_mul r a b = Returns (vnt_string r (Some (decimal_int (x * y)))) \<and>
        vnt_bigint_compare r a b = Returns (vnt_int r (sgn (x - y)))
    | _ \<Rightarrow> \<forall>f \<in> {vnt_bigint_add, vnt_bigint_sub, vnt_bigint_mul, vnt_bigint_compare}. f r a b = vnt_bigint_fail"
proof (cases "signed_decimal s")
  case None
  then show ?thesis using parse_fails [OF a None]
    by (auto simp: vnt_bigint_add_def vnt_bigint_sub_def vnt_bigint_mul_def vnt_bigint_compare_def vnt_bigint_binary_def
        vnt_bigint_fail_def runtime_error_escaped_def)
next
  case x: (Some x)
  then obtain m where m: "vnt_bigint_parse r a ''bigint operation'' = Returns m" "bigint_ok m" "bigint_value m = x"
    "length (big_digits m) \<le> length s" using parse_value [OF a x] by blast
  show ?thesis
  proof (cases "signed_decimal t")
    case None
    then show ?thesis using parse_fails [OF b None] m(1) x
      by (auto simp: vnt_bigint_add_def vnt_bigint_sub_def vnt_bigint_mul_def vnt_bigint_compare_def vnt_bigint_binary_def
          vnt_bigint_fail_def runtime_error_escaped_def)
  next
    case y: (Some y)
    then obtain n where n: "vnt_bigint_parse r b ''bigint operation'' = Returns n" "bigint_ok n" "bigint_value n = y"
      "length (big_digits n) \<le> length t" using parse_value [OF b y] by blast
    have l: "length (big_digits m) + length (big_digits n) \<le> length s + length t" using m(4) n(4) by simp
    note parsed = vnt_bigint_binary_def m(1) n(1)
    show ?thesis
      using add_denotes [OF m(2) n(2) l size, of "big_sign n"] add_denotes [OF m(2) n(2) l size, of "- big_sign n"]
        multiply_denotes [OF m(2) n(2) l size] format_denotes [OF _ size] compare_value [OF m(2) n(2)] m(3) n(3) x y
      by (auto simp: vnt_bigint_add_def vnt_bigint_sub_def vnt_bigint_mul_def vnt_bigint_compare_def parsed sign_of_sgn
          bigint_value_def [of n, symmetric] Let_def)
  qed
qed

definition two_numbers :: "unit runtime" where
  "two_numbers = \<lparr>cells = [VNT_STRING ''-99999999999999999999'', VNT_STRING ''+0012''], slots = [], printed = ''''\<rparr>"

theorem bigint_arithmetic_witness:
  "vnt_bigint_add two_numbers (Some 0) (Some 1) = Returns (vnt_string two_numbers (Some ''-99999999999999999987'')) \<and>
   vnt_bigint_mul two_numbers (Some 0) (Some 1) = Returns (vnt_string two_numbers (Some ''-1199999999999999999988'')) \<and>
   vnt_bigint_compare two_numbers (Some 0) (Some 1) = Returns (vnt_int two_numbers (-1))"
proof -
  have "signed_decimal ''-99999999999999999999'' = Some (-99999999999999999999)" "signed_decimal ''+0012'' = Some 12" by code_simp+
  moreover have "decimal_int (-99999999999999999987) = ''-99999999999999999987''" "decimal_int (-1199999999999999999988) = ''-1199999999999999999988''"
    by (simp_all add: decimal_int_def decimal.simps char_of_def bit_0)
  ultimately show ?thesis
    using bigint_arithmetic [of two_numbers "Some 0" "''-99999999999999999999''" "Some 1" "''+0012''"] by (simp add: two_numbers_def load_def)
qed

end
