(* ===== verification/RuntimeText.thy ===== *)
theory RuntimeText
  imports BigInt
begin

text \<open>
  Texts in the runtime: the UTF-8 helpers and the comparison that does not depend on where two texts differ, of
  \<open>src/compiler/native_runtime.c\<close>. A pointer into a text is the rest of the text from there on; its end is the NUL
  byte. \<open>utf8_units\<close> is the text cut as the helpers cut it; \<open>utf8_encode\<close> is the encoding of the standard, against which the cut is
  checked.
\<close>

unbundle bit_operations_syntax

section \<open>UTF-8\<close>

definition byte_at :: "string \<Rightarrow> nat \<Rightarrow> nat" where
  "byte_at s i = (if i < length s then byte (s ! i) else 0)"

definition continuation :: "nat \<Rightarrow> bool" where
  "continuation b \<longleftrightarrow> b \<noteq> 0 \<and> b AND 0xC0 = 0x80"

definition vnt_utf8_unit :: "string \<Rightarrow> nat" where
  "vnt_utf8_unit s =
     (let p = byte_at s in
      if p 0 < 0x80 then 1
      else if 0xC2 \<le> p 0 \<and> p 0 \<le> 0xDF \<and> continuation (p 1) then 2
      else if 0xE0 \<le> p 0 \<and> p 0 \<le> 0xEF \<and> continuation (p 1) \<and> continuation (p 2)
        \<and> \<not> (p 0 = 0xE0 \<and> p 1 < 0xA0) \<and> \<not> (p 0 = 0xED \<and> p 1 \<ge> 0xA0) then 3
      else if 0xF0 \<le> p 0 \<and> p 0 \<le> 0xF4 \<and> continuation (p 1) \<and> continuation (p 2) \<and> continuation (p 3)
        \<and> \<not> (p 0 = 0xF0 \<and> p 1 < 0x90) \<and> \<not> (p 0 = 0xF4 \<and> p 1 \<ge> 0x90) then 4
      else 1)"

lemma utf8_unit_pos: "0 < vnt_utf8_unit s"
  by (simp add: vnt_utf8_unit_def Let_def)

lemma continuation_inside: "continuation (byte_at s i) \<Longrightarrow> i < length s"
  by (auto simp: continuation_def byte_at_def split: if_splits)

lemma utf8_unit_inside: "s \<noteq> [] \<Longrightarrow> vnt_utf8_unit s \<le> length s"
proof -
  assume "s \<noteq> []"
  then have "1 \<le> length s" by (simp add: Suc_le_eq)
  moreover have "continuation (byte_at s 1) \<Longrightarrow> 2 \<le> length s" "continuation (byte_at s 2) \<Longrightarrow> 3 \<le> length s"
    "continuation (byte_at s 3) \<Longrightarrow> 4 \<le> length s"
    using continuation_inside [of s 1] continuation_inside [of s 2] continuation_inside [of s 3] by linarith+
  ultimately show ?thesis unfolding vnt_utf8_unit_def Let_def by (auto split: if_split)
qed

function utf8_count :: "string \<Rightarrow> int \<Rightarrow> int" where
  "utf8_count s count =
     (if s = [] then count
      else if count = INT64_MAX then count
      else utf8_count (drop (vnt_utf8_unit s) s) (count + 1))"
  by pat_completeness auto
termination by (relation "measure (\<lambda>(s, _). length s)") (use utf8_unit_pos in auto)

declare utf8_count.simps [simp del]

definition vnt_utf8_len :: "'f runtime \<Rightarrow> pointer \<Rightarrow> (pointer \<times> 'f runtime) effect" where
  "vnt_utf8_len r p = and_then (vnt_app_string r p ''utf8_len()'') (\<lambda>s. Returns (vnt_int r (utf8_count s 0)))"

text \<open>A loop over at most \<open>n\<close> units: the bytes it walked over, and the final \<open>index\<close>.\<close>

fun utf8_walk :: "nat \<Rightarrow> string \<Rightarrow> nat \<times> nat" where
  "utf8_walk 0 s = (0, 0)"
| "utf8_walk (Suc n) s =
     (if s = [] then (0, 0)
      else let (bytes, index) = utf8_walk n (drop (vnt_utf8_unit s) s) in (vnt_utf8_unit s + bytes, Suc index))"

definition vnt_utf8_slice :: "'f runtime \<Rightarrow> pointer \<Rightarrow> pointer \<Rightarrow> pointer \<Rightarrow> (pointer \<times> 'f runtime) effect" where
  "vnt_utf8_slice r p start_value count_value = and_then (vnt_app_string r p ''utf8_slice()'') (\<lambda>source.
     case (load r start_value, load r count_value) of
       (Some (VNT_INT i), Some (VNT_INT n)) \<Rightarrow>
         if i < 0 \<or> n < 0 then runtime_error_escaped ''utf8_slice() expects non-negative integer start and count.''
         else
           let start = nat i; count = nat n; (byte_begin, index) = utf8_walk start source in
           if index < start then Returns (vnt_string r (Some ''''))
           else
             let (_, index) = utf8_walk count source;
               (bytes, _) = utf8_walk index (drop byte_begin source) in
             Returns (vnt_string r (Some (take bytes (drop byte_begin source))))
     | _ \<Rightarrow> runtime_error_escaped ''utf8_slice() expects non-negative integer start and count.'')"

section \<open>Slices are made of whole units\<close>

function utf8_units :: "string \<Rightarrow> string list" where
  "utf8_units s = (if s = [] then [] else take (vnt_utf8_unit s) s # utf8_units (drop (vnt_utf8_unit s) s))"
  by pat_completeness auto
termination by (relation "measure length") (use utf8_unit_pos in auto)

declare utf8_units.simps [simp del]

lemma utf8_units_Nil [simp]: "utf8_units [] = []"
  by (simp add: utf8_units.simps)

lemma concat_utf8_units: "concat (utf8_units s) = s"
  by (induction s rule: utf8_units.induct) (subst utf8_units.simps, simp)

lemma utf8_count_units: "int (length s) + n \<le> INT64_MAX \<Longrightarrow> utf8_count s n = n + int (length (utf8_units s))"
proof (induction s n rule: utf8_count.induct)
  case (1 s n)
  show ?case
  proof (cases "s = []")
    case True
    then show ?thesis by (simp add: utf8_count.simps)
  next
    case False
    then have "n \<noteq> INT64_MAX" "int (length (drop (vnt_utf8_unit s) s)) + (n + 1) \<le> INT64_MAX"
      using 1(2) utf8_unit_pos [of s] utf8_unit_inside [of s] by auto
    then show ?thesis using 1(1) False by (subst utf8_count.simps, subst utf8_units.simps) simp
  qed
qed

lemma utf8_walk_units: "utf8_walk n s = (length (concat (take n (utf8_units s))), min n (length (utf8_units s)))"
proof (induction n s rule: utf8_walk.induct)
  case (2 n s)
  then show ?case using utf8_unit_inside [of s] by (cases "s = []") (simp_all add: utf8_units.simps [of s] min_def)
qed simp

lemma utf8_units_drop: "utf8_units (drop (length (concat (take n (utf8_units s)))) s) = drop n (utf8_units s)"
proof (induction n s rule: utf8_walk.induct)
  case (2 n s)
  show ?case
  proof (cases "s = []")
    case False
    then have "utf8_units s = take (vnt_utf8_unit s) s # utf8_units (drop (vnt_utf8_unit s) s)" by (subst utf8_units.simps) simp
    then show ?thesis using 2 [OF False] utf8_unit_inside [OF False] by (simp add: add.commute)
  qed simp
qed simp

lemma take_prefix_concat: "take (length (concat (take n us))) (concat us) = concat (take n us)"
  using append_take_drop_id [of n us] by (metis append_eq_conv_conj concat_append)

lemma utf8_slice_units:
  assumes "load r p = Some (VNT_STRING s)" "load r a = Some (VNT_INT i)" "load r b = Some (VNT_INT n)" "0 \<le> i" "0 \<le> n"
  shows "vnt_utf8_slice r p a b = Returns (vnt_string r (Some (concat (take (nat n) (drop (nat i) (utf8_units s))))))"
proof -
  let ?us = "utf8_units s" and ?i = "nat i" and ?n = "nat n"
  let ?k = "length (concat (take ?i ?us))"
  have d: "utf8_units (drop ?k s) = drop ?i ?us" by (rule utf8_units_drop)
  have "take (length (concat (take m (drop ?i ?us)))) (drop ?k s) = concat (take m (drop ?i ?us))" for m
    using take_prefix_concat [of m "utf8_units (drop ?k s)"] unfolding concat_utf8_units unfolding d .
  moreover have "take (min ?n (length ?us)) (drop ?i ?us) = take ?n (drop ?i ?us)" by (cases "?n \<le> length ?us") (simp_all add: min_def)
  ultimately show ?thesis using assms by (simp add: vnt_utf8_slice_def vnt_app_string_def utf8_walk_units d Let_def)
qed

section \<open>Texts encoded in UTF-8\<close>

text \<open>The scalar values of Unicode that can occur in a C string, and their encoding.\<close>

definition scalar_value :: "nat \<Rightarrow> bool" where
  "scalar_value c \<longleftrightarrow> 0 < c \<and> c < 0x110000 \<and> \<not> (0xD800 \<le> c \<and> c < 0xE000)"

definition utf8_encode :: "nat \<Rightarrow> string" where
  "utf8_encode c = map char_of
     (if c < 0x80 then [c]
      else if c < 0x800 then [0xC0 + c div 64, 0x80 + c mod 64]
      else if c < 0x10000 then [0xE0 + c div 4096, 0x80 + c div 64 mod 64, 0x80 + c mod 64]
      else [0xF0 + c div 262144, 0x80 + c div 4096 mod 64, 0x80 + c div 64 mod 64, 0x80 + c mod 64])"

lemma continuation_bytes: "list_all (\<lambda>x. continuation (0x80 + x)) [0..<64]"
  by code_simp

lemma continuation_byte: "x < 64 \<Longrightarrow> continuation (0x80 + x)"
  using continuation_bytes by (simp add: list_all_iff del: upt_rec_numeral)

lemma byte_at_Cons: "byte_at (c # s) i = (if i = 0 then byte c else byte_at s (i - 1))"
  by (cases i) (simp_all add: byte_at_def)

lemma six_bits:
  fixes c :: nat
  shows "c = 4096 * (c div 4096) + 64 * (c div 64 mod 64) + c mod 64" "c div 4096 = 64 * (c div 262144) + c div 4096 mod 64"
proof -
  have "c div 4096 = c div 64 div 64" "c div 262144 = c div 4096 div 64" by (simp_all add: div_mult2_eq [symmetric])
  then show "c = 4096 * (c div 4096) + 64 * (c div 64 mod 64) + c mod 64" "c div 4096 = 64 * (c div 262144) + c div 4096 mod 64"
    using mult_div_mod_eq [of 64 c] mult_div_mod_eq [of 64 "c div 64"] mult_div_mod_eq [of 64 "c div 4096"] by linarith+
qed

lemma utf8_unit_encode:
  assumes "scalar_value c"
  shows "vnt_utf8_unit (utf8_encode c @ s) = length (utf8_encode c)"
proof -
  consider "c < 0x80" | "0x80 \<le> c" "c < 0x800" | "0x800 \<le> c" "c < 0x10000" | "0x10000 \<le> c" "c < 0x110000"
    using assms unfolding scalar_value_def by (meson linorder_not_less)
  then show ?thesis
  proof cases
    case 1
    then show ?thesis by (simp add: utf8_encode_def vnt_utf8_unit_def byte_at_Cons Let_def)
  next
    case 2
    then have "2 \<le> c div 64" "c div 64 < 32" by auto
    then show ?thesis using 2 continuation_byte [of "c mod 64"]
      by (simp add: utf8_encode_def vnt_utf8_unit_def byte_at_Cons Let_def)
  next
    case 3
    have r: "c div 4096 < 16" "c div 4096 = 0 \<Longrightarrow> 32 \<le> c div 64 mod 64" "c div 4096 = 13 \<Longrightarrow> c div 64 mod 64 < 32"
      using 3 assms six_bits(1) [of c] mod_less_divisor [of 64 c] mod_less_divisor [of 64 "c div 64"] unfolding scalar_value_def by linarith+
    then show ?thesis using 3 continuation_byte [of "c mod 64"] continuation_byte [of "c div 64 mod 64"]
      by (auto simp: utf8_encode_def vnt_utf8_unit_def byte_at_Cons Let_def)
  next
    case 4
    have r: "c div 262144 < 5" "c div 262144 = 0 \<Longrightarrow> 16 \<le> c div 4096 mod 64" "c div 262144 = 4 \<Longrightarrow> c div 4096 mod 64 < 16"
      using 4 six_bits [of c] mod_less_divisor [of 64 c] mod_less_divisor [of 64 "c div 64"] mod_less_divisor [of 64 "c div 4096"] by linarith+
    then show ?thesis
      using 4 continuation_byte [of "c mod 64"] continuation_byte [of "c div 64 mod 64"] continuation_byte [of "c div 4096 mod 64"]
      by (auto simp: utf8_encode_def vnt_utf8_unit_def byte_at_Cons Let_def)
  qed
qed

lemma utf8_units_encode: "\<forall>c \<in> set cs. scalar_value c \<Longrightarrow> utf8_units (concat (map utf8_encode cs)) = map utf8_encode cs"
proof (induction cs)
  case (Cons c cs)
  have "utf8_encode c \<noteq> []" by (simp add: utf8_encode_def)
  then show ?case using Cons utf8_unit_encode [of c "concat (map utf8_encode cs)"] by (subst utf8_units.simps) simp
qed simp

text \<open>
  C32. On a text that is the UTF-8 encoding of a list of code points (zero and the surrogates excluded), \<open>utf8_len\<close> returns the number of
  code points, and \<open>utf8_slice\<close> with a start and a count that are not negative returns the encoding of the code points from the start on,
  as many as the count says or as there are.
\<close>

theorem utf8_code_points:
  assumes "\<forall>c \<in> set cs. scalar_value c" "load r p = Some (VNT_STRING (concat (map utf8_encode cs)))"
    and "int (length (concat (map utf8_encode cs))) \<le> INT64_MAX"
    and "load r a = Some (VNT_INT (int i))" "load r b = Some (VNT_INT (int n))"
  shows "vnt_utf8_len r p = Returns (vnt_int r (int (length cs)))
    \<and> vnt_utf8_slice r p a b = Returns (vnt_string r (Some (concat (map utf8_encode (take n (drop i cs))))))"
proof
  show "vnt_utf8_len r p = Returns (vnt_int r (int (length cs)))"
    using assms(2,3) utf8_count_units [of _ 0] utf8_units_encode [OF assms(1)] by (simp add: vnt_utf8_len_def vnt_app_string_def)
  show "vnt_utf8_slice r p a b = Returns (vnt_string r (Some (concat (map utf8_encode (take n (drop i cs))))))"
    using utf8_slice_units [OF assms(2,4,5)] utf8_units_encode [OF assms(1)] by (simp add: take_map drop_map)
qed

text \<open>The letter a, the euro sign and a character beyond the 16 bits.\<close>

definition text_memory :: "int runtime" where
  "text_memory = \<lparr>cells = [VNT_STRING (concat (map utf8_encode [0x61, 0x20AC, 0x1F600])), VNT_INT 1, VNT_INT 5], slots = [], printed = []\<rparr>"

theorem utf8_code_points_witness:
  "vnt_utf8_len text_memory (Some 0) = Returns (vnt_int text_memory 3)
   \<and> vnt_utf8_slice text_memory (Some 0) (Some 1) (Some 2)
     = Returns (vnt_string text_memory (Some (concat (map utf8_encode [0x20AC, 0x1F600]))))"
proof -
  let ?cs = "[0x61, 0x20AC, 0x1F600] :: nat list"
  have "\<forall>c \<in> set ?cs. scalar_value c" "int (length (concat (map utf8_encode ?cs))) \<le> INT64_MAX"
    by (simp_all add: scalar_value_def utf8_encode_def INT64_MAX_def)
  moreover have "load text_memory (Some 0) = Some (VNT_STRING (concat (map utf8_encode ?cs)))"
    "load text_memory (Some 1) = Some (VNT_INT (int 1))" "load text_memory (Some 2) = Some (VNT_INT (int 5))"
    by (simp_all add: text_memory_def load_def)
  ultimately show ?thesis using utf8_code_points [of ?cs text_memory "Some 0" "Some 1" 1 "Some 2" 5] by simp
qed

section \<open>Comparison in constant time\<close>

definition vnt_constant_time_equal :: "'f runtime \<Rightarrow> pointer \<Rightarrow> pointer \<Rightarrow> (pointer \<times> 'f runtime) effect" where
  "vnt_constant_time_equal r left right =
     and_then (vnt_app_string r left ''constant_time_equal()'') (\<lambda>a.
     and_then (vnt_app_string r right ''constant_time_equal()'') (\<lambda>b.
       let n = max (length a) (length b);
         diff = fold (\<lambda>i diff. diff OR (byte_at a i XOR byte_at b i)) [0..<n] (length a XOR length b) in
       Returns (vnt_bool r (diff = 0))))"

lemma xor_zero_iff: "x XOR y = 0 \<longleftrightarrow> x = (y :: nat)"
  by (metis xor.left_neutral xor.assoc xor_self_eq xor.commute)

lemma or_fold_zero: "fold (\<lambda>i d. d OR f i) is (d :: nat) = 0 \<longleftrightarrow> d = 0 \<and> (\<forall>i \<in> set is. f i = 0)"
  by (induction "is" arbitrary: d) (auto simp: or_eq_0_iff)

text \<open>
  C33. \<open>vnt_constant_time_equal\<close> returns true exactly on equal texts: that it looks at every byte up to the longer length, and
  reads a NUL behind the end of the shorter text, does not make texts of different lengths equal.
\<close>

theorem constant_time_equal_correct:
  assumes "load r p = Some (VNT_STRING a)" "load r q = Some (VNT_STRING b)"
  shows "vnt_constant_time_equal r p q = Returns (vnt_bool r (a = b))"
proof -
  have "(length a = length b \<and> (\<forall>i \<in> {0..<max (length a) (length b)}. byte_at a i = byte_at b i)) \<longleftrightarrow> a = b"
  proof
    assume e: "length a = length b \<and> (\<forall>i \<in> {0..<max (length a) (length b)}. byte_at a i = byte_at b i)"
    then have "byte (a ! i) = byte (b ! i)" if "i < length a" for i using that bspec [OF conjunct2 [OF e], of i] by (simp add: byte_at_def)
    then have "a ! i = b ! i" if "i < length a" for i using that of_char_eq_iff by blast
    then show "a = b" using e by (intro nth_equalityI) auto
  qed simp
  then show ?thesis using assms by (simp add: vnt_constant_time_equal_def vnt_app_string_def Let_def or_fold_zero xor_zero_iff)
qed

theorem constant_time_equal_correct_witness:
  "vnt_constant_time_equal text_memory (Some 0) (Some 0) = Returns (vnt_bool text_memory True)"
proof -
  let ?t = "concat (map utf8_encode [0x61, 0x20AC, 0x1F600])"
  have "load text_memory (Some 0) = Some (VNT_STRING ?t)" by (simp add: text_memory_def load_def)
  from constant_time_equal_correct [OF this this] show ?thesis by simp
qed

end
