(* ===== verification/Spec2Isabelle.thy ===== *)
theory Spec2Isabelle
  imports ParserSpec CfgFlowProps HirLowerProps TypeCheckLower Compile NativeExprCorrect BigIntCorrect RuntimeText
begin

text \<open>
  Verification of VNT, a compiler written in C for a small imperative language.

  \<^bold>\<open>The program.\<close> \<open>main\<close> (\<open>src/main.c\<close>) loads a source file with its imports
  (\<open>src/modules.c\<close>), runs the lexer (\<open>src/lexer.c\<close>) under a recursive-descent parser
  (\<open>src/parser/\<close>) that builds a syntax tree (\<open>src/ast.c\<close>), and hands the tree to the type
  checker, the HIR, the control-flow analyses and one of the code generators under
  \<open>src/compiler/\<close>. Compiled programs are linked with a runtime in C. \<open>tools/vbuild.c\<close> is a
  separate build tool. This development covers the front end, from the bytes of the source to
  the tree, the type checker, the lowering of the tree to the HIR, the optimizer of the HIR, its analyses (the
  validator, the control-flow graph and the two dataflow analyses on it), \<open>compile_mode\<close>, which runs them in order, the
  values and operators of the runtime, and the code of expressions that joins the two.

  \<^bold>\<open>Modelling.\<close> A C pointer into the source is an index; every byte is read by \<open>char_at\<close> or
  \<open>slice\<close> (theory \<open>CLib\<close>), which give \<open>None\<close> outside the buffer and its terminating NUL. So the
  fault \<open>None\<close> of a result \<open>'a option\<close> is an out-of-bounds read, and theorems of the form
  "returns \<open>Some\<close>" are statements of memory safety. A NULL pointer that the C code returns on
  purpose is an inner \<open>None\<close>. \<open>wp m Q\<close> (theory \<open>VntPrelude\<close>) says that \<open>m\<close> does not fault and its
  value satisfies \<open>Q\<close>. Positions, lengths and counters are \<open>nat\<close>: source files are assumed
  to be shorter than two gigabytes, so no \<open>int\<close> overflows. The text the parser prints is kept in
  the state. Allocation is assumed to succeed, and \<open>ast_free\<close> has no counterpart.

  \<^item> \<open>VntPrelude\<close>, \<open>CLib\<close>: the judgement \<open>wp\<close> and its rules; the C library as far as it is used:
    buffers, \<open>ctype.h\<close> in the C locale, \<open>strtoll\<close> and \<open>strtoull\<close>, \<open>%d\<close>.
  \<^item> \<open>Lexer\<close>: \<open>token_type\<close>, \<open>token\<close>, \<open>lexer\<close> and one definition per function of
    \<open>src/lexer.c\<close>. Loops are recursive functions with a termination proof. Memory safety and
    progress of every function; a reference scanner \<open>scan\<close> on strings.
  \<^item> \<open>LexerSpec\<close>: \<open>lexer_next\<close> refines the reference scanner, with positions; lexemes have
    the form of their kind; only layout is skipped; printing and lexing round trip.
  \<^item> \<open>Ast\<close>: the node types of \<open>include/vnt/ast.h\<close>, the constructors of \<open>src/ast.c\<close>, the
    well-formedness of expressions and the height of a tree.
  \<^item> \<open>ParserState\<close>: the record \<open>Parser\<close> and the token operations of \<open>src/parser/parser.c\<close>; the
    token stream \<open>stream p\<close> as the abstract view of a state; proof rules for parsing functions.
  \<^item> \<open>ExprParser\<close>: \<open>primary.c\<close>, \<open>unary.c\<close>, \<open>binary.c\<close>, and the grammar \<open>derives\<close>.
    \<open>ExprParserCorrect\<close>: the locale \<open>expression_parser\<close>, the contract of the recursive call, in
    which every function of the expression parser is verified, and its interpretation for
    \<open>parse_expression\<close>.
  \<^item> \<open>StmtParser\<close>: \<open>statements.c\<close>, \<open>simple_statements.c\<close>, \<open>control.c\<close>, \<open>functions.c\<close>,
    \<open>loops.c\<close>, \<open>assignments.c\<close>, \<open>parser_parse\<close>. \<open>StmtParserCorrect\<close>: the locale
    \<open>statement_parser\<close> and its interpretation for \<open>parse_statement\<close>.
  \<^item> \<open>ParserSpec\<close>: the properties of the parser.

  \<^item> \<open>TypeCheck\<close>: \<open>compiler/typecheck.c\<close>. The state \<open>type_checker\<close> is the record \<open>TypeChecker\<close> with the
    messages printed; the changes that the code makes to the tree (calls renamed to functions of the
    current module, assignments marked) are in the tree that \<open>check_statements\<close> returns.
    \<open>TypeCheckSpec\<close>: the typing rules \<open>ty\<close> and \<open>well_typed\<close>, which \<open>expr_type\<close> decides.
    \<open>TypeCheckFrame\<close>: what checking a statement leaves of the state, and what an accepted statement
    looks like. \<open>TypeCheckPlaced\<close>: where jumps and unsafe operations may be, and how a body can end.
    \<open>TypeCheckProps\<close>: the properties. \<open>TypeCheckLower\<close>: the type checker before lowering; every name
    it has seen is found again by the renaming, so an accepted program is lowered.

  \<^item> \<open>Hir\<close>: the node array of \<open>include/vnt/ir.h\<close> and \<open>vnt_ir_validate\<close> of \<open>compiler/ir.c\<close>.
    \<open>HirTree\<close>: a valid array is a tree (\<open>hir_tree\<close>), with a \<open>rank\<close> for each node that bounds
    every recursion below it. \<open>HirStore\<close>: labelled trees (\<open>htree\<close>) as the abstract view of a part of
    the array. \<open>HirValid\<close>: an array that holds a tree with well-formed labels is valid.
  \<^item> \<open>HirLower\<close>, \<open>HirResolve\<close>: \<open>compiler/ir_lower.c\<close>, lowering and the renaming of variables to storage
    keys. \<open>HirLowerSpec\<close>: lowering appends the tree of the program. \<open>HirResolveSpec\<close>: renaming as a
    function \<open>resolve_ast\<close> on syntax trees with a list of scopes. \<open>HirResolveCorrect\<close>: the locale
    \<open>variable_resolver\<close>, the contract of the recursive call of \<open>resolver_bind_expr\<close>, and its
    interpretation. \<open>HirLowerCorrect\<close>, \<open>HirLowerProps\<close>: \<open>vnt_ir_lower\<close> as a whole, and that
    storage keys tell the declarations of a program apart (\<open>program_keys\<close>, read off the lowered tree).
  \<^item> \<open>HirOptimize\<close>: the optimizer of \<open>compiler/ir.c\<close>: the passes rewrite the array in place and count their changes.
    \<open>HirRewrite\<close>: \<open>replants\<close>, what a pass may do to the trees in the array: it replaces a forest by one with the same roots and
    leaves the rest alone. \<open>HirFold\<close>, \<open>HirSimplify\<close>, \<open>HirPropagate\<close>: folding, removal of unreachable code and propagation of
    constants as functions on trees, the first two with the proof that the array passes compute them; \<open>HirPropagateCorrect\<close>: the
    same for propagation. \<open>HirCopy\<close>: compaction copies the tree. \<open>HirOptimizeCorrect\<close>: every pass keeps the tree well formed
    (\<open>good_tree\<close>), and \<open>vnt_ir_optimize\<close> as a whole. \<open>HirOptimizeProps\<close>: the optimizer behind the front end.
  \<^item> \<open>Cfg\<close>: the first half of \<open>compiler/cfg.c\<close>: building the blocks backwards from the exit,
    simplifying branches on literals, pruning, and \<open>vnt_cfg_validate\<close>. \<open>CfgTrace\<close>: the
    structured semantics of a body (\<open>stmt_trace\<close>, events and outcomes) and paths of a graph.
    \<open>CfgBuild\<close>: the locale \<open>statement_builder\<close>, the contract of the recursive call of
    \<open>build_statement\<close>, and its interpretation. \<open>CfgPrune\<close>: reachability and renumbering.
    \<open>CfgSpec\<close>, \<open>CfgProps\<close>: the graph has exactly the traces of the program.
  \<^item> \<open>RoundRobin\<close>: the loop \<open>do ... while (changed)\<close> of both analyses, as a locale: a monotone
    update on a finite lattice ends in the extremal fixed point. \<open>CfgDataflow\<close>: the second half of
    \<open>cfg.c\<close>. \<open>CfgEffects\<close>: what a block reads and writes. \<open>CfgAssign\<close>, \<open>CfgLive\<close>: the two
    interpretations of the locale, and the fixed points as statements on paths. \<open>CfgFlowProps\<close>:
    the analyses are exact on paths, and sound for the traces of the program.
  \<^item> \<open>Compile\<close>: \<open>compiler/compiler.c\<close>, the passes in their order with the code generators as parameters; a verdict
    for every program that is parsed.
  \<^item> \<open>RuntimeValues\<close>: the values of compiled programs and the memory they live in, \<open>compiler/native_runtime.c\<close>. A routine
    returns, ends the process with a status and a message, or crashes (\<open>effect\<close>). \<open>RuntimeScalar\<close>: arithmetic, comparison, logic, printing.
    \<open>RuntimeContainers\<close>: arrays, byte buffers, objects, ranges; the locale \<open>keyed_store\<close>, the contract of a store by key, and its
    interpretations for arrays and objects. \<open>range\<close> makes the numbers of its range. \<open>RuntimeText\<close>: length and slices of texts in UTF-8 count code points, and the comparison in constant
    time is equality. \<open>BigInt\<close>: integers as decimal texts. \<open>BigIntCorrect\<close>: their results are exact.
  \<^item> \<open>NativeExpr\<close>: the code \<open>compiler/x86_backend.c\<close> emits for an expression, as its effect on the memory: the routines
    it calls in their order, the integer instructions in line, and the table of float literals, which is threaded through the generator.
    \<open>NativeExprCorrect\<close>: constant folding computes what this code computes, as long as \<open>==\<close> tells the float literals apart; the instructions
    in line compute what the routines compute; and which literal a label of the table stands for.

  \<^bold>\<open>Recursion and bounds.\<close> The parsing functions are mutually recursive over a stateful token
  stream. Each takes the parser it calls as an argument and a bound on the rounds of its loops;
  \<open>parse_expression (Suc n)\<close> calls \<open>parse_expression n\<close>. A bound above the number of tokens left
  is enough, because every round and every recursive call consumes a token: this is what
  the two locales prove. \<open>parse_source\<close> takes one more than the length of the text, and a text
  has no more tokens than bytes.

  In the HIR a node index is a \<open>nat\<close>, \<open>VNT_IR_NO_NODE\<close> is \<open>None\<close>, and reading a node outside
  the array is a fault. \<open>build_statement\<close> and \<open>collect_expression_reads\<close> take the number of nodes
  as fuel, which the rank of a valid tree never exceeds; \<open>resolver_bind_expr\<close> does the same, and
  the depth of a tree is bounded by its number of nodes. \<open>strtod\<close>, which turns the digits of a float
  literal into a \<open>double\<close>, is a parameter of lowering; arithmetic on \<open>double\<close> (\<open>doubles\<close>) is one of the optimizer. The
  recursion of its passes takes the number of nodes as fuel, which no subtree exceeds; its eight rounds are those of the code.

  In the runtime a \<open>VntValue *\<close> is the number of a cell or \<open>NULL\<close>, and integers are kept in 64 bits by the tests of the code itself.
  Comparing and printing recurse along arrays, which may contain themselves; their depth argument is the depth of the C stack, and
  exhausting it is a crash. The conversion of integers to \<open>double\<close> and \<open>%.15g\<close> are parameters (\<open>double_lib\<close>); of the first, folding needs that a nonzero
  integer is not converted to zero. The code of calls is a parameter of \<open>emit_expr\<close>, and so is the place of a variable.

  \<^bold>\<open>Not modelled.\<close> The float value of a literal (its digits are kept), memory exhaustion, the
  dump of the HIR, the module loader and the build tool, which work on files; of the code generators, everything but the code of
  expressions in \<open>x86_backend.c\<close>, since they write assembly or C as text; of the runtime, files, processes, sockets, threads,
  foreign calls, JSON, hashing and the transcendental functions.
\<close>

end
